(* ===== verification/Prelude.thy ===== *)
theory Prelude
  imports Main
begin

text \<open>
  Shared vocabulary of the development: the results of operations that can
  fail, 64-bit unsigned arithmetic with the wrap-around written out, and the
  list facts several components use.

  The models follow the debug build of the compiler: an \<^verbatim>\<open>assert\<close>
  that does not hold is the error \<^verbatim>\<open>Assertion_Failure\<close>, a
  \<^verbatim>\<open>VPUX_THROW\<close> is \<^verbatim>\<open>Vpux_Throw\<close> with the format string of the
  source.  The functional results of both builds agree wherever no assertion fails.
\<close>

named_theorems u64_simps \<open>rewriting 64-bit arithmetic to arithmetic on nat\<close>

section \<open>Results of fallible operations\<close>

datatype vpux_error = Assertion_Failure | Vpux_Throw string

type_synonym 'a res = "vpux_error + 'a"

definition res_bind :: "'a res \<Rightarrow> ('a \<Rightarrow> 'b res) \<Rightarrow> 'b res" where
  "res_bind m f = (case m of Inl e \<Rightarrow> Inl e | Inr x \<Rightarrow> f x)"

lemma res_bind_simps [simp]:
  "res_bind (Inl e) f = Inl e"
  "res_bind (Inr x) f = f x"
  by (simp_all add: res_bind_def)

lemma res_bind_cong [fundef_cong]:
  "m = m' \<Longrightarrow> (\<And>x. m' = Inr x \<Longrightarrow> f x = g x) \<Longrightarrow> res_bind m f = res_bind m' g"
  by (cases m') (simp_all add: res_bind_def)

lemma res_bind_eq_Inr:
  "res_bind m f = Inr y \<longleftrightarrow> (\<exists>x. m = Inr x \<and> f x = Inr y)"
  by (cases m) simp_all

lemma res_bind_InrE:
  assumes "res_bind m f = Inr y"
  obtains x where "m = Inr x" "f x = Inr y"
  using assms by (auto simp: res_bind_eq_Inr)

lemma map_sum_eq_Inr: "map_sum id f m = Inr y \<longleftrightarrow> (\<exists>x. m = Inr x \<and> y = f x)"
  by (cases m) auto

text \<open>A loop over a list whose body can fail: it stops at the first error.\<close>

fun res_fold :: "('a \<Rightarrow> 's \<Rightarrow> 's res) \<Rightarrow> 'a list \<Rightarrow> 's \<Rightarrow> 's res" where
  "res_fold f [] s = Inr s"
| "res_fold f (x # xs) s = res_bind (f x s) (res_fold f xs)"

lemma res_fold_append:
  "res_fold f (xs @ ys) s = res_bind (res_fold f xs s) (res_fold f ys)"
proof (induction xs arbitrary: s)
  case (Cons x xs)
  then show ?case by (cases "f x s") simp_all
qed simp

lemma res_fold_cong [fundef_cong]:
  "xs = ys \<Longrightarrow> s = t \<Longrightarrow> (\<And>x s. x \<in> set ys \<Longrightarrow> f x s = g x s) \<Longrightarrow> res_fold f xs s = res_fold g ys t"
proof (induction ys arbitrary: xs s t)
  case (Cons y ys)
  then show ?case by (cases "g y t") simp_all
qed simp

text \<open>A property every body step keeps holds of the result.\<close>

lemma res_fold_inv:
  assumes "res_fold f xs s = Inr t" and "P s"
    and "\<And>x s s'. x \<in> set xs \<Longrightarrow> P s \<Longrightarrow> f x s = Inr s' \<Longrightarrow> P s'"
  shows "P t"
  using assms
proof (induction xs arbitrary: s)
  case (Cons x xs)
  then obtain s' where "f x s = Inr s'" "res_fold f xs s' = Inr t"
    by (auto simp: res_bind_eq_Inr)
  with Cons show ?case by (metis list.set_intros(1,2))
qed simp

section \<open>Vectors\<close>

text \<open>Reading and writing a \<^verbatim>\<open>SmallVector\<close>, which asserts that the index is in range.\<close>

definition vec_at :: "'a list \<Rightarrow> nat \<Rightarrow> 'a res" where
  "vec_at xs i = (if i < length xs then Inr (xs ! i) else Inl Assertion_Failure)"

definition vec_set :: "'a list \<Rightarrow> nat \<Rightarrow> 'a \<Rightarrow> 'a list res" where
  "vec_set xs i x = (if i < length xs then Inr (xs[i := x]) else Inl Assertion_Failure)"

definition vec_resize :: "nat \<Rightarrow> 'a \<Rightarrow> 'a list \<Rightarrow> 'a list" where
  "vec_resize n x xs = take n xs @ replicate (n - length xs) x"

lemma vec_at_Inr [simp]: "vec_at xs i = Inr x \<longleftrightarrow> i < length xs \<and> x = xs ! i"
  by (auto simp: vec_at_def)

lemma vec_at_in: "i < length xs \<Longrightarrow> vec_at xs i = Inr (xs ! i)"
  by simp

lemma vec_set_Inr [simp]: "vec_set xs i x = Inr ys \<longleftrightarrow> i < length xs \<and> ys = xs[i := x]"
  by (auto simp: vec_set_def)

lemma length_vec_resize [simp]: "length (vec_resize n x xs) = n"
  by (simp add: vec_resize_def)

section \<open>64-bit unsigned arithmetic\<close>

text \<open>
  A value of \<^verbatim>\<open>uint64_t\<close> or \<^verbatim>\<open>size_t\<close> is a natural number below
  \<^verbatim>\<open>2^64\<close>; sums, differences and products wrap around.
\<close>

definition U64 :: nat where
  "U64 = 2 ^ 64"

definition u64_add :: "nat \<Rightarrow> nat \<Rightarrow> nat" where
  "u64_add a b = (a + b) mod U64"

definition u64_sub :: "nat \<Rightarrow> nat \<Rightarrow> nat" where
  "u64_sub a b = (a + (U64 - b mod U64)) mod U64"

definition u64_mul :: "nat \<Rightarrow> nat \<Rightarrow> nat" where
  "u64_mul a b = (a * b) mod U64"

lemma U64_pos [simp]: "0 < U64"
  by (simp add: U64_def)

lemma U64_gt_1 [simp]: "1 < U64" "Suc 0 < U64"
  by (simp_all add: U64_def)

lemma u64_add_eq [u64_simps]: "a + b < U64 \<Longrightarrow> u64_add a b = a + b"
  by (simp add: u64_add_def)

lemma u64_sub_eq [u64_simps]:
  assumes "b \<le> a" "a < U64"
  shows "u64_sub a b = a - b"
proof -
  have "a + (U64 - b mod U64) = U64 + (a - b)" using assms by simp
  then show ?thesis using assms by (simp only: u64_sub_def mod_add_self1 mod_less)
qed

lemma u64_mul_eq [u64_simps]: "a * b < U64 \<Longrightarrow> u64_mul a b = a * b"
  by (simp add: u64_mul_def)

lemma u64_add_less [simp]: "u64_add a b < U64"
  by (simp add: u64_add_def)

lemma u64_sub_less [simp]: "u64_sub a b < U64"
  by (simp add: u64_sub_def)

lemma u64_sub_wraps: "a < b \<Longrightarrow> b < U64 \<Longrightarrow> u64_sub a b = a + U64 - b"
  by (simp add: u64_sub_def)

end
