(* ===== verification/Numeric.thy ===== *)
theory Numeric
  imports Prelude
begin

text \<open>
  \<^verbatim>\<open>src/vpux_utils/include/vpux/utils/core/numeric.hpp\<close>: powers of two, alignment
  of values and rounded-up division, on \<^verbatim>\<open>uint64_t\<close> arguments (the type the
  memory allocators use) with wrap-around.
\<close>

definition isPowerOfTwo :: "nat \<Rightarrow> bool" where
  "isPowerOfTwo v \<longleftrightarrow> v > 0 \<and> and v (v - 1) = 0"

text \<open>The value of \<^verbatim>\<open>alignValUp\<close> once the check for a zero alignment has passed.\<close>

definition align_up :: "nat \<Rightarrow> nat \<Rightarrow> nat" where
  "align_up v al = u64_mul (u64_add v (u64_mul 1 (u64_sub al 1)) div al) al"

definition align_down :: "nat \<Rightarrow> nat \<Rightarrow> nat" where
  "align_down v al = u64_mul (v div al) al"

definition alignValUp :: "nat \<Rightarrow> nat \<Rightarrow> nat res" where
  "alignValUp v al =
     (if al = 0 then Inl (Vpux_Throw ''Zero-alignment is not supported'') else Inr (align_up v al))"

definition alignValDown :: "nat \<Rightarrow> nat \<Rightarrow> nat res" where
  "alignValDown v al =
     (if al = 0 then Inl (Vpux_Throw ''Zero-alignment is not supported'') else Inr (align_down v al))"

definition divUp :: "nat \<Rightarrow> nat \<Rightarrow> nat" where
  "divUp a b = u64_sub (u64_add a b) 1 div b"

lemma align_up_eq:
  assumes "0 < al" "v + al < U64"
  shows "align_up v al = ((v + al - 1) div al) * al"
proof -
  have al: "al - 1 < U64" and sum: "v + (al - 1) < U64" using assms by linarith+
  have "(v + (al - 1)) div al * al \<le> v + (al - 1)" by simp
  then have "(v + (al - 1)) div al * al < U64" using sum by linarith
  then show ?thesis using assms al sum
    by (simp add: align_up_def u64_simps Suc_leI)
qed

lemma align_down_eq: "v < U64 \<Longrightarrow> align_down v al = (v div al) * al"
proof -
  assume "v < U64"
  moreover have "(v div al) * al \<le> v" by simp
  ultimately have "(v div al) * al < U64" by linarith
  then show ?thesis by (simp add: align_down_def u64_mul_eq)
qed

lemma mult_div_ge: "0 < (al::nat) \<Longrightarrow> v \<le> ((v + al - 1) div al) * al"
proof -
  assume al: "0 < al"
  have "(v + al - 1) = (v + al - 1) div al * al + (v + al - 1) mod al" by simp
  moreover have "(v + al - 1) mod al \<le> al - 1" using al
    by (metis Suc_pred' less_Suc_eq_le mod_less_divisor One_nat_def)
  ultimately show ?thesis using al by linarith
qed

text \<open>Without overflow, the aligned value is the least multiple that is not below.\<close>

lemma align_up_bounds:
  assumes "0 < al" "v + al < U64"
  shows "al dvd align_up v al" "v \<le> align_up v al" "align_up v al < v + al"
proof -
  let ?m = "((v + al - 1) div al) * al"
  have eq: "align_up v al = ?m" by (rule align_up_eq [OF assms])
  show "al dvd align_up v al" by (simp add: eq)
  show "v \<le> align_up v al" unfolding eq by (rule mult_div_ge [OF assms(1)])
  have "?m \<le> v + al - 1" by simp
  then show "align_up v al < v + al" unfolding eq using assms(1) by linarith
qed

lemma align_up_least:
  assumes "0 < al" "v + al < U64" "al dvd a" "v \<le> a"
  shows "align_up v al \<le> a"
proof -
  obtain k where k: "a = al * k" using assms(3) ..
  have "(v + al - 1) div al \<le> k"
  proof -
    have "v + al - 1 < al * k + al" using assms k by linarith
    then have "v + al - 1 < (k + 1) * al" by (simp add: mult.commute)
    then have "(v + al - 1) div al < k + 1" by (rule less_mult_imp_div_less)
    then show ?thesis by simp
  qed
  then show ?thesis using k align_up_eq [OF assms(1,2)] by (simp add: mult.commute)
qed

lemma align_down_bounds:
  assumes "0 < al" "v < U64"
  shows "al dvd align_down v al" "align_down v al \<le> v" "v < align_down v al + al"
proof -
  have eq: "align_down v al = (v div al) * al" by (rule align_down_eq [OF assms(2)])
  show "al dvd align_down v al" by (simp add: eq)
  show "align_down v al \<le> v" by (simp add: eq)
  have "v = v div al * al + v mod al" by simp
  moreover have "v mod al < al" using assms(1) by simp
  ultimately show "v < align_down v al + al" unfolding eq by linarith
qed

lemma divUp_eq: "0 < b \<Longrightarrow> a + b < U64 \<Longrightarrow> divUp a b = (a + b - 1) div b"
  by (simp add: divUp_def u64_add_eq u64_sub_eq)

end
