(* ===== verification/Memory_Pool.thy ===== *)
theory Memory_Pool
  imports Prelude
begin

text \<open>
  The interface between the linear-scan allocator and the memory partitioner: what a
  client may rely on when it takes blocks from a pool of addresses and gives them back.
  The facts about sequences of blocks are proved here once, from the laws alone; the
  partitioner provides the laws for the code's model.
\<close>

section \<open>Blocks\<close>

type_synonym block = "nat \<times> nat" \<comment> \<open>address and size\<close>

definition block_set :: "block \<Rightarrow> nat set" where
  "block_set b = {fst b..<fst b + snd b}"

definition blocks_set :: "block list \<Rightarrow> nat set" where
  "blocks_set bs = (\<Union>b\<in>set bs. block_set b)"

fun blocks_ok :: "nat \<Rightarrow> block list \<Rightarrow> bool" where
  "blocks_ok T [] = True"
| "blocks_ok T (b # bs) =
     (0 < snd b \<and> fst b + snd b \<le> T \<and> block_set b \<inter> blocks_set bs = {} \<and> blocks_ok T bs)"

lemma blocks_set_simps [simp]:
  "blocks_set [] = {}"
  "blocks_set (b # bs) = block_set b \<union> blocks_set bs"
  "blocks_set (bs @ cs) = blocks_set bs \<union> blocks_set cs"
  by (auto simp: blocks_set_def)

lemma blocks_ok_append:
  "blocks_ok T (bs @ cs) \<longleftrightarrow> blocks_ok T bs \<and> blocks_ok T cs \<and> blocks_set bs \<inter> blocks_set cs = {}"
  by (induction bs) auto

lemma blocks_ok_bound: "blocks_ok T bs \<Longrightarrow> blocks_set bs \<subseteq> {..<T}"
  by (induction bs) (auto simp: block_set_def)

lemma block_set_pair [simp]: "block_set (a, s) = {a..<a + s}"
  by (simp add: block_set_def)

section \<open>The interface\<close>

locale memory_pool =
  fixes inv :: "'p \<Rightarrow> bool"
    and cap :: "'p \<Rightarrow> nat"
    and fre :: "'p \<Rightarrow> nat set"
    and bad :: nat
    and alloc :: "'p \<Rightarrow> nat \<Rightarrow> nat \<Rightarrow> 'd \<Rightarrow> (nat \<times> 'p) res"
    and fixed :: "'p \<Rightarrow> nat \<Rightarrow> nat \<Rightarrow> 'p res"
    and release :: "'p \<Rightarrow> nat \<Rightarrow> nat \<Rightarrow> 'p res"
  assumes fre_bound: "inv p \<Longrightarrow> fre p \<subseteq> {..<cap p}"
    and cap_bad: "inv p \<Longrightarrow> cap p < bad"
    and canonical: "inv p \<Longrightarrow> inv q \<Longrightarrow> cap p = cap q \<Longrightarrow> fre p = fre q \<Longrightarrow> p = q"
    and alloc_law: "inv p \<Longrightarrow> 0 < s \<Longrightarrow> 0 < al \<Longrightarrow> cap p + al < U64 \<Longrightarrow>
      \<exists>a q. alloc p s al d = Inr (a, q) \<and> inv q \<and> cap q = cap p \<and>
        (if a = bad then q = p \<and> (\<forall>x. al dvd x \<longrightarrow> \<not> {x..<x + s} \<subseteq> fre p)
         else al dvd a \<and> {a..<a + s} \<subseteq> fre p \<and> fre q = fre p - {a..<a + s})"
    and fixed_law: "inv p \<Longrightarrow> 0 < s \<Longrightarrow> {a..<a + s} \<subseteq> fre p \<Longrightarrow>
      \<exists>q. fixed p a s = Inr q \<and> inv q \<and> cap q = cap p \<and> fre q = fre p - {a..<a + s}"
    and release_law: "inv p \<Longrightarrow> 0 < s \<Longrightarrow> a + s \<le> cap p \<Longrightarrow> {a..<a + s} \<inter> fre p = {} \<Longrightarrow>
      \<exists>q. release p a s = Inr q \<and> inv q \<and> cap q = cap p \<and> fre q = fre p \<union> {a..<a + s}"
begin

lemma release_blocks:
  assumes "inv p" "blocks_ok (cap p) bs" "blocks_set bs \<inter> fre p = {}"
  shows "\<exists>q. res_fold (\<lambda>(a, s) p. release p a s) bs p = Inr q \<and> inv q \<and> cap q = cap p \<and>
    fre q = fre p \<union> blocks_set bs"
  using assms
proof (induction bs arbitrary: p)
  case (Cons b bs)
  obtain a s where b: "b = (a, s)" by (cases b)
  have "{a..<a + s} \<inter> fre p = {}" using Cons.prems(3) b by auto
  then obtain q where q: "release p a s = Inr q" "inv q" "cap q = cap p" "fre q = fre p \<union> {a..<a + s}"
    using release_law [of p s a] Cons.prems b by auto
  have "\<exists>r. res_fold (\<lambda>(a, s) p. release p a s) bs q = Inr r \<and> inv r \<and> cap r = cap q \<and>
    fre r = fre q \<union> blocks_set bs"
    by (rule Cons.IH) (use Cons.prems b q in auto)
  then show ?case using q b by auto
qed simp

text \<open>Giving back exactly what was taken restores the pool itself, not only its free set.\<close>

lemma release_restores:
  assumes "inv p" "inv q" "cap q = cap p" "blocks_ok (cap p) bs" "blocks_set bs \<subseteq> fre p"
    and "fre q = fre p - blocks_set bs"
  shows "res_fold (\<lambda>(a, s) p. release p a s) bs q = Inr p"
proof -
  obtain r where r: "res_fold (\<lambda>(a, s) p. release p a s) bs q = Inr r" "inv r" "cap r = cap q"
    "fre r = fre q \<union> blocks_set bs"
    using release_blocks [of q bs] assms by auto
  have "r = p" by (rule canonical) (use r assms in auto)
  then show ?thesis using r by simp
qed

lemma fixed_blocks:
  assumes "inv p" "blocks_ok (cap p) bs" "blocks_set bs \<subseteq> fre p"
  shows "\<exists>q. res_fold (\<lambda>(a, s) p. fixed p a s) bs p = Inr q \<and> inv q \<and> cap q = cap p \<and>
    fre q = fre p - blocks_set bs"
  using assms
proof (induction bs arbitrary: p)
  case (Cons b bs)
  obtain a s where b: "b = (a, s)" by (cases b)
  obtain q where q: "fixed p a s = Inr q" "inv q" "cap q = cap p" "fre q = fre p - {a..<a + s}"
    using fixed_law [of p s a] Cons.prems b by auto
  have "\<exists>r. res_fold (\<lambda>(a, s) p. fixed p a s) bs q = Inr r \<and> inv r \<and> cap r = cap q \<and>
    fre r = fre q - blocks_set bs"
    by (rule Cons.IH) (use Cons.prems b q in auto)
  then show ?case using q b by auto
qed simp

lemma alloc_block:
  assumes "inv p" "0 < s" "0 < al" "cap p + al < U64" "alloc p s al d = Inr (a, q)" "a \<noteq> bad"
  shows "inv q" "cap q = cap p" "al dvd a" "{a..<a + s} \<subseteq> fre p" "fre q = fre p - {a..<a + s}"
    "a + s \<le> cap p"
proof -
  show "inv q" "cap q = cap p" "al dvd a" and sub: "{a..<a + s} \<subseteq> fre p" and "fre q = fre p - {a..<a + s}"
    using alloc_law [OF assms(1-4), of d] assms(5,6) by auto
  have "a + s - 1 \<in> fre p" using sub assms(2) by auto
  then show "a + s \<le> cap p" using fre_bound [OF assms(1)] assms(2) by auto
qed

lemma alloc_no_block:
  assumes "inv p" "0 < s" "0 < al" "cap p + al < U64" "alloc p s al d = Inr (bad, q)"
  shows "q = p" "al dvd x \<Longrightarrow> \<not> {x..<x + s} \<subseteq> fre p"
  using alloc_law [OF assms(1-4), of d] assms(5) by auto

end

end
