(* ===== verification/Partitioner.thy ===== *)
theory Partitioner
  imports Numeric Memory_Pool
begin

text \<open>
  \<^verbatim>\<open>src/vpux_compiler/{include/vpux/compiler,src}/utils/partitioner.{hpp,cpp}\<close>:
  the gap list of a contiguous memory, with best-fit allocation in two directions,
  allocation at a fixed address and coalescing release.  The model is the debug
  build: the assertions and the \<^verbatim>\<open>PartitionerValidator\<close> are branches.
\<close>

section \<open>State\<close>

definition InvalidAddress :: nat where
  "InvalidAddress = U64 - 1"

datatype direction = Up | Down

record gap =
  g_begin :: nat
  g_end :: nat

record partitioner =
  p_gaps :: "gap list"
  p_totalSize :: nat

definition gap_size :: "gap \<Rightarrow> nat" where
  "gap_size g = u64_sub (g_end g) (g_begin g)"

definition mk_gap :: "nat \<Rightarrow> nat \<Rightarrow> gap" where
  "mk_gap b e = \<lparr>g_begin = b, g_end = e\<rparr>"

section \<open>Validation\<close>

definition gap_ok :: "gap \<Rightarrow> bool" where
  "gap_ok g \<longleftrightarrow> g_begin g \<noteq> InvalidAddress \<and> g_end g \<noteq> InvalidAddress \<and> g_end g > g_begin g"

fun validate_gaps :: "gap list \<Rightarrow> bool" where
  "validate_gaps [] = True"
| "validate_gaps [g] = gap_ok g"
| "validate_gaps (g # h # gs) = (gap_ok g \<and> g_begin h \<ge> g_end g \<and> validate_gaps (h # gs))"

text \<open>The validator object checks the gaps when it is created and when it is destroyed.\<close>

definition validated :: "partitioner \<Rightarrow> (partitioner \<Rightarrow> ('a \<times> partitioner) res) \<Rightarrow> ('a \<times> partitioner) res" where
  "validated p body =
     (if \<not> validate_gaps (p_gaps p) then Inl Assertion_Failure
      else res_bind (body p) (\<lambda>(r, q).
        if \<not> validate_gaps (p_gaps q) then Inl Assertion_Failure else Inr (r, q)))"

definition inRange :: "nat \<Rightarrow> nat \<Rightarrow> nat \<Rightarrow> bool" where
  "inRange b e v \<longleftrightarrow> v \<ge> b \<and> v < e"

definition intersects :: "nat \<Rightarrow> nat \<Rightarrow> nat \<Rightarrow> nat \<Rightarrow> bool res" where
  "intersects addr1 size1 addr2 size2 =
     (if \<not> (size1 > 0 \<and> size2 > 0) then Inl Assertion_Failure
      else let end1 = u64_add addr1 size1; end2 = u64_add addr2 size2 in
        Inr (inRange addr1 end1 addr2 \<or> inRange addr1 end1 (u64_sub end2 1) \<or>
             inRange addr2 end2 addr1 \<or> inRange addr2 end2 (u64_sub end1 1)))"

definition checkNewGap :: "gap list \<Rightarrow> nat \<Rightarrow> nat \<Rightarrow> unit res" where
  "checkNewGap gs addr sz =
     res_fold (\<lambda>g _. res_bind (intersects addr sz (g_begin g) (gap_size g))
       (\<lambda>x. if x then Inl Assertion_Failure else Inr ())) gs ()"

section \<open>Construction and allocation\<close>

definition new_partitioner :: "nat \<Rightarrow> partitioner res" where
  "new_partitioner totalSize =
     (if \<not> totalSize > 0 then Inl Assertion_Failure
      else Inr \<lparr>p_gaps = [mk_gap 0 totalSize], p_totalSize = totalSize\<rparr>)"

definition getAddrFromGap :: "gap \<Rightarrow> nat \<Rightarrow> nat \<Rightarrow> direction \<Rightarrow> nat" where
  "getAddrFromGap g sz alignment dir =
     (if gap_size g < sz then InvalidAddress
      else case dir of
        Up \<Rightarrow>
          let alignedBegin = align_up (g_begin g) alignment in
          if u64_add alignedBegin sz > g_end g then InvalidAddress else alignedBegin
      | Down \<Rightarrow>
          let alignedBegin = align_up (u64_sub (g_end g) sz) alignment in
          if u64_add alignedBegin sz > g_end g then
            if u64_add (g_begin g) alignment > alignedBegin then InvalidAddress
            else let alignedBegin' = u64_sub alignedBegin alignment in
              if u64_add alignedBegin' sz > g_end g then InvalidAddress else alignedBegin'
          else alignedBegin)"

definition useGap :: "partitioner \<Rightarrow> nat \<Rightarrow> nat \<Rightarrow> nat \<Rightarrow> (nat \<times> partitioner) res" where
  "useGap p pos alignedBegin sz =
     (let gs = p_gaps p; g = gs ! pos in
      if \<not> (alignedBegin \<ge> g_begin g \<and> u64_add alignedBegin sz \<le> g_end g) then Inl Assertion_Failure
      else let newGapLeft = u64_sub alignedBegin (g_begin g);
               newGapRight = u64_sub (g_end g) (u64_add alignedBegin sz);
               gs' = (if newGapLeft = 0 \<and> newGapRight = 0 then take pos gs @ drop (Suc pos) gs
                      else if newGapLeft > 0 \<and> newGapRight = 0 then gs[pos := g\<lparr>g_end := alignedBegin\<rparr>]
                      else if newGapLeft = 0 \<and> newGapRight > 0
                        then gs[pos := g\<lparr>g_begin := u64_add alignedBegin sz\<rparr>]
                      else take pos gs @ mk_gap (g_begin g) alignedBegin #
                           g\<lparr>g_begin := u64_add alignedBegin sz\<rparr> # drop (Suc pos) gs)
           in Inr (alignedBegin, p\<lparr>p_gaps := gs'\<rparr>))"

text \<open>
  The search of \<^verbatim>\<open>chooseMinimalGap\<close>: \<^verbatim>\<open>best_gap\<close> is the loop body over the
  indices the source visits, with \<^verbatim>\<open>minGapInd\<close> as an option for the initial
  \<^verbatim>\<open>-1\<close> and \<^verbatim>\<open>minGapSize\<close>, initially the greatest 64-bit value.
\<close>

fun best_gap :: "gap list \<Rightarrow> nat \<Rightarrow> nat \<Rightarrow> direction \<Rightarrow> nat list \<Rightarrow> nat option \<Rightarrow> nat \<Rightarrow> nat option" where
  "best_gap gs sz alignment dir [] minGapInd minGapSize = minGapInd"
| "best_gap gs sz alignment dir (i # is) minGapInd minGapSize =
     (if getAddrFromGap (gs ! i) sz alignment dir \<noteq> InvalidAddress \<and> gap_size (gs ! i) < minGapSize
      then best_gap gs sz alignment dir is (Some i) (gap_size (gs ! i))
      else best_gap gs sz alignment dir is minGapInd minGapSize)"

definition minimal_gap :: "gap list \<Rightarrow> nat \<Rightarrow> nat \<Rightarrow> direction \<Rightarrow> nat option" where
  "minimal_gap gs sz alignment dir =
     (let n = length gs;
          visited = (case dir of Up \<Rightarrow> [0..<n - 1] | Down \<Rightarrow> rev [1..<n]);
          last_choice = (case dir of Up \<Rightarrow> n - 1 | Down \<Rightarrow> 0)
      in case best_gap gs sz alignment dir visited None (U64 - 1) of
           Some i \<Rightarrow> Some i
         | None \<Rightarrow> if getAddrFromGap (gs ! last_choice) sz alignment dir \<noteq> InvalidAddress
                   then Some last_choice else None)"

definition chooseMinimalGap :: "partitioner \<Rightarrow> nat \<Rightarrow> nat \<Rightarrow> direction \<Rightarrow> (nat \<times> partitioner) res" where
  "chooseMinimalGap p sz alignment dir =
     (if p_gaps p = [] then Inr (InvalidAddress, p)
      else case minimal_gap (p_gaps p) sz alignment dir of
             None \<Rightarrow> Inr (InvalidAddress, p)
           | Some i \<Rightarrow> useGap p i (getAddrFromGap (p_gaps p ! i) sz alignment dir) sz)"

definition p_alloc :: "partitioner \<Rightarrow> nat \<Rightarrow> nat \<Rightarrow> direction \<Rightarrow> (nat \<times> partitioner) res" where
  "p_alloc p sz alignment dir =
     (if \<not> (sz > 0 \<and> alignment > 0) then Inl Assertion_Failure
      else validated p (\<lambda>p. chooseMinimalGap p sz alignment dir))"

text \<open>
  \<^verbatim>\<open>std::lower_bound\<close> on the gaps, ordered by their begin, is the number of gaps
  that begin before the address.
\<close>

definition lower_bound_gap :: "gap list \<Rightarrow> nat \<Rightarrow> nat" where
  "lower_bound_gap gs addr = length (takeWhile (\<lambda>g. g_begin g < addr) gs)"

definition allocFixed_core :: "gap list \<Rightarrow> nat \<Rightarrow> nat \<Rightarrow> gap list res" where
  "allocFixed_core gs addr sz =
     (let it = lower_bound_gap gs addr in
      if it < length gs \<and> g_begin (gs ! it) = addr then
        let elem = gs ! it in
        if \<not> gap_size elem \<ge> sz then Inl Assertion_Failure
        else if gap_size elem = sz then Inr (take it gs @ drop (Suc it) gs)
        else Inr (gs[it := elem\<lparr>g_begin := u64_add (g_begin elem) sz\<rparr>])
      else if it = 0 then Inl Assertion_Failure
      else
        let pos = it - 1; elem = gs ! pos; e = u64_add addr sz in
        if \<not> (g_begin elem < addr \<and> g_end elem \<ge> e) then Inl Assertion_Failure
        else if g_end elem = e then Inr (gs[pos := elem\<lparr>g_end := addr\<rparr>])
        else let tailSize = u64_sub (g_end elem) e in
          Inr (take pos gs @ elem\<lparr>g_end := addr\<rparr> # mk_gap e (u64_add e tailSize) # drop (Suc pos) gs))"

definition p_allocFixed :: "partitioner \<Rightarrow> nat \<Rightarrow> nat \<Rightarrow> partitioner res" where
  "p_allocFixed p addr sz =
     (if \<not> (addr \<noteq> InvalidAddress \<and> sz > 0 \<and> u64_add addr sz \<le> p_totalSize p \<and> p_gaps p \<noteq> [])
      then Inl Assertion_Failure
      else map_sum id snd (validated p (\<lambda>p.
        res_bind (allocFixed_core (p_gaps p) addr sz) (\<lambda>gs. Inr ((), p\<lparr>p_gaps := gs\<rparr>)))))"

section \<open>Release\<close>

definition prepend_gap :: "gap \<Rightarrow> nat \<Rightarrow> nat \<Rightarrow> gap res" where
  "prepend_gap g addr sz =
     (if \<not> (u64_add addr sz = g_begin g \<and> g_begin g \<ge> sz) then Inl Assertion_Failure
      else Inr (g\<lparr>g_begin := u64_sub (g_begin g) sz\<rparr>))"

definition append_gap :: "gap \<Rightarrow> nat \<Rightarrow> nat \<Rightarrow> gap res" where
  "append_gap g addr sz =
     (if \<not> addr = g_end g then Inl Assertion_Failure
      else Inr (g\<lparr>g_end := u64_add (g_end g) sz\<rparr>))"

text \<open>The loop over neighbouring gaps and, for the last gap, the code after the loop.\<close>

fun free_scan :: "gap list \<Rightarrow> nat \<Rightarrow> nat \<Rightarrow> gap list res" where
  "free_scan [] addr sz = Inr [mk_gap addr (u64_add addr sz)]"
| "free_scan [lastGap] addr sz =
     (let e = u64_add addr sz in
      if e < g_begin lastGap then Inr [mk_gap addr e, lastGap]
      else if e = g_begin lastGap then res_bind (prepend_gap lastGap addr sz) (\<lambda>g. Inr [g])
      else if addr = g_end lastGap then res_bind (append_gap lastGap addr sz) (\<lambda>g. Inr [g])
      else Inr [lastGap, mk_gap addr e])"
| "free_scan (gap # nextGap # gs) addr sz =
     (let e = u64_add addr sz in
      if addr \<ge> g_end gap \<and> e \<le> g_begin nextGap then
        if addr = g_end gap then
          if e = g_begin nextGap then
            res_bind (append_gap gap addr (u64_add sz (gap_size nextGap))) (\<lambda>g. Inr (g # gs))
          else res_bind (append_gap gap addr sz) (\<lambda>g. Inr (g # nextGap # gs))
        else if e = g_begin nextGap then
          res_bind (prepend_gap nextGap addr sz) (\<lambda>g. Inr (gap # g # gs))
        else Inr (gap # mk_gap addr e # nextGap # gs)
      else res_bind (free_scan (nextGap # gs) addr sz) (\<lambda>gs'. Inr (gap # gs')))"

definition free_core :: "gap list \<Rightarrow> nat \<Rightarrow> nat \<Rightarrow> gap list res" where
  "free_core gs addr sz =
     (let e = u64_add addr sz in
      case gs of
        [] \<Rightarrow> Inr [mk_gap addr e]
      | firstGap # rest \<Rightarrow>
          if e = g_begin firstGap then res_bind (prepend_gap firstGap addr sz) (\<lambda>g. Inr (g # rest))
          else if e < g_begin firstGap then Inr (mk_gap addr e # gs)
          else free_scan gs addr sz)"

definition p_free :: "partitioner \<Rightarrow> nat \<Rightarrow> nat \<Rightarrow> partitioner res" where
  "p_free p addr sz =
     (if \<not> (addr \<noteq> InvalidAddress \<and> sz > 0) then Inl Assertion_Failure
      else map_sum id snd (validated p (\<lambda>p.
        res_bind (checkNewGap (p_gaps p) addr sz) (\<lambda>_.
        res_bind (free_core (p_gaps p) addr sz) (\<lambda>gs. Inr ((), p\<lparr>p_gaps := gs\<rparr>))))))"

definition totalFreeSize :: "partitioner \<Rightarrow> nat" where
  "totalFreeSize p = foldl (\<lambda>r g. u64_add r (gap_size g)) 0 (p_gaps p)"

definition maxFreeSize :: "partitioner \<Rightarrow> nat" where
  "maxFreeSize p = foldl (\<lambda>r g. max r (gap_size g)) 0 (p_gaps p)"

section \<open>Abstraction and invariant\<close>

text \<open>
  The abstract state is the set of free addresses.  The invariant is stronger than what
  the validator checks: gaps are ordered, not empty, inside the memory, and no two
  gaps touch, so a free set has exactly one gap list.
\<close>

definition gap_set :: "gap \<Rightarrow> nat set" where
  "gap_set g = {g_begin g..<g_end g}"

definition free_set :: "gap list \<Rightarrow> nat set" where
  "free_set gs = (\<Union>g\<in>set gs. gap_set g)"

definition gap_in :: "nat \<Rightarrow> gap \<Rightarrow> bool" where
  "gap_in T g \<longleftrightarrow> g_begin g < g_end g \<and> g_end g \<le> T"

definition gaps_inv :: "nat \<Rightarrow> gap list \<Rightarrow> bool" where
  "gaps_inv T gs \<longleftrightarrow> T < InvalidAddress \<and> list_all (gap_in T) gs \<and>
     sorted_wrt (\<lambda>g h. g_end g < g_begin h) gs"

definition part_inv :: "partitioner \<Rightarrow> bool" where
  "part_inv p \<longleftrightarrow> gaps_inv (p_totalSize p) (p_gaps p)"

definition p_free_set :: "partitioner \<Rightarrow> nat set" where
  "p_free_set p = free_set (p_gaps p)"

lemma mk_gap_sel [simp]: "g_begin (mk_gap b e) = b" "g_end (mk_gap b e) = e"
  by (simp_all add: mk_gap_def)

lemma InvalidAddress_less [simp]: "InvalidAddress < U64"
  by (simp add: InvalidAddress_def)

lemma below_Invalid: "x < InvalidAddress \<Longrightarrow> x < U64" "x \<le> InvalidAddress \<Longrightarrow> x < U64"
  using U64_pos unfolding InvalidAddress_def by linarith+

lemma free_set_simps [simp]:
  "free_set [] = {}"
  "free_set (g # gs) = gap_set g \<union> free_set gs"
  "free_set (xs @ ys) = free_set xs \<union> free_set ys"
  by (auto simp: free_set_def)

lemma gaps_inv_Nil [simp]: "gaps_inv T [] \<longleftrightarrow> T < InvalidAddress"
  by (simp add: gaps_inv_def)

lemma gaps_inv_Cons:
  "gaps_inv T (g # gs) \<longleftrightarrow> gap_in T g \<and> (\<forall>h\<in>set gs. g_end g < g_begin h) \<and> gaps_inv T gs"
  by (auto simp: gaps_inv_def)

lemma gaps_inv_append:
  "gaps_inv T (xs @ ys) \<longleftrightarrow>
     gaps_inv T xs \<and> gaps_inv T ys \<and> (\<forall>g\<in>set xs. \<forall>h\<in>set ys. g_end g < g_begin h)"
  by (auto simp: gaps_inv_def sorted_wrt_append)

lemma gaps_inv_gap_in: "gaps_inv T gs \<Longrightarrow> g \<in> set gs \<Longrightarrow> gap_in T g"
  by (simp add: gaps_inv_def list_all_iff)

lemma gaps_inv_bound: "gaps_inv T gs \<Longrightarrow> T < InvalidAddress"
  by (simp add: gaps_inv_def)

lemma gap_in_U64:
  assumes "gap_in T g" "T < InvalidAddress"
  shows "g_begin g < U64" "g_end g < U64" "g_begin g < InvalidAddress" "g_end g < InvalidAddress"
  using assms below_Invalid unfolding gap_in_def by (metis order.strict_trans1 order.strict_trans)+

lemma gap_size_eq: "gap_in T g \<Longrightarrow> T < InvalidAddress \<Longrightarrow> gap_size g = g_end g - g_begin g"
  unfolding gap_size_def
  by (rule u64_sub_eq) (auto simp: gap_in_def intro: gap_in_U64)

lemma gap_ok_in: "gap_in T g \<Longrightarrow> T < InvalidAddress \<Longrightarrow> gap_ok g"
  using gap_in_U64 [of T g] by (auto simp: gap_ok_def gap_in_def)

lemma validate_gaps_inv: "gaps_inv T gs \<Longrightarrow> validate_gaps gs"
proof (induction gs rule: validate_gaps.induct)
  case (2 g)
  then show ?case using gap_ok_in by (auto simp: gaps_inv_Cons)
next
  case (3 g h gs)
  then show ?case using gap_ok_in gaps_inv_bound by (fastforce simp: gaps_inv_Cons)
qed simp

lemma free_set_bound: "gaps_inv T gs \<Longrightarrow> free_set gs \<subseteq> {..<T}"
  by (auto simp: free_set_def gap_set_def gaps_inv_def gap_in_def list_all_iff)

lemma finite_free_set [simp]: "finite (free_set gs)"
  by (simp add: free_set_def gap_set_def)

text \<open>Two half-open intervals that do not meet lie one after the other.\<close>

lemma ivl_disjoint:
  fixes a b c d :: nat
  assumes "a < b" "c < d" "{a..<b} \<inter> {c..<d} = {}"
  shows "b \<le> c \<or> d \<le> a"
proof (rule ccontr)
  assume "\<not> (b \<le> c \<or> d \<le> a)"
  then have "max a c \<in> {a..<b} \<inter> {c..<d}" using assms(1,2) by auto
  then show False using assms(3) by blast
qed

text \<open>A block of free addresses lies inside a single gap.\<close>

lemma block_in_one_gap:
  assumes "gaps_inv T gs" "a < b" "{a..<b} \<subseteq> free_set gs"
  obtains L g R where "gs = L @ g # R" "g_begin g \<le> a" "b \<le> g_end g"
proof -
  have "a \<in> free_set gs" using assms(2,3) by auto
  then obtain g where g: "g \<in> set gs" "a \<in> gap_set g" by (auto simp: free_set_def)
  obtain L R where split: "gs = L @ g # R" using g(1) by (meson split_list)
  have "b \<le> g_end g"
  proof (rule ccontr)
    assume "\<not> b \<le> g_end g"
    then have "g_end g \<in> free_set gs" using assms(3) g(2) by (auto simp: gap_set_def)
    then obtain h where h: "h \<in> set gs" "g_begin h \<le> g_end g" "g_end g < g_end h"
      by (auto simp: free_set_def gap_set_def)
    show False using assms(1) h split g(2)
      by (fastforce simp: gaps_inv_append gaps_inv_Cons gap_in_def gap_set_def dest: gaps_inv_gap_in)
  qed
  then show thesis using that split g(2) by (auto simp: gap_set_def)
qed

text \<open>Replacing one gap by gaps inside it.\<close>

lemma gaps_replace_inv:
  assumes "gaps_inv T (L @ g # R)" "gaps_inv T N"
    "\<And>h. h \<in> set N \<Longrightarrow> g_begin g \<le> g_begin h \<and> g_end h \<le> g_end g"
  shows "gaps_inv T (L @ N @ R)"
  using assms by (fastforce simp: gaps_inv_append gaps_inv_Cons)

lemma gap_apart:
  assumes "gaps_inv T (L @ g # R)"
  shows "gap_set g \<inter> free_set (L @ R) = {}"
proof -
  have "gap_set g \<inter> gap_set h = {}" if "h \<in> set L \<union> set R" for h
    using that assms by (auto simp: gaps_inv_append gaps_inv_Cons gap_set_def)
  then show ?thesis by (auto simp: free_set_def)
qed

definition carve :: "gap \<Rightarrow> nat \<Rightarrow> nat \<Rightarrow> gap list" where
  "carve g a sz = (if g_begin g < a then [mk_gap (g_begin g) a] else []) @
                  (if a + sz < g_end g then [mk_gap (a + sz) (g_end g)] else [])"

lemma carve_spec:
  assumes inv: "gaps_inv T (L @ g # R)" and sz: "0 < sz" and fit: "g_begin g \<le> a" "a + sz \<le> g_end g"
  shows "gaps_inv T (L @ carve g a sz @ R)"
    and "free_set (L @ carve g a sz @ R) = free_set (L @ g # R) - {a..<a + sz}"
proof -
  have g: "gap_in T g" and T: "T < InvalidAddress"
    using inv gaps_inv_bound by (auto simp: gaps_inv_append gaps_inv_Cons)
  have "gaps_inv T (carve g a sz)" using g T sz fit by (auto simp: carve_def gaps_inv_Cons gap_in_def)
  with inv show "gaps_inv T (L @ carve g a sz @ R)"
    by (rule gaps_replace_inv) (use sz fit g in \<open>auto simp: carve_def gap_in_def split: if_splits\<close>)
  have "free_set (carve g a sz) = gap_set g - {a..<a + sz}"
    using fit sz by (auto simp: carve_def gap_set_def)
  moreover have "{a..<a + sz} \<subseteq> gap_set g" using fit by (auto simp: gap_set_def)
  ultimately show "free_set (L @ carve g a sz @ R) = free_set (L @ g # R) - {a..<a + sz}"
    using gap_apart [OF inv] by auto
qed

section \<open>Taking addresses out of the gaps\<close>

lemma useGap_carve:
  assumes inv: "gaps_inv T (L @ g # R)" and gs: "p_gaps p = L @ g # R" and sz: "0 < sz"
    and fit: "g_begin g \<le> a" "a + sz \<le> g_end g"
  shows "useGap p (length L) a sz = Inr (a, p\<lparr>p_gaps := L @ carve g a sz @ R\<rparr>)"
proof -
  have g: "gap_in T g" "T < InvalidAddress"
    using inv gaps_inv_bound by (auto simp: gaps_inv_append gaps_inv_Cons)
  then have e: "g_end g < U64" by (rule gap_in_U64)
  have arith: "u64_add a sz = a + sz" "u64_sub a (g_begin g) = a - g_begin g"
    "u64_sub (g_end g) (a + sz) = g_end g - (a + sz)"
    using fit e sz by (auto intro!: u64_add_eq u64_sub_eq)
  have eqs: "g\<lparr>g_end := a\<rparr> = mk_gap (g_begin g) a" "g\<lparr>g_begin := a + sz\<rparr> = mk_gap (a + sz) (g_end g)"
    by (simp_all add: mk_gap_def)
  show ?thesis unfolding useGap_def Let_def
    using fit arith eqs by (auto simp: gs carve_def mk_gap_def)
qed

lemma allocFixed_core_carve:
  assumes inv: "gaps_inv T (L @ g # R)" and sz: "0 < sz" and fit: "g_begin g \<le> a" "a + sz \<le> g_end g"
  shows "allocFixed_core (L @ g # R) a sz = Inr (L @ carve g a sz @ R)"
proof -
  have g: "gap_in T g" "T < InvalidAddress"
    using inv gaps_inv_bound by (auto simp: gaps_inv_append gaps_inv_Cons)
  then have e: "g_end g < U64" by (rule gap_in_U64)
  have size: "gap_size g = g_end g - g_begin g" using g by (rule gap_size_eq)
  have L: "\<forall>h\<in>set L. g_begin h < a"
    using inv fit by (auto simp: gaps_inv_append gaps_inv_Cons gap_in_def dest!: gaps_inv_gap_in)
  have R: "\<forall>h\<in>set R. a < g_begin h" using inv fit sz by (auto simp: gaps_inv_append gaps_inv_Cons)
  have eqs: "g\<lparr>g_end := a\<rparr> = mk_gap (g_begin g) a" "g\<lparr>g_begin := a + sz\<rparr> = mk_gap (a + sz) (g_end g)"
    by (simp_all add: mk_gap_def)
  have arith: "u64_add a sz = a + sz" "u64_sub (g_end g) (a + sz) = g_end g - (a + sz)"
    using fit e sz by (auto intro!: u64_add_eq u64_sub_eq)
  show ?thesis
  proof (cases "g_begin g = a")
    case True
    then have it: "lower_bound_gap (L @ g # R) a = length L"
      using L by (simp add: lower_bound_gap_def takeWhile_tail takeWhile_append2)
    show ?thesis unfolding allocFixed_core_def Let_def it
      using True fit arith eqs by (auto simp: size carve_def)
  next
    case False
    have tR: "takeWhile (\<lambda>h. g_begin h < a) R = []" using R by (cases R) auto
    have it: "lower_bound_gap (L @ g # R) a = Suc (length L)"
      using L False fit tR by (simp add: lower_bound_gap_def takeWhile_append2)
    have ne: "\<not> (Suc (length L) < length (L @ g # R) \<and> g_begin ((L @ g # R) ! Suc (length L)) = a)"
      using R by (cases R) (auto simp: nth_append)
    have "u64_add (a + sz) (g_end g - (a + sz)) = g_end g" using fit e by (simp add: u64_add_eq)
    then show ?thesis unfolding allocFixed_core_def Let_def it
      using ne False fit arith eqs by (auto simp: carve_def mk_gap_def)
  qed
qed

section \<open>Addresses chosen inside a gap\<close>

definition fits :: "gap \<Rightarrow> nat \<Rightarrow> nat \<Rightarrow> nat \<Rightarrow> bool" where
  "fits g sz alignment a \<longleftrightarrow> alignment dvd a \<and> g_begin g \<le> a \<and> a + sz \<le> g_end g"

lemma getAddrFromGap_Up:
  assumes g: "gap_in T g" "T + alignment < U64" "T < InvalidAddress" and "0 < sz" "0 < alignment"
  defines "a \<equiv> align_up (g_begin g) alignment"
  shows "getAddrFromGap g sz alignment Up = (if a + sz \<le> g_end g then a else InvalidAddress)"
    and "fits g sz alignment x \<Longrightarrow> a \<le> x"
    and "a + sz \<le> g_end g \<Longrightarrow> fits g sz alignment a"
proof -
  have sum: "g_begin g + alignment < U64" and e: "g_end g < U64"
    using g gap_in_U64 by (auto simp: gap_in_def)
  note b = align_up_bounds [OF \<open>0 < alignment\<close> sum, folded a_def]
  have size: "gap_size g = g_end g - g_begin g" using g(1,3) by (rule gap_size_eq)
  show fit: "a + sz \<le> g_end g \<Longrightarrow> fits g sz alignment a" using b by (simp add: fits_def)
  show "fits g sz alignment x \<Longrightarrow> a \<le> x"
    unfolding a_def fits_def using align_up_least [OF \<open>0 < alignment\<close> sum] by blast
  show "getAddrFromGap g sz alignment Up = (if a + sz \<le> g_end g then a else InvalidAddress)"
  proof (cases "gap_size g < sz")
    case True
    then have "\<not> a + sz \<le> g_end g" using b size by linarith
    then show ?thesis using True by (simp add: getAddrFromGap_def)
  next
    case False
    show ?thesis
    proof (cases "a + sz < U64")
      case True
      then show ?thesis using False by (simp add: getAddrFromGap_def a_def u64_add_eq)
    next
      case wrap: False
      have "a + sz < g_begin g + alignment + sz" using b by linarith
      have "sz \<le> g_end g - g_begin g" using False size by simp
      then have "a < g_end g + alignment - sz" using b g(1) by (auto simp: gap_in_def)
      then have "a + sz < T + alignment" using g(1) by (auto simp: gap_in_def)
      then show ?thesis using wrap g(2) by linarith
    qed
  qed
qed

lemma getAddrFromGap_Down:
  assumes g: "gap_in T g" "T + alignment < U64" "T < InvalidAddress" and "0 < sz" "0 < alignment"
  shows "\<exists>a. getAddrFromGap g sz alignment Down = a \<and>
           (if a = InvalidAddress then \<not> (\<exists>x. fits g sz alignment x)
            else fits g sz alignment a \<and> (\<forall>x. fits g sz alignment x \<longrightarrow> x \<le> a))"
proof (cases "gap_size g < sz")
  case True
  have size: "gap_size g = g_end g - g_begin g" using g(1,3) by (rule gap_size_eq)
  then have "\<not> fits g sz alignment x" for x using True by (auto simp: fits_def)
  then show ?thesis using True by (simp add: getAddrFromGap_def)
next
  case False
  have size: "gap_size g = g_end g - g_begin g" using g(1,3) by (rule gap_size_eq)
  have e: "g_end g < U64" "g_end g \<le> T" "g_begin g < g_end g" using g gap_in_U64 by (auto simp: gap_in_def)
  let ?v = "g_end g - sz" and ?r = "align_up (g_end g - sz) alignment"
  have v: "u64_sub (g_end g) sz = ?v" "g_begin g \<le> ?v" "?v + sz = g_end g"
    using False size e by (auto intro!: u64_sub_eq)
  have sum: "?v + alignment < U64" using g(2) e by linarith
  note b = align_up_bounds [OF \<open>0 < alignment\<close> sum]
  have r: "u64_add ?r sz = ?r + sz" using b v g(2) e by (auto intro!: u64_add_eq)
  have ba: "u64_add (g_begin g) alignment = g_begin g + alignment" using g(2) e by (auto intro!: u64_add_eq)
  have ge: "?r \<le> x" if "alignment dvd x" "?v \<le> x" for x
    using align_up_least [OF \<open>0 < alignment\<close> sum] that by blast
  have notinv: "x \<noteq> InvalidAddress" if "x + sz \<le> g_end g" for x
    using that e(2) g(3) by linarith
  show ?thesis
  proof (cases "?r + sz > g_end g")
    case False
    then have "getAddrFromGap g sz alignment Down = ?r" using \<open>\<not> gap_size g < sz\<close> v r
      by (simp add: getAddrFromGap_def)
    moreover have "fits g sz alignment ?r" using b v False by (auto simp: fits_def)
    moreover have "x \<le> ?r" if "fits g sz alignment x" for x using that b v by (auto simp: fits_def)
    ultimately show ?thesis using notinv False by (metis fits_def)
  next
    case True
    have below: "x + alignment \<le> ?r" if "fits g sz alignment x" for x
    proof -
      have "x < ?r" using that True v by (auto simp: fits_def)
      moreover have "alignment dvd ?r - x" using that b(1) by (simp add: fits_def)
      ultimately show ?thesis by (auto dest: dvd_imp_le)
    qed
    show ?thesis
    proof (cases "g_begin g + alignment > ?r")
      case True
      then have "\<not> fits g sz alignment x" for x using below by (fastforce simp: fits_def)
      moreover have "getAddrFromGap g sz alignment Down = InvalidAddress"
        using True \<open>?r + sz > g_end g\<close> \<open>\<not> gap_size g < sz\<close> v r ba by (simp add: getAddrFromGap_def)
      ultimately show ?thesis by simp
    next
      case False
      let ?q = "?r - alignment"
      have q: "u64_sub ?r alignment = ?q" "?q + sz < g_end g + 1" "u64_add ?q sz = ?q + sz"
        using False b v e sum by (auto simp: u64_sub_eq u64_add_eq)
      have "getAddrFromGap g sz alignment Down = ?q"
        using False True \<open>\<not> gap_size g < sz\<close> v r ba q by (simp add: getAddrFromGap_def Let_def)
      moreover have "fits g sz alignment ?q" using b False q by (auto simp: fits_def dvd_diff_nat)
      moreover have "x \<le> ?q" if "fits g sz alignment x" for x using below [OF that] by linarith
      ultimately show ?thesis using notinv q(2) by (metis fits_def)
    qed
  qed
qed

text \<open>Both directions: an address is returned exactly when some aligned address fits.\<close>

lemma getAddrFromGap_fits:
  assumes "gap_in T g" "T + alignment < U64" "T < InvalidAddress" "0 < sz" "0 < alignment"
    and "getAddrFromGap g sz alignment dir \<noteq> InvalidAddress"
  shows "fits g sz alignment (getAddrFromGap g sz alignment dir)"
  using assms getAddrFromGap_Up(1,3) [OF assms(1-5)] getAddrFromGap_Down [OF assms(1-5)]
  by (cases dir) (auto split: if_splits)

lemma getAddrFromGap_none:
  assumes "gap_in T g" "T + alignment < U64" "T < InvalidAddress" "0 < sz" "0 < alignment"
    and "getAddrFromGap g sz alignment dir = InvalidAddress"
  shows "\<not> fits g sz alignment x"
proof (cases dir)
  case Up
  have "\<not> align_up (g_begin g) alignment + sz \<le> g_end g"
  proof
    assume h: "align_up (g_begin g) alignment + sz \<le> g_end g"
    then have "align_up (g_begin g) alignment = InvalidAddress"
      using assms(6) getAddrFromGap_Up(1) [OF assms(1-5)] Up by simp
    then show False using h assms(1,3) by (auto simp: gap_in_def)
  qed
  then show ?thesis using getAddrFromGap_Up(2) [OF assms(1-5), of x] by (auto simp: fits_def)
next
  case Down
  then show ?thesis using getAddrFromGap_Down [OF assms(1-5)] assms(6) by auto
qed

section \<open>The gap that is chosen\<close>

lemma best_gap_Some:
  assumes "best_gap gs sz al dir is mi ms = Some i" and "\<And>k. mi = Some k \<Longrightarrow> ms = gap_size (gs ! k)"
  shows "(mi = Some i \<or> (i \<in> set is \<and> getAddrFromGap (gs ! i) sz al dir \<noteq> InvalidAddress)) \<and>
         gap_size (gs ! i) \<le> ms \<and>
         (\<forall>j\<in>set is. getAddrFromGap (gs ! j) sz al dir \<noteq> InvalidAddress \<longrightarrow> gap_size (gs ! i) \<le> gap_size (gs ! j))"
  using assms
proof (induction "is" arbitrary: mi ms)
  case (Cons j js)
  show ?case
  proof (cases "getAddrFromGap (gs ! j) sz al dir \<noteq> InvalidAddress \<and> gap_size (gs ! j) < ms")
    case True
    then have "best_gap gs sz al dir js (Some j) (gap_size (gs ! j)) = Some i" using Cons.prems(1) by simp
    from Cons.IH [OF this] True show ?thesis by auto
  next
    case False
    then have "best_gap gs sz al dir js mi ms = Some i" using Cons.prems(1) by auto
    from Cons.IH [OF this Cons.prems(2)] False show ?thesis by auto
  qed
qed simp

lemma best_gap_None:
  "best_gap gs sz al dir is mi ms = None \<Longrightarrow>
     mi = None \<and> (\<forall>j\<in>set is. getAddrFromGap (gs ! j) sz al dir = InvalidAddress \<or> ms \<le> gap_size (gs ! j))"
proof (induction "is" arbitrary: mi ms)
  case (Cons i "is")
  show ?case
  proof (cases "getAddrFromGap (gs ! i) sz al dir \<noteq> InvalidAddress \<and> gap_size (gs ! i) < ms")
    case True
    then show ?thesis using Cons.IH [of "Some i" "gap_size (gs ! i)"] Cons.prems by simp
  next
    case False
    then have "best_gap gs sz al dir is mi ms = None" using Cons.prems by auto
    from Cons.IH [OF this] False show ?thesis by auto
  qed
qed simp

lemma minimal_gap_Some:
  assumes "minimal_gap gs sz al dir = Some i" "gs \<noteq> []"
  shows "i < length gs" "getAddrFromGap (gs ! i) sz al dir \<noteq> InvalidAddress"
proof -
  have "i < length gs \<and> getAddrFromGap (gs ! i) sz al dir \<noteq> InvalidAddress"
  proof (cases "best_gap gs sz al dir (case dir of Up \<Rightarrow> [0..<length gs - 1] | Down \<Rightarrow> rev [1..<length gs]) None (U64 - 1)")
    case None
    then show ?thesis using assms
      by (cases dir) (auto simp: minimal_gap_def Let_def split: if_splits)
  next
    case (Some j)
    then have "j = i" using assms(1) by (simp add: minimal_gap_def Let_def)
    with best_gap_Some [OF Some] show ?thesis by (cases dir) auto
  qed
  then show "i < length gs" "getAddrFromGap (gs ! i) sz al dir \<noteq> InvalidAddress" by auto
qed

lemma minimal_gap_None:
  assumes "minimal_gap gs sz al dir = None" "gaps_inv T gs" "i < length gs"
  shows "getAddrFromGap (gs ! i) sz al dir = InvalidAddress"
proof -
  let ?v = "case dir of Up \<Rightarrow> [0..<length gs - 1] | Down \<Rightarrow> rev [1..<length gs]"
  have none: "best_gap gs sz al dir ?v None (U64 - 1) = None"
    using assms(1) by (auto simp: minimal_gap_def Let_def split: option.splits)
  have small: "gap_size (gs ! i) < U64 - 1"
  proof -
    have "gap_in T (gs ! i)" "T < InvalidAddress"
      using assms(2,3) gaps_inv_gap_in gaps_inv_bound by (auto simp: in_set_conv_nth)
    then show ?thesis using gap_size_eq by (fastforce simp: gap_in_def InvalidAddress_def)
  qed
  show ?thesis
  proof (cases "i \<in> set ?v")
    case True
    then show ?thesis using best_gap_None [OF none] small by auto
  next
    case False
    then have "i = (case dir of Up \<Rightarrow> length gs - 1 | Down \<Rightarrow> 0)" using assms(3) by (cases dir) auto
    then show ?thesis using assms(1) none by (auto simp: minimal_gap_def Let_def split: if_splits)
  qed
qed

text \<open>Best fit: no other suitable gap is smaller, unless the choice is the last resort.\<close>

lemma minimal_gap_best:
  assumes "minimal_gap gs sz al dir = Some i" "j < length gs"
    and "getAddrFromGap (gs ! j) sz al dir \<noteq> InvalidAddress" "gap_size (gs ! j) < U64 - 1"
    and "j \<noteq> (case dir of Up \<Rightarrow> length gs - 1 | Down \<Rightarrow> 0)"
  shows "gap_size (gs ! i) \<le> gap_size (gs ! j)"
proof -
  let ?v = "case dir of Up \<Rightarrow> [0..<length gs - 1] | Down \<Rightarrow> rev [1..<length gs]"
  have j: "j \<in> set ?v" using assms(2,5) by (cases dir) auto
  show ?thesis
  proof (cases "best_gap gs sz al dir ?v None (U64 - 1)")
    case None
    then show ?thesis using best_gap_None [OF None] j assms(3,4) by auto
  next
    case (Some k)
    then have "k = i" using assms(1) by (simp add: minimal_gap_def Let_def)
    with best_gap_Some [OF Some] j assms(3) show ?thesis by auto
  qed
qed

section \<open>Specification of the operations\<close>

lemma validated_ok:
  assumes "part_inv p" "body p = Inr (r, q)" "part_inv q"
  shows "validated p body = Inr (r, q)"
  using assms validate_gaps_inv by (auto simp: validated_def part_inv_def)

lemma part_inv_bound: "part_inv p \<Longrightarrow> p_totalSize p < InvalidAddress"
  by (simp add: part_inv_def gaps_inv_bound)

lemma new_partitioner_spec:
  assumes "0 < T" "T < InvalidAddress"
  shows "\<exists>p. new_partitioner T = Inr p \<and> part_inv p \<and> p_totalSize p = T \<and> p_free_set p = {..<T}"
  using assms by (auto simp: new_partitioner_def part_inv_def gaps_inv_Cons gap_in_def p_free_set_def gap_set_def)

lemma block_in_free_set:
  assumes "gaps_inv T gs" "i < length gs" "fits (gs ! i) sz al a" "0 < sz"
  shows "{a..<a + sz} \<subseteq> free_set gs"
proof -
  have "gs ! i \<in> set gs" using assms(2) by simp
  moreover have "{a..<a + sz} \<subseteq> gap_set (gs ! i)" using assms(3) by (auto simp: fits_def gap_set_def)
  ultimately show ?thesis by (auto simp: free_set_def)
qed

lemma p_alloc_success:
  assumes inv: "part_inv p" and sz: "0 < sz" "0 < al" and room: "p_totalSize p + al < U64"
    and i: "minimal_gap (p_gaps p) sz al dir = Some i" "p_gaps p \<noteq> []"
  defines "a \<equiv> getAddrFromGap (p_gaps p ! i) sz al dir"
  shows "\<exists>q. p_alloc p sz al dir = Inr (a, q) \<and> part_inv q \<and> p_totalSize q = p_totalSize p \<and>
    a \<noteq> InvalidAddress \<and> al dvd a \<and> {a..<a + sz} \<subseteq> p_free_set p \<and>
    p_free_set q = p_free_set p - {a..<a + sz}"
proof -
  let ?gs = "p_gaps p" and ?T = "p_totalSize p"
  have gi: "gaps_inv ?T ?gs" using inv by (simp add: part_inv_def)
  note mi = minimal_gap_Some [OF i]
  have g: "gap_in ?T (?gs ! i)" using gi mi(1) by (simp add: gaps_inv_gap_in)
  have fit: "fits (?gs ! i) sz al a" unfolding a_def
    using getAddrFromGap_fits [OF g room gaps_inv_bound [OF gi] sz mi(2)] .
  obtain L g R where split: "?gs = L @ g # R" "length L = i" "?gs ! i = g"
    using mi(1) by (metis id_take_nth_drop length_take min.absorb4)
  have fit': "g_begin g \<le> a" "a + sz \<le> g_end g" using fit split by (auto simp: fits_def)
  let ?q = "p\<lparr>p_gaps := L @ carve g a sz @ R\<rparr>"
  have inv': "gaps_inv ?T (L @ g # R)" using gi split by simp
  note c = carve_spec [OF inv' sz(1) fit']
  have "chooseMinimalGap p sz al dir = Inr (a, ?q)"
    using useGap_carve [OF inv' split(1) sz(1) fit'] i split by (simp add: chooseMinimalGap_def a_def)
  then have "p_alloc p sz al dir = Inr (a, ?q)"
    using sz validated_ok [OF inv, of "\<lambda>p. chooseMinimalGap p sz al dir"] c(1)
    by (simp add: p_alloc_def part_inv_def)
  moreover have "{a..<a + sz} \<subseteq> p_free_set p"
    using block_in_free_set [OF gi mi(1) fit sz(1)] by (simp add: p_free_set_def)
  ultimately show ?thesis using c fit mi(2) split by (auto simp: part_inv_def p_free_set_def fits_def a_def)
qed

lemma p_alloc_failure:
  assumes inv: "part_inv p" and sz: "0 < sz" "0 < al" and room: "p_totalSize p + al < U64"
    and none: "p_gaps p = [] \<or> minimal_gap (p_gaps p) sz al dir = None"
  shows "p_alloc p sz al dir = Inr (InvalidAddress, p)" "al dvd x \<Longrightarrow> \<not> {x..<x + sz} \<subseteq> p_free_set p"
proof -
  let ?gs = "p_gaps p" and ?T = "p_totalSize p"
  have gi: "gaps_inv ?T ?gs" using inv by (simp add: part_inv_def)
  have "chooseMinimalGap p sz al dir = Inr (InvalidAddress, p)"
    using none by (auto simp: chooseMinimalGap_def)
  then show "p_alloc p sz al dir = Inr (InvalidAddress, p)"
    using sz validated_ok [OF inv _ inv] by (simp add: p_alloc_def)
  show "\<not> {x..<x + sz} \<subseteq> p_free_set p" if "al dvd x"
  proof
    assume sub: "{x..<x + sz} \<subseteq> p_free_set p"
    have "x < x + sz" using sz by simp
    then obtain L g R where g: "?gs = L @ g # R" "g_begin g \<le> x" "x + sz \<le> g_end g"
      using block_in_one_gap [OF gi] sub unfolding p_free_set_def by metis
    have "minimal_gap ?gs sz al dir = None" using none g by simp
    from minimal_gap_None [OF this gi, of "length L"] g
    have "getAddrFromGap g sz al dir = InvalidAddress" by simp
    moreover have "gap_in ?T g" using gi g by (simp add: gaps_inv_gap_in)
    ultimately have "\<not> fits g sz al x"
      using getAddrFromGap_none [OF _ room gaps_inv_bound [OF gi] sz] by blast
    then show False using g that by (simp add: fits_def)
  qed
qed

lemma p_alloc_spec:
  assumes "part_inv p" "0 < sz" "0 < al" "p_totalSize p + al < U64"
  shows "\<exists>a q. p_alloc p sz al dir = Inr (a, q) \<and> part_inv q \<and> p_totalSize q = p_totalSize p \<and>
    (if a = InvalidAddress then q = p \<and> (\<forall>x. al dvd x \<longrightarrow> \<not> {x..<x + sz} \<subseteq> p_free_set p)
     else al dvd a \<and> {a..<a + sz} \<subseteq> p_free_set p \<and> p_free_set q = p_free_set p - {a..<a + sz})"
proof (cases "p_gaps p = [] \<or> minimal_gap (p_gaps p) sz al dir = None")
  case True
  from p_alloc_failure [OF assms this] show ?thesis using assms(1) by auto
next
  case False
  then obtain i where "minimal_gap (p_gaps p) sz al dir = Some i" "p_gaps p \<noteq> []" by auto
  from p_alloc_success [OF assms this] show ?thesis by (metis (lifting))
qed

lemma p_allocFixed_spec:
  assumes inv: "part_inv p" and sz: "0 < sz" and sub: "{a..<a + sz} \<subseteq> p_free_set p"
  shows "\<exists>q. p_allocFixed p a sz = Inr q \<and> part_inv q \<and> p_totalSize q = p_totalSize p \<and>
    p_free_set q = p_free_set p - {a..<a + sz}"
proof -
  let ?gs = "p_gaps p" and ?T = "p_totalSize p"
  have gi: "gaps_inv ?T ?gs" using inv by (simp add: part_inv_def)
  obtain L g R where split: "?gs = L @ g # R" "g_begin g \<le> a" "a + sz \<le> g_end g"
    using block_in_one_gap [OF gi, of a "a + sz"] sz sub unfolding p_free_set_def by auto
  have inv': "gaps_inv ?T (L @ g # R)" using gi split by simp
  then have T: "g_end g \<le> ?T" "?T < InvalidAddress" using gaps_inv_bound
    by (auto simp: gaps_inv_append gaps_inv_Cons gap_in_def)
  then have U: "a + sz < U64" "a \<noteq> InvalidAddress" using split sz below_Invalid(1) [of "a + sz"] by linarith+
  note c = carve_spec [OF inv' sz split(2,3)]
  let ?body = "\<lambda>p. res_bind (allocFixed_core (p_gaps p) a sz) (\<lambda>gs. Inr ((), p\<lparr>p_gaps := gs\<rparr>))"
  have "validated p ?body = Inr ((), p\<lparr>p_gaps := L @ carve g a sz @ R\<rparr>)"
    using allocFixed_core_carve [OF inv' sz split(2,3)] split c(1)
    by (intro validated_ok [OF inv]) (simp_all add: part_inv_def)
  then have "p_allocFixed p a sz = Inr (p\<lparr>p_gaps := L @ carve g a sz @ R\<rparr>)"
    using U T split sz by (simp add: p_allocFixed_def u64_add_eq)
  then show ?thesis using c split by (auto simp: part_inv_def p_free_set_def)
qed

section \<open>Release returns the block and coalesces\<close>

lemma intersects_eq:
  assumes "0 < s1" "0 < s2" "a1 + s1 < U64" "a2 + s2 < U64"
  shows "intersects a1 s1 a2 s2 = Inr ({a1..<a1 + s1} \<inter> {a2..<a2 + s2} \<noteq> {})"
proof -
  have "inRange a1 (a1 + s1) a2 \<or> inRange a1 (a1 + s1) (a2 + s2 - 1) \<or> inRange a2 (a2 + s2) a1 \<or>
        inRange a2 (a2 + s2) (a1 + s1 - 1) \<longleftrightarrow> a1 < a2 + s2 \<and> a2 < a1 + s1"
    using assms unfolding inRange_def by linarith
  moreover have "a1 < a2 + s2 \<and> a2 < a1 + s1 \<longleftrightarrow> {a1..<a1 + s1} \<inter> {a2..<a2 + s2} \<noteq> {}"
  proof
    assume h: "a1 < a2 + s2 \<and> a2 < a1 + s1"
    then have "max a1 a2 \<in> {a1..<a1 + s1} \<inter> {a2..<a2 + s2}" using assms by auto
    then show "{a1..<a1 + s1} \<inter> {a2..<a2 + s2} \<noteq> {}" by blast
  qed auto
  ultimately show ?thesis using assms
    by (simp add: intersects_def Let_def u64_simps Suc_leI)
qed

lemma checkNewGap_ok:
  assumes "gaps_inv T gs" "0 < sz" "a + sz \<le> T" "{a..<a + sz} \<inter> free_set gs = {}"
  shows "checkNewGap gs a sz = Inr ()"
  using assms(1,4)
proof (induction gs)
  case (Cons g gs)
  have g: "gap_in T g" "T < InvalidAddress" using Cons.prems(1) gaps_inv_bound by (auto simp: gaps_inv_Cons)
  have "gap_size g = g_end g - g_begin g" "g_end g < U64" "T < U64"
    using g gap_size_eq gap_in_U64 below_Invalid by blast+
  moreover have "{a..<a + sz} \<inter> {g_begin g..<g_end g} = {}"
    using Cons.prems(2) by (simp add: gap_set_def Int_Un_distrib)
  ultimately have "intersects a sz (g_begin g) (gap_size g) = Inr False"
    using intersects_eq [of sz "gap_size g" a "g_begin g"] assms(2,3) g by (auto simp: gap_in_def)
  then show ?case using Cons by (auto simp: checkNewGap_def gaps_inv_Cons)
qed (simp add: checkNewGap_def)

lemma prepend_gap_eq:
  assumes "a + sz = g_begin g" "g_begin g < U64"
  shows "prepend_gap g a sz = Inr (mk_gap a (g_end g))"
  using assms by (simp add: prepend_gap_def u64_simps mk_gap_def)

lemma append_gap_eq:
  assumes "g_end g + sz < U64"
  shows "append_gap g (g_end g) sz = Inr (mk_gap (g_begin g) (g_end g + sz))"
  using assms by (simp add: append_gap_def u64_simps mk_gap_def)

lemma free_scan_spec:
  assumes "gaps_inv T gs" "gs \<noteq> []" "g_end (hd gs) \<le> a" "0 < sz" "a + sz \<le> T"
    "{a..<a + sz} \<inter> free_set gs = {}"
  shows "\<exists>gs'. free_scan gs a sz = Inr gs' \<and> gaps_inv T gs' \<and> gs' \<noteq> [] \<and>
    g_begin (hd gs') = g_begin (hd gs) \<and> free_set gs' = free_set gs \<union> {a..<a + sz}"
  using assms
proof (induction gs)
  case (Cons g gs)
  have T: "T < InvalidAddress" using Cons.prems(1) by (rule gaps_inv_bound)
  then have U: "a + sz < U64" "T < U64" using Cons.prems(5) below_Invalid(1) by fastforce+
  have e: "u64_add a sz = a + sz" using U by (simp add: u64_add_eq)
  have g: "gap_in T g" using Cons.prems(1) by (simp add: gaps_inv_Cons)
  have apart: "g_end g \<le> a" using Cons.prems(3) by simp
  show ?case
  proof (cases gs)
    case Nil
    show ?thesis
    proof (cases "a = g_end g")
      case True
      then show ?thesis using Nil e g T U Cons.prems(4,5) append_gap_eq [of g sz]
        by (auto simp: gap_in_def gaps_inv_Cons gap_set_def)
    next
      case False
      then show ?thesis using Nil e g T apart Cons.prems(4,5)
        by (auto simp: gap_in_def gaps_inv_Cons gap_set_def)
    qed
  next
    case (Cons h hs)
    have gh: "gap_in T h" "g_end g < g_begin h" "gaps_inv T (h # hs)"
      "\<forall>k\<in>set hs. g_end h < g_begin k" "\<forall>k\<in>set hs. g_end g < g_begin k"
      using Cons.prems(1) Cons by (auto simp: gaps_inv_Cons)
    have "{a..<a + sz} \<inter> {g_begin h..<g_end h} = {}"
      using Cons.prems(6) Cons by (simp add: gap_set_def Int_Un_distrib)
    then have order: "a + sz \<le> g_begin h \<or> g_end h \<le> a"
      using ivl_disjoint [of a "a + sz" "g_begin h" "g_end h"] Cons.prems(4) gh(1) by (auto simp: gap_in_def)
    show ?thesis
    proof (cases "a + sz \<le> g_begin h")
      case below: True
      have size: "gap_size h = g_end h - g_begin h" using gh(1) T by (rule gap_size_eq)
      have hU: "g_end h < U64" "g_begin h < U64" using gh(1) T by (rule gap_in_U64)+
      have join: "u64_add sz (gap_size h) = sz + (g_end h - g_begin h)" if "a + sz = g_begin h"
      proof -
        have "sz + (g_end h - g_begin h) < U64" using that gh(1) hU by (auto simp: gap_in_def)
        then show ?thesis by (simp add: size u64_add_eq)
      qed
      show ?thesis
      proof (cases "a = g_end g")
        case at: True
        show ?thesis
        proof (cases "a + sz = g_begin h")
          case True
          have "g_end g + (sz + (g_end h - g_begin h)) = g_end h" using True at gh(1) by (auto simp: gap_in_def)
          then have "append_gap g (g_end g) (sz + (g_end h - g_begin h)) = Inr (mk_gap (g_begin g) (g_end h))"
            using append_gap_eq [of g "sz + (g_end h - g_begin h)"] hU by simp
          then show ?thesis using Cons True at e join [OF True] g gh T Cons.prems(4)
            by (auto simp: gap_in_def gaps_inv_Cons gap_set_def)
        next
          case False
          then show ?thesis using Cons at below e g gh T U Cons.prems(4,5) append_gap_eq [of g sz]
            by (auto simp: gap_in_def gaps_inv_Cons gap_set_def)
        qed
      next
        case False
        then show ?thesis using Cons below e apart g gh T U hU Cons.prems(4,5) prepend_gap_eq [of a sz h]
          by (cases "a + sz = g_begin h") (auto simp: Let_def gap_in_def gaps_inv_Cons gap_set_def)
      qed
    next
      case False
      then have "g_end h \<le> a" using order by simp
      with Cons.IH Cons gh(3) Cons.prems(4-6) obtain gs' where
        gs': "free_scan (h # hs) a sz = Inr gs'" "gaps_inv T gs'" "gs' \<noteq> []"
          "g_begin (hd gs') = g_begin h" "free_set gs' = free_set (h # hs) \<union> {a..<a + sz}"
        by auto
      have "gaps_inv T (g # gs')"
        using gs' g gh(2) by (cases gs') (auto simp: gaps_inv_Cons gap_in_def)
      then show ?thesis using gs' Cons False e by auto
    qed
  qed
qed simp

lemma free_core_spec:
  assumes inv: "gaps_inv T gs" and sz: "0 < sz" "a + sz \<le> T" and apart: "{a..<a + sz} \<inter> free_set gs = {}"
  shows "\<exists>gs'. free_core gs a sz = Inr gs' \<and> gaps_inv T gs' \<and> free_set gs' = free_set gs \<union> {a..<a + sz}"
proof -
  have T: "T < InvalidAddress" using inv by (rule gaps_inv_bound)
  then have U: "a + sz < U64" using sz below_Invalid(1) by fastforce
  have e: "u64_add a sz = a + sz" using U by (simp add: u64_add_eq)
  show ?thesis
  proof (cases gs)
    case Nil
    then show ?thesis using sz T e by (auto simp: free_core_def gaps_inv_Cons gap_in_def gap_set_def)
  next
    case (Cons g hs)
    have g: "gap_in T g" "\<forall>k\<in>set hs. g_end g < g_begin k" "gaps_inv T hs"
      using inv Cons by (auto simp: gaps_inv_Cons)
    have "{a..<a + sz} \<inter> {g_begin g..<g_end g} = {}" using apart Cons by (simp add: gap_set_def Int_Un_distrib)
    then have "a + sz \<le> g_begin g \<or> g_end g \<le> a"
      using ivl_disjoint [of a "a + sz" "g_begin g" "g_end g"] g(1) sz by (auto simp: gap_in_def)
    then consider "a + sz = g_begin g" | "a + sz < g_begin g" | "g_end g \<le> a" by linarith
    then show ?thesis
    proof cases
      case 1
      have "prepend_gap g a sz = Inr (mk_gap a (g_end g))"
        using 1 gap_in_U64 [OF g(1) T] by (intro prepend_gap_eq) auto
      then show ?thesis using 1 Cons e g T sz
        by (auto simp: free_core_def gaps_inv_Cons gap_in_def gap_set_def)
    next
      case 2
      then show ?thesis using Cons e g T sz inv
        by (auto simp: free_core_def gaps_inv_Cons gap_in_def gap_set_def)
    next
      case 3
      then have "\<not> a + sz \<le> g_begin g" using g(1) sz by (auto simp: gap_in_def)
      moreover have "free_scan gs a sz = free_core gs a sz"
        using calculation Cons e by (simp add: free_core_def)
      ultimately show ?thesis using free_scan_spec [OF inv _ _ sz apart] Cons 3 by auto
    qed
  qed
qed

lemma p_free_spec:
  assumes inv: "part_inv p" and sz: "0 < sz" "a + sz \<le> p_totalSize p"
    and apart: "{a..<a + sz} \<inter> p_free_set p = {}"
  shows "\<exists>q. p_free p a sz = Inr q \<and> part_inv q \<and> p_totalSize q = p_totalSize p \<and>
    p_free_set q = p_free_set p \<union> {a..<a + sz}"
proof -
  have gi: "gaps_inv (p_totalSize p) (p_gaps p)" using inv by (simp add: part_inv_def)
  obtain gs' where gs': "free_core (p_gaps p) a sz = Inr gs'" "gaps_inv (p_totalSize p) gs'"
    "free_set gs' = free_set (p_gaps p) \<union> {a..<a + sz}"
    using free_core_spec [OF gi sz] apart by (auto simp: p_free_set_def)
  let ?body = "\<lambda>p. res_bind (checkNewGap (p_gaps p) a sz) (\<lambda>_.
        res_bind (free_core (p_gaps p) a sz) (\<lambda>gs. Inr ((), p\<lparr>p_gaps := gs\<rparr>)))"
  have "checkNewGap (p_gaps p) a sz = Inr ()"
    using checkNewGap_ok [OF gi sz] apart by (simp add: p_free_set_def)
  then have "validated p ?body = Inr ((), p\<lparr>p_gaps := gs'\<rparr>)"
    using gs' by (intro validated_ok [OF inv]) (simp_all add: part_inv_def)
  then have "p_free p a sz = Inr (p\<lparr>p_gaps := gs'\<rparr>)"
    using sz part_inv_bound [OF inv] by (simp add: p_free_def)
  then show ?thesis using gs' by (auto simp: part_inv_def p_free_set_def)
qed

section \<open>The gap list is determined by the free addresses\<close>

lemma gaps_canonical:
  assumes "gaps_inv T gs" "gaps_inv T hs" "free_set gs = free_set hs"
  shows "gs = hs"
  using assms
proof (induction gs arbitrary: hs)
  case Nil
  then show ?case by (cases hs) (auto simp: gaps_inv_Cons gap_in_def gap_set_def)
next
  case (Cons g gs)
  then obtain h hs' where hs: "hs = h # hs'"
    by (cases hs) (auto simp: gaps_inv_Cons gap_in_def gap_set_def)
  have lo: "\<forall>x\<in>free_set gs. g_end g < x" "\<forall>x\<in>free_set hs'. g_end h < x" "gap_in T g" "gap_in T h"
    using Cons.prems(1,2) hs by (auto simp: gaps_inv_Cons free_set_def gap_set_def)
  have eq: "gap_set g \<union> free_set gs = gap_set h \<union> free_set hs'" using Cons.prems(3) hs by simp
  have first: "g_begin k \<le> g_begin l"
    if "gap_in T k" "gap_in T l" "gap_set k \<union> X = gap_set l \<union> Y" "\<forall>x\<in>X. g_end k < x" for k l X Y
  proof -
    have "g_begin l \<in> gap_set l" using that(2) by (simp add: gap_set_def gap_in_def)
    then have "g_begin l \<in> gap_set k \<or> g_end k < g_begin l" using that(3,4) by blast
    then show ?thesis using that(1) by (auto simp: gap_set_def gap_in_def)
  qed
  have b: "g_begin g = g_begin h"
    using first [OF lo(3,4) eq lo(1)] first [OF lo(4,3) eq [symmetric] lo(2)] by simp
  have notin: "g_end g \<notin> gap_set g \<union> free_set gs" "g_end h \<notin> gap_set h \<union> free_set hs'"
    using lo by (auto simp: gap_set_def)
  have e: "g_end g = g_end h"
  proof (rule ccontr)
    assume "g_end g \<noteq> g_end h"
    then have "g_end g \<in> gap_set h \<or> g_end h \<in> gap_set g"
      using b lo(3,4) by (auto simp: gap_set_def gap_in_def)
    then show False using notin eq by blast
  qed
  have gh: "g = h" using b e by simp
  have "gap_set g \<inter> free_set gs = {}" "gap_set h \<inter> free_set hs' = {}"
    using lo by (force simp: gap_set_def)+
  then have "free_set gs = free_set hs'" using eq gh by blast
  then show ?case using Cons.IH [of hs'] Cons.prems(1,2) hs gh by (auto simp: gaps_inv_Cons)
qed

lemma part_canonical:
  assumes "part_inv p" "part_inv q" "p_totalSize p = p_totalSize q" "p_free_set p = p_free_set q"
  shows "p = q"
proof -
  have "p_gaps p = p_gaps q"
    using assms by (intro gaps_canonical [of "p_totalSize p"]) (simp_all add: part_inv_def p_free_set_def)
  then show ?thesis using assms(3) by simp
qed

section \<open>The partitioner as a memory pool\<close>

interpretation pool: memory_pool part_inv p_totalSize p_free_set InvalidAddress p_alloc p_allocFixed p_free
proof
  show "p_free_set p \<subseteq> {..<p_totalSize p}" if "part_inv p" for p
    using that free_set_bound by (auto simp: part_inv_def p_free_set_def)
  show "p_totalSize p < InvalidAddress" if "part_inv p" for p
    using that by (rule part_inv_bound)
qed (rule part_canonical p_alloc_spec p_allocFixed_spec p_free_spec; assumption)+

section \<open>Statistics\<close>

lemma card_gap_set: "gap_in T g \<Longrightarrow> T < InvalidAddress \<Longrightarrow> card (gap_set g) = gap_size g"
  by (simp add: gap_set_def gap_size_eq)

lemma card_free_set_less: "gaps_inv T gs \<Longrightarrow> card (free_set gs) < U64"
proof -
  assume "gaps_inv T gs"
  then have "card (free_set gs) \<le> T" "T < U64"
    using free_set_bound card_mono [of "{..<T}" "free_set gs"] gaps_inv_bound below_Invalid by fastforce+
  then show ?thesis by simp
qed

lemma totalFreeSize_sum:
  assumes "gaps_inv T gs" "r + card (free_set gs) < U64"
  shows "foldl (\<lambda>r g. u64_add r (gap_size g)) r gs = r + card (free_set gs)"
  using assms
proof (induction gs arbitrary: r)
  case (Cons g gs)
  have g: "gap_in T g" "T < InvalidAddress" "gaps_inv T gs"
    using Cons.prems(1) gaps_inv_bound by (auto simp: gaps_inv_Cons)
  have "gap_set g \<inter> free_set gs = {}" using gap_apart [of T "[]" g gs] Cons.prems(1) by simp
  then have c: "card (free_set (g # gs)) = gap_size g + card (free_set gs)"
    using card_gap_set [OF g(1,2)] by (simp add: card_Un_disjoint gap_set_def)
  then have "u64_add r (gap_size g) = r + gap_size g" using Cons.prems(2) by (simp add: u64_add_eq)
  then show ?case using Cons.IH [OF g(3), of "r + gap_size g"] Cons.prems(2) c by simp
qed simp

lemma maxFreeSize_fold:
  "foldl (\<lambda>r g. max r (gap_size g)) r gs = Max (insert r (gap_size ` set gs))"
proof (induction gs arbitrary: r)
  case (Cons g gs)
  have "Max (insert (max r (gap_size g)) (gap_size ` set gs)) = Max (insert r (gap_size ` set (g # gs)))"
    by (rule Max_eq_if) (auto simp: max_def)
  then show ?case using Cons by simp
qed simp

lemma block_fits_max:
  assumes inv: "gaps_inv T gs" and sz: "0 < sz"
  shows "(\<exists>a. {a..<a + sz} \<subseteq> free_set gs) \<longleftrightarrow> (\<exists>g\<in>set gs. sz \<le> gap_size g)"
proof
  assume "\<exists>a. {a..<a + sz} \<subseteq> free_set gs"
  then obtain a where a: "{a..<a + sz} \<subseteq> free_set gs" ..
  have "a < a + sz" using sz by simp
  then obtain L g R where g: "gs = L @ g # R" "g_begin g \<le> a" "a + sz \<le> g_end g"
    using block_in_one_gap [OF inv _ a] by blast
  have "gap_size g = g_end g - g_begin g" using inv g(1) gap_size_eq gaps_inv_gap_in gaps_inv_bound by fastforce
  then have "sz \<le> gap_size g" using g by linarith
  then show "\<exists>g\<in>set gs. sz \<le> gap_size g" using g(1) by auto
next
  assume "\<exists>g\<in>set gs. sz \<le> gap_size g"
  then obtain g where g: "g \<in> set gs" "sz \<le> gap_size g" by auto
  have "gap_size g = g_end g - g_begin g" using inv g(1) gap_size_eq gaps_inv_gap_in gaps_inv_bound by blast
  then have "{g_begin g..<g_begin g + sz} \<subseteq> gap_set g" using g(2) by (auto simp: gap_set_def)
  then show "\<exists>a. {a..<a + sz} \<subseteq> free_set gs" using g(1) by (auto simp: free_set_def)
qed

section \<open>Runs of a client\<close>

text \<open>
  The states a partitioner passes through when its client releases only blocks it was
  given, with the blocks the client holds.
\<close>

inductive part_run :: "nat \<Rightarrow> partitioner \<Rightarrow> block list \<Rightarrow> bool" for T where
  start: "new_partitioner T = Inr p \<Longrightarrow> part_run T p []"
| take: "part_run T p bs \<Longrightarrow> 0 < sz \<Longrightarrow> 0 < al \<Longrightarrow> T + al < U64 \<Longrightarrow> p_alloc p sz al dir = Inr (a, q) \<Longrightarrow>
    a \<noteq> InvalidAddress \<Longrightarrow> part_run T q ((a, sz) # bs)"
| take_fixed: "part_run T p bs \<Longrightarrow> 0 < sz \<Longrightarrow> {a..<a + sz} \<subseteq> p_free_set p \<Longrightarrow> p_allocFixed p a sz = Inr q \<Longrightarrow>
    part_run T q ((a, sz) # bs)"
| give: "part_run T p (bs @ (a, sz) # cs) \<Longrightarrow> p_free p a sz = Inr q \<Longrightarrow> part_run T q (bs @ cs)"

definition held_inv :: "nat \<Rightarrow> partitioner \<Rightarrow> block list \<Rightarrow> bool" where
  "held_inv T p bs \<longleftrightarrow> part_inv p \<and> p_totalSize p = T \<and> blocks_ok T bs \<and>
     p_free_set p = {..<T} - blocks_set bs"

lemma held_inv_take:
  assumes "held_inv T p bs" "0 < sz" "{a..<a + sz} \<subseteq> p_free_set p"
    "part_inv q" "p_totalSize q = p_totalSize p" "p_free_set q = p_free_set p - {a..<a + sz}"
  shows "held_inv T q ((a, sz) # bs)"
proof -
  have "a + sz - 1 \<in> {a..<a + sz}" using assms(2) by auto
  then have "a + sz - 1 \<in> {..<T}" using assms(1,3) unfolding held_inv_def by blast
  then have "a + sz \<le> T" using assms(2) by auto
  then show ?thesis using assms by (auto simp: held_inv_def)
qed

lemma held_inv_give:
  assumes "held_inv T p (bs @ (a, sz) # cs)"
  shows "\<exists>q. p_free p a sz = Inr q \<and> held_inv T q (bs @ cs)"
proof -
  have ok: "blocks_ok T bs" "blocks_ok T cs" "0 < sz" "a + sz \<le> T"
    "blocks_set bs \<inter> (block_set (a, sz) \<union> blocks_set cs) = {}" "block_set (a, sz) \<inter> blocks_set cs = {}"
    using assms by (auto simp: held_inv_def blocks_ok_append)
  obtain q where q: "p_free p a sz = Inr q" "part_inv q" "p_totalSize q = p_totalSize p"
    "p_free_set q = p_free_set p \<union> {a..<a + sz}"
    using pool.release_law [of p sz a] assms ok by (auto simp: held_inv_def)
  have "p_free_set q = {..<T} - blocks_set (bs @ cs)"
    using q(4) assms ok by (auto simp: held_inv_def)
  then show ?thesis using q assms ok by (auto simp: held_inv_def blocks_ok_append)
qed

lemma part_run_inv: "part_run T p bs \<Longrightarrow> T < InvalidAddress \<Longrightarrow> held_inv T p bs"
proof (induction rule: part_run.induct)
  case (start p)
  then have "0 < T" by (simp add: new_partitioner_def split: if_splits)
  then show ?case using start new_partitioner_spec [of T] by (auto simp: held_inv_def)
next
  case (take p bs sz al dir a q)
  have h: "held_inv T p bs" using take by simp
  then have "part_inv p" "p_totalSize p = T" by (simp_all add: held_inv_def)
  note b = pool.alloc_block [of p sz al dir a q]
  show ?case by (rule held_inv_take [OF h]) (use b take h in \<open>auto simp: held_inv_def\<close>)
next
  case (take_fixed p bs sz a q)
  have h: "held_inv T p bs" using take_fixed by simp
  obtain q' where "p_allocFixed p a sz = Inr q'" "part_inv q'" "p_totalSize q' = p_totalSize p"
    "p_free_set q' = p_free_set p - {a..<a + sz}"
    using p_allocFixed_spec [of p sz a] h take_fixed by (auto simp: held_inv_def)
  then show ?case using held_inv_take [OF h] take_fixed by auto
next
  case (give p bs a sz cs q)
  then show ?case using held_inv_give by fastforce
qed

section \<open>Properties\<close>

text \<open>
  C3. Allocation is correct and complete in both directions: it never trips an
  assertion; if it returns an address, the block is aligned, was free and is exactly
  what leaves the free set; if it returns the invalid address, nothing changes and no aligned
  block of that size is free anywhere.
\<close>

theorem alloc_sound_and_complete:
  assumes "part_inv p" "0 < sz" "0 < al" "p_totalSize p + al < U64"
  shows "\<exists>a q. p_alloc p sz al dir = Inr (a, q) \<and> part_inv q \<and> p_totalSize q = p_totalSize p \<and>
    (if a = InvalidAddress then q = p \<and> (\<forall>x. al dvd x \<longrightarrow> \<not> {x..<x + sz} \<subseteq> p_free_set p)
     else al dvd a \<and> {a..<a + sz} \<subseteq> p_free_set p \<and> p_free_set q = p_free_set p - {a..<a + sz})"
  using assms by (rule pool.alloc_law)

definition example_part :: partitioner where
  "example_part = \<lparr>p_gaps = [mk_gap 8 16, mk_gap 20 64], p_totalSize = 64\<rparr>"

lemma example_part_inv: "part_inv example_part"
  by (simp add: example_part_def part_inv_def gaps_inv_Cons gap_in_def InvalidAddress_def U64_def)

theorem alloc_sound_and_complete_witness:
  "\<exists>a q. p_alloc example_part 4 16 Down = Inr (a, q) \<and> part_inv q"
proof -
  have "p_totalSize example_part + 16 < U64" by (simp add: example_part_def U64_def)
  then show ?thesis using alloc_sound_and_complete [OF example_part_inv, of 4 16 Down] by auto
qed

text \<open>
  Best fit: whenever an address is returned, the gap it is taken from is no
  larger than any other gap that could serve the request, except for the last gap in the
  direction of the allocation, which is kept as the last resort.
\<close>

theorem alloc_best_fit:
  assumes "part_inv p" "0 < sz" "0 < al" "p_totalSize p + al < U64"
    and "p_alloc p sz al dir = Inr (a, q)" "a \<noteq> InvalidAddress"
  shows "\<exists>g\<in>set (p_gaps p). g_begin g \<le> a \<and> a + sz \<le> g_end g \<and>
    (\<forall>j<length (p_gaps p). j \<noteq> (case dir of Up \<Rightarrow> length (p_gaps p) - 1 | Down \<Rightarrow> 0) \<longrightarrow>
       getAddrFromGap (p_gaps p ! j) sz al dir \<noteq> InvalidAddress \<longrightarrow> gap_size g \<le> gap_size (p_gaps p ! j))"
proof -
  let ?gs = "p_gaps p"
  have gi: "gaps_inv (p_totalSize p) ?gs" using assms(1) by (simp add: part_inv_def)
  have ne: "?gs \<noteq> []" "minimal_gap ?gs sz al dir \<noteq> None"
    using p_alloc_failure(1) [OF assms(1-4), of dir] assms(5,6) by auto
  then obtain i where i: "minimal_gap ?gs sz al dir = Some i" by auto
  have a: "a = getAddrFromGap (?gs ! i) sz al dir"
    using p_alloc_success [OF assms(1-4) i ne(1)] assms(5) by auto
  note mi = minimal_gap_Some [OF i ne(1)]
  have g: "gap_in (p_totalSize p) (?gs ! i)" using gi mi(1) by (simp add: gaps_inv_gap_in)
  have fit: "fits (?gs ! i) sz al a"
    using getAddrFromGap_fits [OF g assms(4) gaps_inv_bound [OF gi] assms(2,3) mi(2)] a by simp
  have small: "gap_size (?gs ! j) < U64 - 1" if "j < length ?gs" for j
    using that gi gap_size_eq [of "p_totalSize p" "?gs ! j"] gaps_inv_gap_in [OF gi, of "?gs ! j"]
      gaps_inv_bound [OF gi] by (auto simp: gap_in_def InvalidAddress_def)
  show ?thesis
    using fit mi(1) minimal_gap_best [OF i] small
    by (intro bexI [of _ "?gs ! i"]) (auto simp: fits_def)
qed

theorem alloc_best_fit_witness:
  "\<exists>g\<in>set (p_gaps example_part). g_begin g \<le> 8 \<and> 8 + 4 \<le> g_end g"
proof -
  have "p_totalSize example_part + 4 < U64" by (simp add: example_part_def U64_def)
  moreover have "p_alloc example_part 4 4 Up =
      Inr (8, \<lparr>p_gaps = [mk_gap 12 16, mk_gap 20 64], p_totalSize = 64\<rparr>)"
    by (simp add: example_part_def p_alloc_def validated_def gap_ok_def chooseMinimalGap_def minimal_gap_def
        getAddrFromGap_def useGap_def align_up_def gap_size_def InvalidAddress_def u64_add_def u64_sub_def
        u64_mul_def U64_def mk_gap_def Let_def)
  ultimately show ?thesis
    using alloc_best_fit [OF example_part_inv, of 4 4 Up 8] by (auto simp: InvalidAddress_def U64_def)
qed

text \<open>
  C5. A client that only gives back what it holds never sees an assertion fail on
  release, whatever the interleaving of its calls; the blocks it holds never overlap and lie in the
  memory, and the free addresses are exactly the others.
\<close>

theorem client_runs_safe:
  assumes "part_run T p (bs @ (a, sz) # cs)" "T < InvalidAddress"
  shows "blocks_ok T (bs @ (a, sz) # cs) \<and> p_free_set p = {..<T} - blocks_set (bs @ (a, sz) # cs) \<and>
    (\<exists>q. p_free p a sz = Inr q \<and> part_run T q (bs @ cs))"
proof -
  note h = part_run_inv [OF assms]
  have "\<exists>q. p_free p a sz = Inr q \<and> part_run T q (bs @ cs)"
    using held_inv_give [OF h] part_run.give [OF assms(1)] by blast
  then show ?thesis using h unfolding held_inv_def by blast
qed

theorem client_runs_safe_witness:
  "\<exists>p q. part_run 64 p [(0, 64)] \<and> p_free p 0 64 = Inr q"
proof -
  have n: "new_partitioner 64 = Inr \<lparr>p_gaps = [mk_gap 0 64], p_totalSize = 64\<rparr>"
    by (simp add: new_partitioner_def)
  have f: "p_allocFixed \<lparr>p_gaps = [mk_gap 0 64], p_totalSize = 64\<rparr> 0 64 = Inr \<lparr>p_gaps = [], p_totalSize = 64\<rparr>"
    by (simp add: p_allocFixed_def validated_def gap_ok_def allocFixed_core_def lower_bound_gap_def
        gap_size_def InvalidAddress_def u64_add_def u64_sub_def U64_def mk_gap_def Let_def)
  have r: "part_run 64 \<lparr>p_gaps = [], p_totalSize = 64\<rparr> [(0, 64)]"
    by (rule part_run.take_fixed [OF part_run.start [OF n] _ _ f]) (auto simp: p_free_set_def gap_set_def)
  have "(64::nat) < InvalidAddress" by (simp add: InvalidAddress_def U64_def)
  then have "\<exists>q. p_free \<lparr>p_gaps = [], p_totalSize = 64\<rparr> 0 64 = Inr q"
    using client_runs_safe [of 64 "\<lparr>p_gaps = [], p_totalSize = 64\<rparr>" "[]" 0 64 "[]"] r by auto
  then show ?thesis using r by blast
qed

text \<open>
  C6. Releasing an allocated block restores the partitioner itself: gaps are
  coalesced so that a free set has one representation only.
\<close>

theorem alloc_free_roundtrip:
  assumes "part_inv p" "0 < sz" "0 < al" "p_totalSize p + al < U64"
    and "p_alloc p sz al dir = Inr (a, q)" "a \<noteq> InvalidAddress"
  shows "p_free q a sz = Inr p"
proof -
  note b = pool.alloc_block [OF assms(1-6)]
  have "res_fold (\<lambda>(a, s) p. p_free p a s) [(a, sz)] q = Inr p"
    by (rule pool.release_restores [OF assms(1)]) (use b assms(2) in auto)
  then show ?thesis by (auto simp: res_bind_eq_Inr)
qed

theorem alloc_free_roundtrip_witness:
  "\<exists>a q. p_alloc example_part 40 1 Up = Inr (a, q) \<and> p_free q a 40 = Inr example_part"
proof -
  have "p_totalSize example_part + 1 < U64" by (simp add: example_part_def U64_def)
  moreover have "p_alloc example_part 40 1 Up =
      Inr (20, \<lparr>p_gaps = [mk_gap 8 16, mk_gap 60 64], p_totalSize = 64\<rparr>)"
    by (simp add: example_part_def p_alloc_def validated_def gap_ok_def chooseMinimalGap_def minimal_gap_def
        getAddrFromGap_def useGap_def align_up_def gap_size_def InvalidAddress_def u64_add_def u64_sub_def
        u64_mul_def U64_def mk_gap_def Let_def)
  ultimately show ?thesis
    using alloc_free_roundtrip [OF example_part_inv, of 40 1 Up 20] by (auto simp: InvalidAddress_def U64_def)
qed

text \<open>
  The statistics are what their names say: the total free size counts the
  free addresses, and the maximal free size is the size of the largest block that is free.
\<close>

theorem free_size_statistics:
  assumes "part_inv p" "0 < sz"
  shows "totalFreeSize p = card (p_free_set p) \<and>
    ((\<exists>a. {a..<a + sz} \<subseteq> p_free_set p) \<longleftrightarrow> sz \<le> maxFreeSize p)"
proof -
  have gi: "gaps_inv (p_totalSize p) (p_gaps p)" using assms(1) by (simp add: part_inv_def)
  have "totalFreeSize p = card (p_free_set p)"
    using totalFreeSize_sum [OF gi, of 0] card_free_set_less [OF gi] by (simp add: totalFreeSize_def p_free_set_def)
  moreover have "sz \<le> maxFreeSize p \<longleftrightarrow> (\<exists>g\<in>set (p_gaps p). sz \<le> gap_size g)"
    using assms(2) by (auto simp: maxFreeSize_def maxFreeSize_fold Max_ge_iff)
  ultimately show ?thesis
    using block_fits_max [OF gi assms(2)] by (simp add: p_free_set_def)
qed

theorem free_size_statistics_witness:
  "totalFreeSize example_part = card (p_free_set example_part) \<and>
   (\<exists>a. {a..<a + 40} \<subseteq> p_free_set example_part)"
proof -
  have "40 \<le> maxFreeSize example_part"
    by (simp add: maxFreeSize_def example_part_def gap_size_def u64_sub_def U64_def)
  then show ?thesis using free_size_statistics [OF example_part_inv, of 40] by auto
qed

end
