(* ===== verification/Linear_Scan.thy ===== *)
theory Linear_Scan
  imports Partitioner "HOL-Library.Multiset"
begin

text \<open>
  \<^verbatim>\<open>include/vpux/compiler/utils/linear_scan.hpp\<close>: the linear-scan allocator, which
  keeps the live ranges that hold memory, asks a handler about them and a partitioner for
  addresses.  The handler is a template parameter of the source; here it is a record
  of its operations on a handler state.  The scoped helpers
  \<^verbatim>\<open>TempAllocationTester\<close> and \<^verbatim>\<open>AllocationGuard\<close> are the
  lists of blocks they would release, threaded through the calls.
\<close>

record ('v, 'h) handler_ops =
  h_isAlive :: "'h \<Rightarrow> 'v \<Rightarrow> bool"
  h_isFixedAlloc :: "'h \<Rightarrow> 'v \<Rightarrow> bool"
  h_getSize :: "'h \<Rightarrow> 'v \<Rightarrow> nat"
  h_getAlignment :: "'h \<Rightarrow> 'v \<Rightarrow> nat"
  h_getAddress :: "'h \<Rightarrow> 'v \<Rightarrow> nat res"
  h_allocated :: "'h \<Rightarrow> 'v \<Rightarrow> nat \<Rightarrow> 'h res"
  h_freed :: "'h \<Rightarrow> 'v \<Rightarrow> 'h res"
  h_getSpillWeight :: "'h \<Rightarrow> 'v \<Rightarrow> int res"
  h_spilled :: "'h \<Rightarrow> 'v \<Rightarrow> (bool \<times> 'h) res"

record ('v, 'h) linear_scan =
  ls_part :: partitioner
  ls_ranges :: "'v list"
  ls_handler :: 'h

section \<open>Construction and release\<close>

definition release_all :: "block list \<Rightarrow> partitioner \<Rightarrow> partitioner res" where
  "release_all = res_fold (\<lambda>(a, s) p. p_free p a s)"

definition reserve_all :: "block list \<Rightarrow> partitioner \<Rightarrow> partitioner res" where
  "reserve_all = res_fold (\<lambda>(a, s) p. p_allocFixed p a s)"

definition new_linear_scan :: "nat \<Rightarrow> block list \<Rightarrow> 'h \<Rightarrow> ('v, 'h) linear_scan res" where
  "new_linear_scan sz reservedVec h =
     res_bind (new_partitioner sz) (\<lambda>p. res_bind (reserve_all reservedVec p) (\<lambda>p.
       Inr \<lparr>ls_part = p, ls_ranges = [], ls_handler = h\<rparr>))"

text \<open>The last element takes the place of the removed one.\<close>

definition swap_pop :: "'v list \<Rightarrow> nat \<Rightarrow> 'v list" where
  "swap_pop xs idx = butlast (xs[idx := last xs])"

definition freeLiveRangeAt ::
  "('v, 'h) handler_ops \<Rightarrow> nat \<Rightarrow> ('v, 'h) linear_scan \<Rightarrow> ('v, 'h) linear_scan res" where
  "freeLiveRangeAt ops idx s =
     (if \<not> idx < length (ls_ranges s) then Inl Assertion_Failure
      else let h = ls_handler s; rng = ls_ranges s ! idx in
        res_bind (h_getAddress ops h rng) (\<lambda>addr.
        res_bind (p_free (ls_part s) addr (h_getSize ops h rng)) (\<lambda>p.
        res_bind (h_freed ops h rng) (\<lambda>h'.
        Inr \<lparr>ls_part = p, ls_ranges = swap_pop (ls_ranges s) idx, ls_handler = h'\<rparr>))))"

definition freeDeadRanges ::
  "('v, 'h) handler_ops \<Rightarrow> ('v, 'h) linear_scan \<Rightarrow> ('v, 'h) linear_scan res" where
  "freeDeadRanges ops s =
     res_fold (\<lambda>idx s. if h_isAlive ops (ls_handler s) (ls_ranges s ! idx) then Inr s else freeLiveRangeAt ops idx s)
       (rev [0..<length (ls_ranges s)]) s"

section \<open>Spilling\<close>

text \<open>
  \<^verbatim>\<open>std::min_element\<close>: the first of the smallest elements.  The weight of a
  range is asked for only in comparisons, so not at all when there is one range.
\<close>

fun min_element_from :: "('v \<Rightarrow> int res) \<Rightarrow> 'v list \<Rightarrow> nat \<Rightarrow> nat list \<Rightarrow> nat res" where
  "min_element_from w xs smallest [] = Inr smallest"
| "min_element_from w xs smallest (i # is) =
     res_bind (w (xs ! i)) (\<lambda>a. res_bind (w (xs ! smallest)) (\<lambda>b.
       min_element_from w xs (if a < b then i else smallest) is))"

definition getSpillCandidate ::
  "('v, 'h) handler_ops \<Rightarrow> ('v, 'h) linear_scan \<Rightarrow> ('v option \<times> ('v, 'h) linear_scan) res" where
  "getSpillCandidate ops s =
     (if ls_ranges s = [] then Inr (None, s)
      else let h = ls_handler s in
        res_bind (min_element_from (h_getSpillWeight ops h) (ls_ranges s) 0 [1..<length (ls_ranges s)]) (\<lambda>it.
        let spillCandidate = ls_ranges s ! it in
        res_bind (h_getAddress ops h spillCandidate) (\<lambda>spilledAddr.
        res_bind (p_free (ls_part s) spilledAddr (h_getSize ops h spillCandidate)) (\<lambda>p.
        Inr (Some spillCandidate, s\<lparr>ls_part := p, ls_ranges := swap_pop (ls_ranges s) it\<rparr>)))))"

definition spillConflictingRange ::
  "('v, 'h) handler_ops \<Rightarrow> 'v \<Rightarrow> ('v, 'h) linear_scan \<Rightarrow> (bool \<times> ('v, 'h) linear_scan) res" where
  "spillConflictingRange ops rng s =
     res_bind (h_spilled ops (ls_handler s) rng) (\<lambda>(ok, h).
       if \<not> ok then Inr (False, s\<lparr>ls_handler := h\<rparr>)
       else res_bind (h_freed ops h rng) (\<lambda>h. Inr (True, s\<lparr>ls_handler := h\<rparr>)))"

definition restoreNonConflictingRange ::
  "('v, 'h) handler_ops \<Rightarrow> 'v \<Rightarrow> nat \<Rightarrow> nat \<Rightarrow> ('v, 'h) linear_scan \<Rightarrow> ('v, 'h) linear_scan res" where
  "restoreNonConflictingRange ops rng addr sz s =
     res_bind (p_allocFixed (ls_part s) addr sz) (\<lambda>p.
     res_bind (h_allocated ops (ls_handler s) rng addr) (\<lambda>h.
     Inr \<lparr>ls_part = p, ls_ranges = ls_ranges s @ [rng], ls_handler = h\<rparr>))"

fun processSpillCandidates ::
  "('v, 'h) handler_ops \<Rightarrow> 'v list \<Rightarrow> nat \<Rightarrow> nat \<Rightarrow> ('v, 'h) linear_scan \<Rightarrow> (bool \<times> ('v, 'h) linear_scan) res" where
  "processSpillCandidates ops [] newRangeAddr newRangeSize s = Inr (True, s)"
| "processSpillCandidates ops (candidate # cs) newRangeAddr newRangeSize s =
     res_bind (h_getAddress ops (ls_handler s) candidate) (\<lambda>candidateAddr.
     let candidateSize = h_getSize ops (ls_handler s) candidate in
     res_bind (intersects candidateAddr candidateSize newRangeAddr newRangeSize) (\<lambda>conflict.
     if conflict then
       res_bind (spillConflictingRange ops candidate s) (\<lambda>(ok, s).
         if ok then processSpillCandidates ops cs newRangeAddr newRangeSize s else Inr (False, s))
     else res_bind (restoreNonConflictingRange ops candidate candidateAddr candidateSize s)
       (processSpillCandidates ops cs newRangeAddr newRangeSize)))"

section \<open>Allocation of one range\<close>

text \<open>
  Both loops stop because a spill candidate leaves the live ranges.  A loop returns
  whether it was left by its \<^verbatim>\<open>break\<close>, and the spill candidates so far.
\<close>

lemma min_element_from_less:
  "min_element_from w xs k is = Inr r \<Longrightarrow> k < n \<Longrightarrow> \<forall>i\<in>set is. i < n \<Longrightarrow> r < n"
  by (induction w xs k "is" rule: min_element_from.induct) (auto simp: res_bind_eq_Inr split: if_splits)

lemma getSpillCandidate_removes:
  assumes "getSpillCandidate ops s = Inr (Some c, t)"
  shows "length (ls_ranges s) = Suc (length (ls_ranges t))"
  using assms
  by (auto simp: getSpillCandidate_def Let_def res_bind_eq_Inr swap_pop_def split: if_splits)

fun no_conflict :: "('v, 'h) handler_ops \<Rightarrow> 'h \<Rightarrow> nat \<Rightarrow> nat \<Rightarrow> 'v list \<Rightarrow> bool res" where
  "no_conflict ops h newRangeAddr newRangeSize [] = Inr True"
| "no_conflict ops h newRangeAddr newRangeSize (prevRange # rs) =
     res_bind (h_getAddress ops h prevRange) (\<lambda>prevRangeAddr.
     res_bind (intersects newRangeAddr newRangeSize prevRangeAddr (h_getSize ops h prevRange)) (\<lambda>x.
     if x then Inr False else no_conflict ops h newRangeAddr newRangeSize rs))"

function (sequential) fixed_spill_loop ::
  "('v, 'h) handler_ops \<Rightarrow> nat \<Rightarrow> nat \<Rightarrow> bool \<Rightarrow> 'v list \<Rightarrow> ('v, 'h) linear_scan \<Rightarrow>
   (bool \<times> 'v list \<times> ('v, 'h) linear_scan) res" where
  "fixed_spill_loop ops newRangeAddr newRangeSize allowSpills spillCandidates s =
     res_bind (no_conflict ops (ls_handler s) newRangeAddr newRangeSize (ls_ranges s)) (\<lambda>ok.
     if ok then Inr (True, spillCandidates, s)
     else if \<not> allowSpills then Inr (False, spillCandidates, s)
     else res_bind (getSpillCandidate ops s) (\<lambda>(spillCandidate, t).
       case spillCandidate of
         None \<Rightarrow> Inr (False, spillCandidates, t)
       | Some c \<Rightarrow> fixed_spill_loop ops newRangeAddr newRangeSize allowSpills (spillCandidates @ [c]) t))"
  by pat_completeness auto
termination
  by (relation "measure (\<lambda>(_, _, _, _, _, s). length (ls_ranges s))") (auto dest: getSpillCandidate_removes)

definition record_block :: "nat \<Rightarrow> nat \<Rightarrow> block list \<Rightarrow> block list" where
  "record_block addr sz guard = (if addr \<noteq> InvalidAddress then guard @ [(addr, sz)] else guard)"

definition allocFixedRange ::
  "('v, 'h) handler_ops \<Rightarrow> 'v \<Rightarrow> bool \<Rightarrow> block list \<Rightarrow> ('v, 'h) linear_scan \<Rightarrow>
   (bool \<times> block list \<times> ('v, 'h) linear_scan) res" where
  "allocFixedRange ops newRange allowSpills guard s =
     (if \<not> h_isFixedAlloc ops (ls_handler s) newRange then Inl Assertion_Failure
      else res_bind (h_getAddress ops (ls_handler s) newRange) (\<lambda>newRangeAddr.
        let newRangeSize = h_getSize ops (ls_handler s) newRange in
        if newRangeAddr = InvalidAddress then Inl Assertion_Failure
        else res_bind (fixed_spill_loop ops newRangeAddr newRangeSize allowSpills [] s) (\<lambda>(ok, spillCandidates, s).
          if \<not> ok then Inr (False, guard, s)
          else res_bind (processSpillCandidates ops spillCandidates newRangeAddr newRangeSize s) (\<lambda>(ok, s).
            if \<not> ok then Inr (False, guard, s)
            else res_bind (p_allocFixed (ls_part s) newRangeAddr newRangeSize) (\<lambda>p.
              Inr (True, record_block newRangeAddr newRangeSize guard, s\<lparr>ls_part := p\<rparr>))))))"

function (sequential) dynamic_spill_loop ::
  "('v, 'h) handler_ops \<Rightarrow> nat \<Rightarrow> nat \<Rightarrow> bool \<Rightarrow> direction \<Rightarrow> 'v list \<Rightarrow> ('v, 'h) linear_scan \<Rightarrow>
   (nat option \<times> 'v list \<times> ('v, 'h) linear_scan) res" where
  "dynamic_spill_loop ops newRangeSize newRangeAlignment allowSpills dir spillCandidates s =
     res_bind (p_alloc (ls_part s) newRangeSize newRangeAlignment dir) (\<lambda>(newRangeAddr, p).
     let s = s\<lparr>ls_part := p\<rparr> in
     if newRangeAddr \<noteq> InvalidAddress then Inr (Some newRangeAddr, spillCandidates, s)
     else if \<not> allowSpills then Inr (None, spillCandidates, s)
     else res_bind (getSpillCandidate ops s) (\<lambda>(spillCandidate, t).
       case spillCandidate of
         None \<Rightarrow> Inr (None, spillCandidates, t)
       | Some c \<Rightarrow> dynamic_spill_loop ops newRangeSize newRangeAlignment allowSpills dir (spillCandidates @ [c]) t))"
  by pat_completeness auto
termination
  by (relation "measure (\<lambda>(_, _, _, _, _, _, s). length (ls_ranges s))") (auto dest!: getSpillCandidate_removes)

definition allocDynamicRange ::
  "('v, 'h) handler_ops \<Rightarrow> 'v \<Rightarrow> bool \<Rightarrow> direction \<Rightarrow> block list \<Rightarrow> ('v, 'h) linear_scan \<Rightarrow>
   (nat option \<times> block list \<times> ('v, 'h) linear_scan) res" where
  "allocDynamicRange ops newRange allowSpills dir guard s =
     (if h_isFixedAlloc ops (ls_handler s) newRange then Inl Assertion_Failure
      else let newRangeSize = h_getSize ops (ls_handler s) newRange;
               newRangeAlignment = h_getAlignment ops (ls_handler s) newRange in
        res_bind (dynamic_spill_loop ops newRangeSize newRangeAlignment allowSpills dir [] s) (\<lambda>(addr, spillCandidates, s).
          case addr of
            None \<Rightarrow> Inr (None, guard, s)
          | Some newRangeAddr \<Rightarrow>
              res_bind (processSpillCandidates ops spillCandidates newRangeAddr newRangeSize s) (\<lambda>(ok, s).
                if \<not> ok then Inr (None, guard, s)
                else Inr (Some newRangeAddr, record_block newRangeAddr newRangeSize guard, s))))"

section \<open>Allocation of a collection of ranges\<close>

text \<open>
  The two passes over the new ranges, fixed ranges first.  They return the pending
  allocations, or \<^verbatim>\<open>None\<close> for the early return; the guard's blocks so far
  come back in both cases since its destructor needs them.
\<close>

fun alloc_fixed_pass ::
  "('v, 'h) handler_ops \<Rightarrow> 'v list \<Rightarrow> bool \<Rightarrow> ('v \<times> nat) list \<Rightarrow> block list \<Rightarrow> ('v, 'h) linear_scan \<Rightarrow>
   (('v \<times> nat) list option \<times> block list \<times> ('v, 'h) linear_scan) res" where
  "alloc_fixed_pass ops [] allowSpills pending guard s = Inr (Some pending, guard, s)"
| "alloc_fixed_pass ops (newRange # rs) allowSpills pending guard s =
     (if \<not> h_isFixedAlloc ops (ls_handler s) newRange then alloc_fixed_pass ops rs allowSpills pending guard s
      else res_bind (allocFixedRange ops newRange allowSpills guard s) (\<lambda>(ok, guard, s).
        if \<not> ok then Inr (None, guard, s)
        else res_bind (h_getAddress ops (ls_handler s) newRange) (\<lambda>addr.
          alloc_fixed_pass ops rs allowSpills (pending @ [(newRange, addr)]) guard s)))"

fun alloc_dynamic_pass ::
  "('v, 'h) handler_ops \<Rightarrow> 'v list \<Rightarrow> bool \<Rightarrow> direction \<Rightarrow> ('v \<times> nat) list \<Rightarrow> block list \<Rightarrow>
   ('v, 'h) linear_scan \<Rightarrow> (('v \<times> nat) list option \<times> block list \<times> ('v, 'h) linear_scan) res" where
  "alloc_dynamic_pass ops [] allowSpills dir pending guard s = Inr (Some pending, guard, s)"
| "alloc_dynamic_pass ops (newRange # rs) allowSpills dir pending guard s =
     (if h_isFixedAlloc ops (ls_handler s) newRange then alloc_dynamic_pass ops rs allowSpills dir pending guard s
      else res_bind (allocDynamicRange ops newRange allowSpills dir guard s) (\<lambda>(addr, guard, s).
        case addr of
          None \<Rightarrow> Inr (None, guard, s)
        | Some addr \<Rightarrow> alloc_dynamic_pass ops rs allowSpills dir (pending @ [(newRange, addr)]) guard s))"

definition commit_range ::
  "('v, 'h) handler_ops \<Rightarrow> 'v \<times> nat \<Rightarrow> ('v, 'h) linear_scan \<Rightarrow> ('v, 'h) linear_scan res" where
  "commit_range ops = (\<lambda>(rng, addr) s.
     if addr = InvalidAddress then Inl Assertion_Failure
     else res_bind (h_allocated ops (ls_handler s) rng addr) (\<lambda>h.
       Inr (s\<lparr>ls_ranges := ls_ranges s @ [rng], ls_handler := h\<rparr>)))"

definition ls_rollback :: "block list \<Rightarrow> ('v, 'h) linear_scan \<Rightarrow> (bool \<times> ('v, 'h) linear_scan) res" where
  "ls_rollback guard s = res_bind (release_all guard (ls_part s)) (\<lambda>p. Inr (False, s\<lparr>ls_part := p\<rparr>))"

definition ls_alloc ::
  "('v, 'h) handler_ops \<Rightarrow> 'v list \<Rightarrow> bool \<Rightarrow> direction \<Rightarrow> ('v, 'h) linear_scan \<Rightarrow>
   (bool \<times> ('v, 'h) linear_scan) res" where
  "ls_alloc ops newLiveRanges allowSpills dir s =
     res_bind (alloc_fixed_pass ops newLiveRanges allowSpills [] [] s) (\<lambda>(pending, guard, s).
     case pending of
       None \<Rightarrow> ls_rollback guard s
     | Some pending \<Rightarrow>
         res_bind (alloc_dynamic_pass ops newLiveRanges allowSpills dir pending guard s) (\<lambda>(pending, guard, s).
         case pending of
           None \<Rightarrow> ls_rollback guard s
         | Some pending \<Rightarrow> res_bind (res_fold (commit_range ops) pending s) (\<lambda>s. Inr (True, s))))"

definition allocWithReservedSpace ::
  "('v, 'h) handler_ops \<Rightarrow> 'v list \<Rightarrow> nat \<Rightarrow> nat \<Rightarrow> bool \<Rightarrow> direction \<Rightarrow> ('v, 'h) linear_scan \<Rightarrow>
   (nat \<times> ('v, 'h) linear_scan) res" where
  "allocWithReservedSpace ops newLiveRanges reservedSpaceSize baseAlignment allowSpills dir s =
     res_bind (p_alloc (ls_part s) reservedSpaceSize baseAlignment dir) (\<lambda>(allocAddr, p).
     let s = s\<lparr>ls_part := p\<rparr> in
     if allocAddr = InvalidAddress then Inr (InvalidAddress, s)
     else res_bind (ls_alloc ops newLiveRanges allowSpills dir s) (\<lambda>(allocSuccess, s).
       res_bind (p_free (ls_part s) allocAddr reservedSpaceSize) (\<lambda>p.
       Inr (if allocSuccess then allocAddr else InvalidAddress, s\<lparr>ls_part := p\<rparr>))))"

definition allocWithExcludedRegion ::
  "('v, 'h) handler_ops \<Rightarrow> block list \<Rightarrow> 'v list \<Rightarrow> bool \<Rightarrow> direction \<Rightarrow> ('v, 'h) linear_scan \<Rightarrow>
   (bool \<times> ('v, 'h) linear_scan) res" where
  "allocWithExcludedRegion ops excludedRanges newLiveRanges allowSpills dir s =
     res_bind (reserve_all excludedRanges (ls_part s)) (\<lambda>p.
     res_bind (ls_alloc ops newLiveRanges allowSpills dir (s\<lparr>ls_part := p\<rparr>)) (\<lambda>(allocSuccess, s).
     res_bind (release_all excludedRanges (ls_part s)) (\<lambda>p.
     Inr (allocSuccess, s\<lparr>ls_part := p\<rparr>))))"

section \<open>Feasibility tests\<close>

text \<open>The tester keeps the blocks it took; its destructor gives them back and compares the gap counts.\<close>

definition tester_alloc :: "nat \<Rightarrow> nat \<Rightarrow> direction \<Rightarrow> block list \<times> partitioner \<Rightarrow> (nat \<times> block list \<times> partitioner) res" where
  "tester_alloc sz alignment dir = (\<lambda>(temp, p).
     res_bind (p_alloc p sz alignment dir) (\<lambda>(addr, p). Inr (addr, record_block addr sz temp, p)))"

definition tester_allocFixed :: "block \<Rightarrow> block list \<times> partitioner \<Rightarrow> (block list \<times> partitioner) res" where
  "tester_allocFixed = (\<lambda>(addr, sz) (temp, p).
     res_bind (p_allocFixed p addr sz) (\<lambda>p. Inr (record_block addr sz temp, p)))"

definition tester_end :: "nat \<Rightarrow> block list \<times> partitioner \<Rightarrow> partitioner res" where
  "tester_end gapCountBefore = (\<lambda>(temp, p).
     res_bind (release_all temp p) (\<lambda>p.
     if length (p_gaps p) = gapCountBefore then Inr p else Inl Assertion_Failure))"

fun tester_ranges ::
  "('v, 'h) handler_ops \<Rightarrow> 'h \<Rightarrow> 'v list \<Rightarrow> direction \<Rightarrow> block list \<times> partitioner \<Rightarrow>
   (bool \<times> block list \<times> partitioner) res" where
  "tester_ranges ops h [] dir tp = Inr (True, tp)"
| "tester_ranges ops h (newRange # rs) dir tp =
     res_bind (tester_alloc (h_getSize ops h newRange) (h_getAlignment ops h newRange) dir tp) (\<lambda>(addr, tp).
       if addr = InvalidAddress then Inr (False, tp) else tester_ranges ops h rs dir tp)"

definition tested ::
  "('v, 'h) linear_scan \<Rightarrow> (block list \<times> partitioner \<Rightarrow> (bool \<times> block list \<times> partitioner) res) \<Rightarrow>
   (bool \<times> ('v, 'h) linear_scan) res" where
  "tested s body =
     res_bind (body ([], ls_part s)) (\<lambda>(ok, tp).
     res_bind (tester_end (length (p_gaps (ls_part s))) tp) (\<lambda>p. Inr (ok, s\<lparr>ls_part := p\<rparr>)))"

definition canAlloc ::
  "('v, 'h) handler_ops \<Rightarrow> 'v list \<Rightarrow> direction \<Rightarrow> ('v, 'h) linear_scan \<Rightarrow> (bool \<times> ('v, 'h) linear_scan) res" where
  "canAlloc ops newLiveRanges dir s = tested s (tester_ranges ops (ls_handler s) newLiveRanges dir)"

definition canAllocWithReservedSpace ::
  "('v, 'h) handler_ops \<Rightarrow> 'v list \<Rightarrow> nat \<Rightarrow> nat \<Rightarrow> direction \<Rightarrow> ('v, 'h) linear_scan \<Rightarrow>
   (bool \<times> ('v, 'h) linear_scan) res" where
  "canAllocWithReservedSpace ops newLiveRanges reservedSpaceSize baseAlignment dir s =
     tested s (\<lambda>tp.
       res_bind (tester_alloc reservedSpaceSize baseAlignment dir tp) (\<lambda>(addr, tp).
       if addr = InvalidAddress then Inr (False, tp)
       else tester_ranges ops (ls_handler s) newLiveRanges dir tp))"

definition canAllocWithExcludedRegion ::
  "('v, 'h) handler_ops \<Rightarrow> block list \<Rightarrow> 'v list \<Rightarrow> direction \<Rightarrow> ('v, 'h) linear_scan \<Rightarrow>
   (bool \<times> ('v, 'h) linear_scan) res" where
  "canAllocWithExcludedRegion ops excludedRanges newLiveRanges dir s =
     tested s (\<lambda>tp.
       res_bind (res_fold tester_allocFixed excludedRanges tp) (tester_ranges ops (ls_handler s) newLiveRanges dir))"

section \<open>Blocks in any order\<close>

lemma blocks_ok_insert:
  "blocks_ok T (xs @ b # ys) \<longleftrightarrow> blocks_ok T (b # xs @ ys)"
  by (auto simp: blocks_ok_append)

lemma blocks_set_mset: "mset bs = mset cs \<Longrightarrow> blocks_set bs = blocks_set cs"
  unfolding blocks_set_def by (metis set_mset_mset)

lemma blocks_ok_mset: "mset bs = mset cs \<Longrightarrow> blocks_ok T bs = blocks_ok T cs"
proof (induction bs arbitrary: cs)
  case (Cons b bs)
  then have "b \<in> set cs" by (metis list.set_intros(1) set_mset_mset)
  then obtain xs ys where cs: "cs = xs @ b # ys" by (meson split_list)
  then have m: "mset bs = mset (xs @ ys)" using Cons.prems by simp
  from Cons.IH [OF m] blocks_set_mset [OF m] show ?case by (simp add: cs blocks_ok_insert)
qed simp

lemma held_inv_mset: "mset bs = mset cs \<Longrightarrow> held_inv T p bs = held_inv T p cs"
  unfolding held_inv_def using blocks_ok_mset [of bs cs] blocks_set_mset [of bs cs] by simp

lemma held_inv_take_fixed:
  assumes "held_inv T p bs" "0 < sz" "{a..<a + sz} \<subseteq> p_free_set p"
  shows "\<exists>q. p_allocFixed p a sz = Inr q \<and> held_inv T q ((a, sz) # bs)"
proof -
  obtain q where "p_allocFixed p a sz = Inr q" "part_inv q" "p_totalSize q = p_totalSize p"
    "p_free_set q = p_free_set p - {a..<a + sz}"
    using pool.fixed_law [of p sz a] assms by (auto simp: held_inv_def)
  then show ?thesis using held_inv_take [OF assms] by blast
qed

lemma mset_swap_pop:
  assumes "i < length xs"
  shows "mset xs = add_mset (xs ! i) (mset (swap_pop xs i))"
proof -
  have ne: "xs[i := last xs] \<noteq> []" using assms by auto
  have l: "last (xs[i := last xs]) = last xs"
    using assms by (metis last_list_update list_update_id list_update_nonempty length_greater_0_conv
        length_list_update less_nat_zero_code)
  have "mset (xs[i := last xs]) = add_mset (last xs) (mset (swap_pop xs i))"
    unfolding swap_pop_def using append_butlast_last_id [OF ne] l
    by (metis add.commute mset_append mset_single_iff_right add_mset_add_single union_code)
  moreover have "mset (xs[i := last xs]) = add_mset (last xs) (mset xs - {#xs ! i#})"
    using assms by (simp add: mset_update)
  ultimately have "mset xs - {#xs ! i#} = mset (swap_pop xs i)" by simp
  then show ?thesis using insert_DiffM [of "xs ! i" "mset xs"] assms by simp
qed

lemma nth_swap_pop:
  "j < length xs - 1 \<Longrightarrow> swap_pop xs i ! j = (if j = i then last xs else xs ! j)"
  by (simp add: swap_pop_def nth_butlast)

lemma length_swap_pop [simp]: "length (swap_pop xs i) = length xs - 1"
  by (simp add: swap_pop_def)

lemma block_fst_bound: "blocks_ok T bs \<Longrightarrow> b \<in> set bs \<Longrightarrow> 0 < snd b \<and> fst b + snd b \<le> T"
  by (induction bs) auto

section \<open>Blocks taken since a point in time\<close>

text \<open>
  What a guard or a tester has taken from the partitioner since it was created, when the
  partitioner was \<^verbatim>\<open>p0\<close>.
\<close>

definition took :: "partitioner \<Rightarrow> block list \<Rightarrow> partitioner \<Rightarrow> bool" where
  "took p0 g p \<longleftrightarrow> part_inv p0 \<and> part_inv p \<and> p_totalSize p = p_totalSize p0 \<and> blocks_ok (p_totalSize p0) g \<and>
     blocks_set g \<subseteq> p_free_set p0 \<and> p_free_set p = p_free_set p0 - blocks_set g"

lemma took_nothing: "part_inv p \<Longrightarrow> took p [] p"
  by (simp add: took_def)

lemma took_block:
  assumes "took p0 g p" "0 < sz" "{a..<a + sz} \<subseteq> p_free_set p" "part_inv q" "p_totalSize q = p_totalSize p"
    "p_free_set q = p_free_set p - {a..<a + sz}"
  shows "took p0 (g @ [(a, sz)]) q"
proof -
  have "a + sz - 1 \<in> p_free_set p" using assms(2,3) by auto
  moreover have "p_free_set p \<subseteq> {..<p_totalSize p0}"
    using assms(1) pool.fre_bound unfolding took_def by metis
  ultimately have "a + sz \<le> p_totalSize p0" using assms(2) by auto
  then show ?thesis using assms by (auto simp: took_def blocks_ok_append)
qed

lemma took_fixed:
  assumes "took p0 g p" "0 < sz" "{a..<a + sz} \<subseteq> p_free_set p"
  shows "\<exists>q. p_allocFixed p a sz = Inr q \<and> took p0 (g @ [(a, sz)]) q"
  using pool.fixed_law [of p sz a] took_block [OF assms] assms by (auto simp: took_def)

lemma took_alloc:
  assumes "took p0 g p" "0 < sz" "0 < al" "p_totalSize p0 + al < U64"
  shows "\<exists>a q. p_alloc p sz al dir = Inr (a, q) \<and>
    (if a = InvalidAddress then q = p \<and> (\<forall>x. al dvd x \<longrightarrow> \<not> {x..<x + sz} \<subseteq> p_free_set p)
     else al dvd a \<and> took p0 (g @ [(a, sz)]) q)"
proof -
  have "part_inv p" "p_totalSize p + al < U64" using assms by (auto simp: took_def)
  then obtain a q where "p_alloc p sz al dir = Inr (a, q)" "part_inv q" "p_totalSize q = p_totalSize p"
    "if a = InvalidAddress then q = p \<and> (\<forall>x. al dvd x \<longrightarrow> \<not> {x..<x + sz} \<subseteq> p_free_set p)
     else al dvd a \<and> {a..<a + sz} \<subseteq> p_free_set p \<and> p_free_set q = p_free_set p - {a..<a + sz}"
    using pool.alloc_law [of p sz al dir] assms by blast
  then show ?thesis using took_block [OF assms(1,2)] by (auto split: if_splits)
qed

lemma took_release: "took p0 g p \<Longrightarrow> release_all g p = Inr p0"
  unfolding release_all_def took_def by (intro pool.release_restores) auto

lemma took_reserve:
  assumes "part_inv p" "blocks_ok (p_totalSize p) bs" "blocks_set bs \<subseteq> p_free_set p"
  shows "\<exists>q. reserve_all bs p = Inr q \<and> took p bs q"
  using pool.fixed_blocks [OF assms] assms by (auto simp: reserve_all_def took_def)

section \<open>What the tester answers\<close>

lemma tester_ranges_grows:
  "tester_ranges ops h rs dir (g, p) = Inr (ok, g', p') \<Longrightarrow> \<exists>x. g' = g @ x \<and> (ok \<longrightarrow> map snd x = map (h_getSize ops h) rs)"
  by (induction rs arbitrary: g p)
    (fastforce simp: tester_alloc_def record_block_def res_bind_eq_Inr split: if_splits)+

lemma tester_ranges_took:
  assumes "took p0 g p" "\<forall>r\<in>set rs. 0 < h_getSize ops h r \<and> 0 < h_getAlignment ops h r \<and>
      p_totalSize p0 + h_getAlignment ops h r < U64"
  shows "\<exists>ok g' p'. tester_ranges ops h rs dir (g, p) = Inr (ok, g', p') \<and> took p0 g' p' \<and>
    (ok \<longrightarrow> (\<forall>i<length rs. h_getAlignment ops h (rs ! i) dvd fst (g' ! (length g + i))))"
  using assms
proof (induction rs arbitrary: g p)
  case (Cons r rs)
  obtain a q where a: "p_alloc p (h_getSize ops h r) (h_getAlignment ops h r) dir = Inr (a, q)"
    "if a = InvalidAddress then q = p \<and> (\<forall>x. h_getAlignment ops h r dvd x \<longrightarrow> \<not> {x..<x + h_getSize ops h r} \<subseteq> p_free_set p)
     else h_getAlignment ops h r dvd a \<and> took p0 (g @ [(a, h_getSize ops h r)]) q"
    using took_alloc [OF Cons.prems(1), of "h_getSize ops h r" "h_getAlignment ops h r" dir] Cons.prems(2) by auto
  show ?case
  proof (cases "a = InvalidAddress")
    case True
    then show ?thesis using a Cons.prems by (auto simp: tester_alloc_def record_block_def)
  next
    case False
    let ?g = "g @ [(a, h_getSize ops h r)]"
    obtain ok g' p' where w: "tester_ranges ops h rs dir (?g, q) = Inr (ok, g', p')" "took p0 g' p'"
      "ok \<longrightarrow> (\<forall>i<length rs. h_getAlignment ops h (rs ! i) dvd fst (g' ! (length ?g + i)))"
      using Cons.IH [of ?g q] Cons.prems a False by auto
    obtain x where "g' = ?g @ x" using tester_ranges_grows [OF w(1)] by blast
    then have "fst (g' ! length g) = a" by (simp add: nth_append)
    then have "ok \<longrightarrow> (\<forall>i<length (r # rs). h_getAlignment ops h ((r # rs) ! i) dvd fst (g' ! (length g + i)))"
      using w(3) a(2) False by (auto simp: less_Suc_eq_0_disj)
    then show ?thesis using w a False by (auto simp: tester_alloc_def record_block_def)
  qed
qed auto

lemma tested_restores:
  assumes "body ([], ls_part s) = Inr (ok, g, p)" "took (ls_part s) g p"
  shows "tested s body = Inr (ok, s)"
  using assms took_release by (simp add: tested_def tester_end_def)

text \<open>Without spills, the pass over the dynamic ranges asks the partitioner what the tester asks.\<close>

lemma alloc_dynamic_pass_tester:
  "alloc_dynamic_pass ops rs False dir pending g s =
     map_sum id (\<lambda>(ok, g', p'). (if ok then Some (pending @
         zip (filter (\<lambda>r. \<not> h_isFixedAlloc ops (ls_handler s) r) rs) (map fst (drop (length g) g'))) else None,
       g', s\<lparr>ls_part := p'\<rparr>))
     (tester_ranges ops (ls_handler s) (filter (\<lambda>r. \<not> h_isFixedAlloc ops (ls_handler s) r) rs) dir (g, ls_part s))"
proof (induction rs arbitrary: pending g s)
  case (Cons r rs)
  let ?h = "ls_handler s"
  show ?case
  proof (cases "h_isFixedAlloc ops ?h r")
    case True
    then have "filter (\<lambda>r. \<not> h_isFixedAlloc ops ?h r) (r # rs) = filter (\<lambda>r. \<not> h_isFixedAlloc ops ?h r) rs" by simp
    then show ?thesis using True unfolding alloc_dynamic_pass.simps by (simp only: Cons if_True simp_thms)
  next
    case dyn: False
    show ?thesis
    proof (cases "p_alloc (ls_part s) (h_getSize ops ?h r) (h_getAlignment ops ?h r) dir")
      case (Inl e)
      then show ?thesis using dyn by (simp add: allocDynamicRange_def tester_alloc_def Let_def)
    next
      case (Inr w)
      obtain a q where w: "w = (a, q)" by (cases w)
      show ?thesis
      proof (cases "a = InvalidAddress")
        case True
        then show ?thesis using dyn Inr w
          by (simp add: allocDynamicRange_def tester_alloc_def record_block_def Let_def)
      next
        case False
        let ?g = "g @ [(a, h_getSize ops ?h r)]"
        let ?F = "filter (\<lambda>r. \<not> h_isFixedAlloc ops ?h r) rs"
        let ?t = "tester_ranges ops ?h ?F dir (?g, q)"
        have F: "filter (\<lambda>r. \<not> h_isFixedAlloc ops ?h r) (r # rs) = r # ?F" using dyn by simp
        have t: "tester_ranges ops ?h (r # ?F) dir (g, ls_part s) = ?t"
          using Inr w False by (simp add: tester_alloc_def record_block_def)
        have l: "alloc_dynamic_pass ops (r # rs) False dir pending g s =
            alloc_dynamic_pass ops rs False dir (pending @ [(r, a)]) ?g (s\<lparr>ls_part := q\<rparr>)"
          using dyn Inr w False by (simp add: allocDynamicRange_def record_block_def Let_def)
        have d: "map fst (drop (length g) g') = a # map fst (drop (length ?g) g')" if t: "?t = Inr (ok, g', p')" for ok g' p'
        proof -
          obtain x where "g' = ?g @ x" using tester_ranges_grows [OF t] by blast
          then show ?thesis by simp
        qed
        have upd: "ls_handler (s\<lparr>ls_part := q\<rparr>) = ?h" "ls_part (s\<lparr>ls_part := q\<rparr>) = q"
          "\<And>p. s\<lparr>ls_part := q, ls_part := p\<rparr> = s\<lparr>ls_part := p\<rparr>" by simp_all
        note ih = Cons [of "pending @ [(r, a)]" ?g "s\<lparr>ls_part := q\<rparr>", unfolded upd]
        show ?thesis
        proof (cases ?t)
          case (Inr v)
          obtain ok g' p' where v: "v = (ok, g', p')" by (cases v)
          from d [OF Inr [unfolded v]] show ?thesis unfolding F t l ih Inr v by simp
        qed (unfold F t l ih, simp)
      qed
    qed
  qed
qed simp

section \<open>The interface of a handler\<close>

text \<open>
  A handler keeps the address of every range it was told about.  Its other answers do
  not change: \<^verbatim>\<open>same_shape\<close>.  A fresh range is one it can be told
  about: an implementation may refuse to allocate a range twice.
\<close>

definition same_shape :: "('v, 'h) handler_ops \<Rightarrow> 'h \<Rightarrow> 'h \<Rightarrow> bool" where
  "same_shape ops h h' \<longleftrightarrow> h_getSize ops h' = h_getSize ops h \<and>
     h_getAlignment ops h' = h_getAlignment ops h \<and> h_isFixedAlloc ops h' = h_isFixedAlloc ops h"

definition same_others :: "('v, 'h) handler_ops \<Rightarrow> 'v \<Rightarrow> 'h \<Rightarrow> 'h \<Rightarrow> bool" where
  "same_others ops v h h' \<longleftrightarrow> (\<forall>u. u \<noteq> v \<longrightarrow> h_getAddress ops h' u = h_getAddress ops h u \<and>
     h_isAlive ops h' u = h_isAlive ops h u)"

definition range_block :: "('v, 'h) handler_ops \<Rightarrow> 'h \<Rightarrow> 'v \<Rightarrow> block" where
  "range_block ops h r = (case h_getAddress ops h r of Inr a \<Rightarrow> (a, h_getSize ops h r) | Inl _ \<Rightarrow> (0, 0))"

definition ls_inv :: "('v, 'h) handler_ops \<Rightarrow> block list \<Rightarrow> ('v, 'h) linear_scan \<Rightarrow> bool" where
  "ls_inv ops reserved s \<longleftrightarrow> held_inv (p_totalSize (ls_part s)) (ls_part s)
     (map (range_block ops (ls_handler s)) (ls_ranges s) @ reserved)"

lemma same_shape_refl [simp]: "same_shape ops h h"
  by (simp add: same_shape_def)

lemma same_shape_trans: "same_shape ops h h' \<Longrightarrow> same_shape ops h' h'' \<Longrightarrow> same_shape ops h h''"
  by (simp add: same_shape_def)

lemma range_block_frame:
  "same_others ops v h h' \<Longrightarrow> same_shape ops h h' \<Longrightarrow> u \<noteq> v \<Longrightarrow> range_block ops h' u = range_block ops h u"
  by (cases "h_getAddress ops h u") (auto simp: range_block_def same_others_def same_shape_def)

lemma range_blocks_frame:
  "same_others ops v h h' \<Longrightarrow> same_shape ops h h' \<Longrightarrow> v \<notin> set us \<Longrightarrow>
   map (range_block ops h') us = map (range_block ops h) us"
  by (rule map_cong [OF refl]) (use range_block_frame in fastforce)

text \<open>A block of positive size shows that the range has an address.\<close>

lemma range_block_ok:
  assumes "blocks_ok T bs" "range_block ops h r \<in> set bs"
  obtains a where "h_getAddress ops h r = Inr a" "range_block ops h r = (a, h_getSize ops h r)"
    "0 < h_getSize ops h r" "a + h_getSize ops h r \<le> T"
proof -
  obtain xs ys where "bs = xs @ range_block ops h r # ys" using assms(2) by (meson split_list)
  then have "0 < snd (range_block ops h r)" "fst (range_block ops h r) + snd (range_block ops h r) \<le> T"
    using assms(1) by (auto simp: blocks_ok_append)
  then show thesis using that by (cases "h_getAddress ops h r") (auto simp: range_block_def)
qed

lemma blocks_ok_distinct: "blocks_ok T (map f xs @ ys) \<Longrightarrow> distinct xs"
proof (induction xs)
  case (Cons x xs)
  then have d: "0 < snd (f x)" "block_set (f x) \<inter> blocks_set (map f xs) = {}" by auto
  have "fst (f x) \<in> block_set (f x)" using d(1) by (simp add: block_set_def)
  then have "x \<notin> set xs" using d(2) by (auto simp: blocks_set_def)
  then show ?case using Cons by simp
qed simp

section \<open>Fixed ranges without spills\<close>

lemma took_held: "took p0 g p \<Longrightarrow> held_inv T p0 bs \<Longrightarrow> held_inv T p (g @ bs)"
  by (auto simp: took_def held_inv_def blocks_ok_append)

lemma part_inv_U64: "part_inv p \<Longrightarrow> n \<le> p_totalSize p \<Longrightarrow> n < InvalidAddress \<and> n < U64"
  using part_inv_bound below_Invalid(1) by (metis order_le_less_trans)

lemma no_conflict_eq:
  assumes "blocks_ok T (map (range_block ops h) rs)" "T < U64" "0 < sz" "a + sz \<le> T"
  shows "no_conflict ops h a sz rs = Inr ({a..<a + sz} \<inter> blocks_set (map (range_block ops h) rs) = {})"
  using assms(1)
proof (induction rs)
  case (Cons r rs)
  obtain b where b: "h_getAddress ops h r = Inr b" "range_block ops h r = (b, h_getSize ops h r)"
    "0 < h_getSize ops h r" "b + h_getSize ops h r \<le> T"
    using range_block_ok [OF Cons.prems, of ops h r] by auto
  have "intersects a sz b (h_getSize ops h r) = Inr ({a..<a + sz} \<inter> {b..<b + h_getSize ops h r} \<noteq> {})"
    using b assms by (intro intersects_eq) auto
  then show ?case using b Cons by (auto simp: Int_Un_distrib)
qed simp

definition no_live_conflict :: "('v, 'h) handler_ops \<Rightarrow> ('v, 'h) linear_scan \<Rightarrow> 'v list \<Rightarrow> bool" where
  "no_live_conflict ops s rs \<longleftrightarrow> (\<forall>r\<in>set rs. h_isFixedAlloc ops (ls_handler s) r \<longrightarrow>
     block_set (range_block ops (ls_handler s) r) \<inter>
       blocks_set (map (range_block ops (ls_handler s)) (ls_ranges s)) = {})"

abbreviation fixed_of :: "('v, 'h) handler_ops \<Rightarrow> ('v, 'h) linear_scan \<Rightarrow> 'v list \<Rightarrow> 'v list" where
  "fixed_of ops s \<equiv> filter (h_isFixedAlloc ops (ls_handler s))"

abbreviation dynamic_of :: "('v, 'h) handler_ops \<Rightarrow> ('v, 'h) linear_scan \<Rightarrow> 'v list \<Rightarrow> 'v list" where
  "dynamic_of ops s \<equiv> filter (\<lambda>r. \<not> h_isFixedAlloc ops (ls_handler s) r)"

lemma alloc_fixed_pass_spec:
  assumes inv: "ls_inv ops rv s" and g: "took (ls_part s) g p"
    and ok: "blocks_ok (p_totalSize (ls_part s)) (g @ map (range_block ops (ls_handler s)) (fixed_of ops s rs))"
    and res: "blocks_set (map (range_block ops (ls_handler s)) (fixed_of ops s rs)) \<inter> blocks_set rv = {}"
  shows "(no_live_conflict ops s rs \<longrightarrow> (\<exists>p'. alloc_fixed_pass ops rs False pd g (s\<lparr>ls_part := p\<rparr>) =
        Inr (Some (pd @ map (\<lambda>r. (r, fst (range_block ops (ls_handler s) r))) (fixed_of ops s rs)),
          g @ map (range_block ops (ls_handler s)) (fixed_of ops s rs), s\<lparr>ls_part := p'\<rparr>) \<and>
        took (ls_part s) (g @ map (range_block ops (ls_handler s)) (fixed_of ops s rs)) p')) \<and>
    (\<not> no_live_conflict ops s rs \<longrightarrow> (\<exists>g' p'. alloc_fixed_pass ops rs False pd g (s\<lparr>ls_part := p\<rparr>) =
        Inr (None, g', s\<lparr>ls_part := p'\<rparr>) \<and> took (ls_part s) g' p'))"
  using g ok res
proof (induction rs arbitrary: pd g p)
  case Nil
  then show ?case by (auto simp: no_live_conflict_def)
next
  case (Cons r rs)
  let ?h = "ls_handler s" and ?T = "p_totalSize (ls_part s)"
  let ?f = "range_block ops ?h"
  show ?case
  proof (cases "h_isFixedAlloc ops ?h r")
    case False
    then have e: "no_live_conflict ops s (r # rs) = no_live_conflict ops s rs"
      "alloc_fixed_pass ops (r # rs) False pd g (s\<lparr>ls_part := p\<rparr>) =
        alloc_fixed_pass ops rs False pd g (s\<lparr>ls_part := p\<rparr>)" "fixed_of ops s (r # rs) = fixed_of ops s rs"
      by (auto simp: no_live_conflict_def)
    from Cons.prems(2,3) show ?thesis unfolding e using Cons.IH [OF Cons.prems(1), of pd] by blast
  next
    case True
    obtain a where a: "h_getAddress ops ?h r = Inr a" "?f r = (a, h_getSize ops ?h r)"
      "0 < h_getSize ops ?h r" "a + h_getSize ops ?h r \<le> ?T"
      using range_block_ok [OF Cons.prems(2), of ops ?h r] True by auto
    let ?sz = "h_getSize ops ?h r" and ?B = "blocks_set (map ?f (ls_ranges s))"
    have pi: "part_inv (ls_part s)" "blocks_ok ?T (map ?f (ls_ranges s))"
      "p_free_set (ls_part s) = {..<?T} - (?B \<union> blocks_set rv)"
      using inv by (auto simp: ls_inv_def held_inv_def blocks_ok_append)
    have U: "?T < U64" "a < InvalidAddress" using part_inv_U64 [OF pi(1)] a by auto
    note nc = no_conflict_eq [OF pi(2) U(1) a(3,4)]
    show ?thesis
    proof (cases "{a..<a + ?sz} \<inter> ?B = {}")
      case False
      then have "\<not> no_live_conflict ops s (r # rs)" using True a by (simp add: no_live_conflict_def)
      moreover have "alloc_fixed_pass ops (r # rs) False pd g (s\<lparr>ls_part := p\<rparr>) = Inr (None, g, s\<lparr>ls_part := p\<rparr>)"
        using True a U nc False by (simp add: allocFixedRange_def Let_def)
      ultimately show ?thesis using Cons.prems(1) by blast
    next
      case disj: True
      let ?g = "g @ [(a, ?sz)]"
      have "{a..<a + ?sz} \<inter> blocks_set g = {}" "{a..<a + ?sz} \<inter> blocks_set rv = {}"
        using Cons.prems(2,3) True a by (auto simp: blocks_ok_append)
      then have "{a..<a + ?sz} \<subseteq> p_free_set p"
        using Cons.prems(1) disj pi(3) a(4) by (auto simp: took_def)
      then obtain q where q: "p_allocFixed p a ?sz = Inr q" "took (ls_part s) ?g q"
        using took_fixed [OF Cons.prems(1) a(3)] by blast
      have step: "alloc_fixed_pass ops (r # rs) False pd g (s\<lparr>ls_part := p\<rparr>) =
          alloc_fixed_pass ops rs False (pd @ [(r, a)]) ?g (s\<lparr>ls_part := q\<rparr>)"
        using True a U nc disj q by (simp add: allocFixedRange_def record_block_def Let_def)
      have n: "no_live_conflict ops s (r # rs) = no_live_conflict ops s rs"
        using disj a by (simp add: no_live_conflict_def)
      have "blocks_ok ?T (?g @ map ?f (fixed_of ops s rs))" "blocks_set (map ?f (fixed_of ops s rs)) \<inter> blocks_set rv = {}"
        using Cons.prems(2,3) True a by (auto simp: blocks_ok_append)
      from Cons.IH [OF q(2) this, of "pd @ [(r, a)]"] show ?thesis
        unfolding step n using True a by (auto simp del: alloc_fixed_pass.simps)
    qed
  qed
qed

section \<open>Contract of an allocation\<close>

text \<open>What a caller ensures about the ranges it asks memory for, and what it gets.\<close>

definition request_ok :: "('v, 'h) handler_ops \<Rightarrow> ('h \<Rightarrow> bool) \<Rightarrow> ('h \<Rightarrow> 'v \<Rightarrow> bool) \<Rightarrow> block list \<Rightarrow> 'v list \<Rightarrow>
    ('v, 'h) linear_scan \<Rightarrow> bool" where
  "request_ok ops hinv fresh rv new s \<longleftrightarrow>
     ls_inv ops rv s \<and> hinv (ls_handler s) \<and> distinct new \<and> set new \<inter> set (ls_ranges s) = {} \<and>
     (\<forall>r\<in>set new. fresh (ls_handler s) r) \<and>
     (\<forall>r\<in>set (dynamic_of ops s new). 0 < h_getSize ops (ls_handler s) r \<and> 0 < h_getAlignment ops (ls_handler s) r \<and>
        p_totalSize (ls_part s) + h_getAlignment ops (ls_handler s) r < U64) \<and>
     blocks_ok (p_totalSize (ls_part s)) (map (range_block ops (ls_handler s)) (fixed_of ops s new) @ rv)"

definition alloc_done :: "('v, 'h) handler_ops \<Rightarrow> block list \<Rightarrow> 'v list \<Rightarrow> ('v, 'h) linear_scan \<Rightarrow>
    ('v, 'h) linear_scan \<Rightarrow> bool" where
  "alloc_done ops rv new s t \<longleftrightarrow> ls_inv ops rv t \<and>
     ls_ranges t = ls_ranges s @ fixed_of ops s new @ dynamic_of ops s new \<and>
     (\<forall>u\<in>set (ls_ranges s). range_block ops (ls_handler t) u = range_block ops (ls_handler s) u) \<and>
     (\<forall>r\<in>set new. \<exists>a. h_getAddress ops (ls_handler t) r = Inr a \<and>
        (if h_isFixedAlloc ops (ls_handler s) r then h_getAddress ops (ls_handler s) r = Inr a
         else h_getAlignment ops (ls_handler s) r dvd a))"

lemma pending_blocks:
  "map snd x = map f rs \<Longrightarrow> map (\<lambda>(r, a). (a, f r)) (zip rs (map fst x)) = x"
  by (induction rs arbitrary: x) (auto simp: Cons_eq_map_conv map_eq_Cons_conv)

lemma filter_set_split: "set (filter P xs) \<union> set (filter (\<lambda>x. \<not> P x) xs) = set xs"
  by auto

text \<open>What is left after an allocation that may spill.\<close>

definition alloc_spilled :: "('v, 'h) handler_ops \<Rightarrow> block list \<Rightarrow> 'v list \<Rightarrow> ('v, 'h) linear_scan \<Rightarrow>
    ('v, 'h) linear_scan \<Rightarrow> bool" where
  "alloc_spilled ops rv new s t \<longleftrightarrow> ls_inv ops rv t \<and>
     set new \<subseteq> set (ls_ranges t) \<and> set (ls_ranges t) \<subseteq> set (ls_ranges s) \<union> set new \<and>
     (\<forall>u\<in>set (ls_ranges t) - set new. range_block ops (ls_handler t) u = range_block ops (ls_handler s) u) \<and>
     (\<forall>r\<in>set new. \<exists>a. h_getAddress ops (ls_handler t) r = Inr a \<and>
        (if h_isFixedAlloc ops (ls_handler s) r then h_getAddress ops (ls_handler s) r = Inr a
         else h_getAlignment ops (ls_handler s) r dvd a))"

text \<open>A handler that spills every range it is asked to spill, and can take it back later.\<close>

definition spiller :: "('v, 'h) handler_ops \<Rightarrow> ('h \<Rightarrow> bool) \<Rightarrow> ('h \<Rightarrow> 'v \<Rightarrow> bool) \<Rightarrow> bool" where
  "spiller ops hinv fresh \<longleftrightarrow> (\<forall>h v. hinv h \<longrightarrow> fresh h v \<and> (\<exists>w. h_getSpillWeight ops h v = Inr w) \<and>
     (\<exists>h'. h_spilled ops h v = Inr (True, h')))"

text \<open>Between two ranges of a request: \<^verbatim>\<open>s0\<close> is the state before it.\<close>

definition frame_inv :: "('v, 'h) handler_ops \<Rightarrow> ('h \<Rightarrow> bool) \<Rightarrow> ('v, 'h) linear_scan \<Rightarrow> ('v, 'h) linear_scan \<Rightarrow> bool" where
  "frame_inv ops hinv s0 s \<longleftrightarrow> hinv (ls_handler s) \<and> same_shape ops (ls_handler s0) (ls_handler s) \<and>
     set (ls_ranges s) \<subseteq> set (ls_ranges s0) \<and>
     (\<forall>u\<in>set (ls_ranges s). range_block ops (ls_handler s) u = range_block ops (ls_handler s0) u) \<and>
     (\<forall>u. u \<notin> set (ls_ranges s0) \<longrightarrow> h_getAddress ops (ls_handler s) u = h_getAddress ops (ls_handler s0) u)"

definition pending_of :: "('v, 'h) handler_ops \<Rightarrow> ('v, 'h) linear_scan \<Rightarrow> ('v \<times> nat) list \<Rightarrow> block list" where
  "pending_of ops s0 pd = map (\<lambda>(r, a). (a, h_getSize ops (ls_handler s0) r)) pd"

definition pass_inv :: "('v, 'h) handler_ops \<Rightarrow> ('h \<Rightarrow> bool) \<Rightarrow> block list \<Rightarrow> ('v, 'h) linear_scan \<Rightarrow>
    ('v \<times> nat) list \<Rightarrow> ('v, 'h) linear_scan \<Rightarrow> bool" where
  "pass_inv ops hinv rv s0 pd s \<longleftrightarrow> frame_inv ops hinv s0 s \<and>
     held_inv (p_totalSize (ls_part s0)) (ls_part s)
       (map (range_block ops (ls_handler s)) (ls_ranges s) @ pending_of ops s0 pd @ rv)"

lemma min_element_from_total:
  assumes "\<And>v. \<exists>x. w v = Inr x"
  shows "\<exists>r. min_element_from w xs k is = Inr r"
proof (induction "is" arbitrary: k)
  case (Cons i js)
  obtain a b where "w (xs ! i) = Inr a" "w (xs ! k) = Inr b" using assms by metis
  then show ?case using Cons by simp
qed simp

locale live_range_handler =
  fixes ops :: "('v, 'h) handler_ops"
    and hinv :: "'h \<Rightarrow> bool"
    and fresh :: "'h \<Rightarrow> 'v \<Rightarrow> bool"
  assumes allocated_ok: "hinv h \<Longrightarrow> fresh h v \<Longrightarrow> a \<noteq> InvalidAddress \<Longrightarrow> \<exists>h'. h_allocated ops h v a = Inr h'"
    and allocated_address: "hinv h \<Longrightarrow> h_allocated ops h v a = Inr h' \<Longrightarrow>
      (h_isFixedAlloc ops h v \<Longrightarrow> h_getAddress ops h v = Inr a) \<Longrightarrow> h_getAddress ops h' v = Inr a"
    and allocated_frame: "hinv h \<Longrightarrow> h_allocated ops h v a = Inr h' \<Longrightarrow>
      hinv h' \<and> same_shape ops h h' \<and> same_others ops v h h' \<and> (\<forall>u. u \<noteq> v \<longrightarrow> fresh h u \<longrightarrow> fresh h' u)"
    and freed_ok: "hinv h \<Longrightarrow> \<exists>h'. h_freed ops h v = Inr h' \<and> hinv h' \<and> same_shape ops h h' \<and> same_others ops v h h'"
    and spilled_frame: "hinv h \<Longrightarrow> h_spilled ops h v = Inr (b, h') \<Longrightarrow>
      hinv h' \<and> same_shape ops h h' \<and> same_others ops v h h'"
begin

section \<open>Release of dead ranges\<close>

lemma freeLiveRangeAt_spec:
  assumes inv: "ls_inv ops rv s" "hinv (ls_handler s)" and i: "i < length (ls_ranges s)"
  shows "\<exists>t. freeLiveRangeAt ops i s = Inr t \<and> ls_inv ops rv t \<and> hinv (ls_handler t) \<and>
    ls_ranges t = swap_pop (ls_ranges s) i \<and> p_totalSize (ls_part t) = p_totalSize (ls_part s) \<and>
    same_shape ops (ls_handler s) (ls_handler t) \<and> same_others ops (ls_ranges s ! i) (ls_handler s) (ls_handler t)"
proof -
  let ?h = "ls_handler s" and ?r = "ls_ranges s ! i" and ?T = "p_totalSize (ls_part s)"
  let ?rs = "swap_pop (ls_ranges s) i" and ?f = "range_block ops (ls_handler s)"
  have m: "mset (ls_ranges s) = add_mset ?r (mset ?rs)" using mset_swap_pop [OF i] .
  then have hi: "held_inv ?T (ls_part s) (?f ?r # map ?f ?rs @ rv)"
    using inv(1) held_inv_mset [of "map ?f (ls_ranges s) @ rv" "?f ?r # map ?f ?rs @ rv"]
    by (simp add: ls_inv_def)
  then have "blocks_ok ?T (?f ?r # map ?f ?rs @ rv)" by (simp add: held_inv_def)
  then obtain a where a: "h_getAddress ops ?h ?r = Inr a" "?f ?r = (a, h_getSize ops ?h ?r)"
    by (rule range_block_ok) auto
  obtain q where q: "p_free (ls_part s) a (h_getSize ops ?h ?r) = Inr q" "held_inv ?T q (map ?f ?rs @ rv)"
    using held_inv_give [of ?T "ls_part s" "[]"] hi a by fastforce
  obtain h' where h': "h_freed ops ?h ?r = Inr h'" "hinv h'" "same_shape ops ?h h'" "same_others ops ?r ?h h'"
    using freed_ok [OF inv(2)] by blast
  have "distinct (ls_ranges s)" using inv(1) blocks_ok_distinct unfolding ls_inv_def held_inv_def by blast
  then have "?r \<notin> set ?rs" using m by (metis distinct.simps(2) mset.simps(2) mset_eq_imp_distinct_iff)
  then have "held_inv ?T q (map (range_block ops h') ?rs @ rv)"
    using q(2) range_blocks_frame [OF h'(4,3), of ?rs] by (simp only: not_False_eq_True)
  moreover have "p_totalSize q = ?T" using q(2) by (simp add: held_inv_def)
  ultimately show ?thesis using i a q h' by (simp add: freeLiveRangeAt_def ls_inv_def Let_def)
qed

lemma free_dead_loop:
  assumes "ls_inv ops rv s" "hinv (ls_handler s)" "k \<le> length (ls_ranges s)"
    and "\<forall>i. k \<le> i \<and> i < length (ls_ranges s) \<longrightarrow> A (ls_ranges s ! i)"
    and "\<forall>u\<in>set (ls_ranges s). h_isAlive ops (ls_handler s) u = A u"
  shows "\<exists>t. res_fold (\<lambda>idx s. if h_isAlive ops (ls_handler s) (ls_ranges s ! idx) then Inr s
        else freeLiveRangeAt ops idx s) (rev [0..<k]) s = Inr t \<and>
      ls_inv ops rv t \<and> hinv (ls_handler t) \<and> same_shape ops (ls_handler s) (ls_handler t) \<and>
      p_totalSize (ls_part t) = p_totalSize (ls_part s) \<and>
      mset (ls_ranges t) = filter_mset A (mset (ls_ranges s)) \<and>
      (\<forall>u\<in>set (ls_ranges t). range_block ops (ls_handler t) u = range_block ops (ls_handler s) u)"
  using assms
proof (induction k arbitrary: s)
  case 0
  then have "\<forall>u\<in>set (ls_ranges s). A u" by (metis in_set_conv_nth zero_le)
  then have "filter_mset A (mset (ls_ranges s)) = mset (ls_ranges s)" by (simp add: filter_mset_eq_conv)
  then show ?case using 0 by simp
next
  case (Suc k)
  let ?r = "ls_ranges s ! k"
  have k: "k < length (ls_ranges s)" and al: "h_isAlive ops (ls_handler s) ?r = A ?r" using Suc.prems by auto
  show ?case
  proof (cases "A ?r")
    case True
    then have "\<forall>i. k \<le> i \<and> i < length (ls_ranges s) \<longrightarrow> A (ls_ranges s ! i)"
      using Suc.prems(4) by (metis le_antisym not_less_eq_eq)
    then show ?thesis using Suc.IH [of s] Suc.prems k True al by auto
  next
    case False
    obtain t where t: "freeLiveRangeAt ops k s = Inr t" "ls_inv ops rv t" "hinv (ls_handler t)"
      "ls_ranges t = swap_pop (ls_ranges s) k" "p_totalSize (ls_part t) = p_totalSize (ls_part s)"
      "same_shape ops (ls_handler s) (ls_handler t)" "same_others ops ?r (ls_handler s) (ls_handler t)"
      using freeLiveRangeAt_spec [OF Suc.prems(1,2) k] by blast
    have m: "mset (ls_ranges s) = add_mset ?r (mset (ls_ranges t))" using mset_swap_pop [OF k] t(4) by simp
    have "distinct (ls_ranges s)" using Suc.prems(1) blocks_ok_distinct unfolding ls_inv_def held_inv_def by blast
    then have nr: "?r \<notin> set (ls_ranges t)" using m by (metis distinct.simps(2) mset.simps(2) mset_eq_imp_distinct_iff)
    have sub: "set (ls_ranges t) \<subseteq> set (ls_ranges s)" using m by (metis set_mset_mset mset_subset_eq_add_right add_mset_add_single mset_subset_eqD subsetI union_commute)
    have "A (swap_pop (ls_ranges s) k ! i)" if "k \<le> i" "i < length (ls_ranges s) - 1" for i
    proof (cases "i = k")
      case True
      have "ls_ranges s \<noteq> []" using k by auto
      then have "last (ls_ranges s) = ls_ranges s ! (length (ls_ranges s) - 1)" "k \<noteq> length (ls_ranges s) - 1"
        using that True by (auto simp: last_conv_nth)
      moreover have "A (ls_ranges s ! (length (ls_ranges s) - 1))" if "k \<noteq> length (ls_ranges s) - 1"
      proof -
        have "Suc k \<le> length (ls_ranges s) - 1 \<and> length (ls_ranges s) - 1 < length (ls_ranges s)"
          using k that by arith
        then show ?thesis using Suc.prems(4) by blast
      qed
      ultimately show ?thesis using nth_swap_pop [OF that(2), of k] True by simp
    next
      case False
      then show ?thesis using nth_swap_pop [OF that(2), of k] Suc.prems(4) that by simp
    qed
    then have "\<forall>i. k \<le> i \<and> i < length (ls_ranges t) \<longrightarrow> A (ls_ranges t ! i)" by (simp add: t(4))
    moreover have "\<forall>u\<in>set (ls_ranges t). h_isAlive ops (ls_handler t) u = A u"
      using Suc.prems(5) sub nr t(7) unfolding same_others_def by (metis subsetD)
    moreover have "k \<le> length (ls_ranges t)" using k t(4) by simp
    ultimately obtain w where w: "res_fold (\<lambda>idx s. if h_isAlive ops (ls_handler s) (ls_ranges s ! idx) then Inr s
        else freeLiveRangeAt ops idx s) (rev [0..<k]) t = Inr w"
      "ls_inv ops rv w" "hinv (ls_handler w)" "same_shape ops (ls_handler t) (ls_handler w)"
      "p_totalSize (ls_part w) = p_totalSize (ls_part t)"
      "mset (ls_ranges w) = filter_mset A (mset (ls_ranges t))"
      "\<forall>u\<in>set (ls_ranges w). range_block ops (ls_handler w) u = range_block ops (ls_handler t) u"
      using Suc.IH [OF t(2,3)] by blast
    have "set (ls_ranges w) \<subseteq> set (ls_ranges t)" using arg_cong [OF w(6), of set_mset] by auto
    then have "\<forall>u\<in>set (ls_ranges w). range_block ops (ls_handler w) u = range_block ops (ls_handler s) u"
      using w(7) nr range_block_frame [OF t(7,6)] by (metis subsetD)
    then show ?thesis using w t m False al same_shape_trans by fastforce
  qed
qed

lemma freeDeadRanges_spec:
  assumes "ls_inv ops rv s" "hinv (ls_handler s)"
  shows "\<exists>t. freeDeadRanges ops s = Inr t \<and> ls_inv ops rv t \<and> hinv (ls_handler t) \<and>
      mset (ls_ranges t) = filter_mset (h_isAlive ops (ls_handler s)) (mset (ls_ranges s)) \<and>
      (\<forall>u\<in>set (ls_ranges t). range_block ops (ls_handler t) u = range_block ops (ls_handler s) u)"
proof -
  have "\<forall>i. length (ls_ranges s) \<le> i \<and> i < length (ls_ranges s) \<longrightarrow> h_isAlive ops (ls_handler s) (ls_ranges s ! i)"
    by (meson leD)
  from free_dead_loop [OF assms order_refl this] show ?thesis unfolding freeDeadRanges_def by blast
qed

section \<open>Allocation without spills\<close>

lemma commit_all:
  assumes "hinv (ls_handler s)" "distinct (map fst pd)"
    and "\<forall>(r, a)\<in>set pd. fresh (ls_handler s) r \<and> a \<noteq> InvalidAddress \<and>
      (h_isFixedAlloc ops (ls_handler s) r \<longrightarrow> h_getAddress ops (ls_handler s) r = Inr a)"
  shows "\<exists>h. res_fold (commit_range ops) pd s = Inr (s\<lparr>ls_ranges := ls_ranges s @ map fst pd, ls_handler := h\<rparr>) \<and>
    hinv h \<and> same_shape ops (ls_handler s) h \<and> (\<forall>(r, a)\<in>set pd. h_getAddress ops h r = Inr a) \<and>
    (\<forall>u. u \<notin> fst ` set pd \<longrightarrow> h_getAddress ops h u = h_getAddress ops (ls_handler s) u)"
  using assms
proof (induction pd arbitrary: s)
  case Nil
  then show ?case by (auto intro: exI [of _ "ls_handler s"])
next
  case (Cons x pd)
  let ?h = "ls_handler s"
  obtain r a where x: "x = (r, a)" by (cases x)
  have p: "fresh ?h r" "a \<noteq> InvalidAddress" "h_isFixedAlloc ops ?h r \<Longrightarrow> h_getAddress ops ?h r = Inr a"
    "r \<notin> fst ` set pd" using Cons.prems(2,3) x by auto
  obtain h where h: "h_allocated ops ?h r a = Inr h" using allocated_ok [OF Cons.prems(1) p(1,2)] by blast
  note fr = allocated_frame [OF Cons.prems(1) h]
  have ad: "h_getAddress ops h r = Inr a" using allocated_address [OF Cons.prems(1) h] p(3) by blast
  let ?s = "s\<lparr>ls_ranges := ls_ranges s @ [r], ls_handler := h\<rparr>"
  have pd: "u \<noteq> r" if "(u, b) \<in> set pd" for u b using that p(4) by (metis fst_conv image_eqI)
  have c: "fresh h u \<and> b \<noteq> InvalidAddress \<and> (h_isFixedAlloc ops h u \<longrightarrow> h_getAddress ops h u = Inr b)"
    if m: "(u, b) \<in> set pd" for u b
  proof -
    have "fresh ?h u \<and> b \<noteq> InvalidAddress \<and> (h_isFixedAlloc ops ?h u \<longrightarrow> h_getAddress ops ?h u = Inr b)"
      using Cons.prems(3) m by auto
    moreover have "fresh ?h u \<longrightarrow> fresh h u" "h_getAddress ops h u = h_getAddress ops ?h u"
      "h_isFixedAlloc ops h = h_isFixedAlloc ops ?h"
      using fr pd [OF m] by (simp_all add: same_shape_def same_others_def)
    ultimately show ?thesis by metis
  qed
  have hs: "ls_handler ?s = h" by simp
  have d: "hinv (ls_handler ?s)" "distinct (map fst pd)" using Cons.prems(2) fr by simp_all
  have "\<forall>(u, b)\<in>set pd. fresh (ls_handler ?s) u \<and> b \<noteq> InvalidAddress \<and>
      (h_isFixedAlloc ops (ls_handler ?s) u \<longrightarrow> h_getAddress ops (ls_handler ?s) u = Inr b)"
    using c by auto
  from Cons.IH [OF d this] obtain h' where h': "res_fold (commit_range ops) pd ?s =
      Inr (?s\<lparr>ls_ranges := ls_ranges ?s @ map fst pd, ls_handler := h'\<rparr>)"
    "hinv h'" "same_shape ops h h'" "\<forall>(r, a)\<in>set pd. h_getAddress ops h' r = Inr a"
    "\<forall>u. u \<notin> fst ` set pd \<longrightarrow> h_getAddress ops h' u = h_getAddress ops h u"
    unfolding hs by blast
  have "res_fold (commit_range ops) (x # pd) s = Inr (s\<lparr>ls_ranges := ls_ranges s @ map fst (x # pd), ls_handler := h'\<rparr>)"
    using h'(1) h p(2) x by (simp add: commit_range_def)
  moreover have "same_shape ops ?h h'" by (rule same_shape_trans [OF _ h'(3)]) (use fr in simp)
  moreover have "\<forall>(r, a)\<in>set (x # pd). h_getAddress ops h' r = Inr a" using h'(4,5) p(4) ad x by auto
  moreover have "\<forall>u. u \<notin> fst ` set (x # pd) \<longrightarrow> h_getAddress ops h' u = h_getAddress ops ?h u"
    using h'(5) fr x by (auto simp: same_others_def)
  ultimately show ?case using h'(2) by blast
qed

text \<open>
  A handler state that gives the pending blocks their addresses carries the invariant over
  to the committed state.
\<close>

lemma commit_inv:
  assumes inv: "ls_inv ops rv s" "hinv (ls_handler s)" and g: "took (ls_part s) g p"
    and pd: "g = map (\<lambda>(r, a). (a, h_getSize ops (ls_handler s) r)) pd" "distinct (map fst pd)"
    and new: "fst ` set pd \<inter> set (ls_ranges s) = {}" "\<forall>r\<in>fst ` set pd. fresh (ls_handler s) r"
    and fx: "\<forall>(r, a)\<in>set pd. h_isFixedAlloc ops (ls_handler s) r \<longrightarrow> h_getAddress ops (ls_handler s) r = Inr a"
  shows "\<exists>h. res_fold (commit_range ops) pd (s\<lparr>ls_part := p\<rparr>) =
      Inr (s\<lparr>ls_part := p, ls_ranges := ls_ranges s @ map fst pd, ls_handler := h\<rparr>) \<and> hinv h \<and>
    ls_inv ops rv (s\<lparr>ls_part := p, ls_ranges := ls_ranges s @ map fst pd, ls_handler := h\<rparr>) \<and>
    (\<forall>(r, a)\<in>set pd. h_getAddress ops h r = Inr a) \<and>
    (\<forall>u\<in>set (ls_ranges s). range_block ops h u = range_block ops (ls_handler s) u)"
proof -
  let ?h = "ls_handler s" and ?T = "p_totalSize (ls_part s)"
  have "part_inv (ls_part s)" "blocks_ok ?T g" using g by (auto simp: took_def)
  then have valid: "a \<noteq> InvalidAddress" if "(r, a) \<in> set pd" for r a
  proof -
    have "(a, h_getSize ops ?h r) \<in> set g" using that by (force simp: pd(1))
    then have "a \<le> ?T" using block_fst_bound [OF \<open>blocks_ok ?T g\<close>] by fastforce
    then show ?thesis using part_inv_U64 [OF \<open>part_inv (ls_part s)\<close>] by blast
  qed
  have "\<forall>(r, a)\<in>set pd. fresh (ls_handler (s\<lparr>ls_part := p\<rparr>)) r \<and> a \<noteq> InvalidAddress \<and>
      (h_isFixedAlloc ops (ls_handler (s\<lparr>ls_part := p\<rparr>)) r \<longrightarrow>
        h_getAddress ops (ls_handler (s\<lparr>ls_part := p\<rparr>)) r = Inr a)"
    using new(2) fx valid by fastforce
  then obtain h where h: "res_fold (commit_range ops) pd (s\<lparr>ls_part := p\<rparr>) =
      Inr (s\<lparr>ls_part := p, ls_ranges := ls_ranges s @ map fst pd, ls_handler := h\<rparr>)" "hinv h" "same_shape ops ?h h"
    "\<forall>(r, a)\<in>set pd. h_getAddress ops h r = Inr a"
    "\<forall>u. u \<notin> fst ` set pd \<longrightarrow> h_getAddress ops h u = h_getAddress ops ?h u"
    using commit_all [of "s\<lparr>ls_part := p\<rparr>" pd] inv(2) pd(2) by auto
  have sz: "h_getSize ops h = h_getSize ops ?h" using h(3) by (simp add: same_shape_def)
  have old: "range_block ops h u = range_block ops ?h u" if "u \<in> set (ls_ranges s)" for u
  proof -
    have "h_getAddress ops h u = h_getAddress ops ?h u" using h(5) new(1) that by blast
    then show ?thesis by (cases "h_getAddress ops ?h u") (simp_all add: range_block_def sz)
  qed
  have G: "map (range_block ops h) (map fst pd) = g"
    using h(4) by (auto simp: pd(1) range_block_def sz)
  have R: "map (range_block ops h) (ls_ranges s) = map (range_block ops ?h) (ls_ranges s)"
    using old by simp
  have "held_inv ?T p (g @ map (range_block ops ?h) (ls_ranges s) @ rv)"
    using took_held [OF g] inv(1) by (simp add: ls_inv_def)
  then have "held_inv ?T p (map (range_block ops h) (ls_ranges s @ map fst pd) @ rv)"
    unfolding map_append R G
    by (subst held_inv_mset [of _ "g @ map (range_block ops ?h) (ls_ranges s) @ rv"]) simp_all
  moreover have "p_totalSize p = ?T" using g by (simp add: took_def)
  ultimately have "ls_inv ops rv (s\<lparr>ls_part := p, ls_ranges := ls_ranges s @ map fst pd, ls_handler := h\<rparr>)"
    by (simp add: ls_inv_def)
  then show ?thesis using h old by blast
qed

lemma no_spill_passes:
  assumes req: "request_ok ops hinv fresh rv new s"
  shows "(\<exists>g p. took (ls_part s) g p \<and> ls_alloc ops new False dir s = ls_rollback g (s\<lparr>ls_part := p\<rparr>)) \<or>
    (\<exists>pd g p. took (ls_part s) g p \<and> map fst pd = fixed_of ops s new @ dynamic_of ops s new \<and>
      g = map (\<lambda>(r, a). (a, h_getSize ops (ls_handler s) r)) pd \<and>
      (\<forall>(r, a)\<in>set pd. if h_isFixedAlloc ops (ls_handler s) r then h_getAddress ops (ls_handler s) r = Inr a
         else h_getAlignment ops (ls_handler s) r dvd a) \<and>
      ls_alloc ops new False dir s = res_bind (res_fold (commit_range ops) pd (s\<lparr>ls_part := p\<rparr>)) (\<lambda>s. Inr (True, s)))"
    (is "?failed \<or> ?granted")
proof -
  let ?h = "ls_handler s" and ?p = "ls_part s" and ?f = "range_block ops (ls_handler s)"
  let ?F = "fixed_of ops s new" and ?D = "dynamic_of ops s new" and ?T = "p_totalSize (ls_part s)"
  let ?pdF = "map (\<lambda>r. (r, fst (?f r))) ?F"
  have inv: "ls_inv ops rv s" and blk: "blocks_ok ?T (map ?f ?F @ rv)" using req by (simp_all add: request_ok_def)
  then have pi: "part_inv ?p" by (simp add: ls_inv_def held_inv_def)
  have blkF: "blocks_ok ?T ([] @ map ?f ?F)" "blocks_set (map ?f ?F) \<inter> blocks_set rv = {}"
    using blk by (auto simp: blocks_ok_append)
  note fixed = alloc_fixed_pass_spec [OF inv took_nothing [OF pi] blkF, of "[]"]
  have upd: "s\<lparr>ls_part := ?p\<rparr> = s" by simp
  show ?thesis
  proof (cases "no_live_conflict ops s new")
    case False
    then obtain g p where g: "alloc_fixed_pass ops new False [] [] s = Inr (None, g, s\<lparr>ls_part := p\<rparr>)" "took ?p g p"
      using fixed unfolding upd by blast
    then show ?thesis by (auto simp: ls_alloc_def)
  next
    case True
    then obtain p where p: "alloc_fixed_pass ops new False [] [] s = Inr (Some ?pdF, map ?f ?F, s\<lparr>ls_part := p\<rparr>)"
      "took ?p (map ?f ?F) p"
      using fixed unfolding upd append_Nil by blast
    have "\<forall>r\<in>set ?D. 0 < h_getSize ops ?h r \<and> 0 < h_getAlignment ops ?h r \<and> ?T + h_getAlignment ops ?h r < U64"
      using req unfolding request_ok_def by blast
    then obtain ok g p' where t: "tester_ranges ops ?h ?D dir (map ?f ?F, p) = Inr (ok, g, p')" "took ?p g p'"
      "ok \<longrightarrow> (\<forall>i<length ?D. h_getAlignment ops ?h (?D ! i) dvd fst (g ! (length (map ?f ?F) + i)))"
      using tester_ranges_took [OF p(2)] by metis
    obtain x where x: "g = map ?f ?F @ x" "ok \<longrightarrow> map snd x = map (h_getSize ops ?h) ?D"
      using tester_ranges_grows [OF t(1)] by blast
    let ?pd = "?pdF @ zip ?D (map fst x)"
    have dyn: "ls_alloc ops new False dir s = (if ok then res_bind (res_fold (commit_range ops) ?pd (s\<lparr>ls_part := p'\<rparr>))
        (\<lambda>s. Inr (True, s)) else ls_rollback g (s\<lparr>ls_part := p'\<rparr>))"
      using t(1) x(1) p(1) by (simp add: alloc_dynamic_pass_tester ls_alloc_def)
    have ?granted if ok
    proof -
      have lx: "map snd x = map (h_getSize ops ?h) ?D" using x(2) that by blast
      have fixF: "h_getAddress ops ?h r = Inr (fst (?f r))" "?f r = (fst (?f r), h_getSize ops ?h r)"
        if "r \<in> set ?F" for r
        using range_block_ok [OF blkF(1), of ops ?h r] that by force+
      have al: "\<forall>i<length ?D. h_getAlignment ops ?h (?D ! i) dvd fst (x ! i)"
        using t(3) that by (simp add: x(1) nth_append)
      have dynD: "\<not> h_isFixedAlloc ops ?h (?D ! i)" if "i < length ?D" for i using nth_mem [OF that] by simp
      have "g = map (\<lambda>(r, a). (a, h_getSize ops ?h r)) ?pd"
        unfolding x(1) using fixF(2) pending_blocks [OF lx] by simp
      moreover have "map fst ?pd = ?F @ ?D" using map_eq_imp_length_eq [OF lx] by (simp add: comp_def)
      moreover have "\<forall>(r, a)\<in>set ?pd. if h_isFixedAlloc ops ?h r then h_getAddress ops ?h r = Inr a
          else h_getAlignment ops ?h r dvd a"
        using fixF(1) al dynD by (auto simp: set_zip)
      ultimately show ?granted using t(2) dyn that by (intro exI [of _ ?pd] exI [of _ g] exI [of _ p']) simp
    qed
    then show ?thesis using dyn t(2) by (cases ok) auto
  qed
qed

lemma ls_alloc_no_spill:
  assumes req: "request_ok ops hinv fresh rv new s"
  shows "\<exists>ok t. ls_alloc ops new False dir s = Inr (ok, t) \<and>
    (if ok then alloc_done ops rv new s t \<and> hinv (ls_handler t) else t = s)"
  using no_spill_passes [OF req, of dir]
proof (elim disjE exE conjE)
  fix g p
  assume "took (ls_part s) g p" "ls_alloc ops new False dir s = ls_rollback g (s\<lparr>ls_part := p\<rparr>)"
  then have "ls_alloc ops new False dir s = Inr (False, s)" using took_release by (simp add: ls_rollback_def)
  then show ?thesis by auto
next
  let ?h = "ls_handler s"
  fix pd g p
  assume g: "took (ls_part s) g p" "map fst pd = fixed_of ops s new @ dynamic_of ops s new"
    "g = map (\<lambda>(r, a). (a, h_getSize ops ?h r)) pd"
    "\<forall>(r, a)\<in>set pd. if h_isFixedAlloc ops ?h r then h_getAddress ops ?h r = Inr a else h_getAlignment ops ?h r dvd a"
    and run: "ls_alloc ops new False dir s =
      res_bind (res_fold (commit_range ops) pd (s\<lparr>ls_part := p\<rparr>)) (\<lambda>s. Inr (True, s))"
  have dom: "fst ` set pd = set new" by (metis g(2) set_map set_append filter_set_split)
  have dist: "distinct (map fst pd)" using req by (auto simp: g(2) request_ok_def)
  have inv: "ls_inv ops rv s" "hinv ?h" "fst ` set pd \<inter> set (ls_ranges s) = {}" "\<forall>r\<in>fst ` set pd. fresh ?h r"
    using req unfolding dom request_ok_def by blast+
  have fx: "\<forall>(r, a)\<in>set pd. h_isFixedAlloc ops ?h r \<longrightarrow> h_getAddress ops ?h r = Inr a" using g(4) by fastforce
  obtain h where h: "res_fold (commit_range ops) pd (s\<lparr>ls_part := p\<rparr>) =
      Inr (s\<lparr>ls_part := p, ls_ranges := ls_ranges s @ map fst pd, ls_handler := h\<rparr>)" "hinv h"
    "ls_inv ops rv (s\<lparr>ls_part := p, ls_ranges := ls_ranges s @ map fst pd, ls_handler := h\<rparr>)"
    "\<forall>(r, a)\<in>set pd. h_getAddress ops h r = Inr a"
    "\<forall>u\<in>set (ls_ranges s). range_block ops h u = range_block ops ?h u"
    using commit_inv [OF inv(1,2) g(1,3) dist inv(3,4) fx] by blast
  let ?t = "s\<lparr>ls_part := p, ls_ranges := ls_ranges s @ map fst pd, ls_handler := h\<rparr>"
  have "\<exists>a. h_getAddress ops h r = Inr a \<and> (if h_isFixedAlloc ops ?h r then h_getAddress ops ?h r = Inr a
      else h_getAlignment ops ?h r dvd a)" if "r \<in> set new" for r
  proof -
    have "r \<in> fst ` set pd" by (simp only: dom that)
    then obtain y where "r = fst y" "y \<in> set pd" by (rule imageE)
    then obtain a where "(r, a) \<in> set pd" by (metis prod.collapse)
    then show ?thesis using g(4) h(4) by (intro exI [of _ a]) auto
  qed
  then have "alloc_done ops rv new s ?t" using h(3,5) g(2) by (simp add: alloc_done_def)
  then show ?thesis using h(1,2) run by (intro exI [of _ True] exI [of _ ?t]) simp
qed

section \<open>Allocation with spills\<close>

lemma getSpillCandidate_spec:
  assumes sp: "spiller ops hinv fresh" and h: "hinv (ls_handler s)"
    and held: "held_inv T (ls_part s) (map (range_block ops (ls_handler s)) (ls_ranges s) @ base)"
    and ne: "ls_ranges s \<noteq> []"
  shows "\<exists>c q rs. getSpillCandidate ops s = Inr (Some c, s\<lparr>ls_part := q, ls_ranges := rs\<rparr>) \<and>
    mset (ls_ranges s) = add_mset c (mset rs) \<and>
    held_inv T q (map (range_block ops (ls_handler s)) rs @ base)"
proof -
  let ?h = "ls_handler s" and ?xs = "ls_ranges s"
  let ?f = "range_block ops ?h"
  obtain it where it: "min_element_from (h_getSpillWeight ops ?h) ?xs 0 [1..<length ?xs] = Inr it"
    using min_element_from_total [of "h_getSpillWeight ops ?h"] sp h unfolding spiller_def by metis
  have "it < length ?xs" using min_element_from_less [OF it, of "length ?xs"] ne by simp
  note m = mset_swap_pop [OF this]
  let ?rs = "swap_pop ?xs it"
  have hi: "held_inv T (ls_part s) ([] @ ?f (?xs ! it) # map ?f ?rs @ base)"
    using held held_inv_mset [of "map ?f ?xs @ base" "?f (?xs ! it) # map ?f ?rs @ base"] m by simp
  then have "blocks_ok T (?f (?xs ! it) # map ?f ?rs @ base)" by (simp add: held_inv_def)
  then obtain a where a: "h_getAddress ops ?h (?xs ! it) = Inr a" "?f (?xs ! it) = (a, h_getSize ops ?h (?xs ! it))"
    by (rule range_block_ok) auto
  obtain q where "p_free (ls_part s) a (h_getSize ops ?h (?xs ! it)) = Inr q" "held_inv T q (map ?f ?rs @ base)"
    using held_inv_give [OF hi [unfolded a(2)]] by auto
  then show ?thesis using it ne a m
    by (intro exI [of _ "?xs ! it"] exI [of _ q] exI [of _ ?rs]) (simp add: getSpillCandidate_def Let_def)
qed

lemma fixed_spill_loop_spec:
  assumes "spiller ops hinv fresh" "hinv (ls_handler s)" "0 < sz" "a + sz \<le> T"
    and "held_inv T (ls_part s) (map (range_block ops (ls_handler s)) (ls_ranges s) @ base)"
  shows "\<exists>cs' q rs. fixed_spill_loop ops a sz True cs s = Inr (True, cs', s\<lparr>ls_part := q, ls_ranges := rs\<rparr>) \<and>
    mset (rs @ cs') = mset (ls_ranges s @ cs) \<and>
    held_inv T q (map (range_block ops (ls_handler s)) rs @ base) \<and>
    {a..<a + sz} \<inter> blocks_set (map (range_block ops (ls_handler s)) rs) = {}"
  using assms
proof (induction "length (ls_ranges s)" arbitrary: s cs)
  case 0
  then show ?case by (intro exI [of _ cs] exI [of _ "ls_part s"] exI [of _ "[]"]) simp
next
  case (Suc n)
  let ?h = "ls_handler s"
  let ?f = "range_block ops ?h"
  have "part_inv (ls_part s)" "p_totalSize (ls_part s) = T" "blocks_ok T (map ?f (ls_ranges s))"
    using Suc.prems(5) by (auto simp: held_inv_def blocks_ok_append)
  then have nc: "no_conflict ops ?h a sz (ls_ranges s) = Inr ({a..<a + sz} \<inter> blocks_set (map ?f (ls_ranges s)) = {})"
    by (intro no_conflict_eq [of T]) (use part_inv_U64 [of "ls_part s" T] Suc.prems(3,4) in auto)
  show ?case
  proof (cases "{a..<a + sz} \<inter> blocks_set (map ?f (ls_ranges s)) = {}")
    case True
    then have "fixed_spill_loop ops a sz True cs s = Inr (True, cs, s)" using nc by simp
    then show ?thesis using Suc.prems(5) True
      by (intro exI [of _ cs] exI [of _ "ls_part s"] exI [of _ "ls_ranges s"]) simp
  next
    case False
    have "ls_ranges s \<noteq> []" using Suc.hyps(2) by auto
    then obtain c q rs where c: "getSpillCandidate ops s = Inr (Some c, s\<lparr>ls_part := q, ls_ranges := rs\<rparr>)"
      "mset (ls_ranges s) = add_mset c (mset rs)" "held_inv T q (map ?f rs @ base)"
      using getSpillCandidate_spec [OF Suc.prems(1,2,5)] by blast
    let ?s = "s\<lparr>ls_part := q, ls_ranges := rs\<rparr>"
    have step: "fixed_spill_loop ops a sz True cs s = fixed_spill_loop ops a sz True (cs @ [c]) ?s"
      using nc False c(1) by (subst fixed_spill_loop.simps) simp
    have "n = length (ls_ranges ?s)" using Suc.hyps(2) arg_cong [OF c(2), of size] by simp
    moreover have "hinv (ls_handler ?s)" "held_inv T (ls_part ?s) (map (range_block ops (ls_handler ?s)) (ls_ranges ?s) @ base)"
      using Suc.prems(2) c(3) by simp_all
    ultimately obtain cs' q' rs' where "fixed_spill_loop ops a sz True (cs @ [c]) ?s = Inr (True, cs', ?s\<lparr>ls_part := q', ls_ranges := rs'\<rparr>)"
      "mset (rs' @ cs') = mset (ls_ranges ?s @ cs @ [c])"
      "held_inv T q' (map (range_block ops (ls_handler ?s)) rs' @ base)"
      "{a..<a + sz} \<inter> blocks_set (map (range_block ops (ls_handler ?s)) rs') = {}"
      using Suc.hyps(1) [of ?s "cs @ [c]"] Suc.prems(1,3,4) by blast
    then show ?thesis unfolding step using c(2)
      by (intro exI [of _ cs'] exI [of _ q'] exI [of _ rs']) (simp del: fixed_spill_loop.simps)
  qed
qed

lemma dynamic_spill_loop_spec:
  assumes "spiller ops hinv fresh" "hinv (ls_handler s)" "0 < sz" "0 < al" "T + al < U64"
    and "held_inv T (ls_part s) (map (range_block ops (ls_handler s)) (ls_ranges s) @ base)"
  shows "\<exists>res cs' q rs. dynamic_spill_loop ops sz al True dir cs s = Inr (res, cs', s\<lparr>ls_part := q, ls_ranges := rs\<rparr>) \<and>
    mset (rs @ cs') = mset (ls_ranges s @ cs) \<and>
    (case res of
       None \<Rightarrow> rs = [] \<and> held_inv T q base \<and> (\<forall>x. al dvd x \<longrightarrow> \<not> {x..<x + sz} \<subseteq> {..<T} - blocks_set base)
     | Some a \<Rightarrow> al dvd a \<and> held_inv T q ((a, sz) # map (range_block ops (ls_handler s)) rs @ base))"
  using assms
proof (induction "length (ls_ranges s)" arbitrary: s cs)
  case n: (0 s)
  let ?p = "ls_part s"
  have p: "part_inv ?p" "p_totalSize ?p = T" "p_free_set ?p = {..<T} - blocks_set base" "held_inv T ?p base"
    using n by (auto simp: held_inv_def)
  then obtain a q where a: "p_alloc ?p sz al dir = Inr (a, q)" "part_inv q" "p_totalSize q = p_totalSize ?p"
    "if a = InvalidAddress then q = ?p \<and> (\<forall>x. al dvd x \<longrightarrow> \<not> {x..<x + sz} \<subseteq> p_free_set ?p)
     else al dvd a \<and> {a..<a + sz} \<subseteq> p_free_set ?p \<and> p_free_set q = p_free_set ?p - {a..<a + sz}"
    using pool.alloc_law [of ?p sz al dir] n by blast
  have g: "getSpillCandidate ops (s\<lparr>ls_part := q\<rparr>) = Inr (None, s\<lparr>ls_part := q\<rparr>)"
    using n by (simp add: getSpillCandidate_def)
  show ?case
  proof (cases "a = InvalidAddress")
    case True
    then have "dynamic_spill_loop ops sz al True dir cs s = Inr (None, cs, s\<lparr>ls_part := q, ls_ranges := []\<rparr>)"
      using a(1) g n by (subst dynamic_spill_loop.simps) simp
    then show ?thesis using a True p n by auto
  next
    case False
    then have "dynamic_spill_loop ops sz al True dir cs s = Inr (Some a, cs, s\<lparr>ls_part := q, ls_ranges := []\<rparr>)"
      using a(1) n by (subst dynamic_spill_loop.simps) simp
    moreover have "held_inv T q ((a, sz) # base)" using held_inv_take [OF p(4) n(4), of a q] a False by simp
    ultimately show ?thesis using a False n
      by (intro exI [of _ "Some a"] exI [of _ cs] exI [of _ q] exI [of _ "[]"]) (simp del: dynamic_spill_loop.simps)
  qed
next
  case (Suc n)
  let ?h = "ls_handler s" and ?p = "ls_part s"
  let ?f = "range_block ops ?h"
  have p: "part_inv ?p" "p_totalSize ?p = T" using Suc.prems(6) by (auto simp: held_inv_def)
  then obtain a q where a: "p_alloc ?p sz al dir = Inr (a, q)" "part_inv q" "p_totalSize q = p_totalSize ?p"
    "if a = InvalidAddress then q = ?p \<and> (\<forall>x. al dvd x \<longrightarrow> \<not> {x..<x + sz} \<subseteq> p_free_set ?p)
     else al dvd a \<and> {a..<a + sz} \<subseteq> p_free_set ?p \<and> p_free_set q = p_free_set ?p - {a..<a + sz}"
    using pool.alloc_law [of ?p sz al dir] Suc.prems(3-5) by blast
  show ?case
  proof (cases "a = InvalidAddress")
    case False
    then have "dynamic_spill_loop ops sz al True dir cs s = Inr (Some a, cs, s\<lparr>ls_part := q, ls_ranges := ls_ranges s\<rparr>)"
      using a(1) by (subst dynamic_spill_loop.simps) simp
    moreover have "held_inv T q ((a, sz) # map ?f (ls_ranges s) @ base)"
      using held_inv_take [OF Suc.prems(6,3), of a q] a False by simp
    ultimately show ?thesis using a False
      by (intro exI [of _ "Some a"] exI [of _ cs] exI [of _ q] exI [of _ "ls_ranges s"])
        (simp del: dynamic_spill_loop.simps)
  next
    case True
    then have a': "p_alloc ?p sz al dir = Inr (InvalidAddress, ?p)" using a by simp
    have "ls_ranges s \<noteq> []" using Suc.hyps(2) by auto
    then obtain c q rs where c: "getSpillCandidate ops s = Inr (Some c, s\<lparr>ls_part := q, ls_ranges := rs\<rparr>)"
      "mset (ls_ranges s) = add_mset c (mset rs)" "held_inv T q (map ?f rs @ base)"
      using getSpillCandidate_spec [OF Suc.prems(1,2,6)] by blast
    let ?s = "s\<lparr>ls_part := q, ls_ranges := rs\<rparr>"
    have step: "dynamic_spill_loop ops sz al True dir cs s = dynamic_spill_loop ops sz al True dir (cs @ [c]) ?s"
      using a' c(1) by (subst dynamic_spill_loop.simps) simp
    have "n = length (ls_ranges ?s)" using Suc.hyps(2) arg_cong [OF c(2), of size] by simp
    moreover have "hinv (ls_handler ?s)" "held_inv T (ls_part ?s) (map (range_block ops (ls_handler ?s)) (ls_ranges ?s) @ base)"
      using Suc.prems(2) c(3) by simp_all
    ultimately obtain res cs' q' rs' where "dynamic_spill_loop ops sz al True dir (cs @ [c]) ?s = Inr (res, cs', ?s\<lparr>ls_part := q', ls_ranges := rs'\<rparr>)"
      "mset (rs' @ cs') = mset (ls_ranges ?s @ cs @ [c])"
      "case res of
       None \<Rightarrow> rs' = [] \<and> held_inv T q' base \<and> (\<forall>x. al dvd x \<longrightarrow> \<not> {x..<x + sz} \<subseteq> {..<T} - blocks_set base)
     | Some a \<Rightarrow> al dvd a \<and> held_inv T q' ((a, sz) # map (range_block ops (ls_handler ?s)) rs' @ base)"
      using Suc.hyps(1) [of ?s "cs @ [c]"] Suc.prems(1,3-5) by blast
    then show ?thesis unfolding step using c(2)
      by - (rule exI [of _ res], rule exI [of _ cs'], rule exI [of _ q'], rule exI [of _ rs'],
          cases res; simp del: dynamic_spill_loop.simps)
  qed
qed

text \<open>
  The spill candidates that do not overlap the new block return to the live ranges; the
  others are spilled.  \<^verbatim>\<open>nb\<close> is the new block when it has been taken already.
\<close>

lemma processSpillCandidates_spec:
  assumes "spiller ops hinv fresh" "hinv (ls_handler s)" "T < U64" "0 < sz" "a + sz \<le> T" "set nb \<subseteq> {(a, sz)}"
    and "held_inv T (ls_part s) (map (range_block ops (ls_handler s)) (ls_ranges s) @ nb @ base)"
    and "blocks_ok T (map (range_block ops (ls_handler s)) (ls_ranges s @ cs) @ base)"
  shows "\<exists>t. processSpillCandidates ops cs a sz s = Inr (True, t) \<and> hinv (ls_handler t) \<and>
    same_shape ops (ls_handler s) (ls_handler t) \<and>
    held_inv T (ls_part t) (map (range_block ops (ls_handler t)) (ls_ranges t) @ nb @ base) \<and>
    set (ls_ranges t) \<subseteq> set (ls_ranges s) \<union> set cs \<and>
    (\<forall>u\<in>set (ls_ranges t). range_block ops (ls_handler t) u = range_block ops (ls_handler s) u) \<and>
    (\<forall>u. u \<notin> set cs \<longrightarrow> h_getAddress ops (ls_handler t) u = h_getAddress ops (ls_handler s) u) \<and>
    ({a..<a + sz} \<inter> blocks_set (map (range_block ops (ls_handler s)) (ls_ranges s)) = {} \<longrightarrow>
     {a..<a + sz} \<inter> blocks_set (map (range_block ops (ls_handler t)) (ls_ranges t)) = {})"
  using assms(2,7,8)
proof (induction cs arbitrary: s)
  case Nil
  then show ?case by simp
next
  case (Cons c cs)
  let ?h = "ls_handler s"
  let ?f = "range_block ops ?h"
  have "distinct (ls_ranges s @ c # cs)" using Cons.prems(3) by (rule blocks_ok_distinct)
  then have c: "c \<notin> set (ls_ranges s)" "c \<notin> set cs" by auto
  obtain b where b: "h_getAddress ops ?h c = Inr b" "?f c = (b, h_getSize ops ?h c)"
    "0 < h_getSize ops ?h c" "b + h_getSize ops ?h c \<le> T"
    using range_block_ok [OF Cons.prems(3), of ops ?h c] by auto
  let ?bs = "h_getSize ops ?h c"
  have x: "intersects b ?bs a sz = Inr ({b..<b + ?bs} \<inter> {a..<a + sz} \<noteq> {})"
    using b assms(3-5) by (intro intersects_eq) auto
  show ?case
  proof (cases "{b..<b + ?bs} \<inter> {a..<a + sz} = {}")
    case False
    have xf: "intersects b ?bs a sz = Inr True" using x False by (simp only: simp_thms)
    obtain h1 where h1: "h_spilled ops ?h c = Inr (True, h1)" using assms(1) Cons.prems(1) unfolding spiller_def by blast
    note f1 = spilled_frame [OF Cons.prems(1) h1]
    obtain h2 where h2: "h_freed ops h1 c = Inr h2" "hinv h2" "same_shape ops h1 h2" "same_others ops c h1 h2"
      using freed_ok [of h1 c] f1 by blast
    have sh: "same_shape ops ?h h2" using f1 h2(3) same_shape_trans [of ops ?h h1 h2] by simp
    have oth: "same_others ops c ?h h2" using f1 h2(4) by (simp add: same_others_def)
    let ?s = "s\<lparr>ls_handler := h2\<rparr>"
    have run: "processSpillCandidates ops (c # cs) a sz s = processSpillCandidates ops cs a sz ?s"
      using b(1) xf h1 h2(1) by (simp add: spillConflictingRange_def Let_def)
    have eqs: "map (range_block ops h2) (ls_ranges s) = map ?f (ls_ranges s)"
      "map (range_block ops h2) cs = map ?f cs"
      using range_blocks_frame [OF oth sh] c by auto
    have bl: "range_block ops h2 u = ?f u" if "u \<noteq> c" for u using range_block_frame [OF oth sh that] .
    have p1: "hinv (ls_handler ?s)" using h2(2) by simp
    have p2: "held_inv T (ls_part ?s) (map (range_block ops (ls_handler ?s)) (ls_ranges ?s) @ nb @ base)"
      using Cons.prems(2) by (simp add: eqs del: map_eq_conv)
    have p3: "blocks_ok T (map (range_block ops (ls_handler ?s)) (ls_ranges ?s @ cs) @ base)"
      using Cons.prems(3) by (auto simp: eqs blocks_ok_append simp del: map_eq_conv)
    obtain t where t: "processSpillCandidates ops cs a sz ?s = Inr (True, t)" "hinv (ls_handler t)"
      "same_shape ops h2 (ls_handler t)"
      "held_inv T (ls_part t) (map (range_block ops (ls_handler t)) (ls_ranges t) @ nb @ base)"
      "set (ls_ranges t) \<subseteq> set (ls_ranges s) \<union> set cs"
      "\<forall>u\<in>set (ls_ranges t). range_block ops (ls_handler t) u = range_block ops h2 u"
      "\<forall>u. u \<notin> set cs \<longrightarrow> h_getAddress ops (ls_handler t) u = h_getAddress ops h2 u"
      "{a..<a + sz} \<inter> blocks_set (map ?f (ls_ranges s)) = {} \<longrightarrow>
       {a..<a + sz} \<inter> blocks_set (map (range_block ops (ls_handler t)) (ls_ranges t)) = {}"
      using Cons.IH [OF p1 p2 p3] by (simp add: eqs del: map_eq_conv) blast
    have "\<forall>u\<in>set (ls_ranges t). range_block ops (ls_handler t) u = ?f u" using t(5,6) bl c by fastforce
    moreover have "\<forall>u. u \<notin> set (c # cs) \<longrightarrow> h_getAddress ops (ls_handler t) u = h_getAddress ops ?h u"
      using t(7) oth by (simp add: same_others_def)
    moreover have "same_shape ops ?h (ls_handler t)" using sh t(3) by (rule same_shape_trans)
    moreover have "set (ls_ranges t) \<subseteq> set (ls_ranges s) \<union> set (c # cs)" using t(5) by auto
    ultimately show ?thesis unfolding run using t(1,2,4,8) by blast
  next
    case True
    have xf: "intersects b ?bs a sz = Inr False" using x True by (simp only: simp_thms)
    have "{b..<b + ?bs} \<inter> (blocks_set (map ?f (ls_ranges s)) \<union> blocks_set base) = {}"
      using Cons.prems(3) b(2) by (auto simp: blocks_ok_append)
    moreover have "{b..<b + ?bs} \<inter> blocks_set nb = {}" using True assms(6) by (auto simp: blocks_set_def)
    ultimately have "{b..<b + ?bs} \<subseteq> p_free_set (ls_part s)"
      using Cons.prems(2) b(4) by (auto simp: held_inv_def)
    then obtain q where q: "p_allocFixed (ls_part s) b ?bs = Inr q"
      "held_inv T q ((b, ?bs) # map ?f (ls_ranges s) @ nb @ base)"
      using held_inv_take_fixed [OF Cons.prems(2) b(3)] by blast
    have "b \<noteq> InvalidAddress" using Cons.prems(2) part_inv_U64 [of "ls_part s" b] b(4) by (auto simp: held_inv_def)
    moreover have "fresh ?h c" using assms(1) Cons.prems(1) by (simp add: spiller_def)
    ultimately obtain h2 where h2: "h_allocated ops ?h c b = Inr h2" using allocated_ok [OF Cons.prems(1)] by blast
    note fr = allocated_frame [OF Cons.prems(1) h2]
    have "h_getAddress ops h2 c = Inr b" using allocated_address [OF Cons.prems(1) h2 b(1)] .
    moreover have sh: "same_shape ops ?h h2" and oth: "same_others ops c ?h h2" using fr by blast+
    ultimately have bl: "range_block ops h2 u = ?f u" for u
      using range_block_frame [OF oth sh, of u] b by (cases "u = c") (auto simp: range_block_def same_shape_def)
    let ?s = "\<lparr>ls_part = q, ls_ranges = ls_ranges s @ [c], ls_handler = h2\<rparr>"
    have eqs: "range_block ops h2 = ?f" using bl by blast
    have run: "processSpillCandidates ops (c # cs) a sz s = processSpillCandidates ops cs a sz ?s"
      using b(1) xf q(1) h2 by (simp add: restoreNonConflictingRange_def Let_def)
    have p1: "hinv (ls_handler ?s)" using fr by simp
    have p2: "held_inv T (ls_part ?s) (map (range_block ops (ls_handler ?s)) (ls_ranges ?s) @ nb @ base)"
      using q(2) b(2) held_inv_mset [of "(b, ?bs) # map ?f (ls_ranges s) @ nb @ base"
          "map ?f (ls_ranges s @ [c]) @ nb @ base"] by (simp add: eqs)
    have p3: "blocks_ok T (map (range_block ops (ls_handler ?s)) (ls_ranges ?s @ cs) @ base)"
      using Cons.prems(3) by (simp add: eqs)
    obtain t where t: "processSpillCandidates ops cs a sz ?s = Inr (True, t)" "hinv (ls_handler t)"
      "same_shape ops h2 (ls_handler t)"
      "held_inv T (ls_part t) (map (range_block ops (ls_handler t)) (ls_ranges t) @ nb @ base)"
      "set (ls_ranges t) \<subseteq> set (ls_ranges s @ [c]) \<union> set cs"
      "\<forall>u\<in>set (ls_ranges t). range_block ops (ls_handler t) u = ?f u"
      "\<forall>u. u \<notin> set cs \<longrightarrow> h_getAddress ops (ls_handler t) u = h_getAddress ops h2 u"
      "{a..<a + sz} \<inter> blocks_set (map ?f (ls_ranges s @ [c])) = {} \<longrightarrow>
       {a..<a + sz} \<inter> blocks_set (map (range_block ops (ls_handler t)) (ls_ranges t)) = {}"
      using Cons.IH [OF p1 p2 p3] by (simp add: eqs) blast
    have "same_shape ops ?h (ls_handler t)" using sh t(3) by (rule same_shape_trans)
    moreover have "\<forall>u. u \<notin> set (c # cs) \<longrightarrow> h_getAddress ops (ls_handler t) u = h_getAddress ops ?h u"
      using t(7) oth by (simp add: same_others_def)
    moreover have "{a..<a + sz} \<inter> blocks_set (map ?f (ls_ranges s)) = {} \<longrightarrow>
       {a..<a + sz} \<inter> blocks_set (map (range_block ops (ls_handler t)) (ls_ranges t)) = {}"
      using t(8) True b(2) by auto
    moreover have "set (ls_ranges t) \<subseteq> set (ls_ranges s) \<union> set (c # cs)" using t(5) by auto
    ultimately show ?thesis unfolding run using t(1,2,4,6) by blast
  qed
qed

lemma process_pass:
  fixes s0 s :: "('v, 'h) linear_scan"
  defines "T \<equiv> p_totalSize (ls_part s0)" and "f \<equiv> range_block ops (ls_handler s)"
  assumes "spiller ops hinv fresh" and pass: "pass_inv ops hinv rv s0 pd s"
    and split: "mset (rs @ cs) = mset (ls_ranges s)"
    and held: "held_inv T q (map f rs @ nb @ pending_of ops s0 pd @ rv)" and nb: "set nb \<subseteq> {(a, sz)}"
    and sz: "0 < sz" "a + sz \<le> T"
  shows "\<exists>t. processSpillCandidates ops cs a sz (s\<lparr>ls_part := q, ls_ranges := rs\<rparr>) = Inr (True, t) \<and>
    frame_inv ops hinv s0 t \<and>
    held_inv T (ls_part t) (map (range_block ops (ls_handler t)) (ls_ranges t) @ nb @ pending_of ops s0 pd @ rv) \<and>
    ({a..<a + sz} \<inter> blocks_set (map f rs) = {} \<longrightarrow>
     {a..<a + sz} \<inter> blocks_set (map (range_block ops (ls_handler t)) (ls_ranges t)) = {})"
proof -
  let ?s = "s\<lparr>ls_part := q, ls_ranges := rs\<rparr>" and ?base = "pending_of ops s0 pd @ rv"
  have fr: "frame_inv ops hinv s0 s" using pass by (simp add: pass_inv_def)
  have "part_inv q" "p_totalSize q = T" using held by (simp_all add: held_inv_def)
  then have U: "T < U64" using part_inv_U64 [of q T] by simp
  have "blocks_ok T (map f (ls_ranges s) @ ?base)" using pass by (simp add: pass_inv_def held_inv_def T_def f_def)
  moreover have "mset (map f (rs @ cs) @ ?base) = mset (map f (ls_ranges s) @ ?base)"
    using arg_cong [OF split, of "image_mset f"] by simp
  ultimately have ok: "blocks_ok T (map f (rs @ cs) @ ?base)" using blocks_ok_mset by blast
  obtain t where t: "processSpillCandidates ops cs a sz ?s = Inr (True, t)" "hinv (ls_handler t)"
    "same_shape ops (ls_handler s) (ls_handler t)"
    "held_inv T (ls_part t) (map (range_block ops (ls_handler t)) (ls_ranges t) @ nb @ ?base)"
    "set (ls_ranges t) \<subseteq> set rs \<union> set cs"
    "\<forall>u\<in>set (ls_ranges t). range_block ops (ls_handler t) u = f u"
    "\<forall>u. u \<notin> set cs \<longrightarrow> h_getAddress ops (ls_handler t) u = h_getAddress ops (ls_handler s) u"
    "{a..<a + sz} \<inter> blocks_set (map f rs) = {} \<longrightarrow>
     {a..<a + sz} \<inter> blocks_set (map (range_block ops (ls_handler t)) (ls_ranges t)) = {}"
    using processSpillCandidates_spec [of ?s T sz a nb ?base cs] assms(3) fr U sz nb held ok
    by (simp add: frame_inv_def f_def) blast
  have "set rs \<union> set cs = set (ls_ranges s)" using arg_cong [OF split, of set_mset] by simp
  then have sub: "set (ls_ranges t) \<subseteq> set (ls_ranges s)" "set cs \<subseteq> set (ls_ranges s0)"
    using t(5) fr by (auto simp: frame_inv_def)
  have "same_shape ops (ls_handler s0) (ls_handler t)"
    by (rule same_shape_trans [OF _ t(3)]) (use fr in \<open>simp add: frame_inv_def\<close>)
  then have "frame_inv ops hinv s0 t"
    using fr t(2,6,7) sub unfolding frame_inv_def f_def by (metis subset_iff)
  then show ?thesis using t(1,4,8) by blast
qed

lemma allocFixedRange_spill:
  assumes sp: "spiller ops hinv fresh" and pass: "pass_inv ops hinv rv s0 pd s"
    and r: "r \<notin> set (ls_ranges s0)" "h_isFixedAlloc ops (ls_handler s0) r" "h_getAddress ops (ls_handler s0) r = Inr a"
    and sz: "0 < h_getSize ops (ls_handler s0) r" "a + h_getSize ops (ls_handler s0) r \<le> p_totalSize (ls_part s0)"
    and apart: "{a..<a + h_getSize ops (ls_handler s0) r} \<inter> blocks_set (pending_of ops s0 pd @ rv) = {}"
  shows "\<exists>t. allocFixedRange ops r True g s = Inr (True, g @ [(a, h_getSize ops (ls_handler s0) r)], t) \<and>
    pass_inv ops hinv rv s0 (pd @ [(r, a)]) t"
proof -
  let ?h = "ls_handler s" and ?T = "p_totalSize (ls_part s0)" and ?sz = "h_getSize ops (ls_handler s0) r"
  let ?f = "range_block ops ?h" and ?base = "pending_of ops s0 pd @ rv"
  have fr: "hinv ?h" "same_shape ops (ls_handler s0) ?h" and held: "held_inv ?T (ls_part s) (map ?f (ls_ranges s) @ ?base)"
    using pass by (simp_all add: pass_inv_def frame_inv_def)
  have q: "h_isFixedAlloc ops ?h r" "h_getAddress ops ?h r = Inr a" "h_getSize ops ?h r = ?sz"
    using pass r by (auto simp: pass_inv_def frame_inv_def same_shape_def)
  have "a \<noteq> InvalidAddress" using held sz part_inv_U64 [of "ls_part s" a] by (auto simp: held_inv_def)
  obtain cs q rs where loop: "fixed_spill_loop ops a ?sz True [] s = Inr (True, cs, s\<lparr>ls_part := q, ls_ranges := rs\<rparr>)"
    "mset (rs @ cs) = mset (ls_ranges s)" "held_inv ?T q (map ?f rs @ ?base)"
    "{a..<a + ?sz} \<inter> blocks_set (map ?f rs) = {}"
    using fixed_spill_loop_spec [OF sp fr(1) sz held, of "[]"] unfolding append_Nil2 by blast
  have heldN: "held_inv ?T q (map ?f rs @ [] @ ?base)" using loop(3) by simp
  obtain t where t: "processSpillCandidates ops cs a ?sz (s\<lparr>ls_part := q, ls_ranges := rs\<rparr>) = Inr (True, t)"
    "frame_inv ops hinv s0 t" "held_inv ?T (ls_part t) (map (range_block ops (ls_handler t)) (ls_ranges t) @ ?base)"
    "{a..<a + ?sz} \<inter> blocks_set (map (range_block ops (ls_handler t)) (ls_ranges t)) = {}"
    using process_pass [OF sp pass loop(2) heldN _ sz] loop(4) by auto
  have "{a..<a + ?sz} \<subseteq> p_free_set (ls_part t)"
    using t(3,4) apart sz(2) by (auto simp: held_inv_def)
  then obtain p where p: "p_allocFixed (ls_part t) a ?sz = Inr p"
    "held_inv ?T p ((a, ?sz) # map (range_block ops (ls_handler t)) (ls_ranges t) @ ?base)"
    using held_inv_take_fixed [OF t(3) sz(1)] by blast
  let ?t = "t\<lparr>ls_part := p\<rparr>"
  have "allocFixedRange ops r True g s = Inr (True, g @ [(a, ?sz)], ?t)"
    using q \<open>a \<noteq> InvalidAddress\<close> loop(1) t(1) p(1) by (simp add: allocFixedRange_def record_block_def Let_def)
  moreover have "frame_inv ops hinv s0 ?t" using t(2) by (simp add: frame_inv_def)
  moreover have "held_inv ?T p (map (range_block ops (ls_handler t)) (ls_ranges t) @ pending_of ops s0 (pd @ [(r, a)]) @ rv)"
    using p(2) by (rule iffD1 [OF held_inv_mset, rotated]) (simp add: pending_of_def)
  ultimately show ?thesis by (intro exI [of _ ?t]) (simp add: pass_inv_def)
qed

lemma allocDynamicRange_spill:
  assumes sp: "spiller ops hinv fresh" and pass: "pass_inv ops hinv rv s0 pd s"
    and r: "\<not> h_isFixedAlloc ops (ls_handler s0) r"
    and sz: "0 < h_getSize ops (ls_handler s0) r" "0 < h_getAlignment ops (ls_handler s0) r"
      "p_totalSize (ls_part s0) + h_getAlignment ops (ls_handler s0) r < U64"
  shows "\<exists>res t. allocDynamicRange ops r True dir g s = Inr (res,
      case res of None \<Rightarrow> g | Some a \<Rightarrow> g @ [(a, h_getSize ops (ls_handler s0) r)], t) \<and>
    (case res of
       None \<Rightarrow> pass_inv ops hinv rv s0 pd t \<and> ls_ranges t = [] \<and> ls_handler t = ls_handler s \<and>
         (\<forall>x. h_getAlignment ops (ls_handler s0) r dvd x \<longrightarrow>
          \<not> {x..<x + h_getSize ops (ls_handler s0) r} \<subseteq> {..<p_totalSize (ls_part s0)} - blocks_set (pending_of ops s0 pd @ rv))
     | Some a \<Rightarrow> pass_inv ops hinv rv s0 (pd @ [(r, a)]) t \<and> h_getAlignment ops (ls_handler s0) r dvd a)"
proof -
  let ?h = "ls_handler s" and ?T = "p_totalSize (ls_part s0)"
  let ?sz = "h_getSize ops (ls_handler s0) r" and ?al = "h_getAlignment ops (ls_handler s0) r"
  let ?f = "range_block ops ?h" and ?base = "pending_of ops s0 pd @ rv"
  have fr: "hinv ?h" "frame_inv ops hinv s0 s" and held: "held_inv ?T (ls_part s) (map ?f (ls_ranges s) @ ?base)"
    using pass by (simp_all add: pass_inv_def frame_inv_def)
  have q: "\<not> h_isFixedAlloc ops ?h r" "h_getAlignment ops ?h r = ?al" "h_getSize ops ?h r = ?sz"
    using pass r by (auto simp: pass_inv_def frame_inv_def same_shape_def)
  obtain res cs q rs where loop:
    "dynamic_spill_loop ops ?sz ?al True dir [] s = Inr (res, cs, s\<lparr>ls_part := q, ls_ranges := rs\<rparr>)"
    "mset (rs @ cs) = mset (ls_ranges s)"
    "case res of
       None \<Rightarrow> rs = [] \<and> held_inv ?T q ?base \<and> (\<forall>x. ?al dvd x \<longrightarrow> \<not> {x..<x + ?sz} \<subseteq> {..<?T} - blocks_set ?base)
     | Some a \<Rightarrow> ?al dvd a \<and> held_inv ?T q ((a, ?sz) # map ?f rs @ ?base)"
    using dynamic_spill_loop_spec [OF sp fr(1) sz held, of dir "[]"] unfolding append_Nil2 by blast
  show ?thesis
  proof (cases res)
    case None
    then have "allocDynamicRange ops r True dir g s = Inr (None, g, s\<lparr>ls_part := q, ls_ranges := rs\<rparr>)"
      using q loop(1) by (simp add: allocDynamicRange_def Let_def)
    moreover have "pass_inv ops hinv rv s0 pd (s\<lparr>ls_part := q, ls_ranges := rs\<rparr>)"
      using fr(2) loop(3) None by (simp add: pass_inv_def frame_inv_def)
    ultimately show ?thesis using loop(3) None by (intro exI [of _ None] exI [of _ "s\<lparr>ls_part := q, ls_ranges := rs\<rparr>"]) simp
  next
    case (Some a)
    then have h: "?al dvd a" "held_inv ?T q ((a, ?sz) # map ?f rs @ ?base)" using loop(3) by simp_all
    then have a: "a + ?sz \<le> ?T" "a \<noteq> InvalidAddress"
      using part_inv_U64 [of q "a + ?sz"] by (auto simp: held_inv_def)
    have heldN: "held_inv ?T q (map ?f rs @ [(a, ?sz)] @ ?base)"
      using h(2) by (rule iffD1 [OF held_inv_mset, rotated]) simp
    obtain t where t: "processSpillCandidates ops cs a ?sz (s\<lparr>ls_part := q, ls_ranges := rs\<rparr>) = Inr (True, t)"
      "frame_inv ops hinv s0 t"
      "held_inv ?T (ls_part t) (map (range_block ops (ls_handler t)) (ls_ranges t) @ [(a, ?sz)] @ ?base)"
      using process_pass [OF sp pass loop(2) heldN _ sz(1) a(1)] by auto
    have "allocDynamicRange ops r True dir g s = Inr (Some a, g @ [(a, ?sz)], t)"
      using q loop(1) Some t(1) a(2) by (simp add: allocDynamicRange_def record_block_def Let_def)
    moreover have "held_inv ?T (ls_part t) (map (range_block ops (ls_handler t)) (ls_ranges t) @
        pending_of ops s0 (pd @ [(r, a)]) @ rv)"
      using t(3) by (rule iffD1 [OF held_inv_mset, rotated]) (simp add: pending_of_def)
    ultimately show ?thesis using t(2) h(1) by (intro exI [of _ "Some a"] exI [of _ t]) (simp add: pass_inv_def)
  qed
qed

lemma alloc_fixed_pass_spill:
  assumes "spiller ops hinv fresh" "pass_inv ops hinv rv s0 pd s" "set rs \<inter> set (ls_ranges s0) = {}"
    and "blocks_ok (p_totalSize (ls_part s0))
      (pending_of ops s0 pd @ map (range_block ops (ls_handler s0)) (fixed_of ops s0 rs) @ rv)"
  shows "\<exists>pd' t. alloc_fixed_pass ops rs True pd (pending_of ops s0 pd) s = Inr (Some pd', pending_of ops s0 pd', t) \<and>
    pass_inv ops hinv rv s0 pd' t \<and>
    pd' = pd @ map (\<lambda>r. (r, fst (range_block ops (ls_handler s0) r))) (fixed_of ops s0 rs)"
  using assms(2-)
proof (induction rs arbitrary: pd s)
  case (Cons r rs)
  let ?f = "range_block ops (ls_handler s0)" and ?T = "p_totalSize (ls_part s0)"
  have fx: "h_isFixedAlloc ops (ls_handler s) r = h_isFixedAlloc ops (ls_handler s0) r"
    using Cons.prems(1) by (simp add: pass_inv_def frame_inv_def same_shape_def)
  show ?case
  proof (cases "h_isFixedAlloc ops (ls_handler s0) r")
    case False
    then show ?thesis using Cons.IH [OF Cons.prems(1)] Cons.prems(2,3) fx by simp
  next
    case True
    obtain a where a: "h_getAddress ops (ls_handler s0) r = Inr a" "?f r = (a, h_getSize ops (ls_handler s0) r)"
      "0 < h_getSize ops (ls_handler s0) r" "a + h_getSize ops (ls_handler s0) r \<le> ?T"
      using range_block_ok [OF Cons.prems(3), of ops "ls_handler s0" r] True by auto
    have nr: "r \<notin> set (ls_ranges s0)" using Cons.prems(2) by auto
    have "{a..<a + h_getSize ops (ls_handler s0) r} \<inter> blocks_set (pending_of ops s0 pd @ rv) = {}"
      using Cons.prems(3) True a(2) by (auto simp: blocks_ok_append)
    then obtain t where t: "allocFixedRange ops r True (pending_of ops s0 pd) s =
        Inr (True, pending_of ops s0 pd @ [(a, h_getSize ops (ls_handler s0) r)], t)"
      "pass_inv ops hinv rv s0 (pd @ [(r, a)]) t"
      using allocFixedRange_spill [OF assms(1) Cons.prems(1) nr True a(1,3,4)] by blast
    have g: "pending_of ops s0 pd @ [(a, h_getSize ops (ls_handler s0) r)] = pending_of ops s0 (pd @ [(r, a)])"
      by (simp add: pending_of_def)
    have "h_getAddress ops (ls_handler t) r = Inr a" using t(2) nr a(1) by (simp add: pass_inv_def frame_inv_def)
    then have step: "alloc_fixed_pass ops (r # rs) True pd (pending_of ops s0 pd) s =
        alloc_fixed_pass ops rs True (pd @ [(r, a)]) (pending_of ops s0 (pd @ [(r, a)])) t"
      using fx True t(1) g by simp
    have "blocks_ok ?T (pending_of ops s0 (pd @ [(r, a)]) @ map ?f (fixed_of ops s0 rs) @ rv)"
      using Cons.prems(3) True a(2) by (auto simp: g [symmetric] blocks_ok_append)
    then show ?thesis unfolding step using Cons.IH [OF t(2)] Cons.prems(2) True a(2) by simp
  qed
qed simp

lemma alloc_dynamic_pass_spill:
  assumes "spiller ops hinv fresh" "pass_inv ops hinv rv s0 pd s"
    and "\<forall>r\<in>set (dynamic_of ops s0 rs). 0 < h_getSize ops (ls_handler s0) r \<and> 0 < h_getAlignment ops (ls_handler s0) r \<and>
        p_totalSize (ls_part s0) + h_getAlignment ops (ls_handler s0) r < U64"
  shows "\<exists>ok pd' t. alloc_dynamic_pass ops rs True dir pd (pending_of ops s0 pd) s =
      Inr (if ok then Some pd' else None, pending_of ops s0 pd', t) \<and> pass_inv ops hinv rv s0 pd' t \<and>
    (\<not> ok \<longrightarrow> ls_ranges t = []) \<and>
    (ok \<longrightarrow> (\<exists>ds. pd' = pd @ ds \<and> map fst ds = dynamic_of ops s0 rs \<and>
       (\<forall>(r, a)\<in>set ds. h_getAlignment ops (ls_handler s0) r dvd a)))"
  using assms(2-)
proof (induction rs arbitrary: pd s)
  case Nil
  then show ?case by (intro exI [of _ True] exI [of _ pd] exI [of _ s]) simp
next
  case (Cons r rs)
  have fx: "h_isFixedAlloc ops (ls_handler s) r = h_isFixedAlloc ops (ls_handler s0) r"
    using Cons.prems(1) by (simp add: pass_inv_def frame_inv_def same_shape_def)
  show ?case
  proof (cases "h_isFixedAlloc ops (ls_handler s0) r")
    case True
    then have "alloc_dynamic_pass ops (r # rs) True dir pd (pending_of ops s0 pd) s =
      alloc_dynamic_pass ops rs True dir pd (pending_of ops s0 pd) s" "dynamic_of ops s0 (r # rs) = dynamic_of ops s0 rs"
      using fx by simp_all
    then show ?thesis using Cons.IH [OF Cons.prems(1)] Cons.prems(2) by simp
  next
    case False
    then have sz: "0 < h_getSize ops (ls_handler s0) r" "0 < h_getAlignment ops (ls_handler s0) r"
      "p_totalSize (ls_part s0) + h_getAlignment ops (ls_handler s0) r < U64" using Cons.prems(2) by simp_all
    obtain res t where t: "allocDynamicRange ops r True dir (pending_of ops s0 pd) s = Inr (res,
        case res of None \<Rightarrow> pending_of ops s0 pd | Some a \<Rightarrow> pending_of ops s0 pd @ [(a, h_getSize ops (ls_handler s0) r)], t)"
      "case res of None \<Rightarrow> pass_inv ops hinv rv s0 pd t \<and> ls_ranges t = []
       | Some a \<Rightarrow> pass_inv ops hinv rv s0 (pd @ [(r, a)]) t \<and> h_getAlignment ops (ls_handler s0) r dvd a"
      using allocDynamicRange_spill [OF assms(1) Cons.prems(1) False sz, of dir "pending_of ops s0 pd"]
      by (auto split: option.splits)
    show ?thesis
    proof (cases res)
      case None
      then show ?thesis using t fx False by (intro exI [of _ False] exI [of _ pd] exI [of _ t]) simp
    next
      case (Some a)
      have g: "pending_of ops s0 pd @ [(a, h_getSize ops (ls_handler s0) r)] = pending_of ops s0 (pd @ [(r, a)])"
        by (simp add: pending_of_def)
      have step: "alloc_dynamic_pass ops (r # rs) True dir pd (pending_of ops s0 pd) s =
          alloc_dynamic_pass ops rs True dir (pd @ [(r, a)]) (pending_of ops s0 (pd @ [(r, a)])) t"
        using fx False t(1) Some g by simp
      have p: "pass_inv ops hinv rv s0 (pd @ [(r, a)]) t" "h_getAlignment ops (ls_handler s0) r dvd a"
        using t(2) Some by simp_all
      have "\<forall>r\<in>set (dynamic_of ops s0 rs). 0 < h_getSize ops (ls_handler s0) r \<and> 0 < h_getAlignment ops (ls_handler s0) r \<and>
        p_totalSize (ls_part s0) + h_getAlignment ops (ls_handler s0) r < U64" using Cons.prems(2) by simp
      then obtain ok pd' u where u: "alloc_dynamic_pass ops rs True dir (pd @ [(r, a)]) (pending_of ops s0 (pd @ [(r, a)])) t =
          Inr (if ok then Some pd' else None, pending_of ops s0 pd', u)" "pass_inv ops hinv rv s0 pd' u"
        and none: "\<not> ok \<longrightarrow> ls_ranges u = []" and some: "ok \<longrightarrow> (\<exists>ds. pd' = (pd @ [(r, a)]) @ ds \<and> map fst ds = dynamic_of ops s0 rs \<and>
          (\<forall>(r, a)\<in>set ds. h_getAlignment ops (ls_handler s0) r dvd a))"
        using Cons.IH [OF p(1)] by blast
      have "\<exists>ds. pd' = pd @ ds \<and> map fst ds = dynamic_of ops s0 (r # rs) \<and>
          (\<forall>(r, a)\<in>set ds. h_getAlignment ops (ls_handler s0) r dvd a)" if granted: ok
      proof -
        obtain ds where "pd' = (pd @ [(r, a)]) @ ds" "map fst ds = dynamic_of ops s0 rs"
          "\<forall>(r, a)\<in>set ds. h_getAlignment ops (ls_handler s0) r dvd a" using some granted by blast
        then show ?thesis using False p(2) by (intro exI [of _ "(r, a) # ds"]) simp
      qed
      then show ?thesis unfolding step using u(1,2) none by blast
    qed
  qed
qed

lemma spill_rollback:
  assumes "pass_inv ops hinv rv s0 pd t"
  shows "\<exists>p. ls_rollback (pending_of ops s0 pd) t = Inr (False, t\<lparr>ls_part := p\<rparr>) \<and>
    (ls_ranges t = [] \<longrightarrow> p_free_set p = {..<p_totalSize (ls_part s0)} - blocks_set rv)"
proof -
  let ?g = "pending_of ops s0 pd" and ?T = "p_totalSize (ls_part s0)"
  have held: "held_inv ?T (ls_part t) (map (range_block ops (ls_handler t)) (ls_ranges t) @ ?g @ rv)"
    using assms by (simp add: pass_inv_def)
  then have "part_inv (ls_part t)" "blocks_ok (p_totalSize (ls_part t)) ?g" "blocks_set ?g \<inter> p_free_set (ls_part t) = {}"
    by (auto simp: held_inv_def blocks_ok_append)
  from pool.release_blocks [OF this]
  obtain p where p: "release_all ?g (ls_part t) = Inr p" "p_free_set p = p_free_set (ls_part t) \<union> blocks_set ?g"
    by (auto simp: release_all_def)
  have "p_free_set p = {..<?T} - blocks_set rv" if "ls_ranges t = []"
  proof -
    have q: "blocks_ok ?T (?g @ rv)" "p_free_set (ls_part t) = {..<?T} - blocks_set (?g @ rv)"
      using held that by (simp_all add: held_inv_def)
    then have "blocks_set ?g \<subseteq> {..<?T}" "blocks_set ?g \<inter> blocks_set rv = {}"
      using blocks_ok_bound [of ?T ?g] by (auto simp: blocks_ok_append)
    then show ?thesis unfolding p(2) q(2) by auto
  qed
  then show ?thesis using p(1) by (auto simp: ls_rollback_def)
qed

lemma spill_commit:
  assumes sp: "spiller ops hinv fresh" and req: "request_ok ops hinv fresh rv new s"
    and pass: "pass_inv ops hinv rv s pd t" and dom: "map fst pd = fixed_of ops s new @ dynamic_of ops s new"
    and al: "\<forall>(r, a)\<in>set pd. if h_isFixedAlloc ops (ls_handler s) r then h_getAddress ops (ls_handler s) r = Inr a
         else h_getAlignment ops (ls_handler s) r dvd a"
  shows "\<exists>u. res_fold (commit_range ops) pd t = Inr u \<and> alloc_spilled ops rv new s u \<and> hinv (ls_handler u)"
proof -
  let ?h = "ls_handler s" and ?T = "p_totalSize (ls_part s)"
  have fr: "hinv (ls_handler t)" "same_shape ops ?h (ls_handler t)" "set (ls_ranges t) \<subseteq> set (ls_ranges s)"
    "\<forall>u\<in>set (ls_ranges t). range_block ops (ls_handler t) u = range_block ops ?h u"
    "\<forall>u. u \<notin> set (ls_ranges s) \<longrightarrow> h_getAddress ops (ls_handler t) u = h_getAddress ops ?h u"
    and held: "held_inv ?T (ls_part t) (map (range_block ops (ls_handler t)) (ls_ranges t) @ pending_of ops s pd @ rv)"
    using pass unfolding pass_inv_def frame_inv_def by blast+
  have new: "set new \<inter> set (ls_ranges s) = {}" "distinct new" using req unfolding request_ok_def by blast+
  have dom': "fst ` set pd = set new" by (metis dom set_map set_append filter_set_split)
  have dist: "distinct (map fst pd)" using new by (auto simp: dom)
  have "blocks_ok ?T (pending_of ops s pd)" using held by (auto simp: held_inv_def blocks_ok_append)
  moreover have "part_inv (ls_part t)" "p_totalSize (ls_part t) = ?T" using held by (auto simp: held_inv_def)
  ultimately have valid: "a \<noteq> InvalidAddress" if "(r, a) \<in> set pd" for r a
  proof -
    have "(a, h_getSize ops ?h r) \<in> set (pending_of ops s pd)" using that by (force simp: pending_of_def)
    then have "a \<le> ?T" using block_fst_bound [OF \<open>blocks_ok ?T (pending_of ops s pd)\<close>] by fastforce
    then show ?thesis
      using part_inv_U64 [OF \<open>part_inv (ls_part t)\<close>, of a] \<open>p_totalSize (ls_part t) = ?T\<close> by auto
  qed
  have out: "r \<notin> set (ls_ranges s)" if "(r, a) \<in> set pd" for r a
    using that new(1) dom' by (metis IntI empty_iff fst_conv image_eqI)
  have "\<forall>(r, a)\<in>set pd. fresh (ls_handler t) r \<and> a \<noteq> InvalidAddress \<and>
      (h_isFixedAlloc ops (ls_handler t) r \<longrightarrow> h_getAddress ops (ls_handler t) r = Inr a)"
  proof clarify
    fix r a assume m: "(r, a) \<in> set pd"
    have "h_isFixedAlloc ops (ls_handler t) r = h_isFixedAlloc ops ?h r" using fr(2) by (simp add: same_shape_def)
    moreover have "h_getAddress ops (ls_handler t) r = h_getAddress ops ?h r" using fr(5) out [OF m] by blast
    moreover have "h_isFixedAlloc ops ?h r \<longrightarrow> h_getAddress ops ?h r = Inr a" using al m by fastforce
    ultimately show "fresh (ls_handler t) r \<and> a \<noteq> InvalidAddress \<and>
      (h_isFixedAlloc ops (ls_handler t) r \<longrightarrow> h_getAddress ops (ls_handler t) r = Inr a)"
      using sp fr(1) valid [OF m] by (simp add: spiller_def)
  qed
  from commit_all [OF fr(1) dist this] obtain h where h: "res_fold (commit_range ops) pd t =
      Inr (t\<lparr>ls_ranges := ls_ranges t @ map fst pd, ls_handler := h\<rparr>)" "hinv h" "same_shape ops (ls_handler t) h"
    "\<forall>(r, a)\<in>set pd. h_getAddress ops h r = Inr a"
    "\<forall>u. u \<notin> fst ` set pd \<longrightarrow> h_getAddress ops h u = h_getAddress ops (ls_handler t) u" by blast
  let ?u = "t\<lparr>ls_ranges := ls_ranges t @ map fst pd, ls_handler := h\<rparr>"
  have sz: "h_getSize ops h = h_getSize ops ?h" "h_getSize ops (ls_handler t) = h_getSize ops ?h"
    using h(3) fr(2) by (simp_all add: same_shape_def)
  have old: "range_block ops h u = range_block ops (ls_handler t) u" if "u \<in> set (ls_ranges t)" for u
  proof -
    have "u \<notin> set new" using that fr(3) new(1) by blast
    then have "h_getAddress ops h u = h_getAddress ops (ls_handler t) u" using h(5) dom' by blast
    then show ?thesis by (cases "h_getAddress ops (ls_handler t) u") (simp_all add: range_block_def sz)
  qed
  have G: "map (range_block ops h) (map fst pd) = pending_of ops s pd"
    using h(4) by (auto simp: pending_of_def range_block_def sz)
  have R: "map (range_block ops h) (ls_ranges t) = map (range_block ops (ls_handler t)) (ls_ranges t)"
    using old by simp
  have "held_inv ?T (ls_part t) (map (range_block ops h) (ls_ranges t @ map fst pd) @ rv)"
    using held unfolding map_append R G by simp
  then have inv: "ls_inv ops rv ?u" using held by (simp add: ls_inv_def held_inv_def)
  have addr: "\<exists>a. h_getAddress ops h r = Inr a \<and> (if h_isFixedAlloc ops ?h r then h_getAddress ops ?h r = Inr a
      else h_getAlignment ops ?h r dvd a)" if r: "r \<in> set new" for r
  proof -
    have "r \<in> fst ` set pd" by (simp only: dom' r)
    then obtain y where "r = fst y" "y \<in> set pd" by (rule imageE)
    then obtain a where "(r, a) \<in> set pd" by (metis prod.collapse)
    then show ?thesis using al h(4) by (intro exI [of _ a]) auto
  qed
  have set_u: "set (ls_ranges ?u) = set (ls_ranges t) \<union> set new" using dom' by simp
  have "\<forall>u\<in>set (ls_ranges ?u) - set new. range_block ops h u = range_block ops ?h u"
    using old fr(4) unfolding set_u by (metis DiffE UnE)
  then have "alloc_spilled ops rv new s ?u"
    unfolding alloc_spilled_def set_u using inv fr(3) addr by auto
  then show ?thesis using h(1,2) by (intro exI [of _ ?u]) simp
qed

lemma ls_alloc_spill:
  assumes sp: "spiller ops hinv fresh" and req: "request_ok ops hinv fresh rv new s"
  shows "\<exists>ok t. ls_alloc ops new True dir s = Inr (ok, t) \<and>
    (if ok then alloc_spilled ops rv new s t \<and> hinv (ls_handler t)
     else ls_ranges t = [] \<and> p_free_set (ls_part t) = {..<p_totalSize (ls_part s)} - blocks_set rv)"
proof -
  let ?h = "ls_handler s" and ?f = "range_block ops (ls_handler s)"
  let ?pdF = "map (\<lambda>r. (r, fst (?f r))) (fixed_of ops s new)"
  have p0: "pass_inv ops hinv rv s [] s"
    using req by (simp add: request_ok_def pass_inv_def frame_inv_def ls_inv_def pending_of_def)
  have dis: "set new \<inter> set (ls_ranges s) = {}" using req unfolding request_ok_def by blast
  have okF: "blocks_ok (p_totalSize (ls_part s)) (pending_of ops s [] @ map ?f (fixed_of ops s new) @ rv)"
    using req by (simp add: request_ok_def pending_of_def)
  obtain t where t: "alloc_fixed_pass ops new True [] [] s = Inr (Some ?pdF, pending_of ops s ?pdF, t)"
    "pass_inv ops hinv rv s ?pdF t"
    using alloc_fixed_pass_spill [OF sp p0 dis okF] by (auto simp: pending_of_def)
  have "\<forall>r\<in>set (dynamic_of ops s new). 0 < h_getSize ops ?h r \<and> 0 < h_getAlignment ops ?h r \<and>
        p_totalSize (ls_part s) + h_getAlignment ops ?h r < U64" using req unfolding request_ok_def by blast
  from alloc_dynamic_pass_spill [OF sp t(2) this, of dir]
  obtain ok pd u where u: "alloc_dynamic_pass ops new True dir ?pdF (pending_of ops s ?pdF) t =
      Inr (if ok then Some pd else None, pending_of ops s pd, u)" "pass_inv ops hinv rv s pd u"
    and none: "\<not> ok \<longrightarrow> ls_ranges u = []" and some: "ok \<longrightarrow> (\<exists>ds. pd = ?pdF @ ds \<and> map fst ds = dynamic_of ops s new \<and>
       (\<forall>(r, a)\<in>set ds. h_getAlignment ops ?h r dvd a))" by blast
  show ?thesis
  proof (cases ok)
    case False
    then show ?thesis using t(1) u(1) none spill_rollback [OF u(2)] by (auto simp: ls_alloc_def)
  next
    case True
    then obtain ds where ds: "pd = ?pdF @ ds" "map fst ds = dynamic_of ops s new"
      "\<forall>(r, a)\<in>set ds. h_getAlignment ops ?h r dvd a" using some by blast
    have "fst x \<in> set (dynamic_of ops s new)" if "x \<in> set ds" for x
      using that ds(2) by (metis image_eqI set_map)
    moreover have "h_getAddress ops ?h r = Inr (fst (?f r))" if "r \<in> set (fixed_of ops s new)" for r
      using range_block_ok [OF okF, of ops ?h r] that by force
    ultimately have "\<forall>(r, a)\<in>set pd. if h_isFixedAlloc ops ?h r then h_getAddress ops ?h r = Inr a
         else h_getAlignment ops ?h r dvd a"
      using ds(3) by (fastforce simp: ds(1))
    moreover have "map fst pd = fixed_of ops s new @ dynamic_of ops s new" using ds(1,2) by (simp add: comp_def)
    ultimately obtain w where "res_fold (commit_range ops) pd u = Inr w" "alloc_spilled ops rv new s w" "hinv (ls_handler w)"
      using spill_commit [OF sp req u(2)] by blast
    then show ?thesis using t(1) u(1) True by (auto simp: ls_alloc_def)
  qed
qed

text \<open>One dynamic range is refused only when it would not fit an otherwise empty memory.\<close>

lemma ls_alloc_spill_single:
  assumes sp: "spiller ops hinv fresh" and req: "request_ok ops hinv fresh rv [r] s"
    and dyn: "\<not> h_isFixedAlloc ops (ls_handler s) r"
  shows "\<exists>t. ls_alloc ops [r] True dir s = Inr (\<exists>x. h_getAlignment ops (ls_handler s) r dvd x \<and>
      {x..<x + h_getSize ops (ls_handler s) r} \<subseteq> {..<p_totalSize (ls_part s)} - blocks_set rv, t)"
proof -
  let ?sz = "h_getSize ops (ls_handler s) r" and ?al = "h_getAlignment ops (ls_handler s) r"
  let ?T = "p_totalSize (ls_part s)"
  have p0: "pass_inv ops hinv rv s [] s"
    using req by (simp add: request_ok_def pass_inv_def frame_inv_def ls_inv_def pending_of_def)
  have sz: "0 < ?sz" "0 < ?al" "?T + ?al < U64" using req dyn by (simp_all add: request_ok_def)
  obtain res t where t: "allocDynamicRange ops r True dir [] s =
      Inr (res, case res of None \<Rightarrow> [] | Some a \<Rightarrow> [] @ [(a, ?sz)], t)"
    "case res of None \<Rightarrow> pass_inv ops hinv rv s [] t \<and> ls_ranges t = [] \<and> ls_handler t = ls_handler s \<and> (\<forall>x. ?al dvd x \<longrightarrow>
        \<not> {x..<x + ?sz} \<subseteq> {..<?T} - blocks_set (pending_of ops s [] @ rv))
     | Some a \<Rightarrow> pass_inv ops hinv rv s ([] @ [(r, a)]) t \<and> ?al dvd a"
    using allocDynamicRange_spill [OF sp p0 dyn sz, of dir "[]"] by blast
  show ?thesis
  proof (cases res)
    case None
    then show ?thesis using t dyn spill_rollback [of rv s "[]" t] by (auto simp: ls_alloc_def pending_of_def)
  next
    case (Some a)
    then have p: "pass_inv ops hinv rv s [(r, a)] t" "?al dvd a" using t(2) by simp_all
    obtain u where "res_fold (commit_range ops) [(r, a)] t = Inr u"
      using spill_commit [OF sp req p(1)] dyn p(2) by auto
    then have "ls_alloc ops [r] True dir s = Inr (True, u)" using t(1) Some dyn by (simp add: ls_alloc_def)
    moreover have "{a..<a + ?sz} \<subseteq> {..<?T} - blocks_set rv"
      using p(1) by (auto simp: pass_inv_def held_inv_def pending_of_def blocks_ok_append)
    ultimately show ?thesis using p(2) by auto
  qed
qed

text \<open>
  When it is refused, the live ranges are gone although the handler was neither told to spill nor to free them.
\<close>

lemma ls_alloc_spill_single_refused:
  assumes sp: "spiller ops hinv fresh" and req: "request_ok ops hinv fresh rv [r] s" and run: "ls_alloc ops [r] True dir s = Inr (False, t)"
  shows "ls_handler t = ls_handler s"
proof -
  let ?sz = "h_getSize ops (ls_handler s) r" and ?al = "h_getAlignment ops (ls_handler s) r"
  have p0: "pass_inv ops hinv rv s [] s"
    using req by (simp add: request_ok_def pass_inv_def frame_inv_def ls_inv_def pending_of_def)
  have dis: "set [r] \<inter> set (ls_ranges s) = {}" using req unfolding request_ok_def by blast
  have okF: "blocks_ok (p_totalSize (ls_part s)) (pending_of ops s [] @ map (range_block ops (ls_handler s)) (fixed_of ops s [r]) @ rv)"
    using req by (simp add: request_ok_def pending_of_def)
  obtain pd u where u: "alloc_fixed_pass ops [r] True [] (pending_of ops s []) s = Inr (Some pd, pending_of ops s pd, u)" "pass_inv ops hinv rv s pd u"
    using alloc_fixed_pass_spill [OF sp p0 dis okF] by blast
  have fx: "h_isFixedAlloc ops (ls_handler u) r = h_isFixedAlloc ops (ls_handler s) r"
    using u(2) by (simp add: pass_inv_def frame_inv_def same_shape_def)
  show ?thesis
  proof (cases "h_isFixedAlloc ops (ls_handler s) r")
    case True
    then show ?thesis using run u(1) fx by (auto simp: ls_alloc_def pending_of_def res_bind_eq_Inr)
  next
    case False
    then have sz: "0 < ?sz" "0 < ?al" "p_totalSize (ls_part s) + ?al < U64" using req by (simp_all add: request_ok_def)
    obtain res v where v: "allocDynamicRange ops r True dir [] s = Inr (res, case res of None \<Rightarrow> [] | Some a \<Rightarrow> [] @ [(a, ?sz)], v)"
      "case res of None \<Rightarrow> pass_inv ops hinv rv s [] v \<and> ls_ranges v = [] \<and> ls_handler v = ls_handler s \<and> (\<forall>x. ?al dvd x \<longrightarrow>
          \<not> {x..<x + ?sz} \<subseteq> {..<p_totalSize (ls_part s)} - blocks_set (pending_of ops s [] @ rv))
       | Some a \<Rightarrow> pass_inv ops hinv rv s ([] @ [(r, a)]) v \<and> ?al dvd a"
      using allocDynamicRange_spill [OF sp p0 False sz, of dir "[]"] by blast
    show ?thesis
    proof (cases res)
      case None
      then have "ls_alloc ops [r] True dir s = res_bind (release_all [] (ls_part v)) (\<lambda>p. Inr (False, v\<lparr>ls_part := p\<rparr>))"
        using v(1) False by (simp add: ls_alloc_def ls_rollback_def)
      moreover have "ls_handler v = ls_handler s" using v(2) None by simp
      ultimately show ?thesis using run by (simp only: release_all_def res_fold.simps) simp
    next
      case (Some a)
      then have "ls_alloc ops [r] True dir s = res_bind (res_fold (commit_range ops) [(r, a)] v) (\<lambda>s. Inr (True, s))"
        using v(1) False by (simp add: ls_alloc_def)
      then have "res_bind (res_fold (commit_range ops) [(r, a)] v) (\<lambda>s. Inr (True, s)) = Inr (False, t)" using run by (simp only:)
      then show ?thesis by (auto simp only: res_bind_eq_Inr sum.inject prod.inject simp_thms)
    qed
  qed
qed

section \<open>What the feasibility tests promise\<close>

lemma request_tester:
  assumes req: "request_ok ops hinv fresh rv new s" and dyn: "\<forall>r\<in>set new. \<not> h_isFixedAlloc ops (ls_handler s) r"
  shows "\<exists>ok g p. tester_ranges ops (ls_handler s) new dir ([], ls_part s) = Inr (ok, g, p) \<and> took (ls_part s) g p"
proof -
  have "dynamic_of ops s new = new" using dyn by simp
  then have "\<forall>r\<in>set new. 0 < h_getSize ops (ls_handler s) r \<and> 0 < h_getAlignment ops (ls_handler s) r \<and>
      p_totalSize (ls_part s) + h_getAlignment ops (ls_handler s) r < U64"
    using req unfolding request_ok_def by metis
  moreover have "took (ls_part s) [] (ls_part s)"
    using req by (intro took_nothing) (simp add: request_ok_def ls_inv_def held_inv_def)
  ultimately show ?thesis using tester_ranges_took by metis
qed

lemma alloc_fixed_pass_none:
  "\<forall>r\<in>set new. \<not> h_isFixedAlloc ops (ls_handler s) r \<Longrightarrow> alloc_fixed_pass ops new b pd g s = Inr (Some pd, g, s)"
  by (induction new) auto

lemma canAlloc_predicts:
  assumes req: "request_ok ops hinv fresh rv new s" and dyn: "\<forall>r\<in>set new. \<not> h_isFixedAlloc ops (ls_handler s) r"
  shows "\<exists>ok t. canAlloc ops new dir s = Inr (ok, s) \<and> ls_alloc ops new False dir s = Inr (ok, t)"
proof -
  obtain ok g p where t: "tester_ranges ops (ls_handler s) new dir ([], ls_part s) = Inr (ok, g, p)" "took (ls_part s) g p"
    using request_tester [OF req dyn] by blast
  have D: "dynamic_of ops s new = new" using dyn by simp
  have run: "ls_alloc ops new False dir s = (if ok then res_bind (res_fold (commit_range ops)
      (zip new (map fst g)) (s\<lparr>ls_part := p\<rparr>)) (\<lambda>s. Inr (True, s)) else ls_rollback g (s\<lparr>ls_part := p\<rparr>))"
    using t(1) by (simp add: ls_alloc_def alloc_fixed_pass_none [OF dyn] alloc_dynamic_pass_tester D)
  obtain ok' u where u: "ls_alloc ops new False dir s = Inr (ok', u)" using ls_alloc_no_spill [OF req] by blast
  have "ok' = ok"
  proof (cases ok)
    case True
    then show ?thesis using u run by (auto simp: res_bind_eq_Inr)
  next
    case False
    then show ?thesis using u run by (auto simp: ls_rollback_def res_bind_eq_Inr)
  qed
  moreover have "canAlloc ops new dir s = Inr (ok, s)" unfolding canAlloc_def using t by (rule tested_restores)
  ultimately show ?thesis using u by blast
qed

lemma allocWithReservedSpace_spec:
  assumes req: "request_ok ops hinv fresh rv new s" and dyn: "\<forall>r\<in>set new. \<not> h_isFixedAlloc ops (ls_handler s) r"
    and sz: "0 < sz" "0 < al" "p_totalSize (ls_part s) + al < U64"
  shows "\<exists>a t. allocWithReservedSpace ops new sz al False dir s = Inr (a, t) \<and>
    (if a = InvalidAddress then t = s
     else al dvd a \<and> {a..<a + sz} \<subseteq> p_free_set (ls_part t) \<and> alloc_done ops rv new s t \<and> hinv (ls_handler t))"
proof -
  let ?p = "ls_part s" and ?T = "p_totalSize (ls_part s)" and ?f = "range_block ops (ls_handler s)"
  have held: "held_inv ?T ?p (map ?f (ls_ranges s) @ rv)" using req by (simp add: request_ok_def ls_inv_def)
  then have pi: "part_inv ?p" by (simp add: held_inv_def)
  obtain a q where a: "p_alloc ?p sz al dir = Inr (a, q)"
    "if a = InvalidAddress then q = ?p \<and> (\<forall>x. al dvd x \<longrightarrow> \<not> {x..<x + sz} \<subseteq> p_free_set ?p)
     else al dvd a \<and> took ?p ([] @ [(a, sz)]) q"
    using took_alloc [OF took_nothing [OF pi] sz, of dir] by blast
  show ?thesis
  proof (cases "a = InvalidAddress")
    case True
    then have "allocWithReservedSpace ops new sz al False dir s = Inr (InvalidAddress, s)"
      using a by (simp add: allocWithReservedSpace_def Let_def)
    then show ?thesis by auto
  next
    case False
    then have q: "al dvd a" "took ?p [(a, sz)] q" using a(2) by simp_all
    let ?s = "s\<lparr>ls_part := q\<rparr>" and ?rv = "(a, sz) # rv"
    have tot: "p_totalSize q = ?T" using q(2) by (simp add: took_def)
    have "held_inv ?T q ((a, sz) # map ?f (ls_ranges s) @ rv)" using took_held [OF q(2) held] by simp
    then have heldq: "held_inv ?T q (map ?f (ls_ranges s) @ ?rv)"
      by (rule iffD1 [OF held_inv_mset, rotated]) simp
    have fx: "fixed_of ops s new = []" "dynamic_of ops s new = new" using dyn by (simp_all add: filter_empty_conv)
    have "blocks_ok ?T ?rv" using heldq by (auto simp: held_inv_def blocks_ok_append)
    then have req': "request_ok ops hinv fresh ?rv new ?s"
      using req heldq tot fx by (simp add: request_ok_def ls_inv_def)
    obtain ok t where t: "ls_alloc ops new False dir ?s = Inr (ok, t)"
      "if ok then alloc_done ops ?rv new ?s t \<and> hinv (ls_handler t) else t = ?s"
      using ls_alloc_no_spill [OF req'] by blast
    have "ls_inv ops ?rv t"
      using t(2) heldq tot by (auto simp: alloc_done_def ls_inv_def split: if_splits)
    then have "held_inv (p_totalSize (ls_part t)) (ls_part t)
        (map (range_block ops (ls_handler t)) (ls_ranges t) @ (a, sz) # rv)" by (simp add: ls_inv_def)
    from held_inv_give [OF this] this
    obtain p where p: "p_free (ls_part t) a sz = Inr p" "held_inv (p_totalSize (ls_part t)) p
        (map (range_block ops (ls_handler t)) (ls_ranges t) @ rv)"
      and ap: "blocks_ok (p_totalSize (ls_part t)) (map (range_block ops (ls_handler t)) (ls_ranges t) @ (a, sz) # rv)"
      unfolding held_inv_def by blast
    have run: "allocWithReservedSpace ops new sz al False dir s = Inr (if ok then a else InvalidAddress, t\<lparr>ls_part := p\<rparr>)"
      using a(1) False t(1) p(1) by (simp add: allocWithReservedSpace_def Let_def)
    show ?thesis
    proof (cases ok)
      case True
      have "p_totalSize p = p_totalSize (ls_part t)" using p(2) by (simp add: held_inv_def)
      then have "ls_inv ops rv (t\<lparr>ls_part := p\<rparr>)" using p(2) by (simp add: ls_inv_def)
      then have "alloc_done ops rv new s (t\<lparr>ls_part := p\<rparr>)" "hinv (ls_handler t)"
        using t(2) True by (simp_all add: alloc_done_def cong: if_cong)
      moreover have "{a..<a + sz} \<subseteq> p_free_set p" using p(2) ap by (auto simp: held_inv_def blocks_ok_append)
      ultimately show ?thesis unfolding run using True q(1) False
        by (intro exI [of _ a] exI [of _ "t\<lparr>ls_part := p\<rparr>"]) simp
    next
      case False
      then have "t = ?s" using t(2) by simp
      moreover have "p_free q a sz = Inr ?p"
        using took_release [OF q(2)] by (simp add: release_all_def res_bind_eq_Inr)
      ultimately show ?thesis unfolding run using False p(1) by auto
    qed
  qed
qed

end

end
