(* ===== verification/Linear_Scan_Handler.thy ===== *)
theory Linear_Scan_Handler
  imports Linear_Scan
begin

text \<open>
  \<^verbatim>\<open>src/core/linear_scan_handler.cpp\<close>: the handler the compiler uses for buffers.
  It provides the laws of a handler, so what the linear scan promises holds for the
  allocation of buffers.  What the handler reads off a value of the IR (its total size,
  its alignment, the offset of a static allocation) is a parameter.
\<close>

section \<open>The handler\<close>

record 'v value_info =
  v_totalSize :: "'v \<Rightarrow> int"
  v_alignment :: "'v \<Rightarrow> nat \<Rightarrow> nat"
  v_staticOffset :: "'v \<Rightarrow> int option"

record 'v buffer_handler =
  valOffsets :: "'v \<rightharpoonup> nat"
  sizeCache :: "'v \<rightharpoonup> nat"
  aliveValues :: "'v set"
  dynamicSpillValues :: "'v set"
  defaultAlignment :: nat
  maxAllocSize :: int

definition u64_of_int :: "int \<Rightarrow> nat" where
  "u64_of_int i = nat (i mod 2 ^ 64)"

definition i64_of_u64 :: "nat \<Rightarrow> int" where
  "i64_of_u64 n = (if n < 2 ^ 63 then int n else int n - 2 ^ 64)"

definition new_handler :: "nat \<Rightarrow> 'v buffer_handler" where
  "new_handler al = \<lparr>valOffsets = Map.empty, sizeCache = Map.empty, aliveValues = {}, dynamicSpillValues = {},
     defaultAlignment = al, maxAllocSize = 0\<rparr>"

definition markAsDead :: "'v \<Rightarrow> 'v buffer_handler \<Rightarrow> 'v buffer_handler" where
  "markAsDead v h = h\<lparr>aliveValues := aliveValues h - {v}\<rparr>"

definition markAllBuffersAsDead :: "'v buffer_handler \<Rightarrow> 'v buffer_handler" where
  "markAllBuffersAsDead h = h\<lparr>aliveValues := {}\<rparr>"

definition markAsAlive :: "'v \<Rightarrow> 'v buffer_handler \<Rightarrow> 'v buffer_handler" where
  "markAsAlive v h = h\<lparr>aliveValues := insert v (aliveValues h)\<rparr>"

definition maxAllocatedSize :: "'v buffer_handler \<Rightarrow> int" where
  "maxAllocatedSize h = maxAllocSize h"

definition markAsDynamicSpill :: "'v \<Rightarrow> 'v buffer_handler \<Rightarrow> 'v buffer_handler" where
  "markAsDynamicSpill v h = h\<lparr>dynamicSpillValues := insert v (dynamicSpillValues h)\<rparr>"

definition removeDynamicSpill :: "'v \<Rightarrow> 'v buffer_handler \<Rightarrow> 'v buffer_handler res" where
  "removeDynamicSpill v h =
     (if v \<notin> dynamicSpillValues h then Inl (Vpux_Throw ''Value was not dynamic spilled'')
      else Inr (h\<lparr>dynamicSpillValues := dynamicSpillValues h - {v}\<rparr>))"

definition isAlive :: "'v buffer_handler \<Rightarrow> 'v \<Rightarrow> bool" where
  "isAlive h v \<longleftrightarrow> v \<in> aliveValues h"

definition isAllocated :: "'v buffer_handler \<Rightarrow> 'v \<Rightarrow> bool" where
  "isAllocated h v \<longleftrightarrow> valOffsets h v \<noteq> None"

definition isDynamicSpill :: "'v buffer_handler \<Rightarrow> 'v \<Rightarrow> bool" where
  "isDynamicSpill h v \<longleftrightarrow> v \<in> dynamicSpillValues h"

definition isFixedAlloc :: "'v value_info \<Rightarrow> 'v \<Rightarrow> bool" where
  "isFixedAlloc ir v \<longleftrightarrow> v_staticOffset ir v \<noteq> None"

text \<open>The size of a value is computed once and cached.\<close>

definition getSize :: "'v value_info \<Rightarrow> 'v \<Rightarrow> 'v buffer_handler \<Rightarrow> nat \<times> 'v buffer_handler" where
  "getSize ir v h = (case sizeCache h v of
       None \<Rightarrow> let sz = u64_of_int (v_totalSize ir v) in (sz, h\<lparr>sizeCache := (sizeCache h)(v \<mapsto> sz)\<rparr>)
     | Some sz \<Rightarrow> (sz, h))"

definition getAlignment :: "'v value_info \<Rightarrow> 'v buffer_handler \<Rightarrow> 'v \<Rightarrow> nat" where
  "getAlignment ir h v = v_alignment ir v (defaultAlignment h)"

definition getAddress :: "'v value_info \<Rightarrow> 'v buffer_handler \<Rightarrow> 'v \<Rightarrow> nat res" where
  "getAddress ir h v = (case v_staticOffset ir v of
       Some off \<Rightarrow> if off < 0 then Inl (Vpux_Throw ''Can not safely cast'') else Inr (nat off)
     | None \<Rightarrow> (case valOffsets h v of
         None \<Rightarrow> Inl (Vpux_Throw ''Value was not allocated'')
       | Some a \<Rightarrow> Inr a))"

definition setAddress :: "'v \<Rightarrow> nat \<Rightarrow> 'v buffer_handler \<Rightarrow> 'v buffer_handler" where
  "setAddress v a h = h\<lparr>valOffsets := (valOffsets h)(v \<mapsto> a)\<rparr>"

definition allocated :: "'v value_info \<Rightarrow> 'v buffer_handler \<Rightarrow> 'v \<Rightarrow> nat \<Rightarrow> 'v buffer_handler res" where
  "allocated ir h v addr =
     (if addr = InvalidAddress then Inl (Vpux_Throw ''Trying to assign invalid address'')
      else if isAllocated h v then Inl (Vpux_Throw ''Value was already allocated'')
      else let h = h\<lparr>valOffsets := (valOffsets h)(v \<mapsto> addr)\<rparr>;
               (sz, h) = getSize ir v h;
               allocatedSize = i64_of_u64 (u64_add addr sz)
           in Inr (h\<lparr>maxAllocSize := max (maxAllocSize h) allocatedSize\<rparr>))"

definition deallocate :: "'v \<Rightarrow> 'v buffer_handler \<Rightarrow> 'v buffer_handler res" where
  "deallocate v h =
     (if \<not> isAllocated h v then Inl (Vpux_Throw ''Value was not allocated'')
      else Inr (h\<lparr>valOffsets := (valOffsets h)(v := None)\<rparr>))"

definition getAliveValues :: "'v buffer_handler \<Rightarrow> 'v set" where
  "getAliveValues h = aliveValues h"

definition freed :: "'v buffer_handler \<Rightarrow> 'v \<Rightarrow> 'v buffer_handler res" where
  "freed h v = Inr (markAsDead v h)"

definition getSpillWeight :: "'v buffer_handler \<Rightarrow> 'v \<Rightarrow> int res" where
  "getSpillWeight h v = Inl (Vpux_Throw ''Spills are not implemented'')"

definition spilled :: "'v buffer_handler \<Rightarrow> 'v \<Rightarrow> (bool \<times> 'v buffer_handler) res" where
  "spilled h v = Inl (Vpux_Throw ''Spills are not implemented'')"

text \<open>
  The handler as the linear scan sees it.  Its interface documents the size as a query;
  the cache a query may fill is not visible through it (\<^verbatim>\<open>getSize_cached\<close>).
\<close>

definition buffer_ops :: "'v value_info \<Rightarrow> ('v, 'v buffer_handler) handler_ops" where
  "buffer_ops ir = \<lparr>h_isAlive = isAlive, h_isFixedAlloc = (\<lambda>h. isFixedAlloc ir), h_getSize = (\<lambda>h v. fst (getSize ir v h)),
     h_getAlignment = getAlignment ir, h_getAddress = getAddress ir, h_allocated = allocated ir, h_freed = freed,
     h_getSpillWeight = getSpillWeight, h_spilled = spilled\<rparr>"

section \<open>The laws of a handler\<close>

definition cache_ok :: "'v value_info \<Rightarrow> 'v buffer_handler \<Rightarrow> bool" where
  "cache_ok ir h \<longleftrightarrow> (\<forall>v sz. sizeCache h v = Some sz \<longrightarrow> sz = u64_of_int (v_totalSize ir v))"

definition unallocated :: "'v buffer_handler \<Rightarrow> 'v \<Rightarrow> bool" where
  "unallocated h v \<longleftrightarrow> \<not> isAllocated h v"

lemma getSize_cached:
  assumes "cache_ok ir h"
  shows "fst (getSize ir v h) = u64_of_int (v_totalSize ir v)" "cache_ok ir (snd (getSize ir v h))"
    "valOffsets (snd (getSize ir v h)) = valOffsets h" "aliveValues (snd (getSize ir v h)) = aliveValues h"
    "defaultAlignment (snd (getSize ir v h)) = defaultAlignment h"
    "dynamicSpillValues (snd (getSize ir v h)) = dynamicSpillValues h"
    "maxAllocSize (snd (getSize ir v h)) = maxAllocSize h"
  using assms by (auto simp: getSize_def cache_ok_def Let_def split: option.splits)

lemma allocated_state:
  assumes "cache_ok ir h" "allocated ir h v a = Inr h'"
  shows "cache_ok ir h'" "valOffsets h' = (valOffsets h)(v \<mapsto> a)" "aliveValues h' = aliveValues h"
    "defaultAlignment h' = defaultAlignment h" "a \<noteq> InvalidAddress" "valOffsets h v = None"
    "maxAllocSize h' = max (maxAllocSize h) (i64_of_u64 (u64_add a (u64_of_int (v_totalSize ir v))))"
proof -
  let ?h = "h\<lparr>valOffsets := (valOffsets h)(v \<mapsto> a)\<rparr>"
  have c: "cache_ok ir ?h" using assms(1) by (simp add: cache_ok_def)
  note g = getSize_cached [OF c, of v]
  have h': "a \<noteq> InvalidAddress" "\<not> isAllocated h v" "h' = (snd (getSize ir v ?h))\<lparr>maxAllocSize :=
      max (maxAllocSize (snd (getSize ir v ?h))) (i64_of_u64 (u64_add a (fst (getSize ir v ?h))))\<rparr>"
    using assms(2) by (auto simp: allocated_def case_prod_beta Let_def split: if_splits)
  show "a \<noteq> InvalidAddress" "valOffsets h v = None" using h'(1,2) by (simp_all add: isAllocated_def)
  show "cache_ok ir h'" using g(2) by (simp add: h'(3) cache_ok_def)
  show "valOffsets h' = (valOffsets h)(v \<mapsto> a)" "aliveValues h' = aliveValues h"
    "defaultAlignment h' = defaultAlignment h"
    "maxAllocSize h' = max (maxAllocSize h) (i64_of_u64 (u64_add a (u64_of_int (v_totalSize ir v))))"
    using g by (simp_all add: h'(3))
qed

lemma same_shape_buffer:
  assumes "cache_ok ir h" "cache_ok ir h'" "defaultAlignment h' = defaultAlignment h"
  shows "same_shape (buffer_ops ir) h h'"
  using assms by (simp add: same_shape_def buffer_ops_def getSize_cached getAlignment_def fun_eq_iff)

interpretation buffers: live_range_handler "buffer_ops ir" "cache_ok ir" unallocated for ir :: "'v value_info"
proof
  fix h h' :: "'v buffer_handler" and v a
  show "\<exists>h'. h_allocated (buffer_ops ir) h v a = Inr h'"
    if "cache_ok ir h" "unallocated h v" "a \<noteq> InvalidAddress"
    using that by (simp add: buffer_ops_def allocated_def unallocated_def case_prod_beta Let_def)
  assume c: "cache_ok ir h" and al: "h_allocated (buffer_ops ir) h v a = Inr h'"
  note st = allocated_state [OF c, of v a h']
  have al': "allocated ir h v a = Inr h'" using al by (simp add: buffer_ops_def)
  show "h_getAddress (buffer_ops ir) h' v = Inr a"
    if "h_isFixedAlloc (buffer_ops ir) h v \<Longrightarrow> h_getAddress (buffer_ops ir) h v = Inr a"
    using that st(2) [OF al'] by (auto simp: buffer_ops_def getAddress_def isFixedAlloc_def split: option.splits if_splits)
  have "same_others (buffer_ops ir) v h h'"
    using st(2,3) [OF al'] by (simp add: same_others_def buffer_ops_def getAddress_def isAlive_def split: option.split)
  moreover have "\<forall>u. u \<noteq> v \<longrightarrow> unallocated h u \<longrightarrow> unallocated h' u"
    using st(2) [OF al'] by (simp add: unallocated_def isAllocated_def)
  ultimately show "cache_ok ir h' \<and> same_shape (buffer_ops ir) h h' \<and> same_others (buffer_ops ir) v h h' \<and>
      (\<forall>u. u \<noteq> v \<longrightarrow> unallocated h u \<longrightarrow> unallocated h' u)"
    using st(1,4) [OF al'] same_shape_buffer [OF c] by blast
next
  fix h :: "'v buffer_handler" and v
  assume c: "cache_ok ir h"
  have c': "cache_ok ir (markAsDead v h)" using c by (simp add: markAsDead_def cache_ok_def)
  moreover have "same_shape (buffer_ops ir) h (markAsDead v h)"
    by (rule same_shape_buffer [OF c c']) (simp add: markAsDead_def)
  moreover have "same_others (buffer_ops ir) v h (markAsDead v h)"
    by (simp add: same_others_def buffer_ops_def markAsDead_def getAddress_def isAlive_def split: option.split)
  ultimately show "\<exists>h'. h_freed (buffer_ops ir) h v = Inr h' \<and> cache_ok ir h' \<and> same_shape (buffer_ops ir) h h' \<and>
      same_others (buffer_ops ir) v h h'" by (simp add: buffer_ops_def freed_def)
next
  fix h h' :: "'v buffer_handler" and v b
  assume "h_spilled (buffer_ops ir) h v = Inr (b, h')"
  then show "cache_ok ir h' \<and> same_shape (buffer_ops ir) h h' \<and> same_others (buffer_ops ir) v h h'"
    by (simp add: buffer_ops_def spilled_def)
qed

section \<open>Properties of the allocation of buffers\<close>

text \<open>
  C7. Allocation without spills is all or nothing: it never fails an assertion or throws;
  either every new buffer gets a block of its own, aligned and for a static allocation at its
  own offset, with the live ranges disjoint and the free addresses exactly the others,
  or the allocator is what it was before.
\<close>

theorem buffers_alloc_all_or_nothing:
  assumes "request_ok (buffer_ops ir) (cache_ok ir) unallocated rv new s"
  shows "\<exists>ok t. ls_alloc (buffer_ops ir) new False dir s = Inr (ok, t) \<and>
    (if ok then alloc_done (buffer_ops ir) rv new s t \<and> cache_ok ir (ls_handler t) else t = s)"
  using assms by (rule buffers.ls_alloc_no_spill)

definition example_values :: "nat value_info" where
  "example_values = \<lparr>v_totalSize = (\<lambda>v. 16), v_alignment = (\<lambda>v d. 16),
     v_staticOffset = (\<lambda>v. if v = 9 then Some 32 else None)\<rparr>"

definition example_scan :: "(nat, nat buffer_handler) linear_scan" where
  "example_scan = \<lparr>ls_part = \<lparr>p_gaps = [mk_gap 0 64], p_totalSize = 64\<rparr>, ls_ranges = [],
     ls_handler = (new_handler 1)\<lparr>aliveValues := {5, 9}\<rparr>\<rparr>"

lemma example_scan_part: "part_inv \<lparr>p_gaps = [mk_gap 0 64], p_totalSize = 64\<rparr>"
  by (simp add: part_inv_def gaps_inv_Cons gap_in_def InvalidAddress_def U64_def)

lemma example_size: "fst (getSize example_values v ((new_handler d)\<lparr>aliveValues := A\<rparr>)) = 16"
  by (simp add: getSize_def new_handler_def example_values_def u64_of_int_def Let_def)

lemmas example_simps = example_values_def buffer_ops_def isFixedAlloc_def unallocated_def isAllocated_def
  getAlignment_def getAddress_def cache_ok_def InvalidAddress_def U64_def

lemma filter_single: "distinct xs \<Longrightarrow> filter (\<lambda>x. x = a) xs = (if a \<in> set xs then [a] else [])"
  by (induction xs) (auto simp: filter_empty_conv)

lemma example_request:
  assumes "set new \<subseteq> {5, 6, 9}" "distinct new"
  shows "request_ok (buffer_ops example_values) (cache_ok example_values) unallocated [] new example_scan"
proof -
  have "p_free_set \<lparr>p_gaps = [mk_gap 0 64], p_totalSize = 64\<rparr> = {..<64}"
    by (auto simp: p_free_set_def gap_set_def)
  then have "ls_inv (buffer_ops example_values) [] example_scan"
    using example_scan_part by (simp add: ls_inv_def held_inv_def example_scan_def)
  moreover have f: "h_isFixedAlloc (buffer_ops example_values) h = (\<lambda>v. v = 9)" for h
    by (auto simp: example_simps fun_eq_iff)
  moreover note filter_single [OF assms(2), of 9]
  moreover have "range_block (buffer_ops example_values) (ls_handler example_scan) 9 = (32, 16)"
    using example_size [where v = 9 and d = 1 and A = "{5, 9}"]
    by (simp add: range_block_def example_scan_def buffer_ops_def getAddress_def example_values_def)
  ultimately show ?thesis using assms(2) example_size [where d = 1 and A = "{5, 9}"]
    by (simp add: request_ok_def) (simp add: example_scan_def new_handler_def example_simps)
qed

theorem buffers_alloc_all_or_nothing_witness:
  "\<exists>ok t. ls_alloc (buffer_ops example_values) [5, 9] False Up example_scan = Inr (ok, t) \<and>
    (ok \<or> t = example_scan)"
proof -
  have r: "set [5, 9] \<subseteq> {5, 6, (9::nat)}" "distinct [5, (9::nat)]" by simp_all
  obtain ok t where "ls_alloc (buffer_ops example_values) [5, 9] False Up example_scan = Inr (ok, t)"
    "if ok then alloc_done (buffer_ops example_values) [] [5, 9] example_scan t \<and> cache_ok example_values (ls_handler t)
     else t = example_scan"
    using buffers_alloc_all_or_nothing [OF example_request [OF r], of Up] by blast
  then show ?thesis by (cases ok) auto
qed

text \<open>
  C8. For new buffers none of which has a static offset, the feasibility test leaves the allocator as it was and
  answers exactly whether the allocation without spills would succeed.  The restriction is needed: the test looks for a
  place for every range and does not ask whether one is fixed.
\<close>

theorem canAlloc_predicts_alloc:
  assumes "request_ok (buffer_ops ir) (cache_ok ir) unallocated rv new s" "\<forall>r\<in>set new. \<not> isFixedAlloc ir r"
  shows "\<exists>ok t. canAlloc (buffer_ops ir) new dir s = Inr (ok, s) \<and> ls_alloc (buffer_ops ir) new False dir s = Inr (ok, t)"
  using assms(2) by (intro buffers.canAlloc_predicts [OF assms(1)]) (simp add: buffer_ops_def)

theorem canAlloc_predicts_alloc_witness:
  "\<exists>ok t. canAlloc (buffer_ops example_values) [5, 6] Down example_scan = Inr (ok, example_scan) \<and>
    ls_alloc (buffer_ops example_values) [5, 6] False Down example_scan = Inr (ok, t)"
  by (rule canAlloc_predicts_alloc [OF example_request]) (auto simp: isFixedAlloc_def example_values_def)

text \<open>
  C24. Allocation beside a reserved space without spills, for new buffers none of which has a static offset: when an
  address is returned it is aligned, the reserved space is free again and disjoint from every block, and the buffers are
  allocated; otherwise nothing changed.
\<close>

theorem reserved_space_granted:
  assumes "request_ok (buffer_ops ir) (cache_ok ir) unallocated rv new s" "\<forall>r\<in>set new. \<not> isFixedAlloc ir r"
    and "0 < sz" "0 < al" "p_totalSize (ls_part s) + al < U64"
  shows "\<exists>a t. allocWithReservedSpace (buffer_ops ir) new sz al False dir s = Inr (a, t) \<and>
    (if a = InvalidAddress then t = s
     else al dvd a \<and> {a..<a + sz} \<subseteq> p_free_set (ls_part t) \<and> alloc_done (buffer_ops ir) rv new s t \<and>
       cache_ok ir (ls_handler t))"
  using assms(2-) by (intro buffers.allocWithReservedSpace_spec [OF assms(1)]) (simp_all add: buffer_ops_def)

theorem reserved_space_granted_witness:
  "\<exists>t. allocWithReservedSpace (buffer_ops example_values) [5, 6] 32 8 False Up example_scan = Inr (0, t) \<and>
    {0..<32} \<subseteq> p_free_set (ls_part t) \<and> ls_ranges t = [5, 6]"
proof -
  let ?run = "allocWithReservedSpace (buffer_ops example_values) [5, 6] 32 8 False Up example_scan"
  have dyn: "\<forall>r\<in>set [5, 6]. \<not> isFixedAlloc example_values r" by (auto simp: isFixedAlloc_def example_values_def)
  have "p_totalSize (ls_part example_scan) + 8 < U64" by (simp add: example_scan_def U64_def)
  then obtain a t where t: "?run = Inr (a, t)" "if a = InvalidAddress then t = example_scan
     else 8 dvd a \<and> {a..<a + 32} \<subseteq> p_free_set (ls_part t) \<and>
       alloc_done (buffer_ops example_values) [] [5, 6] example_scan t \<and> cache_ok example_values (ls_handler t)"
    using reserved_space_granted [OF example_request dyn, of 32 8 Up] by auto
  have "map_sum id fst ?run = Inr 0"
    by (simp add: allocWithReservedSpace_def ls_alloc_def example_scan_def buffer_ops_def isFixedAlloc_def example_values_def
        allocDynamicRange_def allocated_def isAllocated_def getSize_def getAlignment_def new_handler_def u64_of_int_def
        commit_range_def p_alloc_def validated_def gap_ok_def chooseMinimalGap_def minimal_gap_def getAddrFromGap_def useGap_def
        align_up_def gap_size_def InvalidAddress_def u64_add_def u64_sub_def u64_mul_def U64_def mk_gap_def Let_def
        p_free_def checkNewGap_def intersects_def inRange_def free_core_def prepend_gap_def append_gap_def record_block_def)
  then have "a = 0" using t(1) by simp
  then have "alloc_done (buffer_ops example_values) [] [5, 6] example_scan t" "{0..<32} \<subseteq> p_free_set (ls_part t)"
    using t(2) by (simp_all add: InvalidAddress_def U64_def)
  moreover have "ls_ranges t = [5, 6]" if "alloc_done (buffer_ops example_values) [] [5, 6] example_scan t"
    using that dyn by (simp add: alloc_done_def example_scan_def buffer_ops_def)
  ultimately show ?thesis using t(1) \<open>a = 0\<close> by blast
qed

text \<open>
  C26. From any state with the invariant, freeing dead ranges removes exactly the ranges that are not alive and gives their blocks
  back; the others keep their blocks.
\<close>

theorem dead_ranges_are_freed:
  assumes "ls_inv (buffer_ops ir) rv s" "cache_ok ir (ls_handler s)"
  shows "\<exists>t. freeDeadRanges (buffer_ops ir) s = Inr t \<and> ls_inv (buffer_ops ir) rv t \<and>
      mset (ls_ranges t) = filter_mset (\<lambda>v. isAlive (ls_handler s) v) (mset (ls_ranges s)) \<and>
      (\<forall>u\<in>set (ls_ranges t). range_block (buffer_ops ir) (ls_handler t) u = range_block (buffer_ops ir) (ls_handler s) u)"
  using buffers.freeDeadRanges_spec [OF assms] by (auto simp: buffer_ops_def)

text \<open>Three live ranges, of which the first and the last are dead; removing the first moves the one that stays.\<close>

definition dead_scan :: "(nat, nat buffer_handler) linear_scan" where
  "dead_scan = \<lparr>ls_part = \<lparr>p_gaps = [mk_gap 48 64], p_totalSize = 64\<rparr>, ls_ranges = [5, 6, 7],
     ls_handler = (new_handler 1)\<lparr>aliveValues := {6}, valOffsets := [5 \<mapsto> 0, 6 \<mapsto> 16, 7 \<mapsto> 32]\<rparr>\<rparr>"

lemma dead_scan_ok: "ls_inv (buffer_ops example_values) [] dead_scan" "cache_ok example_values (ls_handler dead_scan)"
proof -
  have b: "range_block (buffer_ops example_values) (ls_handler dead_scan) v = (if v = 5 then 0 else if v = 6 then 16 else 32, 16)"
    if "v \<in> {5, 6, 7}" for v
    using that by (auto simp: range_block_def dead_scan_def buffer_ops_def getAddress_def getSize_def example_values_def new_handler_def
        u64_of_int_def Let_def)
  have "p_free_set (ls_part dead_scan) = {48..<64}" by (simp add: p_free_set_def gap_set_def dead_scan_def)
  moreover have "part_inv (ls_part dead_scan)" "p_totalSize (ls_part dead_scan) = 64" "ls_ranges dead_scan = [5, 6, 7]"
    by (simp_all add: dead_scan_def part_inv_def gaps_inv_Cons gap_in_def InvalidAddress_def U64_def)
  moreover have "{48..<64 :: nat} = {..<64} - ({0..<16} \<union> ({16..<32} \<union> {32..<48}))" by auto
  moreover have "{0..<16 :: nat} \<inter> ({16..<32} \<union> {32..<48}) = {}" by auto
  ultimately show "ls_inv (buffer_ops example_values) [] dead_scan" by (simp add: ls_inv_def held_inv_def b)
  show "cache_ok example_values (ls_handler dead_scan)" by (simp add: cache_ok_def dead_scan_def new_handler_def)
qed

theorem dead_ranges_are_freed_witness:
  "\<exists>t. freeDeadRanges (buffer_ops example_values) dead_scan = Inr t \<and> ls_ranges t = [6] \<and>
     range_block (buffer_ops example_values) (ls_handler t) 6 = (16, 16) \<and> p_free_set (ls_part t) = {..<p_totalSize (ls_part t)} - {16..<32}"
proof -
  obtain t where t: "freeDeadRanges (buffer_ops example_values) dead_scan = Inr t" "ls_inv (buffer_ops example_values) [] t"
    "mset (ls_ranges t) = filter_mset (\<lambda>v. isAlive (ls_handler dead_scan) v) (mset (ls_ranges dead_scan))"
    "\<forall>u\<in>set (ls_ranges t). range_block (buffer_ops example_values) (ls_handler t) u =
      range_block (buffer_ops example_values) (ls_handler dead_scan) u"
    using dead_ranges_are_freed [OF dead_scan_ok] by blast
  have "mset (ls_ranges t) = {#6#}" using t(3) by (simp add: dead_scan_def isAlive_def)
  then have r: "ls_ranges t = [6]" by simp
  moreover have "range_block (buffer_ops example_values) (ls_handler t) 6 = (16, 16)"
    using t(4) unfolding r by (simp add: range_block_def dead_scan_def buffer_ops_def getAddress_def getSize_def example_values_def
        new_handler_def u64_of_int_def Let_def)
  ultimately show ?thesis using t(1,2) by (simp add: ls_inv_def held_inv_def)
qed

section \<open>Properties of allocation with spills\<close>

text \<open>
  The buffer handler refuses to spill, so these are stated for any handler that keeps the laws of
  a handler and spills what it is asked to.  The witnesses use a handler of this kind, with every
  range of size 2 and weighted by its number.
\<close>

definition weighted_ops :: "(nat, nat \<rightharpoonup> nat) handler_ops" where
  "weighted_ops = \<lparr>h_isAlive = (\<lambda>_ _. True), h_isFixedAlloc = (\<lambda>_ _. False), h_getSize = (\<lambda>_ _. 2),
     h_getAlignment = (\<lambda>_ _. 1), h_getAddress = (\<lambda>h v. Inr (case h v of None \<Rightarrow> InvalidAddress | Some a \<Rightarrow> a)),
     h_allocated = (\<lambda>h v a. Inr (h(v \<mapsto> a))), h_freed = (\<lambda>h v. Inr h), h_getSpillWeight = (\<lambda>h v. Inr (int v)),
     h_spilled = (\<lambda>h v. Inr (True, h))\<rparr>"

lemma weighted_handler: "live_range_handler weighted_ops (\<lambda>_. True) (\<lambda>_ _. True)"
  by unfold_locales (auto simp: weighted_ops_def same_shape_def same_others_def)

lemma weighted_spiller: "spiller weighted_ops (\<lambda>_. True) (\<lambda>_ _. True)"
  by (simp add: spiller_def weighted_ops_def)

text \<open>A full memory of four addresses, held by the ranges 5 and 7.\<close>

definition full_scan :: "(nat, nat \<rightharpoonup> nat) linear_scan" where
  "full_scan = \<lparr>ls_part = \<lparr>p_gaps = [], p_totalSize = 4\<rparr>, ls_ranges = [5, 7], ls_handler = [5 \<mapsto> 0, 7 \<mapsto> 2]\<rparr>"

lemma full_request:
  assumes "distinct new" "set new \<inter> {5, 7} = {}"
  shows "request_ok weighted_ops (\<lambda>_. True) (\<lambda>_ _. True) [] new full_scan"
proof -
  have b: "range_block weighted_ops [5 \<mapsto> 0, 7 \<mapsto> 2] 5 = (0, 2)" "range_block weighted_ops [5 \<mapsto> 0, 7 \<mapsto> 2] 7 = (2, 2)"
    by (simp_all add: range_block_def weighted_ops_def)
  have "ls_inv weighted_ops [] full_scan"
    by (simp add: ls_inv_def held_inv_def full_scan_def b part_inv_def gaps_inv_def p_free_set_def InvalidAddress_def U64_def) auto
  then show ?thesis using assms by (simp add: request_ok_def full_scan_def weighted_ops_def U64_def)
qed

lemma full_request_3: "request_ok weighted_ops (\<lambda>_. True) (\<lambda>_ _. True) [] [3] full_scan"
  by (rule full_request) simp_all

text \<open>
  C9. Allocation with spills never fails an assertion; if it succeeds, the new ranges have
  disjoint blocks of their own, every range that was not spilled still has its block, and the free addresses
  are exactly the others.
\<close>

theorem alloc_with_spills:
  assumes "live_range_handler ops hinv fresh" "spiller ops hinv fresh" "request_ok ops hinv fresh rv new s"
  shows "\<exists>ok t. ls_alloc ops new True dir s = Inr (ok, t) \<and>
    (ok \<longrightarrow> alloc_spilled ops rv new s t \<and> hinv (ls_handler t))"
proof -
  obtain ok t where "ls_alloc ops new True dir s = Inr (ok, t)"
    "if ok then alloc_spilled ops rv new s t \<and> hinv (ls_handler t)
     else ls_ranges t = [] \<and> p_free_set (ls_part t) = {..<p_totalSize (ls_part s)} - blocks_set rv"
    using live_range_handler.ls_alloc_spill [OF assms, of dir] by blast
  then show ?thesis by (intro exI [of _ ok] exI [of _ t]) simp
qed

theorem alloc_with_spills_witness:
  "\<exists>ok t. ls_alloc weighted_ops [3] True Up full_scan = Inr (ok, t) \<and> (ok \<longrightarrow> 3 \<in> set (ls_ranges t))"
proof -
  obtain ok t where "ls_alloc weighted_ops [3] True Up full_scan = Inr (ok, t)"
    "ok \<longrightarrow> alloc_spilled weighted_ops [] [3] full_scan t"
    using alloc_with_spills [OF weighted_handler weighted_spiller full_request_3, of Up] by blast
  moreover have "3 \<in> set (ls_ranges t)" if "alloc_spilled weighted_ops [] [3] full_scan t"
    using that unfolding alloc_spilled_def by simp
  ultimately show ?thesis by blast
qed

text \<open>
  C10. Spilling is complete: with a handler that spills whatever it is asked to, a request for a single range that may
  go anywhere is refused exactly when no aligned block of its size would be free even with every live range spilled.
\<close>

theorem spilling_is_complete:
  assumes "live_range_handler ops hinv fresh" "spiller ops hinv fresh" "request_ok ops hinv fresh rv [r] s"
    and "\<not> h_isFixedAlloc ops (ls_handler s) r"
  shows "\<exists>t. ls_alloc ops [r] True dir s = Inr (\<exists>x. h_getAlignment ops (ls_handler s) r dvd x \<and>
      {x..<x + h_getSize ops (ls_handler s) r} \<subseteq> {..<p_totalSize (ls_part s)} - blocks_set rv, t)"
  using assms by (rule live_range_handler.ls_alloc_spill_single)

theorem spilling_is_complete_witness:
  "\<exists>t. ls_alloc weighted_ops [3] True Up full_scan = Inr (True, t)"
proof -
  have "\<not> h_isFixedAlloc weighted_ops (ls_handler full_scan) 3" by (simp add: weighted_ops_def)
  from spilling_is_complete [OF weighted_handler weighted_spiller full_request_3 this, of Up]
  obtain t where t: "ls_alloc weighted_ops [3] True Up full_scan =
      Inr (\<exists>x. h_getAlignment weighted_ops (ls_handler full_scan) 3 dvd x \<and>
        {x..<x + h_getSize weighted_ops (ls_handler full_scan) 3} \<subseteq> {..<p_totalSize (ls_part full_scan)} - blocks_set [], t)"
    by blast
  have "\<exists>x. h_getAlignment weighted_ops (ls_handler full_scan) 3 dvd x \<and>
        {x..<x + h_getSize weighted_ops (ls_handler full_scan) 3} \<subseteq> {..<p_totalSize (ls_part full_scan)} - blocks_set []"
    by (rule exI [of _ 0]) (auto simp: weighted_ops_def full_scan_def)
  then show ?thesis using t by auto
qed

text \<open>
  C35. The other outcome, with the same kind of handler: whenever an allocation with spills fails, no range is live any
  more and every address is free but the reserved ones, although the documentation promises that no changes are made; and
  for a request of one range the handler is what it was, so it was told neither that ranges were spilled nor that they
  were freed.
\<close>

theorem failed_alloc_forgets_ranges:
  assumes "live_range_handler ops hinv fresh" "spiller ops hinv fresh" "request_ok ops hinv fresh rv new s"
    and "ls_alloc ops new True dir s = Inr (False, t)"
  shows "ls_ranges t = [] \<and> p_free_set (ls_part t) = {..<p_totalSize (ls_part s)} - blocks_set rv \<and>
    (\<forall>r. new = [r] \<longrightarrow> ls_handler t = ls_handler s)"
  using live_range_handler.ls_alloc_spill [OF assms(1-3), of dir] assms(4)
    live_range_handler.ls_alloc_spill_single_refused [OF assms(1,2), of rv _ s dir t] assms(3) by auto

theorem failed_alloc_forgets_ranges_witness:
  "\<exists>t. ls_alloc weighted_ops [10, 11, 12] True Up full_scan = Inr (False, t) \<and>
     ls_ranges full_scan = [5, 7] \<and> ls_ranges t = [] \<and> p_free_set (ls_part t) = {..<4}"
proof -
  have "map_sum id fst (ls_alloc weighted_ops [10, 11, 12] True Up full_scan) = Inr False"
    by (simp add: ls_alloc_def full_scan_def weighted_ops_def allocDynamicRange_def allocFixedRange_def
        p_alloc_def validated_def gap_ok_def chooseMinimalGap_def minimal_gap_def getAddrFromGap_def useGap_def
        align_up_def gap_size_def InvalidAddress_def u64_add_def u64_sub_def u64_mul_def U64_def mk_gap_def Let_def
        getSpillCandidate_def swap_pop_def p_free_def checkNewGap_def intersects_def inRange_def free_core_def
        prepend_gap_def append_gap_def spillConflictingRange_def restoreNonConflictingRange_def p_allocFixed_def
        ls_rollback_def release_all_def record_block_def)
  then obtain t where t: "ls_alloc weighted_ops [10, 11, 12] True Up full_scan = Inr (False, t)"
    by (auto simp: map_sum_eq_Inr)
  have "request_ok weighted_ops (\<lambda>_. True) (\<lambda>_ _. True) [] [10, 11, 12] full_scan" by (rule full_request) simp_all
  from failed_alloc_forgets_ranges [OF weighted_handler weighted_spiller this t] t
  show ?thesis by (intro exI [of _ t]) (simp add: full_scan_def)
qed

end
