(* ===== verification/Interval_Set.thy ===== *)
theory Interval_Set
  imports Prelude
begin

text \<open>
  \<^verbatim>\<open>include/vpux/compiler/core/disjoint_interval_set.hpp\<close>: closed intervals of
  64-bit addresses, and the set of disjoint intervals that is kept as a search tree of end points.
  The \<^verbatim>\<open>std::map\<close> of the source is the list of its entries in key order, an
  iterator is the key it points to, and \<^verbatim>\<open>end()\<close> is \<^verbatim>\<open>None\<close>.
  Dereferencing an end iterator is undefined in the source and an assertion failure here.
\<close>

section \<open>Intervals of addresses\<close>

definition units_intersect :: "nat \<Rightarrow> nat \<Rightarrow> nat \<Rightarrow> nat \<Rightarrow> bool res" where
  "units_intersect abeg aend bbeg bend =
     (if \<not> (abeg \<le> aend \<and> bbeg \<le> bend) then Inl Assertion_Failure else Inr (max abeg bbeg \<le> min aend bend))"

definition isSubset :: "nat \<Rightarrow> nat \<Rightarrow> nat \<Rightarrow> nat \<Rightarrow> bool res" where
  "isSubset abeg aend bbeg bend =
     (if \<not> (abeg \<le> aend \<and> bbeg \<le> bend) then Inl Assertion_Failure
      else if max abeg bbeg > min aend bend then Inr False
      else Inr (max abeg bbeg = abeg \<and> min aend bend = aend))"

text \<open>The returned array of at most two intervals is a list; its length is the returned count.\<close>

definition intervalXor :: "nat \<Rightarrow> nat \<Rightarrow> nat \<Rightarrow> nat \<Rightarrow> (nat \<times> nat) list res" where
  "intervalXor abeg aend bbeg bend =
     res_bind (units_intersect abeg aend bbeg bend) (\<lambda>x.
     if \<not> x then Inr [(abeg, aend), (bbeg, bend)]
     else let obeg = u64_sub (max abeg bbeg) 1; oend = u64_add (min aend bend) 1;
              ubeg = min abeg bbeg; uend = max aend bend
       in Inr ((if ubeg \<le> obeg \<and> obeg < min aend bend then [(ubeg, obeg)] else []) @
               (if oend \<le> uend \<and> max abeg bbeg < oend then [(oend, uend)] else [])))"

section \<open>End points\<close>

datatype orient = LEFT_END | RIGHT_END

datatype endpoint = EndPoint (ep_x: nat) (ep_orient: orient)

definition orient_num :: "orient \<Rightarrow> nat" where
  "orient_num d = (case d of LEFT_END \<Rightarrow> 0 | RIGHT_END \<Rightarrow> 1)"

definition ep_less :: "endpoint \<Rightarrow> endpoint \<Rightarrow> bool" where
  "ep_less a b = (if ep_x a \<noteq> ep_x b then ep_x a < ep_x b else orient_num (ep_orient a) < orient_num (ep_orient b))"

definition isLeftEnd :: "endpoint \<Rightarrow> bool" where "isLeftEnd k \<longleftrightarrow> ep_orient k = LEFT_END"
definition isRightEnd :: "endpoint \<Rightarrow> bool" where "isRightEnd k \<longleftrightarrow> ep_orient k = RIGHT_END"

instantiation endpoint :: linorder
begin

definition less_endpoint :: "endpoint \<Rightarrow> endpoint \<Rightarrow> bool" where
  "less_endpoint = ep_less"

definition less_eq_endpoint :: "endpoint \<Rightarrow> endpoint \<Rightarrow> bool" where
  "less_eq_endpoint a b \<longleftrightarrow> ep_less a b \<or> a = b"

instance
proof
  fix x y z :: endpoint
  have num: "orient_num d = orient_num e \<longleftrightarrow> d = e" for d e by (cases d; cases e) (simp_all add: orient_num_def)
  note defs = less_endpoint_def less_eq_endpoint_def ep_less_def
  show "(x < y) = (x \<le> y \<and> \<not> y \<le> x)" by (cases x; cases y) (auto simp: defs split: if_splits)
  show "x \<le> x" by (simp add: defs)
  show "x \<le> z" if "x \<le> y" "y \<le> z" using that by (cases x; cases y; cases z) (auto simp: defs split: if_splits)
  show "x = y" if "x \<le> y" "y \<le> x" using that by (cases x; cases y) (auto simp: defs split: if_splits)
  show "x \<le> y \<or> y \<le> x" by (cases x; cases y) (auto simp: defs; metis num linorder_neqE_nat)
qed

end

section \<open>The ordered map\<close>

type_synonym 'v tree = "(endpoint \<times> 'v) list"

definition tree_lower_bound :: "'v tree \<Rightarrow> endpoint \<Rightarrow> endpoint option" where
  "tree_lower_bound t k = (case dropWhile (\<lambda>e. fst e < k) t of [] \<Rightarrow> None | e # _ \<Rightarrow> Some (fst e))"

definition tree_next :: "'v tree \<Rightarrow> endpoint \<Rightarrow> endpoint option" where
  "tree_next t k = (case dropWhile (\<lambda>e. fst e \<le> k) t of [] \<Rightarrow> None | e # _ \<Rightarrow> Some (fst e))"

definition tree_prev :: "'v tree \<Rightarrow> endpoint \<Rightarrow> endpoint option" where
  "tree_prev t k = (case takeWhile (\<lambda>e. fst e < k) t of [] \<Rightarrow> None | es \<Rightarrow> Some (fst (last es)))"

definition tree_insert :: "endpoint \<Rightarrow> 'v \<Rightarrow> 'v tree \<Rightarrow> 'v tree" where
  "tree_insert k v t = takeWhile (\<lambda>e. fst e < k) t @
     (case dropWhile (\<lambda>e. fst e < k) t of
        [] \<Rightarrow> [(k, v)]
      | e # es \<Rightarrow> if fst e = k then e # es else (k, v) # e # es)"

definition tree_erase :: "endpoint \<Rightarrow> 'v tree \<Rightarrow> 'v tree" where
  "tree_erase k t = filter (\<lambda>e. fst e \<noteq> k) t"

section \<open>The set of disjoint intervals\<close>

definition isIntervalDisjoint :: "endpoint \<Rightarrow> endpoint \<Rightarrow> endpoint option \<Rightarrow> bool" where
  "isIntervalDisjoint lkey rkey lkey_lower_bound = (case lkey_lower_bound of
       None \<Rightarrow> True
     | Some lkey_lb \<Rightarrow> isLeftEnd lkey_lb \<and> ep_x lkey < ep_x lkey_lb \<and> ep_x rkey < ep_x lkey_lb)"

definition ds_insert :: "nat \<Rightarrow> nat \<Rightarrow> 'v \<Rightarrow> 'v tree \<Rightarrow> (bool \<times> 'v tree) res" where
  "ds_insert ibeg iend v t =
     (if \<not> ibeg \<le> iend then Inl Assertion_Failure
      else let lkey = EndPoint ibeg LEFT_END; rkey = EndPoint iend RIGHT_END in
        if \<not> isIntervalDisjoint lkey rkey (tree_lower_bound t lkey) then Inr (False, t)
        else Inr (True, tree_insert rkey v (tree_insert lkey v t)))"

definition ds_erase :: "nat \<Rightarrow> nat \<Rightarrow> 'v tree \<Rightarrow> bool \<times> 'v tree" where
  "ds_erase ibeg iend t =
     (if map_of t (EndPoint ibeg LEFT_END) = None \<or> map_of t (EndPoint iend RIGHT_END) = None then (False, t)
      else (True, tree_erase (EndPoint iend RIGHT_END) (tree_erase (EndPoint ibeg LEFT_END) t)))"

definition ds_overlaps :: "nat \<Rightarrow> nat \<Rightarrow> 'v tree \<Rightarrow> bool res" where
  "ds_overlaps ibeg iend t =
     (if \<not> ibeg \<le> iend then Inl Assertion_Failure
      else let lkey = EndPoint ibeg LEFT_END; rkey = EndPoint iend RIGHT_END in
        Inr (\<not> isIntervalDisjoint lkey rkey (tree_lower_bound t lkey)))"

record interval_iter =
  itrBegin :: "endpoint option"
  itrEnd :: "endpoint option"

definition ds_query :: "nat \<Rightarrow> nat \<Rightarrow> 'v tree \<Rightarrow> interval_iter res" where
  "ds_query ibeg iend t =
     (let litr = tree_lower_bound t (EndPoint ibeg LEFT_END);
          ritr = tree_lower_bound t (EndPoint iend RIGHT_END);
          ritr' = (case ritr of Some k \<Rightarrow> if isRightEnd k then tree_next t k else ritr | None \<Rightarrow> ritr)
      in case litr of
           Some k \<Rightarrow> if isRightEnd k then
               (case tree_prev t k of
                  None \<Rightarrow> Inl Assertion_Failure
                | Some k' \<Rightarrow> Inr \<lparr>itrBegin = Some k', itrEnd = ritr'\<rparr>)
             else Inr \<lparr>itrBegin = litr, itrEnd = ritr'\<rparr>
         | None \<Rightarrow> Inr \<lparr>itrBegin = litr, itrEnd = ritr'\<rparr>)"

definition ds_end :: interval_iter where
  "ds_end = \<lparr>itrBegin = None, itrEnd = None\<rparr>"

definition ds_begin :: "'v tree \<Rightarrow> interval_iter" where
  "ds_begin t = \<lparr>itrBegin = map_option fst (if t = [] then None else Some (hd t)), itrEnd = None\<rparr>"

definition ds_size :: "'v tree \<Rightarrow> nat res" where
  "ds_size t = (if length t mod 2 = 0 then Inr (length t div 2) else Inl Assertion_Failure)"

definition iter_equal :: "interval_iter \<Rightarrow> interval_iter \<Rightarrow> bool" where
  "iter_equal a b \<longleftrightarrow> itrBegin a = itrEnd a \<and> itrBegin b = itrEnd b"

definition iter_next :: "'v tree \<Rightarrow> interval_iter \<Rightarrow> interval_iter res" where
  "iter_next t it = (case itrBegin it of
       None \<Rightarrow> Inl Assertion_Failure
     | Some k \<Rightarrow> (let r = tree_next t k in
         if r = itrEnd it then Inl Assertion_Failure
         else case r of
             None \<Rightarrow> Inl Assertion_Failure
           | Some k' \<Rightarrow> Inr (it\<lparr>itrBegin := tree_next t k'\<rparr>)))"

definition iter_intervalBegin :: "interval_iter \<Rightarrow> nat res" where
  "iter_intervalBegin it = (case itrBegin it of None \<Rightarrow> Inl Assertion_Failure | Some k \<Rightarrow> Inr (ep_x k))"

definition iter_intervalEnd :: "'v tree \<Rightarrow> interval_iter \<Rightarrow> nat res" where
  "iter_intervalEnd t it = (case itrBegin it of
       None \<Rightarrow> Inl Assertion_Failure
     | Some k \<Rightarrow> (case tree_next t k of None \<Rightarrow> Inl Assertion_Failure | Some k' \<Rightarrow> Inr (ep_x k')))"

definition iter_value :: "'v tree \<Rightarrow> interval_iter \<Rightarrow> 'v res" where
  "iter_value t it = (case itrBegin it of
       None \<Rightarrow> Inl Assertion_Failure
     | Some k \<Rightarrow> (case map_of t k of None \<Rightarrow> Inl Assertion_Failure | Some v \<Rightarrow> Inr v))"

end
