(* ===== verification/Control_Edges.thy ===== *)
theory Control_Edges
  imports Interval_Set
begin

text \<open>
  \<^verbatim>\<open>include/vpux/compiler/core/feasible_scheduler_utils.hpp\<close> and
  \<^verbatim>\<open>control_edge_generator.hpp\<close>: scheduled operations that produce or consume a
  range of addresses are taken in schedule order, and a control edge is generated for every pair that must
  not be reordered.
\<close>

section \<open>Scheduled operations\<close>

datatype res_relation = PRODUCER | CONSUMER

record resource_view =
  rv_buffer :: nat
  rv_offset :: "int list"
  rv_shape :: "int list"
  rv_staticStrides :: "int list"

record scheduled_op =
  so_op :: nat
  so_addressStart :: nat
  so_addressEnd :: nat
  so_resRelation :: res_relation
  so_resourceView :: "resource_view option"

definition sched_less :: "scheduled_op \<Rightarrow> scheduled_op \<Rightarrow> bool" where
  "sched_less a b =
     (if so_addressStart a = so_addressStart b \<and> so_addressEnd a = so_addressEnd b then so_op a < so_op b
      else if so_addressStart a \<noteq> so_addressStart b then so_addressStart a < so_addressStart b
      else so_addressEnd a < so_addressEnd b)"

definition canOverlap :: "scheduled_op \<Rightarrow> scheduled_op \<Rightarrow> bool" where
  "canOverlap a b =
     (if so_addressEnd a < so_addressStart b \<or> so_addressStart a > so_addressEnd b then True
      else if so_addressStart a = so_addressStart b \<and> so_addressEnd a = so_addressEnd b then
        (case (so_resourceView a, so_resourceView b) of
           (Some v, Some w) \<Rightarrow> rv_buffer v = rv_buffer w \<and> rv_staticStrides v = rv_staticStrides w \<and>
             rv_offset v \<noteq> rv_offset w
         | _ \<Rightarrow> False)
      else False)"

text \<open>
  The traits of an interval.  Equality of operations is equality of all fields (the
  buffer of a view stands for the IR value).
\<close>

definition isIntervalProducer :: "scheduled_op \<Rightarrow> bool" where
  "isIntervalProducer i \<longleftrightarrow> so_resRelation i = PRODUCER"

definition canProducersCoexist :: "scheduled_op \<Rightarrow> scheduled_op \<Rightarrow> bool" where
  "canProducersCoexist existingPrd newProd = canOverlap existingPrd newProd"

definition sameIntervalAccess :: "scheduled_op \<Rightarrow> scheduled_op \<Rightarrow> bool" where
  "sameIntervalAccess a b \<longleftrightarrow> \<not> canOverlap a b"

section \<open>Producers and consumers of a range\<close>

text \<open>
  A \<^verbatim>\<open>std::set\<close> is the list of its elements in increasing order; an element that is
  equivalent under the order to one that is present is not inserted.
\<close>

fun oset_insert :: "('a \<Rightarrow> 'a \<Rightarrow> bool) \<Rightarrow> 'a \<Rightarrow> 'a list \<Rightarrow> 'a list" where
  "oset_insert lt x [] = [x]"
| "oset_insert lt x (y # ys) =
     (if lt x y then x # y # ys else if lt y x then y # oset_insert lt x ys else y # ys)"

record prod_cons =
  pc_producers :: "scheduled_op list"
  pc_consumers :: "scheduled_op list"

definition new_prod_cons :: "scheduled_op \<Rightarrow> prod_cons" where
  "new_prod_cons prd = \<lparr>pc_producers = [prd], pc_consumers = []\<rparr>"

definition newProducer :: "scheduled_op \<Rightarrow> prod_cons \<Rightarrow> prod_cons" where
  "newProducer prd pc = pc\<lparr>pc_producers := [prd], pc_consumers := []\<rparr>"

definition addProducer :: "scheduled_op \<Rightarrow> prod_cons \<Rightarrow> prod_cons" where
  "addProducer prd pc = pc\<lparr>pc_producers := oset_insert sched_less prd (pc_producers pc)\<rparr>"

definition addConsumer :: "scheduled_op \<Rightarrow> prod_cons \<Rightarrow> prod_cons" where
  "addConsumer cons pc = pc\<lparr>pc_consumers := oset_insert sched_less cons (pc_consumers pc)\<rparr>"

section \<open>The generator\<close>

record control_edge =
  ce_source :: nat
  ce_sink :: nat

definition mk_edge :: "nat \<Rightarrow> nat \<Rightarrow> control_edge" where
  "mk_edge a b = \<lparr>ce_source = a, ce_sink = b\<rparr>"

definition edge_less :: "control_edge \<Rightarrow> control_edge \<Rightarrow> bool" where
  "edge_less a b = (if ce_source a \<noteq> ce_source b then ce_source a < ce_source b else ce_sink a < ce_sink b)"

text \<open>The generator's interval tree and the output set of edges, in the order they were generated.\<close>

record generator =
  cg_intervalTree :: "prod_cons tree"
  cg_edges :: "control_edge list"

definition iter_overlaps :: "prod_cons tree \<Rightarrow> interval_iter \<Rightarrow> nat \<Rightarrow> nat \<Rightarrow> bool res" where
  "iter_overlaps t it ibegin iend =
     res_bind (iter_intervalBegin it) (\<lambda>b. res_bind (iter_intervalEnd t it) (\<lambda>e. units_intersect b e ibegin iend))"

text \<open>The edges for one overlapped interval and the ownership of the overlap after it.\<close>

definition overlap_edges :: "scheduled_op \<Rightarrow> prod_cons \<Rightarrow> control_edge list \<Rightarrow> control_edge list" where
  "overlap_edges cur q out =
     (if isIntervalProducer cur then
        if list_all (\<lambda>prd. canProducersCoexist cur prd) (pc_producers q) then
          let currProducers = map so_op (pc_producers q);
              sources = sort (remdups (map ce_source (filter (\<lambda>e. ce_sink e \<in> set currProducers \<and> ce_source e \<noteq> ce_sink e) out)))
          in map (\<lambda>src. mk_edge src (so_op cur)) sources
        else if pc_consumers q = [] then map (\<lambda>prd. mk_edge (so_op prd) (so_op cur)) (pc_producers q)
        else map (\<lambda>cons. mk_edge (so_op cons) (so_op cur)) (pc_consumers q)
      else map (\<lambda>prd. mk_edge (so_op prd) (so_op cur)) (filter (sameIntervalAccess cur) (pc_producers q)))"

definition overlap_owner :: "scheduled_op \<Rightarrow> prod_cons \<Rightarrow> prod_cons" where
  "overlap_owner cur q =
     (if isIntervalProducer cur then
        if list_all (\<lambda>prd. canProducersCoexist cur prd) (pc_producers q) then addProducer cur q
        else newProducer cur q
      else addConsumer cur q)"

text \<open>
  The part of the loop body after the edges: the overlapped interval is replaced by the
  intersection and what is left of it; the result is the rest of the current interval above the
  intersection, an empty interval when there is none.  A part of the symmetric difference is tagged with whether
  it belongs to the current interval.
\<close>

definition U64_MAX :: nat where "U64_MAX = U64 - 1"

definition tag_parts ::
  "(nat \<times> nat) list \<Rightarrow> nat \<Rightarrow> nat \<Rightarrow> nat \<Rightarrow> nat \<Rightarrow> ((nat \<times> nat) \<times> bool) list res" where
  "tag_parts parts currRemBeg currRemEnd qbeg qend =
     map_sum id rev (res_fold (\<lambda>(b, e) acc.
       res_bind (isSubset b e currRemBeg currRemEnd) (\<lambda>cur.
       if cur then Inr (((b, e), True) # acc)
       else res_bind (isSubset b e qbeg qend) (\<lambda>inq.
         if inq then Inr (((b, e), False) # acc) else Inl Assertion_Failure))) parts [])"

definition replace_overlapped ::
  "scheduled_op \<Rightarrow> nat \<Rightarrow> nat \<Rightarrow> nat \<Rightarrow> nat \<Rightarrow> prod_cons \<Rightarrow> prod_cons \<Rightarrow> prod_cons tree \<Rightarrow>
   ((nat \<times> nat) \<times> prod_cons tree) res" where
  "replace_overlapped cur currRemBeg currRemEnd qbeg qend qitrProdCons newProdCons t =
     (let interBeg = max currRemBeg qbeg; interEnd = min currRemEnd qend;
          val = (\<lambda>isCurr. if isCurr then new_prod_cons cur else qitrProdCons);
          noRem = (U64_MAX, 0)
      in if \<not> interBeg \<le> interEnd then Inl Assertion_Failure
      else res_bind (intervalXor qbeg qend currRemBeg currRemEnd) (\<lambda>parts.
        if parts = [] then
          res_bind (ds_insert interBeg interEnd newProdCons t) (\<lambda>(status, t).
            if status then Inr (noRem, t) else Inl Assertion_Failure)
        else res_bind (tag_parts parts currRemBeg currRemEnd qbeg qend) (\<lambda>tagged.
          let (first, isCurr) = hd tagged;
              before = snd first < interBeg;
              rest = (if before then tl tagged else tagged) in
          res_bind (if before then map_sum id snd (ds_insert (fst first) (snd first) (val isCurr) t) else Inr t) (\<lambda>t.
          res_bind (ds_insert interBeg interEnd newProdCons t) (\<lambda>(_, t).
          case rest of
            [] \<Rightarrow> Inr (noRem, t)
          | ((b, e), isCurr) # _ \<Rightarrow>
              if isCurr then Inr ((b, e), t)
              else map_sum id (\<lambda>(_, t). (noRem, t)) (ds_insert b e (val isCurr) t))))))"

text \<open>
  The loop over the overlapped intervals visits intervals in increasing order, each at
  most once, so as many rounds as the tree has entries are enough; the exhausted loop is an error.
\<close>

fun overlap_loop ::
  "nat \<Rightarrow> scheduled_op \<Rightarrow> interval_iter \<Rightarrow> nat \<Rightarrow> nat \<Rightarrow> generator \<Rightarrow> ((nat \<times> nat) \<times> generator) res" where
  "overlap_loop 0 cur qitr currRemBeg currRemEnd g = Inl (Vpux_Throw ''fuel'')"
| "overlap_loop (Suc n) cur qitr currRemBeg currRemEnd g =
     (let t = cg_intervalTree g in
      if iter_equal qitr ds_end then Inr ((currRemBeg, currRemEnd), g)
      else res_bind (iter_overlaps t qitr currRemBeg currRemEnd) (\<lambda>ov.
        if \<not> ov then Inr ((currRemBeg, currRemEnd), g)
        else if \<not> (currRemBeg \<le> currRemEnd \<and> so_addressStart cur \<le> currRemBeg \<and> currRemEnd \<le> so_addressEnd cur)
          then Inl Assertion_Failure
        else
          res_bind (iter_intervalBegin qitr) (\<lambda>qbeg.
          res_bind (iter_intervalEnd t qitr) (\<lambda>qend.
          res_bind (iter_value t qitr) (\<lambda>qitrProdCons.
          res_bind (iter_next t qitr) (\<lambda>qitrNext.
          res_bind (replace_overlapped cur currRemBeg currRemEnd qbeg qend qitrProdCons
              (overlap_owner cur qitrProdCons) (snd (ds_erase qbeg qend t))) (\<lambda>((nextRemBeg, nextRemEnd), t').
          overlap_loop n cur qitrNext nextRemBeg nextRemEnd
            (g\<lparr>cg_intervalTree := t', cg_edges := cg_edges g @ overlap_edges cur qitrProdCons (cg_edges g)\<rparr>))))))))"

section \<open>Merging abutting intervals of a new producer\<close>

fun merge_loop ::
  "nat \<Rightarrow> prod_cons \<Rightarrow> interval_iter \<Rightarrow> nat \<Rightarrow> prod_cons tree \<Rightarrow> (nat \<times> prod_cons tree) res" where
  "merge_loop 0 pc qitr prevRightEnd t = Inl (Vpux_Throw ''fuel'')"
| "merge_loop (Suc n) pc qitr prevRightEnd t =
     (if iter_equal qitr ds_end then Inr (prevRightEnd, t)
      else res_bind (iter_value t qitr) (\<lambda>v.
        if v \<noteq> pc then Inr (prevRightEnd, t)
        else res_bind (iter_intervalBegin qitr) (\<lambda>b.
          if u64_add prevRightEnd 1 \<noteq> b then Inr (prevRightEnd, t)
          else res_bind (iter_intervalEnd t qitr) (\<lambda>e.
            res_bind (iter_next t qitr) (\<lambda>qitrNext.
            merge_loop n pc qitrNext e (snd (ds_erase b e t)))))))"

definition mergeAbuttingIntervals :: "scheduled_op \<Rightarrow> prod_cons tree \<Rightarrow> prod_cons tree res" where
  "mergeAbuttingIntervals cur t =
     (if \<not> isIntervalProducer cur
      then Inl (Vpux_Throw ''Abutting intervals can be merged only for new resource producer'')
      else res_bind (ds_query (so_addressStart cur) (so_addressEnd cur) t) (\<lambda>qitr.
        if iter_equal qitr ds_end then Inr t
        else res_bind (iter_value t qitr) (\<lambda>v.
          if v \<noteq> new_prod_cons cur then Inr t
          else
            res_bind (iter_intervalBegin qitr) (\<lambda>prevLeftEnd.
            res_bind (iter_intervalEnd t qitr) (\<lambda>startEnd.
            res_bind (iter_next t qitr) (\<lambda>qitr'.
            res_bind (merge_loop (Suc (length t)) (new_prod_cons cur) qitr' startEnd t) (\<lambda>(prevRightEnd, t').
            res_bind (iter_intervalEnd t' qitr) (\<lambda>startEnd'.
            if prevRightEnd > startEnd' then
              map_sum id snd (ds_insert prevLeftEnd prevRightEnd (new_prod_cons cur)
                (snd (ds_erase prevLeftEnd startEnd' t')))
            else Inr t'))))))))"

section \<open>Processing of intervals\<close>

definition processNextInterval :: "scheduled_op \<Rightarrow> generator \<Rightarrow> generator res" where
  "processNextInterval cur g =
     (let currBeg = so_addressStart cur; currEnd = so_addressEnd cur in
      if \<not> currBeg \<le> currEnd then Inl Assertion_Failure
      else res_bind (ds_query currBeg currEnd (cg_intervalTree g)) (\<lambda>qitr.
        res_bind (overlap_loop (Suc (length (cg_intervalTree g))) cur qitr currBeg currEnd g)
          (\<lambda>((currRemBeg, currRemEnd), g).
        res_bind (if currRemBeg \<le> currRemEnd then
            res_bind (ds_insert currRemBeg currRemEnd (new_prod_cons cur) (cg_intervalTree g)) (\<lambda>(status, t).
              if status then Inr (g\<lparr>cg_intervalTree := t\<rparr>) else Inl Assertion_Failure)
          else Inr g) (\<lambda>g.
        if isIntervalProducer cur then
          res_bind (mergeAbuttingIntervals cur (cg_intervalTree g)) (\<lambda>t. Inr (g\<lparr>cg_intervalTree := t\<rparr>))
        else Inr g))))"

text \<open>The number of generated edges is the growth of the output.\<close>

definition generateControlEdges :: "scheduled_op list \<Rightarrow> generator \<Rightarrow> (nat \<times> generator) res" where
  "generateControlEdges intervals g =
     res_bind (res_fold (\<lambda>i g. if so_addressStart i > so_addressEnd i then Inr g else processNextInterval i g) intervals g)
       (\<lambda>g'. Inr (length (cg_edges g') - length (cg_edges g), g'))"

definition new_generator :: generator where
  "new_generator = \<lparr>cg_intervalTree = [], cg_edges = []\<rparr>"

end
