(* ===== verification/Async_Deps.thy ===== *)
theory Async_Deps
  imports Prelude
begin

text \<open>
  \<^verbatim>\<open>src/core/async_deps_info.cpp\<close>: the dependency graph of the asynchronous
  operations of a function, its transitive reduction, the consumer map and the detection of cycles.
  A \<^verbatim>\<open>DenseSet\<close> is a set; where the source iterates over one, in an order it
  does not fix, the model takes the elements in increasing order.  Operations of the IR are
  opaque; the operations that define the operands of one are a parameter.
\<close>

type_synonym deps_map = "nat set list"

section \<open>Closure of the dependencies\<close>

datatype storage_type = DenseSetStorage | BitVectorStorage

definition simplifiedOptimizationOpCountThreshold :: nat where
  "simplifiedOptimizationOpCountThreshold = 10000"

definition union_rows :: "deps_map \<Rightarrow> nat set \<Rightarrow> nat set" where
  "union_rows refDeps cur = fold (\<lambda>d acc. acc \<union> refDeps ! d) (sorted_list_of_set cur) cur"

definition partialClosure :: "deps_map \<Rightarrow> deps_map" where
  "partialClosure m = fold (\<lambda>i cl. cl[i := union_rows m (cl ! i)]) [0..<length m - 1] m"

definition fullClosure :: "deps_map \<Rightarrow> deps_map" where
  "fullClosure m = fold (\<lambda>i cl. cl[i := union_rows cl (cl ! i)]) [0..<length m - 1] m"

definition storage_of :: "deps_map \<Rightarrow> storage_type" where
  "storage_of m = (if length m > simplifiedOptimizationOpCountThreshold then DenseSetStorage else BitVectorStorage)"

definition computeTransitiveClosure :: "deps_map \<Rightarrow> deps_map" where
  "computeTransitiveClosure m = (case storage_of m of BitVectorStorage \<Rightarrow> fullClosure m | DenseSetStorage \<Rightarrow> partialClosure m)"

definition hasDependency :: "deps_map \<Rightarrow> nat \<Rightarrow> nat \<Rightarrow> bool" where
  "hasDependency cl ind depInd \<longleftrightarrow> depInd \<in> cl ! ind"

section \<open>The state\<close>

record 'op async_deps =
  ad_index :: "'op \<rightharpoonup> nat" \<comment> \<open>the index attribute of an operation\<close>
  ad_allExecOps :: "'op option list"
  ad_depsMap :: deps_map
  ad_consumerMap :: deps_map
  ad_execOpCount :: nat

datatype 'op func_op = ExecuteOp 'op | AwaitOp bool \<comment> \<open>has users inside an execute region\<close> | OtherOp

definition getDepsVec :: "nat set \<Rightarrow> nat list" where
  "getDepsVec deps = sorted_list_of_set deps"

definition setIndex :: "'op \<Rightarrow> nat \<Rightarrow> 'op async_deps \<Rightarrow> 'op async_deps" where
  "setIndex op i s = s\<lparr>ad_index := (ad_index s)(op \<mapsto> i)\<rparr>"

definition getIndex :: "'op async_deps \<Rightarrow> 'op \<Rightarrow> nat res" where
  "getIndex s op = (case ad_index s op of
       None \<Rightarrow> Inl (Vpux_Throw ''Attribute was not set'')
     | Some i \<Rightarrow> if i < 2 ^ 32 then Inr i else Inl (Vpux_Throw ''Can not safely cast''))"

definition getExecuteOpAtIndex :: "'op async_deps \<Rightarrow> nat \<Rightarrow> 'op option res" where
  "getExecuteOpAtIndex s i =
     (if i \<ge> ad_execOpCount s then Inl (Vpux_Throw ''Invalid index for _allExecOps'') else Inr (ad_allExecOps s ! i))"

definition getExecOpCount :: "'op async_deps \<Rightarrow> nat" where
  "getExecOpCount s = ad_execOpCount s"

section \<open>Building the map\<close>

definition insert_at :: "nat \<Rightarrow> nat \<Rightarrow> deps_map \<Rightarrow> deps_map" where
  "insert_at i x m = m[i := insert x (m ! i)]"

text \<open>\<^verbatim>\<open>operands\<close>: the operations that define the operands, \<^verbatim>\<open>None\<close> for another kind of definition.\<close>

definition addExecOp :: "('op \<Rightarrow> 'op option list) \<Rightarrow> 'op \<Rightarrow> 'op async_deps \<Rightarrow> 'op async_deps res" where
  "addExecOp operands execOp s =
     res_bind (getIndex s execOp) (\<lambda>execInd.
     res_fold (\<lambda>arg s. case arg of
         None \<Rightarrow> Inl (Vpux_Throw ''async.execute has operand produced by unsupported Operation'')
       | Some argExecOp \<Rightarrow> res_bind (getIndex s argExecOp) (\<lambda>argExecInd.
           Inr (s\<lparr>ad_depsMap := insert_at execInd argExecInd (ad_depsMap s)\<rparr>))) (operands execOp) s)"

definition buildDepsMap :: "('op \<Rightarrow> 'op option list) \<Rightarrow> 'op func_op list \<Rightarrow> 'op async_deps \<Rightarrow> 'op async_deps res" where
  "buildDepsMap operands func s =
     (let execs = concat (map (\<lambda>f. case f of ExecuteOp op \<Rightarrow> [op] | _ \<Rightarrow> []) func);
          s = s\<lparr>ad_allExecOps := map Some execs\<rparr>;
          s = fold (\<lambda>(i, op). setIndex op i) (enumerate 0 execs) s;
          s = s\<lparr>ad_execOpCount := length execs,
                ad_depsMap := take (length execs) (ad_depsMap s) @ replicate (length execs - length (ad_depsMap s)) {}\<rparr>
      in res_fold (\<lambda>f s. case f of
             ExecuteOp op \<Rightarrow> addExecOp operands op s
           | AwaitOp inside \<Rightarrow> if inside then Inl (Vpux_Throw ''async.await has users inside async.execute region'') else Inr s
           | OtherOp \<Rightarrow> Inr s) func s)"

definition newAsyncDeps :: "('op \<Rightarrow> 'op option list) \<Rightarrow> 'op func_op list \<Rightarrow> 'op async_deps res" where
  "newAsyncDeps operands func = buildDepsMap operands func
     \<lparr>ad_index = Map.empty, ad_allExecOps = [], ad_depsMap = [], ad_consumerMap = [], ad_execOpCount = 0\<rparr>"

text \<open>An index beyond a vector is undefined in the source and an assertion failure here.\<close>

definition addDependency :: "nat \<Rightarrow> nat \<Rightarrow> 'op async_deps \<Rightarrow> 'op async_deps res" where
  "addDependency fromOpIdx toOpIdx s =
     (if \<not> toOpIdx < length (ad_depsMap s) then Inl Assertion_Failure
      else let s = s\<lparr>ad_depsMap := insert_at toOpIdx fromOpIdx (ad_depsMap s)\<rparr> in
        if ad_consumerMap s \<noteq> [] then
          if \<not> fromOpIdx < length (ad_consumerMap s) then Inl Assertion_Failure
          else Inr (s\<lparr>ad_consumerMap := insert_at fromOpIdx toOpIdx (ad_consumerMap s)\<rparr>)
        else Inr s)"

definition addDependencyOps :: "'op \<Rightarrow> 'op \<Rightarrow> 'op async_deps \<Rightarrow> 'op async_deps res" where
  "addDependencyOps from_op to_op s =
     res_bind (getIndex s from_op) (\<lambda>fromOpIdx. res_bind (getIndex s to_op) (\<lambda>toOpIdx. addDependency fromOpIdx toOpIdx s))"

text \<open>\<^verbatim>\<open>buildConsMap\<close> resizes the map, which keeps what it holds, and adds every dependency.\<close>

definition buildConsMap :: "'op async_deps \<Rightarrow> 'op async_deps" where
  "buildConsMap s =
     (let n = length (ad_depsMap s); cm = take n (ad_consumerMap s) @ replicate (n - length (ad_consumerMap s)) {}
      in s\<lparr>ad_consumerMap := fold (\<lambda>idx cm. fold (\<lambda>bit. insert_at bit idx) (sorted_list_of_set (ad_depsMap s ! idx)) cm)
           [0..<n] cm\<rparr>)"

section \<open>Transitive reduction\<close>

definition reduce_deps :: "deps_map \<Rightarrow> nat set \<Rightarrow> nat set" where
  "reduce_deps cl curDeps =
     (if card curDeps \<le> 1 then curDeps
      else fold (\<lambda>curDepInd cur. fold (\<lambda>dep cur. if hasDependency cl curDepInd dep then cur - {dep} else cur)
             (sorted_list_of_set cur) cur) (sorted_list_of_set curDeps) curDeps)"

definition reduce_map :: "deps_map \<Rightarrow> deps_map" where
  "reduce_map m = (let cl = computeTransitiveClosure m in
     fold (\<lambda>depInd m. m[depInd := reduce_deps cl (m ! depInd)]) (rev [0..<length m]) m)"

definition optimizeDepsMap :: "'op async_deps \<Rightarrow> 'op async_deps" where
  "optimizeDepsMap s =
     (let s = s\<lparr>ad_depsMap := reduce_map (ad_depsMap s)\<rparr> in
      if ad_consumerMap s \<noteq> [] then buildConsMap (s\<lparr>ad_consumerMap := []\<rparr>) else s)"

text \<open>The explicit dependencies assigned to each operation, in the order of the operations.\<close>

definition updateTokenDependencies :: "'op async_deps \<Rightarrow> ('op \<times> 'op option list) list res" where
  "updateTokenDependencies s =
     map_sum id rev (res_fold (\<lambda>op acc. case op of
         None \<Rightarrow> Inl Assertion_Failure
       | Some op \<Rightarrow> res_bind (getIndex s op) (\<lambda>execInd.
           Inr ((op, map (\<lambda>d. ad_allExecOps s ! d) (getDepsVec (ad_depsMap s ! execInd))) # acc)))
       (take (ad_execOpCount s) (ad_allExecOps s)) [])"

section \<open>New operations\<close>

definition preAllocateForNewOps :: "nat \<Rightarrow> 'op async_deps \<Rightarrow> 'op async_deps" where
  "preAllocateForNewOps n s =
     (let newSize = length (ad_allExecOps s) + n in
      s\<lparr>ad_allExecOps := ad_allExecOps s @ replicate n None,
        ad_depsMap := take newSize (ad_depsMap s) @ replicate (newSize - length (ad_depsMap s)) {},
        ad_consumerMap := take newSize (ad_consumerMap s) @ replicate (newSize - length (ad_consumerMap s)) {}\<rparr>)"

definition insertNewExecOpToDepsMap :: "('op \<Rightarrow> 'op option list) \<Rightarrow> 'op \<Rightarrow> 'op async_deps \<Rightarrow> (nat \<times> 'op async_deps) res" where
  "insertNewExecOpToDepsMap operands execOp s =
     (if ad_execOpCount s > length (ad_allExecOps s) then Inl (Vpux_Throw ''Invalid execOp count'')
      else let s = (if ad_execOpCount s = length (ad_allExecOps s) then preAllocateForNewOps 1 s else s);
               s = s\<lparr>ad_allExecOps := (ad_allExecOps s)[ad_execOpCount s := Some execOp]\<rparr>;
               s = setIndex execOp (ad_execOpCount s) s
        in res_bind (addExecOp operands execOp s) (\<lambda>s.
           Inr (ad_execOpCount s, s\<lparr>ad_execOpCount := Suc (ad_execOpCount s)\<rparr>)))"

section \<open>Queries\<close>

definition getOpDeps :: "'op async_deps \<Rightarrow> nat \<Rightarrow> nat list res" where
  "getOpDeps s opIdx =
     (if opIdx \<ge> ad_execOpCount s then Inl (Vpux_Throw ''Invalid index for _depsMap'')
      else Inr (getDepsVec (ad_depsMap s ! opIdx)))"

definition getConsumerOps :: "'op async_deps \<Rightarrow> nat \<Rightarrow> nat list res" where
  "getConsumerOps s opIdx =
     (if ad_consumerMap s = [] then Inl (Vpux_Throw ''Consumer map was not build'')
      else if opIdx \<ge> ad_execOpCount s then Inl (Vpux_Throw ''Invalid index for _consumerMap'')
      else Inr (getDepsVec (ad_consumerMap s ! opIdx)))"

definition calculateOpInDegreeTable :: "'op async_deps \<Rightarrow> (nat \<rightharpoonup> nat)" where
  "calculateOpInDegreeTable s = fold (\<lambda>i t. t(i \<mapsto> card (ad_depsMap s ! i))) [0..<ad_execOpCount s] Map.empty"

definition calculateOpOutDegreeTable :: "'op async_deps \<Rightarrow> (nat \<rightharpoonup> nat) res" where
  "calculateOpOutDegreeTable s =
     (if ad_consumerMap s = [] then Inl (Vpux_Throw ''Consumer map was not build'')
      else Inr (fold (\<lambda>i t. t(i \<mapsto> card (ad_consumerMap s ! i))) [0..<ad_execOpCount s] Map.empty))"

section \<open>Cycles\<close>

datatype color = White | Gray | Black

text \<open>
  The recursive search with three colours.  A call colours a white node, so the calls are never
  nested deeper than there are nodes; the fuel counts the nesting.
\<close>

fun detectCycles :: "nat \<Rightarrow> deps_map \<Rightarrow> nat \<Rightarrow> color list \<Rightarrow> (bool \<times> color list) res"
  and visitDeps :: "nat \<Rightarrow> deps_map \<Rightarrow> nat list \<Rightarrow> color list \<Rightarrow> (bool \<times> color list) res" where
  "detectCycles 0 m node colors = Inl (Vpux_Throw ''fuel'')"
| "detectCycles (Suc n) m node colors =
     res_bind (visitDeps n m (sorted_list_of_set (m ! node)) (colors[node := Gray])) (\<lambda>(found, colors).
       if found then Inr (True, colors) else Inr (False, colors[node := Black]))"
| "visitDeps n m [] colors = Inr (False, colors)"
| "visitDeps n m (dep # deps) colors =
     (if \<not> dep < length colors then Inl Assertion_Failure
      else if colors ! dep = Gray then Inr (True, colors)
      else if colors ! dep = White then
        res_bind (detectCycles n m dep colors) (\<lambda>(found, colors).
          if found then Inr (True, colors) else visitDeps n m deps colors)
      else visitDeps n m deps colors)"

fun detectFrom :: "nat \<Rightarrow> deps_map \<Rightarrow> nat list \<Rightarrow> color list \<Rightarrow> bool res" where
  "detectFrom n m [] colors = Inr False"
| "detectFrom n m (i # is) colors =
     (if colors ! i = White then
        res_bind (detectCycles n m i colors) (\<lambda>(found, colors). if found then Inr True else detectFrom n m is colors)
      else detectFrom n m is colors)"

definition hasCycle :: "'op async_deps \<Rightarrow> bool res" where
  "hasCycle s = detectFrom (ad_execOpCount s) (ad_depsMap s) [0..<ad_execOpCount s] (replicate (ad_execOpCount s) White)"

definition verifyAcyclic :: "'op async_deps \<Rightarrow> unit res" where
  "verifyAcyclic s = res_bind (hasCycle s) (\<lambda>c.
     if c then Inl (Vpux_Throw ''Dependency graph contains a cycle'') else Inr ())"

section \<open>Closed forms of the loops\<close>

lemma fold_union: "fold (\<lambda>d acc. acc \<union> f d) xs a = a \<union> \<Union> (f ` set xs)"
  by (induction xs arbitrary: a) auto

lemma union_rows_eq: "finite cur \<Longrightarrow> union_rows refDeps cur = cur \<union> (\<Union>d\<in>cur. refDeps ! d)"
  by (simp add: union_rows_def fold_union)

lemma length_fold_update [simp]: "length (fold (\<lambda>i m. m[i := g i m]) xs m) = length m"
  by (induction xs arbitrary: m) auto

text \<open>A loop that updates every entry once from its own value.\<close>

lemma fold_update_nth:
  assumes "distinct xs" "j < length m"
  shows "fold (\<lambda>i m. m[i := g (m ! i)]) xs m ! j = (if j \<in> set xs then g (m ! j) else m ! j)"
  using assms
proof (induction xs arbitrary: m)
  case (Cons i xs)
  then show ?case by (cases "i = j") (auto simp: nth_list_update)
qed simp

lemma fold_remove:
  "fold (\<lambda>d cur. if P d then cur - {d} else cur) xs cur = cur - {d \<in> set xs. P d}"
  by (induction xs arbitrary: cur) auto

lemma fold_remove_rows:
  assumes "finite cur"
  shows "fold (\<lambda>c cur. fold (\<lambda>d cur. if P c d then cur - {d} else cur) (sorted_list_of_set cur) cur) xs cur =
    cur - {d. \<exists>c\<in>set xs. P c d}"
  using assms
proof (induction xs arbitrary: cur)
  case (Cons c xs)
  have "fold (\<lambda>d cur. if P c d then cur - {d} else cur) (sorted_list_of_set cur) cur = cur - {d. P c d}"
    using Cons.prems by (auto simp: fold_remove)
  then show ?case using Cons by auto
qed simp

lemma reduce_deps_eq:
  "finite cur \<Longrightarrow> reduce_deps cl cur = (if card cur \<le> 1 then cur else cur - (\<Union>c\<in>cur. cl ! c))"
  by (auto simp: reduce_deps_def fold_remove_rows hasDependency_def)

lemma reduce_map_nth:
  "j < length m \<Longrightarrow> reduce_map m ! j = reduce_deps (computeTransitiveClosure m) (m ! j)"
  unfolding reduce_map_def Let_def by (subst fold_update_nth) auto

lemma length_reduce_map [simp]: "length (reduce_map m) = length m"
  by (simp add: reduce_map_def Let_def)

section \<open>The dependency relation\<close>

definition dep_rel :: "deps_map \<Rightarrow> (nat \<times> nat) set" where
  "dep_rel m = {(i, d). i < length m \<and> d \<in> m ! i}"

text \<open>Operations are numbered in program order, so they depend on smaller numbers only.\<close>

definition topological :: "deps_map \<Rightarrow> bool" where
  "topological m \<longleftrightarrow> (\<forall>i<length m. m ! i \<subseteq> {..<i})"

lemma topological_finite: "topological m \<Longrightarrow> i < length m \<Longrightarrow> finite (m ! i)"
  unfolding topological_def using finite_subset by blast

lemma dep_rel_less: "(i, d) \<in> (dep_rel m)\<^sup>+ \<Longrightarrow> topological m \<Longrightarrow> d < i"
  by (induction rule: trancl.induct) (fastforce simp: dep_rel_def topological_def)+

lemma trancl_row: "i < length m \<Longrightarrow> {d. (i, d) \<in> (dep_rel m)\<^sup>+} = m ! i \<union> (\<Union>c\<in>m ! i. {d. (c, d) \<in> (dep_rel m)\<^sup>+})"
  by (subst trancl_unfold_left) (auto simp: dep_rel_def relcomp_unfold elim: rtranclE trancl_into_rtrancl
      dest: trancl_into_rtrancl rtranclD)

lemma length_fullClosure [simp]: "length (fullClosure m) = length m"
  by (simp add: fullClosure_def)

lemma fullClosure_rows:
  assumes "topological m" "k \<le> length m" "i < length m"
  shows "fold (\<lambda>i cl. cl[i := union_rows cl (cl ! i)]) [0..<k] m ! i =
    (if i < k then {d. (i, d) \<in> (dep_rel m)\<^sup>+} else m ! i)"
  using assms(2,3)
proof (induction k arbitrary: i)
  case (Suc k)
  let ?cl = "fold (\<lambda>i cl. cl[i := union_rows cl (cl ! i)]) [0..<k] m"
  have k: "k < length m" "length ?cl = length m" using Suc.prems by simp_all
  have row: "?cl ! k = m ! k" using Suc.IH [of k] k by simp
  have sub: "m ! k \<subseteq> {..<k}" using assms(1) k by (simp add: topological_def)
  have "union_rows ?cl (m ! k) = m ! k \<union> (\<Union>c\<in>m ! k. ?cl ! c)"
    using topological_finite [OF assms(1) k(1)] by (rule union_rows_eq)
  also have "\<dots> = m ! k \<union> (\<Union>c\<in>m ! k. {d. (c, d) \<in> (dep_rel m)\<^sup>+})"
    using Suc.IH k sub by (intro arg_cong2 [of _ _ _ _ "(\<union>)"] SUP_cong) auto
  also have "\<dots> = {d. (k, d) \<in> (dep_rel m)\<^sup>+}" using trancl_row [OF k(1)] by simp
  finally show ?case using Suc.IH [of i] Suc.prems row k by (simp add: nth_list_update)
qed simp

lemma fullClosure_nth:
  "topological m \<Longrightarrow> i < length m - 1 \<Longrightarrow> fullClosure m ! i = {d. (i, d) \<in> (dep_rel m)\<^sup>+}"
  using fullClosure_rows [of m "length m - 1" i] by (simp add: fullClosure_def)

lemma partialClosure_nth:
  assumes "topological m" "i < length m"
  shows "partialClosure m ! i \<subseteq> {d. (i, d) \<in> (dep_rel m)\<^sup>+}"
proof -
  have "partialClosure m ! i = (if i < length m - 1 then union_rows m (m ! i) else m ! i)"
    unfolding partialClosure_def using assms by (subst fold_update_nth) auto
  moreover have "union_rows m (m ! i) = m ! i \<union> (\<Union>c\<in>m ! i. m ! c)"
    using topological_finite [OF assms] by (rule union_rows_eq)
  moreover have "m ! c \<subseteq> {d. (c, d) \<in> (dep_rel m)\<^sup>+}" if "c \<in> m ! i" for c
  proof
    fix d assume "d \<in> m ! c"
    moreover have "c < length m" using that assms unfolding topological_def by force
    ultimately have "(c, d) \<in> dep_rel m" by (simp add: dep_rel_def)
    then show "d \<in> {d. (c, d) \<in> (dep_rel m)\<^sup>+}" by blast
  qed
  ultimately have "partialClosure m ! i \<subseteq> m ! i \<union> (\<Union>c\<in>m ! i. {d. (c, d) \<in> (dep_rel m)\<^sup>+})"
    by (simp split: if_splits) blast
  then show ?thesis unfolding trancl_row [OF assms(2)] .
qed

text \<open>Every dependency the closure reports is one; below the threshold it reports all of them.\<close>

lemma closure_sound:
  assumes "topological m" "i < length m - 1" "d \<in> computeTransitiveClosure m ! i"
  shows "(i, d) \<in> (dep_rel m)\<^sup>+"
proof -
  have "i < length m" using assms(2) by simp
  then have "fullClosure m ! i \<union> partialClosure m ! i \<subseteq> {d. (i, d) \<in> (dep_rel m)\<^sup>+}"
    using assms fullClosure_nth partialClosure_nth by simp
  then show ?thesis using assms(3) by (auto simp: computeTransitiveClosure_def storage_of_def split: if_splits)
qed

lemma closure_complete:
  assumes "topological m" "i < length m - 1" "length m \<le> 10000" "(i, d) \<in> (dep_rel m)\<^sup>+"
  shows "d \<in> computeTransitiveClosure m ! i"
  using assms fullClosure_nth
  by (simp add: computeTransitiveClosure_def storage_of_def simplifiedOptimizationOpCountThreshold_def)

lemma reduced_row:
  assumes "topological m" "i < length m"
  shows "reduce_map m ! i = m ! i - (\<Union>c\<in>m ! i. computeTransitiveClosure m ! c)"
proof -
  let ?cl = "computeTransitiveClosure m"
  have fin: "finite (m ! i)" using topological_finite [OF assms] .
  have "m ! i \<inter> (\<Union>c\<in>m ! i. ?cl ! c) = {}" if "card (m ! i) \<le> 1"
  proof -
    have "c \<notin> ?cl ! c" if "c \<in> m ! i" for c
    proof
      assume "c \<in> ?cl ! c"
      moreover have "c < length m - 1" using that assms unfolding topological_def by force
      ultimately have "(c, c) \<in> (dep_rel m)\<^sup>+" using closure_sound [OF assms(1)] by blast
      then show False using dep_rel_less assms(1) by blast
    qed
    moreover have "\<forall>c\<in>m ! i. \<forall>d\<in>m ! i. c = d" using that fin card_le_Suc0_iff_eq by auto
    ultimately have "x \<notin> (\<Union>c\<in>m ! i. ?cl ! c)" if "x \<in> m ! i" for x using that by fastforce
    then show ?thesis by blast
  qed
  then show ?thesis using fin assms(2) by (auto simp: reduce_map_nth reduce_deps_eq)
qed

lemma reduced_subset: "topological m \<Longrightarrow> dep_rel (reduce_map m) \<subseteq> dep_rel m"
  by (auto simp: dep_rel_def reduced_row)

lemma trancl_within: "r \<subseteq> s\<^sup>+ \<Longrightarrow> r\<^sup>+ \<subseteq> s\<^sup>+"
proof
  fix p assume r: "r \<subseteq> s\<^sup>+" and "p \<in> r\<^sup>+"
  then have "(fst p, snd p) \<in> r\<^sup>+" by simp
  then have "(fst p, snd p) \<in> s\<^sup>+" by (induction rule: trancl_induct) (use r in \<open>blast intro: trancl_trans\<close>)+
  then show "p \<in> s\<^sup>+" by simp
qed

text \<open>A path only uses dependencies between its ends.\<close>

lemma path_between:
  assumes "(c, d) \<in> (dep_rel m)\<^sup>+" "topological m"
  shows "(c, d) \<in> {(x, y) \<in> dep_rel m. d \<le> y \<and> x \<le> c}\<^sup>+"
  using assms(1)
proof (induction rule: trancl.induct)
  case (r_into_trancl a b)
  then show ?case by (intro trancl.r_into_trancl) auto
next
  case (trancl_into_trancl a b c)
  have bc: "c < b" "b < a" using dep_rel_less assms(2) trancl_into_trancl.hyps by blast+
  have "{(x, y) \<in> dep_rel m. b \<le> y \<and> x \<le> a} \<subseteq> {(x, y) \<in> dep_rel m. c \<le> y \<and> x \<le> a}" using bc by auto
  from trancl_mono [OF trancl_into_trancl.IH this]
  show ?case by (rule trancl.trancl_into_trancl) (use trancl_into_trancl.hyps bc in auto)
qed

lemma reduce_preserves_edge:
  assumes "topological m"
  shows "(i, d) \<in> dep_rel m \<Longrightarrow> (i, d) \<in> (dep_rel (reduce_map m))\<^sup>+"
proof (induction "i - d" arbitrary: i d rule: less_induct)
  case less
  have i: "i < length m" "d \<in> m ! i" using less.prems by (auto simp: dep_rel_def)
  show ?case
  proof (cases "d \<in> reduce_map m ! i")
    case True
    then show ?thesis using i by (auto simp: dep_rel_def)
  next
    case False
    then obtain c where c: "c \<in> m ! i" "d \<in> computeTransitiveClosure m ! c"
      using reduced_row [OF assms i(1)] i(2) by auto
    have ci: "c < i" "(i, c) \<in> dep_rel m" using c i assms by (auto simp: topological_def dep_rel_def)
    then have path: "(c, d) \<in> (dep_rel m)\<^sup>+" using closure_sound [OF assms _ c(2)] i(1) by simp
    then have dc: "d < c" using dep_rel_less assms by blast
    have "(i, c) \<in> (dep_rel (reduce_map m))\<^sup>+" using less.hyps [of i c] ci dc by simp
    moreover have "{(x, y) \<in> dep_rel m. d \<le> y \<and> x \<le> c} \<subseteq> (dep_rel (reduce_map m))\<^sup>+"
    proof clarify
      fix x y assume xy: "(x, y) \<in> dep_rel m" "d \<le> y" "x \<le> c"
      then have "x - y < i - d" using ci dc dep_rel_less [OF trancl.r_into_trancl [OF xy(1)] assms] by linarith
      then show "(x, y) \<in> (dep_rel (reduce_map m))\<^sup>+" using less.hyps xy(1) by blast
    qed
    then have "(c, d) \<in> (dep_rel (reduce_map m))\<^sup>+"
      using path_between [OF path assms] trancl_within by blast
    ultimately show ?thesis by (rule trancl_trans)
  qed
qed

lemma reduce_preserves:
  assumes "topological m"
  shows "(dep_rel (reduce_map m))\<^sup>+ = (dep_rel m)\<^sup>+"
proof
  show "(dep_rel (reduce_map m))\<^sup>+ \<subseteq> (dep_rel m)\<^sup>+" using reduced_subset [OF assms] by (rule trancl_mono_subset)
  have "dep_rel m \<subseteq> (dep_rel (reduce_map m))\<^sup>+" using reduce_preserves_edge [OF assms] by auto
  then show "(dep_rel m)\<^sup>+ \<subseteq> (dep_rel (reduce_map m))\<^sup>+" by (rule trancl_within)
qed

lemma reduce_minimal:
  assumes "topological m" "length m \<le> 10000" and e: "(i, d) \<in> dep_rel (reduce_map m)"
  shows "(i, d) \<notin> (dep_rel (reduce_map m) - {(i, d)})\<^sup>+"
proof
  assume "(i, d) \<in> (dep_rel (reduce_map m) - {(i, d)})\<^sup>+"
  then obtain c where c: "(i, c) \<in> dep_rel (reduce_map m) - {(i, d)}" "(c, d) \<in> (dep_rel (reduce_map m) - {(i, d)})\<^sup>*"
    using tranclD by metis
  then have "c \<noteq> d" by auto
  then have "(c, d) \<in> (dep_rel (reduce_map m) - {(i, d)})\<^sup>+" using c(2) by (metis rtranclD)
  moreover have "dep_rel (reduce_map m) - {(i, d)} \<subseteq> (dep_rel m)\<^sup>+" using reduced_subset [OF assms(1)] by auto
  ultimately have "(c, d) \<in> (dep_rel m)\<^sup>+" using trancl_within by blast
  moreover have ic: "c \<in> m ! i" "i < length m" using c(1) reduced_subset [OF assms(1)] by (auto simp: dep_rel_def)
  moreover have "c < length m - 1" using ic assms(1) unfolding topological_def by force
  ultimately have "d \<in> computeTransitiveClosure m ! c" using closure_complete assms by blast
  moreover have "d \<in> reduce_map m ! i" using e by (simp add: dep_rel_def)
  ultimately show False using reduced_row [OF assms(1) ic(2)] ic(1) by auto
qed

section \<open>Three colours\<close>

text \<open>
  Of black nodes the dependencies are black, and a rank decreases along them; white nodes
  are counted by the fuel.
\<close>

definition dfs_inv :: "deps_map \<Rightarrow> nat \<Rightarrow> color list \<Rightarrow> bool" where
  "dfs_inv m n cs \<longleftrightarrow> length cs = n \<and>
     (\<exists>rk :: nat \<Rightarrow> nat. \<forall>i<n. cs ! i = Black \<longrightarrow> (\<forall>d\<in>m ! i. cs ! d = Black \<and> rk d < rk i))"

definition dfs_next :: "nat \<Rightarrow> color list \<Rightarrow> color list \<Rightarrow> bool" where
  "dfs_next n cs cs' \<longleftrightarrow> length cs' = length cs \<and>
     (\<forall>i<n. (cs ! i = Black \<longrightarrow> cs' ! i = Black) \<and> (cs' ! i = Gray \<longleftrightarrow> cs ! i = Gray))"

definition whites :: "nat \<Rightarrow> color list \<Rightarrow> nat" where
  "whites n cs = card {i. i < n \<and> cs ! i = White}"

definition deps_in :: "deps_map \<Rightarrow> nat \<Rightarrow> bool" where
  "deps_in m n \<longleftrightarrow> (\<forall>i<n. m ! i \<subseteq> {..<n})"

definition edges :: "deps_map \<Rightarrow> nat \<Rightarrow> (nat \<times> nat) set" where
  "edges m n = {(i, d). i < n \<and> d \<in> m ! i}"

lemma dfs_next_refl [simp]: "dfs_next n cs cs" by (simp add: dfs_next_def)

lemma dfs_next_trans: "dfs_next n a b \<Longrightarrow> dfs_next n b c \<Longrightarrow> dfs_next n a c"
  by (simp add: dfs_next_def)

lemma dfs_next_whites: "dfs_next n cs cs' \<Longrightarrow> whites n cs' \<le> whites n cs"
  unfolding whites_def dfs_next_def by (intro card_mono) (auto, metis color.exhaust)

lemma whites_gray:
  assumes "node < n" "length cs = n" "cs ! node = White"
  shows "whites n cs = Suc (whites n (cs[node := Gray]))"
proof -
  have "{i. i < n \<and> cs ! i = White} = insert node {i. i < n \<and> cs[node := Gray] ! i = White}"
    using assms by (auto simp: nth_list_update)
  then show ?thesis using assms by (simp add: whites_def)
qed

lemma dfs_inv_gray: "dfs_inv m n cs \<Longrightarrow> node < n \<Longrightarrow> cs ! node = White \<Longrightarrow> dfs_inv m n (cs[node := Gray])"
  unfolding dfs_inv_def by (metis (no_types, lifting) color.distinct(3,5) length_list_update nth_list_update_neq nth_list_update_eq)

lemma dfs_inv_black:
  assumes inv: "dfs_inv m n cs" and node: "node < n" "cs ! node \<noteq> Black" and fin: "finite (m ! node)"
    and deps: "\<forall>d\<in>m ! node. cs ! d = Black"
  shows "dfs_inv m n (cs[node := Black])"
proof -
  obtain rk :: "nat \<Rightarrow> nat" where l: "length cs = n"
    and rk: "\<forall>i<n. cs ! i = Black \<longrightarrow> (\<forall>d\<in>m ! i. cs ! d = Black \<and> rk d < rk i)"
    using inv unfolding dfs_inv_def by blast
  let ?rk = "rk(node := Suc (Max (insert 0 (rk ` (m ! node)))))"
  have le: "rk d < Suc (Max (insert 0 (rk ` (m ! node))))" if "d \<in> m ! node" for d
    using that fin by (simp add: le_imp_less_Suc)
  have "cs[node := Black] ! d = Black \<and> ?rk d < ?rk i" if "i < n" "cs[node := Black] ! i = Black" "d \<in> m ! i" for i d
  proof (cases "i = node")
    case True
    then have "cs ! d = Black" using deps that by blast
    then show ?thesis using True node(2) le that(3) l by (auto simp: nth_list_update)
  next
    case False
    then have "cs ! d = Black" "rk d < rk i" using rk that by auto
    then show ?thesis using False node(2) l by (auto simp: nth_list_update)
  qed
  then show ?thesis using l unfolding dfs_inv_def by (metis length_list_update)
qed

lemma dfs_spec:
  "deps_in m n \<Longrightarrow> node < n \<Longrightarrow> cs ! node = White \<Longrightarrow> dfs_inv m n cs \<Longrightarrow> whites n cs \<le> k \<Longrightarrow>
      \<exists>found cs'. detectCycles k m node cs = Inr (found, cs') \<and>
        (if found then (\<forall>g<n. cs ! g = Gray \<longrightarrow> (g, node) \<in> (edges m n)\<^sup>*) \<longrightarrow> \<not> acyclic (edges m n)
         else dfs_inv m n cs' \<and> dfs_next n cs cs' \<and> cs' ! node = Black)"
  "deps_in m n \<Longrightarrow> set ds \<subseteq> {..<n} \<Longrightarrow> dfs_inv m n cs \<Longrightarrow> whites n cs \<le> k \<Longrightarrow>
      \<exists>found cs'. visitDeps k m ds cs = Inr (found, cs') \<and>
        (if found then (\<forall>g<n. \<forall>d\<in>set ds. cs ! g = Gray \<longrightarrow> (g, d) \<in> (edges m n)\<^sup>+) \<longrightarrow> \<not> acyclic (edges m n)
         else dfs_inv m n cs' \<and> dfs_next n cs cs' \<and> (\<forall>d\<in>set ds. cs' ! d = Black))"
proof (induction k m node cs and k m ds cs rule: detectCycles_visitDeps.induct)
  case (1 m node cs)
  then have "node \<in> {i. i < n \<and> cs ! i = White}" by simp
  then have "whites n cs > 0" unfolding whites_def by (metis card_gt_0_iff empty_iff finite_Collect_less_nat finite_Collect_conjI)
  then show ?case using 1 by simp
next
  case (2 k m node cs)
  let ?cs = "cs[node := Gray]"
  have l: "length cs = n" using 2 by (simp add: dfs_inv_def)
  have sub: "m ! node \<subseteq> {..<n}" using 2 by (simp add: deps_in_def)
  then have fin: "finite (m ! node)" using finite_subset by blast
  have w: "whites n ?cs \<le> k" using whites_gray [OF 2(3) l 2(4)] 2(6) by simp
  have "set (sorted_list_of_set (m ! node)) \<subseteq> {..<n}" using sub fin by simp
  from 2(1) [OF 2(2) this dfs_inv_gray [OF 2(5,3,4)] w]
  obtain found cs' where v: "visitDeps k m (sorted_list_of_set (m ! node)) ?cs = Inr (found, cs')"
    "if found then (\<forall>g<n. \<forall>d\<in>m ! node. ?cs ! g = Gray \<longrightarrow> (g, d) \<in> (edges m n)\<^sup>+) \<longrightarrow> \<not> acyclic (edges m n)
     else dfs_inv m n cs' \<and> dfs_next n ?cs cs' \<and> (\<forall>d\<in>m ! node. cs' ! d = Black)"
    using fin by auto
  show ?case
  proof (cases found)
    case True
    have "(g, d) \<in> (edges m n)\<^sup>+"
      if "\<forall>g<n. cs ! g = Gray \<longrightarrow> (g, node) \<in> (edges m n)\<^sup>*" "g < n" "d \<in> m ! node" "?cs ! g = Gray" for g d
    proof -
      have "(node, d) \<in> edges m n" using that(3) 2(3) by (simp add: edges_def)
      moreover have "(g, node) \<in> (edges m n)\<^sup>*" using that l by (cases "g = node") auto
      ultimately show ?thesis by (rule rtrancl_into_trancl1 [rotated])
    qed
    then show ?thesis using v True by auto
  next
    case False
    then have c: "dfs_inv m n cs'" "dfs_next n ?cs cs'" "\<forall>d\<in>m ! node. cs' ! d = Black" using v(2) by auto
    have g: "cs' ! node = Gray" using c(2) 2(3) l by (auto simp: dfs_next_def)
    have "dfs_inv m n (cs'[node := Black])" using dfs_inv_black [OF c(1) 2(3) _ fin c(3)] g by simp
    moreover have "dfs_next n cs (cs'[node := Black])"
      using c(2) 2(3,4) l by (auto simp: dfs_next_def nth_list_update)
    moreover have "cs'[node := Black] ! node = Black" using c(2) 2(3) l by (simp add: dfs_next_def)
    ultimately show ?thesis using v(1) False by auto
  qed
next
  case (3 k m cs)
  then show ?case by auto
next
  case (4 k m dep ds cs)
  have l: "length cs = n" and dep: "dep < n" "set ds \<subseteq> {..<n}" using 4 by (simp_all add: dfs_inv_def)
  show ?case
  proof (cases "cs ! dep")
    case Gray
    then show ?thesis using l dep by (auto simp: acyclic_def)
  next
    case Black
    then have run: "visitDeps k m (dep # ds) cs = visitDeps k m ds cs" using l dep by simp
    obtain found cs' where v: "visitDeps k m ds cs = Inr (found, cs')"
      "if found then (\<forall>g<n. \<forall>d\<in>set ds. cs ! g = Gray \<longrightarrow> (g, d) \<in> (edges m n)\<^sup>+) \<longrightarrow> \<not> acyclic (edges m n)
       else dfs_inv m n cs' \<and> dfs_next n cs cs' \<and> (\<forall>d\<in>set ds. cs' ! d = Black)"
      using 4(3) [OF _ _ _ 4(4) dep(2) 4(6,7)] l dep Black by auto
    have "cs' ! dep = Black" if "dfs_next n cs cs'" using that Black dep by (simp add: dfs_next_def)
    then show ?thesis unfolding run using v by (auto split: if_splits)
  next
    case White
    then obtain found cs' where v: "detectCycles k m dep cs = Inr (found, cs')"
      "if found then (\<forall>g<n. cs ! g = Gray \<longrightarrow> (g, dep) \<in> (edges m n)\<^sup>*) \<longrightarrow> \<not> acyclic (edges m n)
       else dfs_inv m n cs' \<and> dfs_next n cs cs' \<and> cs' ! dep = Black"
      using 4(1) [OF _ _ _ 4(4) dep(1) White 4(6,7)] l dep by auto
    show ?thesis
    proof (cases found)
      case True
      then have "visitDeps k m (dep # ds) cs = Inr (True, cs')" using v(1) White l dep by simp
      then show ?thesis using v(2) True trancl_into_rtrancl by (metis list.set_intros(1))
    next
      case False
      then have c: "dfs_inv m n cs'" "dfs_next n cs cs'" "cs' ! dep = Black" using v(2) by auto
      have "whites n cs' \<le> k" using dfs_next_whites [OF c(2)] 4(7) by simp
      then obtain found2 cs2 where v2: "visitDeps k m ds cs' = Inr (found2, cs2)"
        "if found2 then (\<forall>g<n. \<forall>d\<in>set ds. cs' ! g = Gray \<longrightarrow> (g, d) \<in> (edges m n)\<^sup>+) \<longrightarrow> \<not> acyclic (edges m n)
         else dfs_inv m n cs2 \<and> dfs_next n cs' cs2 \<and> (\<forall>d\<in>set ds. cs2 ! d = Black)"
        using 4(2) [OF _ _ White v(1) refl _ 4(4) dep(2) c(1)] l dep White False by auto
      have run: "visitDeps k m (dep # ds) cs = Inr (found2, cs2)" using v(1) v2(1) White l dep False by simp
      have g: "cs' ! g = Gray \<longleftrightarrow> cs ! g = Gray" if "g < n" for g using c(2) that by (simp add: dfs_next_def)
      show ?thesis
      proof (cases found2)
        case True
        then show ?thesis unfolding run using v2(2) g by (metis list.set_intros(2))
      next
        case False
        then have c2: "dfs_inv m n cs2" "dfs_next n cs' cs2" "\<forall>d\<in>set ds. cs2 ! d = Black" using v2(2) by auto
        moreover have "cs2 ! dep = Black" using c(3) c2(2) dep by (simp add: dfs_next_def)
        ultimately show ?thesis unfolding run using dfs_next_trans [OF c(2)] False by auto
      qed
    qed
  qed
qed

lemma detectFrom_spec:
  assumes "deps_in m n" "n \<le> k"
  shows "set is \<subseteq> {..<n} \<Longrightarrow> dfs_inv m n cs \<Longrightarrow> \<forall>g<n. cs ! g \<noteq> Gray \<Longrightarrow>
    \<exists>b. detectFrom k m is cs = Inr b \<and> (if b then \<not> acyclic (edges m n)
      else \<exists>cs'. dfs_inv m n cs' \<and> dfs_next n cs cs' \<and> (\<forall>i\<in>set is. cs' ! i = Black))"
proof (induction "is" arbitrary: cs)
  case Nil
  have "dfs_next n cs cs" by (simp add: dfs_next_def)
  then have "\<exists>cs'. dfs_inv m n cs' \<and> dfs_next n cs cs' \<and> (\<forall>i\<in>set []. cs' ! i = Black)"
    by - (rule exI [of _ cs], simp add: Nil.prems(2))
  then show ?case by (intro exI [of _ False]) simp
next
  case (Cons i js)
  have i: "i < n" "set js \<subseteq> {..<n}" using Cons.prems(1) by auto
  show ?case
  proof (cases "cs ! i = White")
    case True
    have "whites n cs \<le> card {..<n}" unfolding whites_def by (intro card_mono) auto
    then have "whites n cs \<le> k" using assms(2) by simp
    then obtain found cs' where v: "detectCycles k m i cs = Inr (found, cs')"
      "if found then (\<forall>g<n. cs ! g = Gray \<longrightarrow> (g, i) \<in> (edges m n)\<^sup>*) \<longrightarrow> \<not> acyclic (edges m n)
       else dfs_inv m n cs' \<and> dfs_next n cs cs' \<and> cs' ! i = Black"
      using dfs_spec(1) [OF assms(1) i(1) True Cons.prems(2)] by blast
    show ?thesis
    proof (cases found)
      case True
      then show ?thesis using v Cons.prems(3) \<open>cs ! i = White\<close> by auto
    next
      case False
      then have c: "dfs_inv m n cs'" "dfs_next n cs cs'" "cs' ! i = Black" using v(2) by auto
      then have "\<forall>g<n. cs' ! g \<noteq> Gray" using Cons.prems(3) by (simp add: dfs_next_def)
      from Cons.IH [OF i(2) c(1) this] obtain b where b: "detectFrom k m js cs' = Inr b"
        "if b then \<not> acyclic (edges m n)
         else \<exists>cs''. dfs_inv m n cs'' \<and> dfs_next n cs' cs'' \<and> (\<forall>i\<in>set js. cs'' ! i = Black)" by blast
      have run: "detectFrom k m (i # js) cs = Inr b" using v(1) True False b(1) by simp
      have "\<exists>cs''. dfs_inv m n cs'' \<and> dfs_next n cs cs'' \<and> (\<forall>i\<in>set (i # js). cs'' ! i = Black)" if nb: "\<not> b"
      proof -
        obtain cs'' where d: "dfs_inv m n cs''" "dfs_next n cs' cs''" "\<forall>i\<in>set js. cs'' ! i = Black"
          using b(2) nb by auto
        moreover have "cs'' ! i = Black" using d(2) c(3) i(1) by (simp add: dfs_next_def)
        ultimately show ?thesis using dfs_next_trans [OF c(2) d(2)] by auto
      qed
      then show ?thesis unfolding run using b(2) by auto
    qed
  next
    case False
    then have bl: "cs ! i = Black" using Cons.prems(3) i(1) color.exhaust by blast
    then have run: "detectFrom k m (i # js) cs = detectFrom k m js cs" by simp
    from Cons.IH [OF i(2) Cons.prems(2,3)] obtain b where b: "detectFrom k m js cs = Inr b"
      "if b then \<not> acyclic (edges m n)
       else \<exists>cs'. dfs_inv m n cs' \<and> dfs_next n cs cs' \<and> (\<forall>i\<in>set js. cs' ! i = Black)" by blast
    then show ?thesis unfolding run using bl i(1) by (auto simp: dfs_next_def split: if_splits)
  qed
qed

lemma dfs_inv_acyclic:
  assumes "dfs_inv m n cs" "\<forall>i<n. cs ! i = Black"
  shows "acyclic (edges m n)"
proof -
  obtain rk :: "nat \<Rightarrow> nat" where "\<forall>i<n. \<forall>d\<in>m ! i. rk d < rk i" using assms unfolding dfs_inv_def by blast
  then have "edges m n \<subseteq> inv_image {(x, y). y < x} rk" by (auto simp: edges_def)
  moreover have "acyclic ((inv_image less_than rk)\<inverse>)"
    unfolding acyclic_converse by (rule wf_acyclic [OF wf_inv_image [OF wf_less_than]])
  moreover have "inv_image {(x, y). y < x} rk = (inv_image less_than rk)\<inverse>" by auto
  ultimately show ?thesis by (metis acyclic_subset)
qed

lemma detectFrom_all:
  assumes "deps_in m n"
  shows "detectFrom n m [0..<n] (replicate n White) = Inr (\<not> acyclic (edges m n))"
proof -
  have "dfs_inv m n (replicate n White)" by (simp add: dfs_inv_def)
  moreover have "set [0..<n] \<subseteq> {..<n}" "\<forall>g<n. replicate n White ! g \<noteq> Gray" by auto
  ultimately obtain b where b: "detectFrom n m [0..<n] (replicate n White) = Inr b" "if b then \<not> acyclic (edges m n)
      else \<exists>cs'. dfs_inv m n cs' \<and> dfs_next n (replicate n White) cs' \<and> (\<forall>i\<in>set [0..<n]. cs' ! i = Black)"
    using detectFrom_spec [OF assms order_refl] by blast
  have "acyclic (edges m n)" if "\<not> b" using that b(2) dfs_inv_acyclic by auto
  then show ?thesis using b by auto
qed

section \<open>Consumer map\<close>

definition cons_inverse :: "'op async_deps \<Rightarrow> bool" where
  "cons_inverse s \<longleftrightarrow> length (ad_consumerMap s) = length (ad_depsMap s) \<and>
     (\<forall>c<length (ad_depsMap s). \<forall>d<length (ad_depsMap s). c \<in> ad_consumerMap s ! d \<longleftrightarrow> d \<in> ad_depsMap s ! c)"

lemma length_insert_at [simp]: "length (insert_at i x m) = length m"
  by (simp add: insert_at_def)

lemma insert_at_nth: "i < length m \<Longrightarrow> y \<in> insert_at i x m ! j \<longleftrightarrow> y \<in> m ! j \<or> (j = i \<and> y = x)"
  by (auto simp: insert_at_def nth_list_update)

lemma fold_insert_at:
  "set bits \<subseteq> {..<length cm} \<Longrightarrow> length (fold (\<lambda>bit. insert_at bit idx) bits cm) = length cm \<and>
    (\<forall>y j. y \<in> fold (\<lambda>bit. insert_at bit idx) bits cm ! j \<longleftrightarrow> y \<in> cm ! j \<or> (j \<in> set bits \<and> y = idx))"
  by (induction bits arbitrary: cm) (auto simp: insert_at_nth)

lemma fold_consumers:
  assumes "\<forall>i\<in>set is. finite (dm ! i) \<and> dm ! i \<subseteq> {..<length cm}"
  shows "length (fold (\<lambda>idx cm. fold (\<lambda>bit. insert_at bit idx) (sorted_list_of_set (dm ! idx)) cm) is cm) = length cm \<and>
    (\<forall>y j. y \<in> fold (\<lambda>idx cm. fold (\<lambda>bit. insert_at bit idx) (sorted_list_of_set (dm ! idx)) cm) is cm ! j \<longleftrightarrow>
      y \<in> cm ! j \<or> (y \<in> set is \<and> j \<in> dm ! y))"
  using assms
proof (induction "is" arbitrary: cm)
  case (Cons i js)
  have "set (sorted_list_of_set (dm ! i)) \<subseteq> {..<length cm}" using Cons.prems by simp
  note f = fold_insert_at [OF this, of i]
  then show ?case using Cons by auto
qed simp

lemma buildConsMap_inverse:
  assumes "deps_in (ad_depsMap s) (length (ad_depsMap s))" "ad_consumerMap s = []"
  shows "cons_inverse (buildConsMap s)" "ad_depsMap (buildConsMap s) = ad_depsMap s"
proof -
  let ?n = "length (ad_depsMap s)"
  have f: "\<forall>i\<in>set [0..<?n]. finite (ad_depsMap s ! i) \<and> ad_depsMap s ! i \<subseteq> {..<length (replicate ?n ({} :: nat set))}"
    using assms(1) finite_subset by (fastforce simp: deps_in_def)
  show "cons_inverse (buildConsMap s)"
    using fold_consumers [OF f] assms(2) by (auto simp: cons_inverse_def buildConsMap_def Let_def)
  show "ad_depsMap (buildConsMap s) = ad_depsMap s" by (simp add: buildConsMap_def Let_def)
qed

section \<open>Properties\<close>

text \<open>
  C25. The optimization of the dependency map is a transitive reduction: on operations
  numbered in program order it keeps exactly the order relation (also above the size threshold, where the
  closure is partial), it only removes dependencies, and up to the threshold no
  dependency that is left can be derived from the others.
\<close>

theorem optimize_is_transitive_reduction:
  assumes "topological (ad_depsMap s)"
  shows "(dep_rel (ad_depsMap (optimizeDepsMap s)))\<^sup>+ = (dep_rel (ad_depsMap s))\<^sup>+ \<and>
    dep_rel (ad_depsMap (optimizeDepsMap s)) \<subseteq> dep_rel (ad_depsMap s) \<and>
    (length (ad_depsMap s) \<le> 10000 \<longrightarrow> (\<forall>e\<in>dep_rel (ad_depsMap (optimizeDepsMap s)).
      e \<notin> (dep_rel (ad_depsMap (optimizeDepsMap s)) - {e})\<^sup>+))"
proof -
  have "ad_depsMap (optimizeDepsMap s) = reduce_map (ad_depsMap s)"
    by (simp add: optimizeDepsMap_def buildConsMap_def Let_def)
  then show ?thesis using reduce_preserves reduced_subset reduce_minimal assms by auto
qed

definition example_deps :: "nat async_deps" where
  "example_deps = \<lparr>ad_index = [0 \<mapsto> 0, 1 \<mapsto> 1, 2 \<mapsto> 2], ad_allExecOps = [Some 0, Some 1, Some 2],
     ad_depsMap = [{}, {0}, {0, 1}], ad_consumerMap = [], ad_execOpCount = 3\<rparr>"

theorem optimize_is_transitive_reduction_witness:
  "(2, 0) \<in> (dep_rel (ad_depsMap (optimizeDepsMap example_deps)))\<^sup>+ \<and>
   (2, 0) \<notin> dep_rel (ad_depsMap (optimizeDepsMap example_deps))"
proof -
  let ?r = "dep_rel (ad_depsMap example_deps)" and ?r' = "dep_rel (ad_depsMap (optimizeDepsMap example_deps))"
  have "topological (ad_depsMap example_deps)"
    by (auto simp: topological_def example_deps_def less_Suc_eq numeral_3_eq_3)
  note t = optimize_is_transitive_reduction [OF this]
  have r: "?r = {(1, 0), (2, 0), (2, 1)}"
    by (auto simp: dep_rel_def example_deps_def less_Suc_eq numeral_3_eq_3 numeral_2_eq_2)
  have "(2, 0) \<in> ?r\<^sup>+" "(2, 1) \<in> ?r\<^sup>+" "(1, 0) \<in> ?r\<^sup>+" unfolding r by (simp_all add: r_into_trancl)
  then have p: "(2, 0) \<in> ?r'\<^sup>+" "(2, 1) \<in> ?r'\<^sup>+" "(1, 0) \<in> ?r'\<^sup>+" using conjunct1 [OF t] by simp_all
  have sub: "?r' \<subseteq> {(1, 0), (2, 0), (2, 1)}" using conjunct1 [OF conjunct2 [OF t]] unfolding r .
  have "(2, 0) \<notin> ?r'"
  proof
    assume "(2, 0) \<in> ?r'"
    moreover have "length (ad_depsMap example_deps) \<le> 10000" by (simp add: example_deps_def)
    ultimately have n: "(2, 0) \<notin> (?r' - {(2, 0)})\<^sup>+" using conjunct2 [OF conjunct2 [OF t]] by blast
    have no2: "(a, 2) \<notin> ?r'\<^sup>+" for a
    proof
      assume "(a, 2) \<in> ?r'\<^sup>+"
      from tranclD2 [OF this] obtain z where "(z, 2) \<in> ?r'" by blast
      then show False using sub by auto
    qed
    obtain z where "(z, 1) \<in> ?r'" using tranclD2 [OF p(2)] by blast
    then have "(2, 1) \<in> ?r'" using sub by auto
    moreover obtain y where y: "(1, y) \<in> ?r'\<^sup>*" "(y, 0) \<in> ?r'" using tranclD2 [OF p(3)] by blast
    then have "y = 1" using sub no2 [of 1] rtranclD [OF y(1)] by auto
    ultimately have "(2, 1) \<in> ?r'" "(1, 0) \<in> ?r'" using y(2) by simp_all
    then have "(2, 1) \<in> ?r' - {(2, 0)}" "(1, 0) \<in> ?r' - {(2, 0)}" by auto
    then have "(2, 0) \<in> (?r' - {(2, 0)})\<^sup>+" by (rule trancl_into_trancl [OF r_into_trancl])
    then show False using n by blast
  qed
  then show ?thesis using p(1) by blast
qed

text \<open>
  C27. The search for cycles ends and answers exactly whether the dependency graph has a cycle.
\<close>

theorem hasCycle_correct:
  assumes "deps_in (ad_depsMap s) (ad_execOpCount s)"
  shows "hasCycle s = Inr (\<not> acyclic (edges (ad_depsMap s) (ad_execOpCount s)))"
  using detectFrom_all [OF assms] by (simp add: hasCycle_def)

theorem hasCycle_correct_witness: "hasCycle (example_deps\<lparr>ad_depsMap := [{1}, {2}, {0}]\<rparr>) = Inr True"
proof -
  let ?s = "example_deps\<lparr>ad_depsMap := [{1}, {2}, {0}]\<rparr>"
  have "deps_in (ad_depsMap ?s) (ad_execOpCount ?s)"
    by (auto simp: deps_in_def example_deps_def less_Suc_eq numeral_3_eq_3)
  from hasCycle_correct [OF this]
  have h: "hasCycle ?s = Inr (\<not> acyclic (edges [{1}, {2}, {0}] 3))" by (simp add: example_deps_def)
  have "(0, 1) \<in> edges [{1}, {2}, {0}] 3" "(1, 2) \<in> edges [{1}, {2}, {0}] 3" "(2, 0) \<in> edges [{1}, {2}, {0}] 3"
    by (simp_all add: edges_def)
  then have "(0, 0) \<in> (edges [{1}, {2}, {0}] 3)\<^sup>+" by (blast intro: r_into_trancl trancl_trans)
  then show ?thesis using h by (auto simp: acyclic_def)
qed

text \<open>
  C28. The consumer map is the inverse of the dependency map: building it makes it so,
  and adding a dependency and optimizing the map keep it so.
\<close>

theorem consumer_map_is_inverse:
  assumes "deps_in (ad_depsMap s) (length (ad_depsMap s))"
  shows "(ad_consumerMap s = [] \<longrightarrow> cons_inverse (buildConsMap s)) \<and>
    (cons_inverse s \<and> from_op < length (ad_depsMap s) \<and> to_op < length (ad_depsMap s) \<longrightarrow>
      (\<exists>t. addDependency from_op to_op s = Inr t \<and> cons_inverse t \<and> from_op \<in> ad_depsMap t ! to_op)) \<and>
    (cons_inverse s \<and> topological (ad_depsMap s) \<longrightarrow> cons_inverse (optimizeDepsMap s))"
proof (intro conjI impI)
  show "cons_inverse (buildConsMap s)" if "ad_consumerMap s = []" using buildConsMap_inverse assms that by blast
next
  assume c: "cons_inverse s \<and> from_op < length (ad_depsMap s) \<and> to_op < length (ad_depsMap s)"
  then have "ad_consumerMap s \<noteq> []" "from_op < length (ad_consumerMap s)" by (auto simp: cons_inverse_def)
  then show "\<exists>t. addDependency from_op to_op s = Inr t \<and> cons_inverse t \<and> from_op \<in> ad_depsMap t ! to_op"
    using c by (simp add: addDependency_def cons_inverse_def insert_at_nth Let_def conj_commute)
next
  assume c: "cons_inverse s \<and> topological (ad_depsMap s)"
  show "cons_inverse (optimizeDepsMap s)"
  proof (cases "ad_consumerMap s = []")
    case True
    then have "length (ad_depsMap s) = 0" using c unfolding cons_inverse_def by (metis list.size(3))
    then show ?thesis by (simp add: cons_inverse_def optimizeDepsMap_def Let_def True)
  next
    case False
    have "deps_in (reduce_map (ad_depsMap s)) (length (reduce_map (ad_depsMap s)))"
      using assms c reduced_row by (fastforce simp: deps_in_def)
    then show ?thesis using False buildConsMap_inverse(1) [of "s\<lparr>ad_depsMap := reduce_map (ad_depsMap s), ad_consumerMap := []\<rparr>"]
      by (simp add: optimizeDepsMap_def Let_def)
  qed
qed

theorem consumer_map_is_inverse_witness:
  "cons_inverse (buildConsMap example_deps)"
proof -
  have "deps_in (ad_depsMap example_deps) (length (ad_depsMap example_deps))"
    by (auto simp: deps_in_def example_deps_def less_Suc_eq)
  from consumer_map_is_inverse [OF this, of 0 0] show ?thesis by (simp add: example_deps_def)
qed

text \<open>
  The operands of a new operation are all produced by other operations that have an index below \<^verbatim>\<open>n\<close>.  A state
  before an insertion: the vectors have one length, rows beyond the operations are empty, and every index fits 32 bits.
\<close>

definition operands_known :: "('op \<Rightarrow> 'op option list) \<Rightarrow> 'op \<Rightarrow> nat \<Rightarrow> 'op async_deps \<Rightarrow> bool" where
  "operands_known operands op n s \<longleftrightarrow> (\<forall>arg \<in> set (operands op). \<exists>p i. arg = Some p \<and> p \<noteq> op \<and> ad_index s p = Some i \<and> i < n)"

definition insertable :: "'op async_deps \<Rightarrow> bool" where
  "insertable s \<longleftrightarrow> length (ad_depsMap s) = length (ad_allExecOps s) \<and> ad_execOpCount s \<le> length (ad_allExecOps s) \<and>
     ad_execOpCount s < 2 ^ 32 \<and> (\<forall>c<length (ad_depsMap s). ad_execOpCount s \<le> c \<longrightarrow> ad_depsMap s ! c = {}) \<and>
     (\<forall>d<length (ad_consumerMap s). ad_consumerMap s ! d \<subseteq> {..<ad_execOpCount s})"

definition producers_of :: "('op \<Rightarrow> 'op option list) \<Rightarrow> 'op \<Rightarrow> 'op async_deps \<Rightarrow> nat set" where
  "producers_of operands op s = {i. \<exists>p. Some p \<in> set (operands op) \<and> ad_index s p = Some i}"

lemma add_operands:
  assumes "\<forall>arg \<in> set args. \<exists>p i. arg = Some p \<and> ad_index s p = Some i \<and> i < 2 ^ 32" "k < length (ad_depsMap s)"
  shows "res_fold (\<lambda>arg s. case arg of
         None \<Rightarrow> Inl (Vpux_Throw ''async.execute has operand produced by unsupported Operation'')
       | Some argExecOp \<Rightarrow> res_bind (getIndex s argExecOp) (\<lambda>argExecInd.
           Inr (s\<lparr>ad_depsMap := insert_at k argExecInd (ad_depsMap s)\<rparr>))) args s =
    Inr (s\<lparr>ad_depsMap := (ad_depsMap s)[k := ad_depsMap s ! k \<union> {i. \<exists>p. Some p \<in> set args \<and> ad_index s p = Some i}]\<rparr>)"
  using assms
proof (induction args arbitrary: s)
  case (Cons arg args)
  obtain p i where arg: "arg = Some p" "ad_index s p = Some i" "i < 2 ^ 32" using Cons.prems(1) by auto
  let ?t = "s\<lparr>ad_depsMap := insert_at k i (ad_depsMap s)\<rparr>"
  have "{j. \<exists>q. Some q \<in> set (arg # args) \<and> ad_index s q = Some j} = insert i {j. \<exists>q. Some q \<in> set args \<and> ad_index s q = Some j}"
    using arg by auto
  then show ?case using Cons.IH [of ?t] Cons.prems arg by (simp add: getIndex_def insert_at_def insert_commute)
qed simp

lemma prepared_maps:
  assumes "cons_inverse s" "insertable s"
  obtains t where "(if ad_execOpCount s = length (ad_allExecOps s) then preAllocateForNewOps 1 s else s) = t"
    "ad_execOpCount t = ad_execOpCount s" "ad_index t = ad_index s" "ad_execOpCount s < length (ad_depsMap t)"
    "ad_depsMap t ! ad_execOpCount s = {}" "ad_consumerMap t \<noteq> []" "length (ad_consumerMap t) = length (ad_depsMap t)"
    "\<forall>d<ad_execOpCount s. ad_consumerMap t ! d = ad_consumerMap s ! d"
    "\<forall>d<length (ad_consumerMap t). ad_execOpCount s \<notin> ad_consumerMap t ! d"
proof -
  let ?n = "ad_execOpCount s"
  have len: "length (ad_consumerMap s) = length (ad_depsMap s)" "length (ad_depsMap s) = length (ad_allExecOps s)" "?n \<le> length (ad_allExecOps s)"
    and cons: "\<forall>d<length (ad_consumerMap s). ad_consumerMap s ! d \<subseteq> {..<?n}"
    and rest: "\<forall>c<length (ad_depsMap s). ?n \<le> c \<longrightarrow> ad_depsMap s ! c = {}"
    using assms by (simp_all add: cons_inverse_def insertable_def)
  show thesis
  proof (cases "?n = length (ad_allExecOps s)")
    case True
    define t where "t = preAllocateForNewOps 1 s"
    have t: "ad_depsMap t = ad_depsMap s @ [{}]" "ad_consumerMap t = ad_consumerMap s @ [{}]" "ad_index t = ad_index s"
      "ad_execOpCount t = ?n"
      using len by (simp_all add: t_def preAllocateForNewOps_def Let_def)
    show thesis
    proof (rule that [of t])
      show "(if ?n = length (ad_allExecOps s) then preAllocateForNewOps 1 s else s) = t" using True by (simp add: t_def)
      show "\<forall>d<length (ad_consumerMap t). ?n \<notin> ad_consumerMap t ! d" unfolding t using cons by (auto simp: nth_append)
    qed (use True len in \<open>simp_all add: t nth_append\<close>)
  next
    case False
    then have "?n < length (ad_depsMap s)" using len by simp
    moreover have "\<forall>d<length (ad_consumerMap s). ?n \<notin> ad_consumerMap s ! d" using cons by auto
    ultimately show thesis using False len rest by (intro that [of s]) auto
  qed
qed

text \<open>
  C29. Inserting a new operation enters its producers in the dependency map, exactly those of its operands, but leaves the
  consumers of every earlier operation as they were before, so none of its producers names it as a consumer; if it has an
  operand at all, a consumer map that was the inverse of the dependency map no longer is.
\<close>

theorem insert_forgets_consumers:
  assumes "cons_inverse s" "insertable s" "operands_known operands op (ad_execOpCount s) s"
  shows "\<exists>t. insertNewExecOpToDepsMap operands op s = Inr (ad_execOpCount s, t) \<and>
     getOpDeps t (ad_execOpCount s) = Inr (getDepsVec (producers_of operands op s)) \<and>
     (\<forall>d<ad_execOpCount s. getConsumerOps t d = Inr (getDepsVec (ad_consumerMap s ! d)) \<and> ad_execOpCount s \<notin> ad_consumerMap t ! d) \<and>
     (operands op \<noteq> [] \<longrightarrow> \<not> cons_inverse t)"
proof -
  let ?n = "ad_execOpCount s"
  obtain t0 where t0: "(if ?n = length (ad_allExecOps s) then preAllocateForNewOps 1 s else s) = t0"
    "ad_execOpCount t0 = ?n" "ad_index t0 = ad_index s" "?n < length (ad_depsMap t0)" "ad_depsMap t0 ! ?n = {}" "ad_consumerMap t0 \<noteq> []"
    "length (ad_consumerMap t0) = length (ad_depsMap t0)" "\<forall>d<?n. ad_consumerMap t0 ! d = ad_consumerMap s ! d"
    "\<forall>d<length (ad_consumerMap t0). ?n \<notin> ad_consumerMap t0 ! d"
    using prepared_maps [OF assms(1,2)] by blast
  have count: "\<not> ?n > length (ad_allExecOps s)" "?n < 2 ^ 32" using assms(2) by (simp_all add: insertable_def)
  define t1 where "t1 = setIndex op ?n (t0\<lparr>ad_allExecOps := (ad_allExecOps t0)[?n := Some op]\<rparr>)"
  have t1: "ad_depsMap t1 = ad_depsMap t0" "ad_consumerMap t1 = ad_consumerMap t0" "ad_execOpCount t1 = ?n" "ad_index t1 = (ad_index s)(op \<mapsto> ?n)"
    using t0(2,3) by (simp_all add: t1_def setIndex_def)
  have known: "\<exists>p i. arg = Some p \<and> p \<noteq> op \<and> ad_index s p = Some i \<and> i < ?n" if "arg \<in> set (operands op)" for arg
    using assms(3) that by (simp add: operands_known_def)
  have args: "\<forall>arg \<in> set (operands op). \<exists>p i. arg = Some p \<and> ad_index t1 p = Some i \<and> i < 2 ^ 32"
    using known count(2) unfolding t1(4) by (fastforce dest!: known)
  have same: "{i. \<exists>p. Some p \<in> set (operands op) \<and> ad_index t1 p = Some i} = producers_of operands op s"
    using known unfolding producers_of_def t1(4) by fastforce
  define t where "t = t1\<lparr>ad_depsMap := (ad_depsMap t1)[?n := producers_of operands op s], ad_execOpCount := Suc ?n\<rparr>"
  have "getIndex t1 op = Inr ?n" using count(2) by (simp add: getIndex_def t1(4))
  then have "addExecOp operands op t1 = Inr (t1\<lparr>ad_depsMap := (ad_depsMap t1)[?n := producers_of operands op s]\<rparr>)"
    using add_operands [OF args, of ?n] t0(4,5) by (simp add: addExecOp_def t1(1) same)
  then have run: "insertNewExecOpToDepsMap operands op s = Inr (?n, t)"
    using count(1) t1(3) unfolding insertNewExecOpToDepsMap_def t0(1) by (simp add: Let_def t0(2) t1_def [symmetric] t_def)
  have deps: "getOpDeps t ?n = Inr (getDepsVec (producers_of operands op s))" using t0(4) by (simp add: getOpDeps_def t_def t1(1))
  have cm: "ad_consumerMap t = ad_consumerMap t0" "length (ad_depsMap t) = length (ad_depsMap t0)" "ad_execOpCount t = Suc ?n"
    "ad_depsMap t ! ?n = producers_of operands op s"
    using t0(4) by (simp_all add: t_def t1)
  have cons: "getConsumerOps t d = Inr (getDepsVec (ad_consumerMap s ! d)) \<and> ?n \<notin> ad_consumerMap t ! d" if "d < ?n" for d
  proof
    show "getConsumerOps t d = Inr (getDepsVec (ad_consumerMap s ! d))" using t0(6,8) that by (simp add: getConsumerOps_def cm)
    show "?n \<notin> ad_consumerMap t ! d" using t0(4,7,9) that by (simp add: cm(1))
  qed
  have "\<not> cons_inverse t" if ne: "operands op \<noteq> []"
  proof
    assume inv: "cons_inverse t"
    obtain p i where i: "Some p \<in> set (operands op)" "ad_index s p = Some i" "i < ?n"
      using known [of "hd (operands op)"] ne by (metis list.set_sel(1))
    then have "i \<in> ad_depsMap t ! ?n" unfolding cm(4) producers_of_def by blast
    then have "?n \<in> ad_consumerMap t ! i" using inv i(3) t0(4) by (auto simp: cons_inverse_def cm)
    then show False using cons [OF i(3)] by blast
  qed
  then show ?thesis using run deps cons by blast
qed

text \<open>A second operation that depends on the first.\<close>

theorem insert_forgets_consumers_witness:
  "\<exists>s t. cons_inverse s \<and> insertNewExecOpToDepsMap (\<lambda>op. [Some (0::nat)]) (1::nat) s = Inr (1, t) \<and>
     getOpDeps t 1 = Inr [0] \<and> getConsumerOps t 0 = Inr [] \<and> \<not> cons_inverse t"
proof -
  let ?s = "\<lparr>ad_index = [0 \<mapsto> 0], ad_allExecOps = [Some (0::nat)], ad_depsMap = [{}], ad_consumerMap = [{}],
    ad_execOpCount = 1\<rparr>"
  have s: "cons_inverse ?s" "insertable ?s" "operands_known (\<lambda>op. [Some 0]) 1 (ad_execOpCount ?s) ?s"
    by (simp_all add: cons_inverse_def insertable_def operands_known_def)
  have "producers_of (\<lambda>op. [Some 0]) 1 ?s = {0}" by (auto simp: producers_of_def)
  with insert_forgets_consumers [OF s] show ?thesis using s(1) by - (rule exI [of _ ?s], auto simp: getDepsVec_def)
qed

end
