(* ===== verification/Loop_Allocator.thy ===== *)
theory Loop_Allocator
  imports Numeric
begin

text \<open>
  \<^verbatim>\<open>src/core/loop_allocator.cpp\<close> and the data of
  \<^verbatim>\<open>schedule_builder_utils.hpp\<close>: the layout of the buffers of a tiling loop.  Buffers every
  iteration uses are reserved at the top of the memory, the others get two sets of addresses from the
  bottom, one for the even and one for the odd iterations.  Buffers are values of the IR, in their program
  order; their total size and alignment are parameters.
\<close>

section \<open>Scheduling loops and compute regions\<close>

datatype allocation_type = COMPUTE | DATA_IN | DATA_OUT

record 'v op_allocation_info =
  oa_opIdx :: nat
  oa_queueType :: nat
  oa_inBuffers :: "'v list"
  oa_outBuffers :: "'v list"
  oa_allocationType :: allocation_type
  oa_executorDemand :: nat

datatype loop_type = NoLoop | TilingLoop | VFLoop

record 'v scheduling_loop =
  sl_type :: loop_type
  sl_loopBodies :: "'v op_allocation_info list list"

record 'v compute_region =
  cr_schedulingLoop :: "'v scheduling_loop option"
  cr_dependencies :: "nat list"
  cr_consumers :: "nat list"
  cr_size :: nat
  cr_bufferAddressVec :: "nat list \<times> nat list"
  cr_sharedExternalBuffers :: "'v set"
  cr_baseAlignment :: nat
  cr_prefetchOpCount :: nat

definition getLoopType :: "'v compute_region \<Rightarrow> loop_type res" where
  "getLoopType r = (case cr_schedulingLoop r of
     None \<Rightarrow> Inl (Vpux_Throw ''ComputeRegion has no scheduling loop'') | Some l \<Rightarrow> Inr (sl_type l))"

definition getLoopBodyAtIndex :: "nat \<Rightarrow> 'v compute_region \<Rightarrow> 'v op_allocation_info list res" where
  "getLoopBodyAtIndex i r = (case cr_schedulingLoop r of
     None \<Rightarrow> Inl (Vpux_Throw ''ComputeRegion has no scheduling loop'')
   | Some l \<Rightarrow> if \<not> i < length (sl_loopBodies l) then Inl (Vpux_Throw ''Index out of range for loop bodies size'')
               else Inr (sl_loopBodies l ! i))"

definition getTotalIterations :: "'v scheduling_loop \<Rightarrow> nat" where
  "getTotalIterations l = length (sl_loopBodies l)"

section \<open>The state of the allocator\<close>

record 'v buffer_info =
  bi_totalSize :: "'v \<Rightarrow> nat"
  bi_alignment :: "'v \<Rightarrow> nat"

record 'v loop_profile =
  lp_sharedBuffers :: "'v set"
  lp_sharedRegionSize :: nat
  lp_largestLoopIdx :: nat

record 'v ping_pong =
  pp_addressMap :: "'v \<rightharpoonup> nat"
  pp_addressSequence :: "nat list"
  pp_nextFreeOffset :: nat
  pp_reachedMemoryLimit :: bool
  pp_baseAlignment :: nat
  pp_reserveLocalRegionSize :: nat
  pp_prefetchBufferCount :: nat

record 'v loop_allocator =
  la_memorySize :: nat
  la_externalDepsLookUp :: "nat \<rightharpoonup> 'v op_allocation_info"
  la_profile :: "'v loop_profile"

definition new_profile :: "'v loop_profile" where
  "new_profile = \<lparr>lp_sharedBuffers = {}, lp_sharedRegionSize = 0, lp_largestLoopIdx = 0\<rparr>"

definition new_ping_pong :: "'v ping_pong" where
  "new_ping_pong = \<lparr>pp_addressMap = Map.empty, pp_addressSequence = [], pp_nextFreeOffset = 0,
     pp_reachedMemoryLimit = False, pp_baseAlignment = 64, pp_reserveLocalRegionSize = 0, pp_prefetchBufferCount = 0\<rparr>"

definition new_loop_allocator :: "nat \<Rightarrow> 'v loop_allocator" where
  "new_loop_allocator memorySize =
     \<lparr>la_memorySize = memorySize, la_externalDepsLookUp = Map.empty, la_profile = new_profile\<rparr>"

definition getAlignedBufferSize :: "'v buffer_info \<Rightarrow> 'v \<Rightarrow> nat res" where
  "getAlignedBufferSize bi buf = alignValUp (bi_totalSize bi buf) (bi_alignment bi buf)"

definition getRawBufferSize :: "'v buffer_info \<Rightarrow> 'v \<Rightarrow> nat" where
  "getRawBufferSize bi buf = bi_totalSize bi buf"

definition getBufferAlignment :: "'v buffer_info \<Rightarrow> 'v \<Rightarrow> nat" where
  "getBufferAlignment bi buf = bi_alignment bi buf"

section \<open>Analysis of the buffers\<close>

text \<open>
  The buffers of the compute operations of a loop body, each once, in the order in which the loops
  over input and output buffers first reach them.
\<close>

definition handle_buffer :: "'v \<Rightarrow> 'v list \<Rightarrow> 'v list" where
  "handle_buffer buf handled = (if buf \<in> set handled then handled else handled @ [buf])"

definition handled_buffers :: "'v op_allocation_info list \<Rightarrow> 'v list" where
  "handled_buffers body = fold (\<lambda>a handled.
     if oa_allocationType a \<noteq> COMPUTE then handled
     else fold handle_buffer (oa_outBuffers a) (fold handle_buffer (oa_inBuffers a) handled)) body []"

definition loop_size :: "'v buffer_info \<Rightarrow> 'v op_allocation_info list \<Rightarrow> nat res" where
  "loop_size bi body = res_fold (\<lambda>buf sz.
     res_bind (getAlignedBufferSize bi buf) (\<lambda>a. Inr (u64_add sz a))) (handled_buffers body) 0"

definition count_uses :: "'v op_allocation_info list \<Rightarrow> ('v \<Rightarrow> nat) \<Rightarrow> ('v \<Rightarrow> nat)" where
  "count_uses body count = fold (\<lambda>buf count. count(buf := Suc (count buf))) (handled_buffers body) count"

text \<open>The largest loop size so far and its index, over the bodies from index \<^verbatim>\<open>i\<close> on.\<close>

fun largest_loop :: "'v buffer_info \<Rightarrow> nat \<Rightarrow> 'v op_allocation_info list list \<Rightarrow> nat \<times> nat \<Rightarrow> (nat \<times> nat) res" where
  "largest_loop bi i [] (largest, idx) = Inr (largest, idx)"
| "largest_loop bi i (body # bodies) (largest, idx) =
     res_bind (loop_size bi body) (\<lambda>sz.
       largest_loop bi (Suc i) bodies (if largest < sz then (sz, i) else (largest, idx)))"

definition max_buffer_sizes :: "'v buffer_info \<Rightarrow> 'v op_allocation_info list \<Rightarrow> nat list res" where
  "max_buffer_sizes bi body = map_sum id rev (res_fold (\<lambda>buf acc.
     res_bind (getAlignedBufferSize bi buf) (\<lambda>a. Inr (a # acc))) (handled_buffers body) [])"

definition check_body :: "'v buffer_info \<Rightarrow> nat list \<Rightarrow> 'v op_allocation_info list \<Rightarrow> nat res" where
  "check_body bi maxBufferSizes body = res_fold (\<lambda>buf loopBufferIdx.
     res_bind (getAlignedBufferSize bi buf) (\<lambda>bufSize.
       if loopBufferIdx \<ge> length maxBufferSizes \<or> maxBufferSizes ! loopBufferIdx < bufSize
       then Inl (Vpux_Throw ''Inconsistent buffer count OR sizes in loop tiling region'')
       else Inr (Suc loopBufferIdx))) (handled_buffers body) 0"

text \<open>The uses of every buffer; the map has an entry for each buffer that some body handles.\<close>

definition check_counts ::
  "nat \<Rightarrow> ('v \<Rightarrow> nat) \<Rightarrow> 'v list \<Rightarrow> 'v set \<Rightarrow> 'v set res" where
  "check_counts n count bufs shared = res_fold (\<lambda>buf shared.
     if count buf \<noteq> 1 \<and> count buf \<noteq> n then Inl (Vpux_Throw ''Buffer has invalid use count'')
     else if count buf = n then Inr (insert buf shared) else Inr shared) bufs shared"

definition analyzeLoopBuffers :: "'v buffer_info \<Rightarrow> 'v scheduling_loop \<Rightarrow> 'v loop_profile res" where
  "analyzeLoopBuffers bi loop =
     (let bodies = sl_loopBodies loop;
          counts = fold count_uses bodies (\<lambda>_. 0) in
      res_bind (largest_loop bi 0 bodies (0, 0)) (\<lambda>(_, largestLoopIdx).
      if \<not> largestLoopIdx < length bodies then Inl Assertion_Failure
      else res_bind (max_buffer_sizes bi (bodies ! largestLoopIdx)) (\<lambda>maxBufferSizes.
      res_bind (res_fold (\<lambda>idx _.
          if idx = largestLoopIdx then Inr () else map_sum id (\<lambda>_. ()) (check_body bi maxBufferSizes (bodies ! idx)))
          [0..<length bodies] ()) (\<lambda>_.
      res_bind (check_counts (length bodies) counts (remdups (concat (map handled_buffers bodies))) {}) (\<lambda>shared.
      Inr (new_profile\<lparr>lp_largestLoopIdx := largestLoopIdx, lp_sharedBuffers := shared\<rparr>))))))"

section \<open>Reservation of the shared buffers\<close>

definition reserve_offset :: "('v::linorder) buffer_info \<Rightarrow> nat \<Rightarrow> 'v list \<Rightarrow> nat res" where
  "reserve_offset bi memorySize bufs = res_fold (\<lambda>buf off.
     alignValDown (u64_sub off (getRawBufferSize bi buf)) (getBufferAlignment bi buf)) bufs memorySize"

definition reserveSharedBuffers :: "('v::linorder) buffer_info \<Rightarrow> 'v loop_allocator \<Rightarrow> 'v loop_allocator res" where
  "reserveSharedBuffers bi la =
     res_bind (reserve_offset bi (la_memorySize la) (sorted_list_of_set (lp_sharedBuffers (la_profile la)))) (\<lambda>off.
       let regionSize = u64_sub (la_memorySize la) off;
           la = la\<lparr>la_profile := (la_profile la)\<lparr>lp_sharedRegionSize := regionSize\<rparr>\<rparr> in
       if regionSize > la_memorySize la
       then Inl (Vpux_Throw ''Not enough memory for shared buffers in loop tiling region'') else Inr la)"

section \<open>Ping-pong buffers\<close>

definition tryAllocateBuffer ::
  "'v buffer_info \<Rightarrow> 'v loop_allocator \<Rightarrow> bool \<Rightarrow> 'v \<Rightarrow> 'v ping_pong \<Rightarrow> (bool \<times> 'v ping_pong) res" where
  "tryAllocateBuffer bi la isAllocateFirstOp buf s =
     (if buf \<in> lp_sharedBuffers (la_profile la) then Inr (True, s)
      else if pp_addressMap s buf \<noteq> None then Inr (True, s)
      else if pp_reachedMemoryLimit s then Inr (False, s)
      else let s = (if pp_addressMap s = Map.empty then s\<lparr>pp_baseAlignment := getBufferAlignment bi buf\<rparr> else s) in
        res_bind (alignValUp (pp_nextFreeOffset s) (getBufferAlignment bi buf)) (\<lambda>alignedOffset.
          let nextOffset = u64_add alignedOffset (getRawBufferSize bi buf) in
          if u64_add (lp_sharedRegionSize (la_profile la)) nextOffset > la_memorySize la then
            if isAllocateFirstOp then Inl (Vpux_Throw ''OOM on first op of 1st ping-pong buffer set, cannot proceed'')
            else Inr (False, s\<lparr>pp_reachedMemoryLimit := True\<rparr>)
          else
            let sequence = pp_addressSequence s @ [alignedOffset] in
            Inr (True, s\<lparr>pp_addressMap := (pp_addressMap s)(buf \<mapsto> alignedOffset), pp_addressSequence := sequence,
              pp_nextFreeOffset := nextOffset, pp_prefetchBufferCount := length sequence,
              pp_reserveLocalRegionSize := nextOffset\<rparr>)))"

fun allocate_buffers ::
  "'v buffer_info \<Rightarrow> 'v loop_allocator \<Rightarrow> bool \<Rightarrow> 'v list \<Rightarrow> 'v ping_pong \<Rightarrow> 'v ping_pong res" where
  "allocate_buffers bi la first [] s = Inr s"
| "allocate_buffers bi la first (buf # bufs) s =
     res_bind (tryAllocateBuffer bi la first buf s) (\<lambda>(ok, s). if ok then allocate_buffers bi la first bufs s else Inr s)"

fun allocate_ops ::
  "'v buffer_info \<Rightarrow> 'v loop_allocator \<Rightarrow> bool \<Rightarrow> 'v op_allocation_info list \<Rightarrow> 'v ping_pong \<Rightarrow> nat \<Rightarrow>
   ('v ping_pong \<times> nat) res" where
  "allocate_ops bi la first [] s prefetchOpCount = Inr (s, prefetchOpCount)"
| "allocate_ops bi la first (a # as) s prefetchOpCount =
     res_bind (allocate_buffers bi la first (oa_inBuffers a) s) (\<lambda>s.
     if pp_reachedMemoryLimit s then Inr (s, prefetchOpCount)
     else res_bind (allocate_buffers bi la first (oa_outBuffers a) s) (\<lambda>s.
       if pp_reachedMemoryLimit s then Inr (s, prefetchOpCount)
       else allocate_ops bi la first as s (Suc prefetchOpCount)))"

definition allocatePingPongBuffer ::
  "'v buffer_info \<Rightarrow> 'v loop_allocator \<Rightarrow> 'v op_allocation_info list \<Rightarrow> nat \<Rightarrow> bool \<Rightarrow> ('v ping_pong \<times> nat) res" where
  "allocatePingPongBuffer bi la body initialOffset isAllocateFirstOp =
     allocate_ops bi la isAllocateFirstOp body
       (new_ping_pong\<lparr>pp_nextFreeOffset := initialOffset, pp_reserveLocalRegionSize := initialOffset\<rparr>) 0"

section \<open>Regions\<close>

definition validateDependencies :: "'v loop_allocator \<Rightarrow> 'v compute_region \<Rightarrow> unit res" where
  "validateDependencies la region = res_fold (\<lambda>dep _.
     case la_externalDepsLookUp la dep of
       None \<Rightarrow> Inr ()
     | Some a \<Rightarrow> if oa_allocationType a \<noteq> DATA_IN then Inr ()
         else res_fold (\<lambda>buf _. if buf \<notin> lp_sharedBuffers (la_profile la)
                then Inl (Vpux_Throw ''Dependency buffer not in shared buffers'') else Inr ()) (oa_outBuffers a) ())
     (cr_dependencies region) ()"

text \<open>The addresses of the second set, from index \<^verbatim>\<open>count\<close> on overwritten and filled up from the first.\<close>

definition complete_addresses :: "nat \<Rightarrow> nat list \<Rightarrow> nat list \<Rightarrow> nat list" where
  "complete_addresses count first second =
     (let copied = fold (\<lambda>i sec. sec[i := first ! i]) [count..<length second] second
      in copied @ map (\<lambda>i. first ! i) [max count (length second)..<length first])"

definition allocateLoopTilingRegion ::
  "('v::linorder) buffer_info \<Rightarrow> 'v loop_allocator \<Rightarrow> 'v compute_region \<Rightarrow> ('v loop_allocator \<times> 'v compute_region) res" where
  "allocateLoopTilingRegion bi la region =
     (case cr_schedulingLoop region of None \<Rightarrow> Inl Assertion_Failure | Some loop \<Rightarrow>
      if sl_loopBodies loop = [] then Inl Assertion_Failure
      else if length (filter (\<lambda>a. oa_allocationType a = COMPUTE) (hd (sl_loopBodies loop))) \<noteq> 1
      then Inl (Vpux_Throw ''No support for multiple compute ops in loop tiling region -> should be VF'')
      else res_bind (analyzeLoopBuffers bi loop) (\<lambda>profile.
        let la = la\<lparr>la_profile := profile\<rparr> in
        res_bind (validateDependencies la region) (\<lambda>_.
        res_bind (reserveSharedBuffers bi la) (\<lambda>la.
        let body = sl_loopBodies loop ! lp_largestLoopIdx (la_profile la) in
        res_bind (allocatePingPongBuffer bi la body 0 True) (\<lambda>(firstSet, _).
        res_bind (allocatePingPongBuffer bi la body (pp_nextFreeOffset firstSet) False) (\<lambda>(secondSet, prefetchOpCount).
        let second = complete_addresses (pp_prefetchBufferCount secondSet) (pp_addressSequence firstSet)
              (pp_addressSequence secondSet) in
        if length (pp_addressSequence firstSet) \<noteq> length second
        then Inl (Vpux_Throw ''Inconsistent prefetch address vector size'')
        else Inr (la, region\<lparr>cr_size := pp_reserveLocalRegionSize secondSet,
          cr_bufferAddressVec := (pp_addressSequence firstSet, second),
          cr_sharedExternalBuffers := lp_sharedBuffers (la_profile la),
          cr_baseAlignment := pp_baseAlignment firstSet, cr_prefetchOpCount := prefetchOpCount\<rparr>)))))))"

definition buildExternalDepsLookUp :: "'v compute_region list \<Rightarrow> 'v loop_allocator \<Rightarrow> 'v loop_allocator" where
  "buildExternalDepsLookUp regions la = fold (\<lambda>r la.
     case cr_schedulingLoop r of
       None \<Rightarrow> la
     | Some loop \<Rightarrow> if sl_type loop \<noteq> NoLoop then la
         else fold (\<lambda>body la. fold (\<lambda>a la. la\<lparr>la_externalDepsLookUp := (la_externalDepsLookUp la)(oa_opIdx a \<mapsto> a)\<rparr>) body la)
                (sl_loopBodies loop) la) regions la"

fun allocate_regions ::
  "('v::linorder) buffer_info \<Rightarrow> 'v compute_region list \<Rightarrow> 'v loop_allocator \<Rightarrow> ('v loop_allocator \<times> 'v compute_region list) res" where
  "allocate_regions bi [] la = Inr (la, [])"
| "allocate_regions bi (r # rs) la =
     res_bind (case cr_schedulingLoop r of
         None \<Rightarrow> Inr (la, r)
       | Some loop \<Rightarrow> if sl_type loop \<noteq> TilingLoop then Inr (la, r) else allocateLoopTilingRegion bi la r) (\<lambda>(la, r).
     res_bind (allocate_regions bi rs la) (\<lambda>(la, rs). Inr (la, r # rs)))"

definition allocateLoopTilingRegions ::
  "('v::linorder) buffer_info \<Rightarrow> 'v compute_region list \<Rightarrow> 'v loop_allocator \<Rightarrow> ('v loop_allocator \<times> 'v compute_region list) res" where
  "allocateLoopTilingRegions bi regions la = allocate_regions bi regions (buildExternalDepsLookUp regions la)"


section \<open>Layouts\<close>

text \<open>
  Buffers stacked one after the other between two offsets, each at a multiple of its alignment.
\<close>

fun stacked :: "'v buffer_info \<Rightarrow> nat \<Rightarrow> 'v list \<Rightarrow> nat list \<Rightarrow> nat \<Rightarrow> bool" where
  "stacked bi lo [] [] hi \<longleftrightarrow> lo \<le> hi"
| "stacked bi lo (b # bs) (a # as) hi \<longleftrightarrow>
     lo \<le> a \<and> bi_alignment bi b dvd a \<and> stacked bi (a + bi_totalSize bi b) bs as hi"
| "stacked bi lo _ _ hi \<longleftrightarrow> False"

lemma stacked_length: "stacked bi lo bs as hi \<Longrightarrow> length as = length bs"
  by (induction bi lo bs as hi rule: stacked.induct) auto

lemma stacked_le: "stacked bi lo bs as hi \<Longrightarrow> lo \<le> hi"
  by (induction bi lo bs as hi rule: stacked.induct) auto

lemma stacked_append:
  "stacked bi lo bs as mid \<Longrightarrow> mid \<le> a \<Longrightarrow> bi_alignment bi b dvd a \<Longrightarrow> a + bi_totalSize bi b \<le> hi \<Longrightarrow>
    stacked bi lo (bs @ [b]) (as @ [a]) hi"
  by (induction bi lo bs as mid rule: stacked.induct) auto

lemma stacked_cons_down:
  "stacked bi mid bs as hi \<Longrightarrow> bi_alignment bi b dvd a \<Longrightarrow> a + bi_totalSize bi b \<le> mid \<Longrightarrow>
    stacked bi a (b # bs) (a # as) hi"
  by (cases as; cases bs) auto

text \<open>The bounds that exclude an overflow of the address type.\<close>

definition sane_sizes :: "'v buffer_info \<Rightarrow> nat \<Rightarrow> bool" where
  "sane_sizes bi memorySize \<longleftrightarrow> memorySize < 2 ^ 62 \<and>
     (\<forall>b. bi_totalSize bi b < 2 ^ 62 \<and> 0 < bi_alignment bi b \<and> bi_alignment bi b < 2 ^ 62)"

lemma sane_sum:
  "sane_sizes bi m \<Longrightarrow> x \<le> m \<Longrightarrow> x + bi_alignment bi b < U64 \<and> x + bi_alignment bi b + bi_totalSize bi b + m < U64"
proof -
  assume a: "sane_sizes bi m" and x: "x \<le> m"
  have "m < 2 ^ 62" "bi_totalSize bi b < 2 ^ 62" "bi_alignment bi b < 2 ^ 62" using a by (auto simp: sane_sizes_def)
  then have "x + bi_alignment bi b + bi_totalSize bi b + m < 4 * 2 ^ 62" using x by linarith
  moreover have "U64 = 4 * 2 ^ 62" by (simp add: U64_def)
  ultimately show ?thesis by linarith
qed

section \<open>The order of the local buffers\<close>

definition visit_local :: "'v set \<Rightarrow> 'v \<Rightarrow> 'v list \<Rightarrow> 'v list" where
  "visit_local shared b bs = (if b \<in> shared \<or> b \<in> set bs then bs else bs @ [b])"

definition body_buffers :: "'v op_allocation_info list \<Rightarrow> 'v list" where
  "body_buffers body = concat (map (\<lambda>a. oa_inBuffers a @ oa_outBuffers a) body)"

definition local_buffers :: "'v set \<Rightarrow> 'v op_allocation_info list \<Rightarrow> 'v list" where
  "local_buffers shared body = fold (visit_local shared) (body_buffers body) []"

lemma visit_append: "visit_local shared b bs = bs @ (if b \<in> shared \<or> b \<in> set bs then [] else [b])"
  by (simp add: visit_local_def)

lemma visit_extends: "\<exists>ys. fold (visit_local shared) bufs bs = bs @ ys"
proof (induction bufs arbitrary: bs)
  case (Cons b bufs)
  obtain ys where "fold (visit_local shared) bufs (visit_local shared b bs) = visit_local shared b bs @ ys"
    using Cons.IH by blast
  then have "fold (visit_local shared) (b # bufs) bs = bs @ ((if b \<in> shared \<or> b \<in> set bs then [] else [b]) @ ys)"
    by (simp add: visit_append)
  then show ?case by blast
qed simp

lemma visit_covers: "set bufs - shared \<subseteq> set (fold (visit_local shared) bufs bs)"
proof (induction bufs arbitrary: bs)
  case (Cons b bufs)
  obtain ys where ys: "fold (visit_local shared) bufs (visit_local shared b bs) = visit_local shared b bs @ ys"
    using visit_extends by blast
  have "b \<in> shared \<or> b \<in> set (visit_local shared b bs)" by (simp add: visit_local_def)
  then have "b \<in> shared \<or> b \<in> set (fold (visit_local shared) bufs (visit_local shared b bs))" unfolding ys by auto
  then show ?case using Cons.IH [of "visit_local shared b bs"] by auto
qed simp

section \<open>Allocation of one set\<close>

definition pp_inv :: "'v buffer_info \<Rightarrow> 'v loop_allocator \<Rightarrow> nat \<Rightarrow> 'v list \<Rightarrow> 'v ping_pong \<Rightarrow> bool" where
  "pp_inv bi la init bs s \<longleftrightarrow> dom (pp_addressMap s) = set bs \<and>
     stacked bi init bs (pp_addressSequence s) (pp_nextFreeOffset s) \<and>
     lp_sharedRegionSize (la_profile la) + pp_nextFreeOffset s \<le> la_memorySize la \<and>
     pp_prefetchBufferCount s = length (pp_addressSequence s) \<and> pp_reserveLocalRegionSize s = pp_nextFreeOffset s"

lemma tryAllocate_spec:
  assumes "sane_sizes bi (la_memorySize la)" "pp_inv bi la init bs s" "\<not> pp_reachedMemoryLimit s"
    "tryAllocateBuffer bi la first b s = Inr (ok, s')"
  shows "if ok then pp_inv bi la init (visit_local (lp_sharedBuffers (la_profile la)) b bs) s' \<and> \<not> pp_reachedMemoryLimit s'
    else \<not> first \<and> pp_inv bi la init bs s' \<and> pp_reachedMemoryLimit s'"
proof -
  let ?sh = "lp_sharedBuffers (la_profile la)" and ?rs = "lp_sharedRegionSize (la_profile la)"
  note d = assms(2) [unfolded pp_inv_def]
  show ?thesis
  proof (cases "b \<in> ?sh \<or> b \<in> set bs")
    case True
    then have "tryAllocateBuffer bi la first b s = Inr (True, s)" using d by (auto simp: tryAllocateBuffer_def)
    then show ?thesis using assms True by (simp add: visit_local_def)
  next
    case False
    then have new: "b \<notin> ?sh" "pp_addressMap s b = None" using d by auto
    let ?a = "align_up (pp_nextFreeOffset s) (bi_alignment bi b)"
    have le: "pp_nextFreeOffset s \<le> la_memorySize la" and rs: "?rs \<le> la_memorySize la" using d by linarith+
    have al: "0 < bi_alignment bi b" using assms(1) by (simp add: sane_sizes_def)
    note sum = sane_sum [OF assms(1) le, of b]
    note bounds = align_up_bounds [OF al conjunct1 [OF sum]]
    have nowrap: "u64_add ?a (bi_totalSize bi b) = ?a + bi_totalSize bi b"
      "u64_add ?rs (?a + bi_totalSize bi b) = ?rs + (?a + bi_totalSize bi b)"
      using sum bounds(3) rs by (intro u64_add_eq; linarith)+
    define t where "t = (if pp_addressMap s = Map.empty then s\<lparr>pp_baseAlignment := getBufferAlignment bi b\<rparr> else s)"
    have t: "pp_nextFreeOffset t = pp_nextFreeOffset s" "pp_addressMap t = pp_addressMap s"
      "pp_addressSequence t = pp_addressSequence s" "pp_reachedMemoryLimit t = pp_reachedMemoryLimit s"
      "pp_prefetchBufferCount t = pp_prefetchBufferCount s" "pp_reserveLocalRegionSize t = pp_reserveLocalRegionSize s"
      by (simp_all add: t_def)
    have run: "tryAllocateBuffer bi la first b s =
        (if ?rs + (?a + bi_totalSize bi b) > la_memorySize la
         then if first then Inl (Vpux_Throw ''OOM on first op of 1st ping-pong buffer set, cannot proceed'')
              else Inr (False, t\<lparr>pp_reachedMemoryLimit := True\<rparr>)
         else Inr (True, t\<lparr>pp_addressMap := (pp_addressMap t)(b \<mapsto> ?a),
           pp_addressSequence := pp_addressSequence t @ [?a], pp_nextFreeOffset := ?a + bi_totalSize bi b,
           pp_prefetchBufferCount := length (pp_addressSequence t @ [?a]),
           pp_reserveLocalRegionSize := ?a + bi_totalSize bi b\<rparr>))"
      unfolding tryAllocateBuffer_def Let_def t_def [symmetric]
      using new assms(3) al by (simp add: t alignValUp_def getBufferAlignment_def getRawBufferSize_def nowrap)
    show ?thesis
    proof (cases "?rs + (?a + bi_totalSize bi b) > la_memorySize la")
      case True
      then show ?thesis using run assms(4) d by (auto simp: pp_inv_def t split: if_splits)
    next
      case room: False
      have "stacked bi init (bs @ [b]) (pp_addressSequence s @ [?a]) (?a + bi_totalSize bi b)"
        using d bounds by (intro stacked_append) auto
      then show ?thesis using room run assms(3,4) d False
        by (auto simp: pp_inv_def t visit_local_def)
    qed
  qed
qed

lemma allocate_buffers_spec:
  assumes "sane_sizes bi (la_memorySize la)"
  shows "pp_inv bi la init bs s \<Longrightarrow> \<not> pp_reachedMemoryLimit s \<Longrightarrow> allocate_buffers bi la first bufs s = Inr s' \<Longrightarrow>
    if pp_reachedMemoryLimit s' then \<not> first \<and> (\<exists>zs ys. pp_inv bi la init (bs @ zs) s' \<and>
        fold (visit_local (lp_sharedBuffers (la_profile la))) bufs bs = bs @ zs @ ys)
    else pp_inv bi la init (fold (visit_local (lp_sharedBuffers (la_profile la))) bufs bs) s'"
proof (induction bufs arbitrary: bs s)
  case (Cons b bufs)
  let ?v = "visit_local (lp_sharedBuffers (la_profile la))"
  obtain ok t where t: "tryAllocateBuffer bi la first b s = Inr (ok, t)"
    "(if ok then allocate_buffers bi la first bufs t else Inr t) = Inr s'"
    using Cons.prems(3) by (auto simp: res_bind_eq_Inr)
  note sp = tryAllocate_spec [OF assms Cons.prems(1,2) t(1)]
  show ?case
  proof (cases ok)
    case True
    define zs where "zs = (if b \<in> lp_sharedBuffers (la_profile la) \<or> b \<in> set bs then [] else [b])"
    have zs: "?v b bs = bs @ zs" unfolding zs_def by (rule visit_append)
    have "pp_inv bi la init (bs @ zs) t" "\<not> pp_reachedMemoryLimit t" "allocate_buffers bi la first bufs t = Inr s'"
      using sp t(2) True zs by simp_all
    note IH = Cons.IH [OF this]
    show ?thesis
    proof (cases "pp_reachedMemoryLimit s'")
      case lim: True
      obtain us ys where "pp_inv bi la init ((bs @ zs) @ us) s'" "fold ?v bufs (bs @ zs) = (bs @ zs) @ us @ ys" "\<not> first"
        using IH lim by auto
      then have "\<not> first \<and> (\<exists>zs ys. pp_inv bi la init (bs @ zs) s' \<and> fold ?v (b # bufs) bs = bs @ zs @ ys)"
        by - (rule conjI, assumption, rule exI [of _ "zs @ us"], rule exI [of _ ys], simp add: zs)
      then show ?thesis using lim by simp
    next
      case False
      then show ?thesis using IH by (simp add: zs)
    qed
  next
    case False
    obtain ys where "fold ?v (b # bufs) bs = bs @ ys" using visit_extends by blast
    then have "\<exists>zs ys. pp_inv bi la init (bs @ zs) s' \<and> fold ?v (b # bufs) bs = bs @ zs @ ys"
      using False sp t(2) by - (rule exI [of _ "[]"], rule exI [of _ ys], simp)
    then show ?thesis using False sp t(2) by simp
  qed
qed simp

text \<open>The operations counted as prefetched have all their local buffers in the set.\<close>

lemma allocate_ops_spec:
  assumes "sane_sizes bi (la_memorySize la)"
  shows "pp_inv bi la init bs s \<Longrightarrow> \<not> pp_reachedMemoryLimit s \<Longrightarrow> allocate_ops bi la first as s n = Inr (s', n') \<Longrightarrow>
    \<exists>m zs ys. n' = n + m \<and> m \<le> length as \<and> pp_inv bi la init (bs @ zs) s' \<and>
      fold (visit_local (lp_sharedBuffers (la_profile la))) (body_buffers as) bs = bs @ zs @ ys \<and>
      set (body_buffers (take m as)) - lp_sharedBuffers (la_profile la) \<subseteq> set (bs @ zs) \<and>
      (pp_reachedMemoryLimit s' \<longrightarrow> \<not> first) \<and> (\<not> pp_reachedMemoryLimit s' \<longrightarrow> ys = [] \<and> m = length as)"
proof (induction as arbitrary: bs s n)
  case Nil
  then show ?case by (auto simp: body_buffers_def intro!: exI [of _ "[]"])
next
  case (Cons a as)
  let ?v = "visit_local (lp_sharedBuffers (la_profile la))"
  obtain t where t: "allocate_buffers bi la first (oa_inBuffers a) s = Inr t"
    "(if pp_reachedMemoryLimit t then Inr (t, n)
      else res_bind (allocate_buffers bi la first (oa_outBuffers a) t) (\<lambda>s.
        if pp_reachedMemoryLimit s then Inr (s, n) else allocate_ops bi la first as s (Suc n))) = Inr (s', n')"
    using Cons.prems(3) by (auto simp: res_bind_eq_Inr)
  note A = allocate_buffers_spec [OF assms Cons.prems(1,2) t(1)]
  have F: "fold ?v (body_buffers (a # as)) bs =
      fold ?v (body_buffers as) (fold ?v (oa_outBuffers a) (fold ?v (oa_inBuffers a) bs))" for bs
    by (simp add: body_buffers_def)
  show ?case
  proof (cases "pp_reachedMemoryLimit t")
    case True
    then have r: "s' = t" "n' = n" using t(2) by auto
    obtain zs ys where zs: "pp_inv bi la init (bs @ zs) t" "fold ?v (oa_inBuffers a) bs = bs @ zs @ ys" "\<not> first"
      using A True by auto
    obtain us where us: "fold ?v (body_buffers as) (fold ?v (oa_outBuffers a) (bs @ zs @ ys)) = (bs @ zs @ ys) @ us"
      using visit_extends by (metis fold_append comp_apply)
    show ?thesis unfolding r
      by (rule exI [of _ 0], rule exI [of _ zs], rule exI [of _ "ys @ us"])
        (use zs us True in \<open>simp add: F body_buffers_def\<close>)
  next
    case False
    obtain z1 where z1: "fold ?v (oa_inBuffers a) bs = bs @ z1" using visit_extends by blast
    have i1: "pp_inv bi la init (bs @ z1) t" using A False z1 by simp
    obtain u where u: "allocate_buffers bi la first (oa_outBuffers a) t = Inr u"
      "(if pp_reachedMemoryLimit u then Inr (u, n) else allocate_ops bi la first as u (Suc n)) = Inr (s', n')"
      using t(2) False by (auto simp: res_bind_eq_Inr)
    note B = allocate_buffers_spec [OF assms i1 False u(1)]
    show ?thesis
    proof (cases "pp_reachedMemoryLimit u")
      case True
      then have r: "s' = u" "n' = n" using u(2) by auto
      obtain zs ys where zs: "pp_inv bi la init ((bs @ z1) @ zs) u"
        "fold ?v (oa_outBuffers a) (bs @ z1) = (bs @ z1) @ zs @ ys" "\<not> first"
        using B True by auto
      obtain us where us: "fold ?v (body_buffers as) ((bs @ z1) @ zs @ ys) = ((bs @ z1) @ zs @ ys) @ us"
        using visit_extends by blast
      show ?thesis unfolding r
        by (rule exI [of _ 0], rule exI [of _ "z1 @ zs"], rule exI [of _ "ys @ us"])
          (use zs us True in \<open>simp add: F z1 body_buffers_def\<close>)
    next
      case nolim: False
      obtain z2 where z2: "fold ?v (oa_outBuffers a) (bs @ z1) = (bs @ z1) @ z2" using visit_extends by blast
      have i2: "pp_inv bi la init (bs @ z1 @ z2) u" using B nolim z2 by simp
      have run: "allocate_ops bi la first as u (Suc n) = Inr (s', n')" using u(2) nolim by simp
      from Cons.IH [OF i2 nolim run] obtain m zs ys where m: "n' = Suc n + m" "m \<le> length as"
        "pp_inv bi la init ((bs @ z1 @ z2) @ zs) s'"
        "fold ?v (body_buffers as) (bs @ z1 @ z2) = (bs @ z1 @ z2) @ zs @ ys"
        "set (body_buffers (take m as)) - lp_sharedBuffers (la_profile la) \<subseteq> set ((bs @ z1 @ z2) @ zs)"
        "pp_reachedMemoryLimit s' \<longrightarrow> \<not> first" "\<not> pp_reachedMemoryLimit s' \<longrightarrow> ys = [] \<and> m = length as" by blast
      have "set (oa_inBuffers a) - lp_sharedBuffers (la_profile la) \<subseteq> set (bs @ z1)"
        by (rule visit_covers [of "oa_inBuffers a" "lp_sharedBuffers (la_profile la)" bs, unfolded z1])
      moreover have "set (oa_outBuffers a) - lp_sharedBuffers (la_profile la) \<subseteq> set ((bs @ z1) @ z2)"
        by (rule visit_covers [of "oa_outBuffers a" "lp_sharedBuffers (la_profile la)" "bs @ z1", unfolded z2])
      ultimately have cov: "set (body_buffers (take (Suc m) (a # as))) - lp_sharedBuffers (la_profile la) \<subseteq>
          set (bs @ z1 @ z2 @ zs)" using m(5) by (auto simp: body_buffers_def)
      show ?thesis
        by (rule exI [of _ "Suc m"], rule exI [of _ "z1 @ z2 @ zs"], rule exI [of _ ys])
          (use m cov in \<open>simp add: F z1 z2\<close>)
    qed
  qed
qed

lemma allocatePingPong_spec:
  assumes "sane_sizes bi (la_memorySize la)"
    "lp_sharedRegionSize (la_profile la) + init \<le> la_memorySize la"
    "allocatePingPongBuffer bi la body init first = Inr (s, n)"
  obtains k where "k \<le> length (local_buffers (lp_sharedBuffers (la_profile la)) body)"
    "pp_inv bi la init (take k (local_buffers (lp_sharedBuffers (la_profile la)) body)) s"
    "set (body_buffers (take n body)) - lp_sharedBuffers (la_profile la) \<subseteq>
       set (take k (local_buffers (lp_sharedBuffers (la_profile la)) body))"
    "first \<Longrightarrow> k = length (local_buffers (lp_sharedBuffers (la_profile la)) body)"
proof -
  let ?s = "new_ping_pong\<lparr>pp_nextFreeOffset := init, pp_reserveLocalRegionSize := init\<rparr>"
  have "pp_inv bi la init [] ?s" "\<not> pp_reachedMemoryLimit ?s"
    using assms(2) by (simp_all add: pp_inv_def new_ping_pong_def)
  from allocate_ops_spec [OF assms(1) this, of first body 0 s n] assms(3)
  obtain zs ys where "pp_inv bi la init zs s" "local_buffers (lp_sharedBuffers (la_profile la)) body = zs @ ys"
    "set (body_buffers (take n body)) - lp_sharedBuffers (la_profile la) \<subseteq> set zs" "first \<Longrightarrow> ys = []"
    by (auto simp: allocatePingPongBuffer_def local_buffers_def)
  then show ?thesis by (intro that [of "length zs"]) auto
qed


lemma complete_addresses_prefetched:
  "complete_addresses (length second) first second = second @ drop (length second) first"
proof -
  have "map (\<lambda>i. first ! i) [length second..<length first] = drop (length second) first"
    by (rule nth_equalityI) simp_all
  then show ?thesis by (simp add: complete_addresses_def)
qed

section \<open>Reservation of the shared buffers\<close>

text \<open>
  Reserving from the top wraps around when the memory is exhausted; an offset that has wrapped
  stays in the upper half of the range, which the final check refuses.
\<close>

abbreviation demand :: "'v buffer_info \<Rightarrow> 'v list \<Rightarrow> nat" where
  "demand bi bufs \<equiv> sum_list (map (\<lambda>b. bi_totalSize bi b + bi_alignment bi b) bufs)"

lemma U64_halves: "U64 = 2 ^ 63 + 2 ^ 63" "U64 = 4 * 2 ^ 62"
  by (simp_all add: U64_def)

lemma align_down_gt: "0 < al \<Longrightarrow> v < U64 \<Longrightarrow> align_down v al < U64 \<and> v < align_down v al + al"
  using align_down_bounds(2,3) [of al v] by linarith

lemma reserve_wrapped:
  assumes "\<forall>b. 0 < bi_alignment bi b"
  shows "reserve_offset bi off bufs = Inr r \<Longrightarrow> off < U64 \<Longrightarrow> U64 \<le> off + c \<Longrightarrow> c + demand bi bufs \<le> 2 ^ 63 \<Longrightarrow>
    r < U64 \<and> U64 \<le> r + 2 ^ 63"
proof (induction bufs arbitrary: off c)
  case Nil
  then show ?case by (simp add: reserve_offset_def)
next
  case (Cons b bufs)
  let ?x = "off - bi_totalSize bi b" and ?al = "bi_alignment bi b"
  have c: "c + (bi_totalSize bi b + ?al) + demand bi bufs \<le> 2 ^ 63" using Cons.prems(4) by simp
  then have le: "bi_totalSize bi b \<le> off" using Cons.prems(3) U64_halves by linarith
  have al: "0 < ?al" using assms by simp
  have "reserve_offset bi (align_down ?x ?al) bufs = Inr r"
    using Cons.prems(1,2) le al
    by (simp add: reserve_offset_def alignValDown_def getRawBufferSize_def getBufferAlignment_def u64_sub_eq)
  moreover have "align_down ?x ?al < U64" "U64 \<le> align_down ?x ?al + (c + (bi_totalSize bi b + ?al))"
    using align_down_gt [OF al, of ?x] Cons.prems(2,3) le by linarith+
  ultimately show ?case using Cons.IH c by blast
qed

lemma reserve_offset_spec:
  assumes "sane_sizes bi m"
  shows "reserve_offset bi off bufs = Inr r \<Longrightarrow> off \<le> m \<Longrightarrow> demand bi bufs \<le> 2 ^ 63 \<Longrightarrow>
    (\<exists>addrs. stacked bi r (rev bufs) addrs off) \<or> (r < U64 \<and> U64 \<le> r + 2 ^ 63)"
proof (induction bufs arbitrary: off)
  case Nil
  then show ?case by (auto simp: reserve_offset_def intro!: exI [of _ "[]"])
next
  case (Cons b bufs)
  let ?sz = "bi_totalSize bi b" and ?al = "bi_alignment bi b"
  have al: "0 < ?al" "\<forall>b. 0 < bi_alignment bi b" and m: "off < U64" "?sz < U64"
    using assms Cons.prems(2) sane_sum [OF assms Cons.prems(2), of b] by (auto simp: sane_sizes_def)
  have d: "(?sz + ?al) + demand bi bufs \<le> 2 ^ 63" using Cons.prems(3) by simp
  define x where "x = u64_sub off ?sz"
  have x: "x < U64" by (simp add: x_def)
  have run: "reserve_offset bi (align_down x ?al) bufs = Inr r"
    using Cons.prems(1) al(1)
    by (simp add: reserve_offset_def alignValDown_def getRawBufferSize_def getBufferAlignment_def x_def)
  show ?case
  proof (cases "?sz \<le> off")
    case True
    have x': "x = off - ?sz" using True m by (simp add: x_def u64_sub_eq)
    note dn = align_down_bounds [OF al(1) x]
    have "align_down x ?al \<le> m" using dn(2) x' Cons.prems(2) by linarith
    from Cons.IH [OF run this] d consider addrs where "stacked bi r (rev bufs) addrs (align_down x ?al)"
      | "r < U64 \<and> U64 \<le> r + 2 ^ 63" by fastforce
    then show ?thesis
    proof cases
      case 1
      have "stacked bi r (rev bufs @ [b]) (addrs @ [align_down x ?al]) off"
        using 1 dn x' True by (intro stacked_append) auto
      then show ?thesis by auto
    qed simp
  next
    case False
    have x': "x = off + U64 - ?sz" using False m by (simp add: x_def u64_sub_wraps)
    have "align_down x ?al < U64" "U64 \<le> align_down x ?al + (?sz + ?al)"
      using align_down_gt [OF al(1) x] x' m by linarith+
    from reserve_wrapped [OF al(2) run this d] show ?thesis by blast
  qed
qed

section \<open>Properties\<close>

text \<open>
  C18. When the reservation of the shared buffers succeeds, the region it keeps at the top of
  the memory has room for all of them at aligned, disjoint addresses; exhausting the memory, where
  the address arithmetic wraps around, is always detected.
\<close>

theorem shared_region_has_room:
  assumes "reserveSharedBuffers bi la = Inr la'" "sane_sizes bi (la_memorySize la)"
    "demand bi (sorted_list_of_set (lp_sharedBuffers (la_profile la))) \<le> 2 ^ 63"
  shows "\<exists>addrs. stacked bi (la_memorySize la - lp_sharedRegionSize (la_profile la'))
      (rev (sorted_list_of_set (lp_sharedBuffers (la_profile la)))) addrs (la_memorySize la) \<and>
    lp_sharedRegionSize (la_profile la') \<le> la_memorySize la"
proof -
  let ?m = "la_memorySize la" and ?bufs = "sorted_list_of_set (lp_sharedBuffers (la_profile la))"
  obtain off where off: "reserve_offset bi ?m ?bufs = Inr off" "u64_sub ?m off \<le> ?m"
    "lp_sharedRegionSize (la_profile la') = u64_sub ?m off"
    using assms(1) by (auto simp: reserveSharedBuffers_def Let_def res_bind_eq_Inr not_less split: if_splits)
  have m: "?m < 2 ^ 62" "?m < U64" using assms(2) U64_halves by (auto simp: sane_sizes_def)
  from reserve_offset_spec [OF assms(2) off(1) order_refl assms(3)] show ?thesis
  proof
    assume "\<exists>addrs. stacked bi off (rev ?bufs) addrs ?m"
    then obtain addrs where st: "stacked bi off (rev ?bufs) addrs ?m" by blast
    then have "u64_sub ?m off = ?m - off" "off \<le> ?m" using m(2) stacked_le u64_sub_eq by blast+
    then show ?thesis using st off(3) by auto
  next
    assume w: "off < U64 \<and> U64 \<le> off + 2 ^ 63"
    then have "?m < off" using m(1) U64_halves by linarith
    then have "u64_sub ?m off = ?m + U64 - off" using w by (simp add: u64_sub_wraps)
    then have "?m < u64_sub ?m off" using w by linarith
    then show ?thesis using off(2) by simp
  qed
qed

definition example_sizes :: "nat buffer_info" where
  "example_sizes = \<lparr>bi_totalSize = (\<lambda>b. 40), bi_alignment = (\<lambda>b. 16)\<rparr>"

definition example_op :: "nat \<Rightarrow> nat list \<Rightarrow> nat list \<Rightarrow> nat op_allocation_info" where
  "example_op i ins outs = \<lparr>oa_opIdx = i, oa_queueType = 0, oa_inBuffers = ins, oa_outBuffers = outs,
     oa_allocationType = COMPUTE, oa_executorDemand = 1\<rparr>"

text \<open>Two iterations that share buffer 5; the memory has room for half of a second set.\<close>

definition example_loop :: "nat scheduling_loop" where
  "example_loop = \<lparr>sl_type = TilingLoop, sl_loopBodies = [[example_op 3 [5, 7] [8]], [example_op 4 [5, 9] [10]]]\<rparr>"

definition example_region :: "nat compute_region" where
  "example_region = \<lparr>cr_schedulingLoop = Some example_loop, cr_dependencies = [], cr_consumers = [], cr_size = 0,
     cr_bufferAddressVec = ([], []), cr_sharedExternalBuffers = {}, cr_baseAlignment = 1, cr_prefetchOpCount = 0\<rparr>"

lemmas example_defs = example_sizes_def example_op_def example_loop_def example_region_def new_loop_allocator_def
  new_profile_def new_ping_pong_def

lemmas loop_run_defs = analyzeLoopBuffers_def handled_buffers_def handle_buffer_def loop_size_def getAlignedBufferSize_def
  alignValUp_def align_up_def u64_add_def u64_mul_def u64_sub_def U64_def max_buffer_sizes_def check_body_def
  check_counts_def count_uses_def validateDependencies_def reserveSharedBuffers_def reserve_offset_def alignValDown_def
  align_down_def getRawBufferSize_def getBufferAlignment_def allocatePingPongBuffer_def tryAllocateBuffer_def
  complete_addresses_def Let_def

lemma example_analysis:
  "analyzeLoopBuffers example_sizes example_loop = Inr (new_profile\<lparr>lp_largestLoopIdx := 0, lp_sharedBuffers := {5}\<rparr>)"
  by (simp add: example_defs loop_run_defs)

lemma example_reservation:
  "reserveSharedBuffers example_sizes (new_loop_allocator 200\<lparr>la_profile := new_profile\<lparr>lp_sharedBuffers := {5}\<rparr>\<rparr>) =
     Inr (new_loop_allocator 200\<lparr>la_profile := new_profile\<lparr>lp_sharedBuffers := {5}, lp_sharedRegionSize := 40\<rparr>\<rparr>)"
  by (simp add: example_defs loop_run_defs)

lemma example_sane: "m < 2 ^ 62 \<Longrightarrow> sane_sizes example_sizes m"
  by (simp add: sane_sizes_def example_sizes_def)

theorem shared_region_has_room_witness:
  "\<exists>addrs. stacked example_sizes 160 [5] addrs 200"
proof -
  let ?la = "new_loop_allocator 200\<lparr>la_profile := new_profile\<lparr>lp_sharedBuffers := {5}\<rparr>\<rparr>"
  have "sane_sizes example_sizes (la_memorySize ?la)" by (simp add: example_sane new_loop_allocator_def)
  moreover have "demand example_sizes (sorted_list_of_set (lp_sharedBuffers (la_profile ?la))) \<le> 2 ^ 63"
    by (simp add: example_sizes_def)
  ultimately show ?thesis using shared_region_has_room [OF example_reservation]
    by (simp add: new_loop_allocator_def)
qed

text \<open>
  The second set is completed after, and never overwritten before, the addresses it allocated
  itself: the first copying loop is never entered, since the count of prefetched buffers is always the
  number of allocated addresses, also when the memory ran out in the middle of an operation.
\<close>

theorem second_set_keeps_its_addresses:
  assumes "allocatePingPongBuffer bi la body init isFirst = Inr (second, n)" "sane_sizes bi (la_memorySize la)"
    "lp_sharedRegionSize (la_profile la) + init \<le> la_memorySize la"
  shows "complete_addresses (pp_prefetchBufferCount second) first (pp_addressSequence second) =
    pp_addressSequence second @ drop (length (pp_addressSequence second)) first"
proof -
  obtain k where "pp_inv bi la init (take k (local_buffers (lp_sharedBuffers (la_profile la)) body)) second"
    by (rule allocatePingPong_spec [OF assms(2,3,1)])
  then show ?thesis by (simp add: pp_inv_def complete_addresses_prefetched)
qed

theorem second_set_keeps_its_addresses_witness:
  "\<exists>second. allocatePingPongBuffer example_sizes
       (new_loop_allocator 200\<lparr>la_profile := new_profile\<lparr>lp_sharedBuffers := {5}, lp_sharedRegionSize := 40\<rparr>\<rparr>)
       [example_op 3 [5, 7] [8]] 88 False = Inr (second, 0) \<and>
     complete_addresses (pp_prefetchBufferCount second) [0, 48] (pp_addressSequence second) = [96, 48]"
proof -
  let ?la = "new_loop_allocator 200\<lparr>la_profile := new_profile\<lparr>lp_sharedBuffers := {5}, lp_sharedRegionSize := 40\<rparr>\<rparr>"
  have "\<exists>second. allocatePingPongBuffer example_sizes ?la [example_op 3 [5, 7] [8]] 88 False = Inr (second, 0) \<and>
      pp_addressSequence second = [96]"
    by (simp add: example_defs loop_run_defs)
  then obtain second where run: "allocatePingPongBuffer example_sizes ?la [example_op 3 [5, 7] [8]] 88 False = Inr (second, 0)"
    "pp_addressSequence second = [96]" by blast
  have "sane_sizes example_sizes (la_memorySize ?la)" "lp_sharedRegionSize (la_profile ?la) + 88 \<le> la_memorySize ?la"
    by (simp_all add: example_sane new_loop_allocator_def)
  from second_set_keeps_its_addresses [OF run(1) this, of "[0, 48]"] show ?thesis
    using run by (intro exI [of _ second]) simp
qed

text \<open>
  C16. The layout of a tiling loop: the local buffers of the largest iteration are stacked
  from address 0 for the even iterations; a first part of them is stacked once more above, for the odd
  iterations, which share the addresses of the rest; all of it ends below the region
  of the shared buffers; and the operations counted as prefetched have all their local buffers in that first part.
\<close>

theorem loop_layout:
  assumes "allocateLoopTilingRegion bi la region = Inr (la', region')" "sane_sizes bi (la_memorySize la)"
    "cr_schedulingLoop region = Some loop"
  shows "\<exists>k mid. let body = sl_loopBodies loop ! lp_largestLoopIdx (la_profile la');
      bufs = local_buffers (cr_sharedExternalBuffers region') body;
      first = fst (cr_bufferAddressVec region'); second = snd (cr_bufferAddressVec region') in
    k \<le> length bufs \<and> stacked bi 0 bufs first mid \<and> stacked bi mid (take k bufs) (take k second) (cr_size region') \<and>
    drop k second = drop k first \<and> length second = length first \<and>
    lp_sharedRegionSize (la_profile la') + cr_size region' \<le> la_memorySize la \<and>
    set (body_buffers (take (cr_prefetchOpCount region') body)) - cr_sharedExternalBuffers region' \<subseteq> set (take k bufs)"
proof -
  obtain profile la2 s1 n1 s2 n2 where run: "reserveSharedBuffers bi (la\<lparr>la_profile := profile\<rparr>) = Inr la2"
    "allocatePingPongBuffer bi la2 (sl_loopBodies loop ! lp_largestLoopIdx (la_profile la2)) 0 True = Inr (s1, n1)"
    "allocatePingPongBuffer bi la2 (sl_loopBodies loop ! lp_largestLoopIdx (la_profile la2)) (pp_nextFreeOffset s1) False = Inr (s2, n2)"
    "la' = la2" "region' = region\<lparr>cr_size := pp_reserveLocalRegionSize s2,
       cr_bufferAddressVec := (pp_addressSequence s1, complete_addresses (pp_prefetchBufferCount s2)
         (pp_addressSequence s1) (pp_addressSequence s2)),
       cr_sharedExternalBuffers := lp_sharedBuffers (la_profile la2),
       cr_baseAlignment := pp_baseAlignment s1, cr_prefetchOpCount := n2\<rparr>"
    using assms(1,3) by (auto simp: allocateLoopTilingRegion_def Let_def res_bind_eq_Inr split: if_splits)
  have mem: "la_memorySize la2 = la_memorySize la" "lp_sharedRegionSize (la_profile la2) \<le> la_memorySize la"
    using run(1) by (auto simp: reserveSharedBuffers_def Let_def res_bind_eq_Inr not_less split: if_splits)
  define bufs where "bufs = local_buffers (lp_sharedBuffers (la_profile la2)) (sl_loopBodies loop ! lp_largestLoopIdx (la_profile la2))"
  have i1: "pp_inv bi la2 0 bufs s1"
    by (rule allocatePingPong_spec [OF _ _ run(2)]) (use mem assms(2) in \<open>auto simp: bufs_def\<close>)
  obtain k where k: "k \<le> length bufs" "pp_inv bi la2 (pp_nextFreeOffset s1) (take k bufs) s2"
    "set (body_buffers (take n2 (sl_loopBodies loop ! lp_largestLoopIdx (la_profile la2)))) -
       lp_sharedBuffers (la_profile la2) \<subseteq> set (take k bufs)"
    by (rule allocatePingPong_spec [OF _ _ run(3)]) (use mem assms(2) i1 in \<open>auto simp: bufs_def pp_inv_def\<close>)
  have len: "length (pp_addressSequence s2) = k" "length (pp_addressSequence s1) = length bufs"
    using k i1 stacked_length unfolding pp_inv_def by fastforce+
  have second: "complete_addresses (pp_prefetchBufferCount s2) (pp_addressSequence s1) (pp_addressSequence s2) =
      pp_addressSequence s2 @ drop k (pp_addressSequence s1)"
    using k(2) len(1) complete_addresses_prefetched unfolding pp_inv_def by metis
  show ?thesis
    by (rule exI [of _ k], rule exI [of _ "pp_nextFreeOffset s1"])
      (use k i1 len mem second in \<open>simp add: run(4,5) pp_inv_def Let_def bufs_def [symmetric]\<close>)
qed

theorem loop_layout_witness:
  "\<exists>la' region'. allocateLoopTilingRegion example_sizes (new_loop_allocator 200) example_region = Inr (la', region') \<and>
     cr_bufferAddressVec region' = ([0, 48], [96, 48]) \<and> cr_size region' + 40 \<le> 200"
proof -
  have "\<exists>la' region'. allocateLoopTilingRegion example_sizes (new_loop_allocator 200) example_region = Inr (la', region') \<and>
      cr_bufferAddressVec region' = ([0, 48], [96, 48]) \<and> lp_sharedRegionSize (la_profile la') = 40"
    using example_analysis
    by (simp add: allocateLoopTilingRegion_def example_defs loop_run_defs)
  then obtain la' region' where run: "allocateLoopTilingRegion example_sizes (new_loop_allocator 200) example_region = Inr (la', region')"
    "cr_bufferAddressVec region' = ([0, 48], [96, 48])" "lp_sharedRegionSize (la_profile la') = 40" by blast
  have "sane_sizes example_sizes (la_memorySize (new_loop_allocator 200))"
    "cr_schedulingLoop example_region = Some example_loop"
    by (simp_all add: example_sane new_loop_allocator_def example_region_def)
  from loop_layout [OF run(1) this] show ?thesis using run
    by (auto simp: Let_def new_loop_allocator_def)
qed

end
