(* ===== verification/Task_Queues.thy ===== *)
theory Task_Queues
  imports Prelude "HOL-Library.Signed_Division"
begin

text \<open>
  The hardware queues that tasks run on: \<^verbatim>\<open>src/utils/dma.cpp\<close>,
  \<^verbatim>\<open>src/utils/shave.cpp\<close> and the queue of a task in
  \<^verbatim>\<open>src/dialect/VPURT/IR/ops/task.cpp\<close>.  The identifier of a queue encodes the
  port and channel of a DMA queue, the cluster of a DPU queue, or the tile and list of a SHAVE queue.
\<close>

section \<open>Executors and queues\<close>

datatype executor_kind = DMA_NN | NCE | DPU | SHAVE_NN | SHAVE_ACT | M2I | UNKNOWN_EXECUTOR

primrec executor_num :: "executor_kind \<Rightarrow> nat" where
  "executor_num DMA_NN = 0"
| "executor_num NCE = 1"
| "executor_num DPU = 2"
| "executor_num SHAVE_NN = 3"
| "executor_num SHAVE_ACT = 4"
| "executor_num M2I = 5"
| "executor_num UNKNOWN_EXECUTOR = 6"

lemma executor_num_inject: "executor_num a = executor_num b \<longleftrightarrow> a = b"
  by (cases a; cases b) simp_all

instantiation executor_kind :: linorder
begin

definition less_executor_kind :: "executor_kind \<Rightarrow> executor_kind \<Rightarrow> bool" where
  "less_executor_kind a b \<longleftrightarrow> executor_num a < executor_num b"

definition less_eq_executor_kind :: "executor_kind \<Rightarrow> executor_kind \<Rightarrow> bool" where
  "less_eq_executor_kind a b \<longleftrightarrow> executor_num a \<le> executor_num b"

instance
  by standard (auto simp: less_executor_kind_def less_eq_executor_kind_def executor_num_inject)

end

type_synonym queue_type = "executor_kind \<times> int"

definition queue_less :: "queue_type \<Rightarrow> queue_type \<Rightarrow> bool" where
  "queue_less a b = (if fst a = fst b then snd a < snd b else fst a < fst b)"

datatype arch_kind = ARCH_UNKNOWN | NPU37XX | NPU40XX | NPU50XX

primrec arch_num :: "arch_kind \<Rightarrow> nat" where
  "arch_num ARCH_UNKNOWN = 0"
| "arch_num NPU37XX = 3"
| "arch_num NPU40XX = 4"
| "arch_num NPU50XX = 5"

datatype dma_channel = CHANNEL_DDR | CHANNEL_CMX | CHANNEL_NOT_SPECIFIED

primrec channel_num :: "dma_channel \<Rightarrow> int" where
  "channel_num CHANNEL_DDR = 0"
| "channel_num CHANNEL_CMX = 1"
| "channel_num CHANNEL_NOT_SPECIFIED = 2"

definition channel_of_num :: "int \<Rightarrow> dma_channel" where
  "channel_of_num i = (if i = 0 then CHANNEL_DDR else if i = 1 then CHANNEL_CMX else CHANNEL_NOT_SPECIFIED)"

section \<open>Encoding of the identifiers\<close>

definition getDMAChannelsWithIndependentLinkAgents :: "arch_kind \<Rightarrow> dma_channel list" where
  "getDMAChannelsWithIndependentLinkAgents arch =
     (if arch_num arch \<le> arch_num NPU37XX then [CHANNEL_NOT_SPECIFIED] else [CHANNEL_DDR, CHANNEL_CMX])"

text \<open>The largest number of a channel is 2.\<close>

definition getDMAQueueIdEncodingIdx :: "int \<Rightarrow> int \<Rightarrow> int" where
  "getDMAQueueIdEncodingIdx port channelIdx = port * (2 + 1) + channelIdx"

definition getDMAQueueIdEncoding :: "int \<Rightarrow> dma_channel option \<Rightarrow> int" where
  "getDMAQueueIdEncoding port channel =
     getDMAQueueIdEncodingIdx port (channel_num (case channel of None \<Rightarrow> CHANNEL_NOT_SPECIFIED | Some c \<Rightarrow> c))"

definition getDMAQueueIdEncodingForMemory :: "bool \<Rightarrow> arch_kind \<Rightarrow> int" where
  "getDMAQueueIdEncodingForMemory srcIsDDR arch =
     (if arch_num arch \<le> arch_num NPU37XX then getDMAQueueIdEncoding 0 None
      else if srcIsDDR then getDMAQueueIdEncoding 0 (Some CHANNEL_DDR)
      else getDMAQueueIdEncoding 0 (Some CHANNEL_CMX))"

definition getDMAPortFromEncodedId :: "int \<Rightarrow> int" where
  "getDMAPortFromEncodedId i = i sdiv (2 + 1)"

definition getDMAChannelTypeFromEncodedId :: "int \<Rightarrow> arch_kind \<Rightarrow> dma_channel" where
  "getDMAChannelTypeFromEncodedId i arch =
     (if arch_num arch \<le> arch_num NPU37XX then CHANNEL_NOT_SPECIFIED else channel_of_num (i smod (2 + 1)))"

definition getShaveQueueIdEncoding :: "int \<Rightarrow> int \<Rightarrow> int \<Rightarrow> int res" where
  "getShaveQueueIdEncoding numTiles tileIndex listIndex =
     (if \<not> numTiles > 0 then Inl (Vpux_Throw ''Incorrect number of tiles'')
      else if \<not> tileIndex < numTiles then Inl (Vpux_Throw ''Incorrect tile index for given number of tiles'')
      else Inr (listIndex * numTiles + tileIndex))"

definition getShaveTileIndexFromEncodedId :: "int \<Rightarrow> int \<Rightarrow> int res" where
  "getShaveTileIndexFromEncodedId i numTiles =
     (if \<not> numTiles > 0 then Inl (Vpux_Throw ''Incorrect number of tiles'') else Inr (i smod numTiles))"

definition getShaveListIndexFromEncodedId :: "int \<Rightarrow> int \<Rightarrow> int res" where
  "getShaveListIndexFromEncodedId i numTiles =
     (if \<not> numTiles > 0 then Inl (Vpux_Throw ''Incorrect number of tiles'') else Inr (i sdiv numTiles))"

definition getTileAndListIndex :: "queue_type \<Rightarrow> int \<Rightarrow> arch_kind \<Rightarrow> (int \<times> int) res" where
  "getTileAndListIndex q numTiles arch =
     (case fst q of
        SHAVE_ACT \<Rightarrow> res_bind (getShaveTileIndexFromEncodedId (snd q) numTiles) (\<lambda>t.
          res_bind (getShaveListIndexFromEncodedId (snd q) numTiles) (\<lambda>l. Inr (t, l)))
      | DPU \<Rightarrow> Inr (snd q, 0)
      | DMA_NN \<Rightarrow> Inr (getDMAPortFromEncodedId (snd q),
          if getDMAChannelTypeFromEncodedId (snd q) arch = CHANNEL_CMX then 1 else 0)
      | _ \<Rightarrow> Inl (Vpux_Throw ''Unsupported queue type for getting tile and list index''))"

definition getQueueTypeFromTileAndListIndex :: "executor_kind \<Rightarrow> int \<Rightarrow> int \<Rightarrow> int \<Rightarrow> queue_type res" where
  "getQueueTypeFromTileAndListIndex kind tileIndex listIndex numTiles =
     (case kind of
        SHAVE_ACT \<Rightarrow> map_sum id (Pair kind) (getShaveQueueIdEncoding numTiles tileIndex listIndex)
      | DPU \<Rightarrow> if listIndex \<noteq> 0 then Inl (Vpux_Throw ''DPU queue does not support list index different than 0'')
               else Inr (kind, tileIndex)
      | DMA_NN \<Rightarrow> if listIndex > 1 then Inl (Vpux_Throw ''DMA queue supports only list index 0 and 1'')
               else Inr (kind, getDMAQueueIdEncoding tileIndex (Some (if listIndex = 1 then CHANNEL_CMX else CHANNEL_DDR)))
      | _ \<Rightarrow> Inl (Vpux_Throw ''Unsupported executor kind''))"

section \<open>Tasks\<close>

text \<open>
  What is read off the operation a task wraps: the cluster of every variant of an NCE task, the tile and
  list of a software kernel with the number of tiles and of its runs, the port and channel of a DMA.
\<close>

datatype inner_task =
    NceTask "int option list"
  | SwKernelTask int "int option" "int option" nat
  | DmaTask "int option" "dma_channel option"
  | OtherTask

text \<open>A wait or update operand is \<^verbatim>\<open>None\<close> when a barrier operation does not define it.\<close>

record task_op =
  to_executorKind :: executor_kind
  to_inner :: inner_task
  to_perVariantBarriers :: bool
  to_syncTask :: bool
  to_waitBarriers :: "nat option list"
  to_updateBarriers :: "nat option list"

text \<open>The port of a DMA is zero when it is not set.\<close>

definition getTaskQueueTypeOf :: "task_op \<Rightarrow> bool \<Rightarrow> queue_type res" where
  "getTaskQueueTypeOf op ignoreIndexForNce =
     (let kind = to_executorKind op in
      if kind = DPU \<and> \<not> ignoreIndexForNce then
        (case to_inner op of
           NceTask (c # _) \<Rightarrow> Inr (kind, case c of None \<Rightarrow> 0 | Some i \<Rightarrow> i)
         | _ \<Rightarrow> Inl (Vpux_Throw ''Could not get DPU task''))
      else if kind = SHAVE_ACT \<and> \<not> ignoreIndexForNce then
        (case to_inner op of
           SwKernelTask numTiles tileIndex listIndex runs \<Rightarrow>
             map_sum id (Pair kind) (getShaveQueueIdEncoding numTiles (case tileIndex of None \<Rightarrow> 0 | Some i \<Rightarrow> i)
               (case listIndex of None \<Rightarrow> 0 | Some i \<Rightarrow> i))
         | _ \<Rightarrow> Inl (Vpux_Throw ''Could not get SW kernel task''))
      else if kind = DMA_NN then
        (case to_inner op of
           DmaTask port channel \<Rightarrow> Inr (kind, getDMAQueueIdEncoding (case port of None \<Rightarrow> 0 | Some p \<Rightarrow> p) channel)
         | _ \<Rightarrow> Inl (Vpux_Throw ''Not a DMA task''))
      else Inr (kind, 0))"

text \<open>The first and the last task of every queue, by index, in the order the queues are first met.\<close>

definition getTaskQueuesFirstAndLastOp :: "task_op list \<Rightarrow> (queue_type \<rightharpoonup> nat \<times> nat) res" where
  "getTaskQueuesFirstAndLastOp ops =
     res_fold (\<lambda>i m. res_bind (getTaskQueueTypeOf (ops ! i) False) (\<lambda>q.
       Inr (case m q of None \<Rightarrow> m(q \<mapsto> (i, i)) | Some (first, _) \<Rightarrow> m(q \<mapsto> (first, i))))) [0..<length ops] Map.empty"

definition getNumOfSlotsUsed :: "task_op \<Rightarrow> nat res" where
  "getNumOfSlotsUsed op =
     (case to_executorKind op of
        DPU \<Rightarrow> if to_perVariantBarriers op then Inr 1
          else (case to_inner op of NceTask variants \<Rightarrow> Inr (length variants)
                | _ \<Rightarrow> Inl (Vpux_Throw ''Could not cast to NCE task''))
      | SHAVE_ACT \<Rightarrow> (case to_inner op of SwKernelTask _ _ _ runs \<Rightarrow> Inr runs | _ \<Rightarrow> Inr 1)
      | DMA_NN \<Rightarrow> Inr 1
      | M2I \<Rightarrow> Inr 1
      | UNKNOWN_EXECUTOR \<Rightarrow> Inr 1
      | _ \<Rightarrow> Inl (Vpux_Throw ''Unsupported executor''))"

section \<open>Properties\<close>

lemma smod_sdiv_nonneg:
  assumes "0 \<le> t" "t < n" "0 \<le> (l::int)"
  shows "(l * n + t) smod n = t" "(l * n + t) sdiv n = l"
proof -
  have n: "0 < n" "0 \<le> l * n" using assms by simp_all
  then have "0 < l * n + t \<or> t = 0 \<and> l = 0" using assms(1,3)
    by (metis add_nonneg_pos add_pos_nonneg less_le mult_eq_0_iff add_0 less_numeral_extra(3))
  then show "(l * n + t) smod n = t" "(l * n + t) sdiv n = l"
    using assms by (auto simp: signed_modulo_int_def signed_divide_int_def sgn_if)
qed

text \<open>
  The tile and list of a queue can be read back from the queue type that they encode, on every executor
  that has such queues; on architectures up to NPU37XX the list of a DMA queue is lost, since there the
  channel is not part of the queue.
\<close>

theorem queue_type_roundtrip:
  assumes "getQueueTypeFromTileAndListIndex kind tile list numTiles = Inr q" "0 \<le> tile" "0 \<le> list"
  shows "getTileAndListIndex q numTiles arch =
    Inr (tile, if kind = DMA_NN \<and> arch_num arch \<le> arch_num NPU37XX then 0 else list)"
proof (cases kind)
  case DMA_NN
  then have q: "list \<le> 1" "q = (DMA_NN, tile * 3 + list)"
    using assms by (auto simp: getQueueTypeFromTileAndListIndex_def getDMAQueueIdEncoding_def getDMAQueueIdEncodingIdx_def
        split: if_splits)
  have l: "list = 0 \<or> list = 1" using q(1) assms(3) by linarith
  have "(tile * 3 + list) sdiv 3 = tile" "(tile * 3 + list) smod 3 = list"
    using smod_sdiv_nonneg [of list 3 tile] q(1) assms(2,3) by simp_all
  then show ?thesis using DMA_NN q l
    by (auto simp: getTileAndListIndex_def getDMAPortFromEncodedId_def getDMAChannelTypeFromEncodedId_def channel_of_num_def)
next
  case SHAVE_ACT
  then have q: "0 < numTiles" "tile < numTiles" "q = (SHAVE_ACT, list * numTiles + tile)"
    using assms(1) by (auto simp: getQueueTypeFromTileAndListIndex_def getShaveQueueIdEncoding_def split: if_splits)
  then show ?thesis using SHAVE_ACT smod_sdiv_nonneg [OF assms(2) q(2) assms(3)]
    by (simp add: getTileAndListIndex_def getShaveTileIndexFromEncodedId_def getShaveListIndexFromEncodedId_def)
qed (use assms(1) in \<open>auto simp: getQueueTypeFromTileAndListIndex_def getTileAndListIndex_def split: if_splits\<close>)

theorem queue_type_roundtrip_witness:
  "getQueueTypeFromTileAndListIndex SHAVE_ACT 2 1 4 = Inr (SHAVE_ACT, 6) \<and>
   getTileAndListIndex (SHAVE_ACT, 6) 4 NPU40XX = Inr (2, 1)"
proof -
  have "getQueueTypeFromTileAndListIndex SHAVE_ACT 2 1 4 = Inr (SHAVE_ACT, 6)"
    by (simp add: getQueueTypeFromTileAndListIndex_def getShaveQueueIdEncoding_def)
  from queue_type_roundtrip [OF this, of NPU40XX] this show ?thesis by simp
qed

end
