(* ===== verification/Bit_Vector.thy ===== *)
theory Bit_Vector
  imports Prelude
begin

text \<open>
  The documented behaviour of \<^verbatim>\<open>llvm::BitVector\<close> as far as the barrier bookkeeping relies on it:
  a size and the set of the bits that are set.  Accesses outside the size are assertions; a search returns
  -1, here \<^verbatim>\<open>None\<close>, when there is no bit to find.
\<close>

type_synonym bit_vector = "nat \<times> nat set"

definition bv_ok :: "nat \<Rightarrow> bit_vector \<Rightarrow> bool" where
  "bv_ok n v \<longleftrightarrow> fst v = n \<and> snd v \<subseteq> {..<n}"

definition bv_test :: "bit_vector \<Rightarrow> nat \<Rightarrow> bool res" where
  "bv_test v i = (if i < fst v then Inr (i \<in> snd v) else Inl Assertion_Failure)"

definition bv_set :: "nat \<Rightarrow> bit_vector \<Rightarrow> bit_vector res" where
  "bv_set i v = (if i < fst v then Inr (fst v, insert i (snd v)) else Inl Assertion_Failure)"

definition bv_find_first_in :: "bit_vector \<Rightarrow> nat \<Rightarrow> nat \<Rightarrow> nat option res" where
  "bv_find_first_in v b e =
     (if b \<le> e \<and> e \<le> fst v then Inr (find (\<lambda>i. b \<le> i \<and> i < e) (sorted_list_of_set (snd v))) else Inl Assertion_Failure)"

definition bv_find_next :: "bit_vector \<Rightarrow> nat \<Rightarrow> nat option" where
  "bv_find_next v i = find (\<lambda>j. i < j) (sorted_list_of_set (snd v))"

definition bv_find_prev :: "bit_vector \<Rightarrow> nat \<Rightarrow> nat option" where
  "bv_find_prev v i = find (\<lambda>j. j < i) (rev (sorted_list_of_set (snd v)))"

definition bv_find_last :: "bit_vector \<Rightarrow> nat option" where
  "bv_find_last v = (case rev (sorted_list_of_set (snd v)) of [] \<Rightarrow> None | x # _ \<Rightarrow> Some x)"

text \<open>\<^verbatim>\<open>operator|=\<close> and \<^verbatim>\<open>reset\<close> with another vector.\<close>

definition bv_or :: "bit_vector \<Rightarrow> bit_vector \<Rightarrow> bit_vector" where
  "bv_or v w = (max (fst v) (fst w), snd v \<union> snd w)"

definition bv_reset :: "bit_vector \<Rightarrow> bit_vector \<Rightarrow> bit_vector" where
  "bv_reset v w = (fst v, snd v - snd w)"

lemma find_sorted:
  assumes "sorted_wrt r xs" "\<And>x y. r x y \<Longrightarrow> \<not> r y x"
  shows "find p xs = Some x \<longleftrightarrow> x \<in> set xs \<and> p x \<and> (\<forall>y\<in>set xs. p y \<longrightarrow> y = x \<or> r x y)"
  using assms(1)
proof (induction xs)
  case (Cons a xs)
  then show ?case using assms(2) by (cases "p a") auto
qed simp

lemma bv_find_next_Some:
  assumes "finite (snd v)"
  shows "bv_find_next v i = Some j \<longleftrightarrow> j \<in> snd v \<and> i < j \<and> (\<forall>k\<in>snd v. i < k \<longrightarrow> j \<le> k)"
  using find_sorted [of "(<)" "sorted_list_of_set (snd v)" "\<lambda>j. i < j" j] assms by (auto simp: bv_find_next_def le_less)

lemma bv_find_next_None: "finite (snd v) \<Longrightarrow> bv_find_next v i = None \<longleftrightarrow> (\<forall>k\<in>snd v. k \<le> i)"
  by (auto simp: bv_find_next_def find_None_iff)

lemma bv_find_next_gt: "bv_find_next v i = Some j \<Longrightarrow> i < j"
  by (auto simp: bv_find_next_def find_Some_iff)

lemma bv_find_prev_Some:
  assumes "finite (snd v)"
  shows "bv_find_prev v i = Some j \<longleftrightarrow> j \<in> snd v \<and> j < i \<and> (\<forall>k\<in>snd v. k < i \<longrightarrow> k \<le> j)"
proof -
  have "sorted_wrt (\<lambda>x y. y < x) (rev (sorted_list_of_set (snd v)))" by (simp add: sorted_wrt_rev)
  from find_sorted [OF this, of "\<lambda>j. j < i" j] assms show ?thesis by (auto simp: bv_find_prev_def le_less)
qed

lemma bv_find_prev_less: "bv_find_prev v i = Some j \<Longrightarrow> j < i"
  by (auto simp: bv_find_prev_def find_Some_iff)

lemma bv_find_prev_None: "finite (snd v) \<Longrightarrow> bv_find_prev v i = None \<longleftrightarrow> (\<forall>k\<in>snd v. i \<le> k)"
  by (auto simp: bv_find_prev_def find_None_iff)

lemma bv_find_first_in_Some:
  assumes "finite (snd v)" "b \<le> e" "e \<le> fst v"
  shows "bv_find_first_in v b e = Inr (Some j) \<longleftrightarrow> j \<in> snd v \<and> b \<le> j \<and> j < e \<and> (\<forall>k\<in>snd v. b \<le> k \<longrightarrow> j \<le> k)"
  using find_sorted [of "(<)" "sorted_list_of_set (snd v)" "\<lambda>i. b \<le> i \<and> i < e" j] assms
  by (auto simp: bv_find_first_in_def le_less)

lemma bv_find_first_in_None:
  assumes "finite (snd v)" "b \<le> e" "e \<le> fst v"
  shows "bv_find_first_in v b e = Inr None \<longleftrightarrow> (\<forall>k\<in>snd v. b \<le> k \<longrightarrow> e \<le> k)"
  using assms by (auto simp: bv_find_first_in_def find_None_iff not_less)

lemma bv_find_last_Some:
  assumes "finite (snd v)"
  shows "bv_find_last v = Some j \<longleftrightarrow> j \<in> snd v \<and> (\<forall>k\<in>snd v. k \<le> j)"
proof -
  have s: "sorted_wrt (\<lambda>x y. y < x) (rev (sorted_list_of_set (snd v)))" by (simp add: sorted_wrt_rev)
  show ?thesis
  proof (cases "rev (sorted_list_of_set (snd v))")
    case Nil
    then have "snd v = {}" using assms by simp
    then show ?thesis by (simp add: bv_find_last_def)
  next
    case (Cons x xs)
    have e: "set (x # xs) = snd v" using assms unfolding Cons [symmetric] by simp
    have "\<forall>k\<in>set xs. k < x" using s unfolding Cons by simp
    then have "\<forall>k\<in>snd v. k \<le> x" unfolding e [symmetric] by auto
    moreover have "x \<in> snd v" unfolding e [symmetric] by simp
    moreover have "bv_find_last v = Some x" by (simp only: bv_find_last_def Cons list.case)
    ultimately show ?thesis by (metis le_antisym option.inject)
  qed
qed

end
