(* ===== verification/Barrier_Info.thy ===== *)
theory Barrier_Info
  imports Task_Queues Bit_Vector
begin

text \<open>
  \<^verbatim>\<open>src/core/barrier_info.cpp\<close>: the tasks and the barriers of a function, which tasks
  produce and consume which barrier, and the blocks into which synchronization tasks cut the control graph.
  This theory holds the state, its accessors and the primitive changes, with the invariant that
  the map of the barriers and the map of the tasks are inverse to each other.

  A task or barrier operation is identified with the index attribute that the constructor and the
  operations for new tasks and barriers assign, which is its position in the list of all operations.  A
  \<^verbatim>\<open>TaskSet\<close> is a set; where the source iterates over one, the model takes the elements in
  increasing order.
\<close>

section \<open>Barriers\<close>

record barrier_op =
  bo_hasBarrier :: bool
  bo_onlyTaskUsers :: bool

definition new_barrier_op :: barrier_op where
  "new_barrier_op = \<lparr>bo_hasBarrier = True, bo_onlyTaskUsers = True\<rparr>"

section \<open>The state\<close>

type_synonym index_map = "nat set list"

record barrier_info =
  bi_allTaskOps :: "task_op list"
  bi_allBarrierOps :: "barrier_op list"
  bi_enableUnevenVariantSplit :: bool
  bi_syncTasksIds :: "nat list"
  bi_taskToBlockMap :: "nat list"
  bi_barrierProducerMap :: index_map
  bi_barrierConsumerMap :: index_map
  bi_taskWaitBarriers :: index_map
  bi_taskUpdateBarriers :: index_map
  bi_fifoDependencies :: "(nat \<times> nat \<times> nat) list"
  bi_taskQueueTypeMap :: "(queue_type \<times> bit_vector) list"

definition empty_barrier_info :: barrier_info where
  "empty_barrier_info = \<lparr>bi_allTaskOps = [], bi_allBarrierOps = [], bi_enableUnevenVariantSplit = False,
     bi_syncTasksIds = [], bi_taskToBlockMap = [], bi_barrierProducerMap = [], bi_barrierConsumerMap = [],
     bi_taskWaitBarriers = [], bi_taskUpdateBarriers = [], bi_fifoDependencies = [], bi_taskQueueTypeMap = []\<rparr>"

definition getNumOfTasks :: "barrier_info \<Rightarrow> nat" where
  "getNumOfTasks s = length (bi_allTaskOps s)"

definition getNumOfBarrierOps :: "barrier_info \<Rightarrow> nat" where
  "getNumOfBarrierOps s = length (bi_allBarrierOps s)"

definition getBarrierOpAtIndex :: "barrier_info \<Rightarrow> nat \<Rightarrow> barrier_op res" where
  "getBarrierOpAtIndex s i =
     (if \<not> length (bi_allBarrierOps s) > i then Inl (Vpux_Throw ''Barrier: Invalid index for _allBarrierOps'')
      else Inr (bi_allBarrierOps s ! i))"

definition getTaskOpAtIndex :: "barrier_info \<Rightarrow> nat \<Rightarrow> task_op res" where
  "getTaskOpAtIndex s i =
     (if \<not> getNumOfTasks s > i then Inl (Vpux_Throw ''Task: Invalid index for _allTaskOps'')
      else Inr (bi_allTaskOps s ! i))"

text \<open>The check for wait barriers admits the index one past the end, which is then out of range of the vector.\<close>

definition getWaitBarriers :: "barrier_info \<Rightarrow> nat \<Rightarrow> nat set res" where
  "getWaitBarriers s taskInd =
     (if \<not> taskInd \<le> length (bi_taskWaitBarriers s) then Inl (Vpux_Throw ''Task not found in _taskWaitBarriers'')
      else vec_at (bi_taskWaitBarriers s) taskInd)"

definition getUpdateBarriers :: "barrier_info \<Rightarrow> nat \<Rightarrow> nat set res" where
  "getUpdateBarriers s taskInd =
     (if \<not> taskInd < length (bi_taskUpdateBarriers s) then Inl (Vpux_Throw ''Task not found in _taskUpdateBarriers'')
      else vec_at (bi_taskUpdateBarriers s) taskInd)"

definition getBarrierProducers :: "barrier_info \<Rightarrow> nat \<Rightarrow> nat set res" where
  "getBarrierProducers s barrierInd =
     (if \<not> barrierInd < length (bi_barrierProducerMap s) then Inl (Vpux_Throw ''Barrier not found in _barrierProducerMap'')
      else vec_at (bi_barrierProducerMap s) barrierInd)"

definition getBarrierConsumers :: "barrier_info \<Rightarrow> nat \<Rightarrow> nat set res" where
  "getBarrierConsumers s barrierInd =
     (if \<not> barrierInd < length (bi_barrierConsumerMap s) then Inl (Vpux_Throw ''Barrier not found in _barrierConsumerMap'')
      else vec_at (bi_barrierConsumerMap s) barrierInd)"

definition getBarriersUsers :: "barrier_info \<Rightarrow> nat set \<Rightarrow> nat set res" where
  "getBarriersUsers s barrierInds = res_fold (\<lambda>b users.
     res_bind (getBarrierProducers s b) (\<lambda>p. res_bind (getBarrierConsumers s b) (\<lambda>c. Inr (users \<union> p \<union> c))))
     (sorted_list_of_set barrierInds) {}"

definition slot_sum :: "barrier_info \<Rightarrow> nat list \<Rightarrow> nat res" where
  "slot_sum s tasks = res_fold (\<lambda>t sum.
     res_bind (getTaskOpAtIndex s t) (\<lambda>op. res_bind (getNumOfSlotsUsed op) (\<lambda>n. Inr (sum + n)))) tasks 0"

definition getProducerSlotCount :: "barrier_info \<Rightarrow> nat \<Rightarrow> nat res" where
  "getProducerSlotCount s b = res_bind (getBarrierProducers s b) (\<lambda>p. slot_sum s (sorted_list_of_set p))"

definition getConsumerSlotCount :: "barrier_info \<Rightarrow> nat \<Rightarrow> nat res" where
  "getConsumerSlotCount s b = res_bind (getBarrierConsumers s b) (\<lambda>c. slot_sum s (sorted_list_of_set c))"

section \<open>Latest and earliest users\<close>

definition getBarrierLatestProducer :: "barrier_info \<Rightarrow> nat \<Rightarrow> nat res" where
  "getBarrierLatestProducer s b = res_bind (getBarrierProducers s b) (\<lambda>p.
     if p = {} then Inl (Vpux_Throw ''Barrier does not have any producers.'') else Inr (Max p))"

definition getBarriersLatestProducer :: "barrier_info \<Rightarrow> nat set \<Rightarrow> nat res" where
  "getBarriersLatestProducer s bs = res_fold (\<lambda>b latest.
     res_bind (getBarrierLatestProducer s b) (\<lambda>t. Inr (max latest t))) (sorted_list_of_set bs) 0"

definition getBarrierLatestConsumer :: "barrier_info \<Rightarrow> nat \<Rightarrow> nat res" where
  "getBarrierLatestConsumer s b = res_bind (getBarrierConsumers s b) (\<lambda>c.
     if c = {} then Inl (Vpux_Throw ''Barrier does not have any consumers.'') else Inr (Max c))"

definition getBarrierEarliestConsumer :: "barrier_info \<Rightarrow> nat \<Rightarrow> nat res" where
  "getBarrierEarliestConsumer s b = res_bind (getBarrierConsumers s b) (\<lambda>c.
     if c = {} then Inl (Vpux_Throw ''Barrier does not have any consumers.'') else Inr (Min c))"

definition getBarriersEarliestConsumer :: "barrier_info \<Rightarrow> nat set \<Rightarrow> nat res" where
  "getBarriersEarliestConsumer s bs = res_fold (\<lambda>b earliest.
     res_bind (getBarrierEarliestConsumer s b) (\<lambda>t. Inr (min earliest t))) (sorted_list_of_set bs) (U64 - 1)"

section \<open>Blocks of the control graph\<close>

definition getControlGraphBlockCount :: "barrier_info \<Rightarrow> nat" where
  "getControlGraphBlockCount s = length (bi_syncTasksIds s) + 1"

definition getControlGraphBlockIndex :: "barrier_info \<Rightarrow> nat \<Rightarrow> nat res" where
  "getControlGraphBlockIndex s taskInd =
     (if bi_syncTasksIds s = [] then Inr 0
      else if \<not> taskInd < length (bi_taskToBlockMap s) then Inl (Vpux_Throw ''Task index out of range'')
      else Inr (bi_taskToBlockMap s ! taskInd))"

definition isSyncPoint :: "barrier_info \<Rightarrow> nat \<Rightarrow> bool res" where
  "isSyncPoint s taskIdx =
     (let nTasks = getNumOfTasks s in
      if taskIdx \<ge> nTasks then Inl (Vpux_Throw ''Requested task index is too large for the number of tasks'')
      else if bi_syncTasksIds s = [] \<or> taskIdx = nTasks - 1 then Inr False
      else if length (bi_taskToBlockMap s) \<noteq> nTasks then Inl (Vpux_Throw ''_taskToBlockMap was not initialized'')
      else Inr (bi_taskToBlockMap s ! (taskIdx + 1) \<noteq> bi_taskToBlockMap s ! taskIdx))"

definition getBarrierBlockIndex :: "barrier_info \<Rightarrow> nat \<Rightarrow> nat res" where
  "getBarrierBlockIndex s barInd =
     res_bind (getBarrierLatestProducer s barInd) (\<lambda>t.
     res_bind (isSyncPoint s t) (\<lambda>sp.
     res_bind (getControlGraphBlockIndex s t) (\<lambda>b. Inr (if sp then b + 1 else b))))"

definition getControlGraphSyncPointForBlock :: "barrier_info \<Rightarrow> nat \<Rightarrow> nat option" where
  "getControlGraphSyncPointForBlock s blockInd =
     (if blockInd \<ge> length (bi_syncTasksIds s) then None else Some (bi_syncTasksIds s ! blockInd))"

definition getControlGraphSyncPoint :: "barrier_info \<Rightarrow> nat \<Rightarrow> nat option res" where
  "getControlGraphSyncPoint s taskInd =
     res_bind (getControlGraphBlockIndex s taskInd) (\<lambda>b. Inr (getControlGraphSyncPointForBlock s b))"

definition getPreviousBlockSyncPoint :: "barrier_info \<Rightarrow> nat \<Rightarrow> nat option res" where
  "getPreviousBlockSyncPoint s taskInd =
     res_bind (getControlGraphBlockIndex s taskInd) (\<lambda>b.
     if b = 0 then Inr None
     else if b = length (bi_syncTasksIds s) then Inr (Some (last (bi_syncTasksIds s)))
     else map_sum id Some (vec_at (bi_syncTasksIds s) (b - 1)))"

definition getNextBlockSyncPoint :: "barrier_info \<Rightarrow> nat \<Rightarrow> nat option res" where
  "getNextBlockSyncPoint s taskInd =
     res_bind (getControlGraphBlockIndex s taskInd) (\<lambda>b.
     if b + 1 \<ge> length (bi_syncTasksIds s) then Inr None else Inr (Some (bi_syncTasksIds s ! (b + 1))))"

definition getControlGraphBlockTaskRange :: "barrier_info \<Rightarrow> nat \<Rightarrow> bool \<Rightarrow> bool \<Rightarrow> (nat \<times> nat) res" where
  "getControlGraphBlockTaskRange s blockInd blockStartSyncPoint blockEndSyncPoint =
     (if blockInd \<ge> getControlGraphBlockCount s then Inl (Vpux_Throw ''Invalid task block index'')
      else
        let blockStartInd = (if blockInd = 0 then 0
              else if blockStartSyncPoint then bi_syncTasksIds s ! (blockInd - 1) else bi_syncTasksIds s ! (blockInd - 1) + 1);
            blockEndInd = (if blockInd = getControlGraphBlockCount s - 1 then u64_sub (getNumOfTasks s) 1
              else if blockEndSyncPoint then bi_syncTasksIds s ! blockInd else u64_sub (bi_syncTasksIds s ! blockInd) 1)
        in Inr (blockStartInd, blockEndInd))"

definition getBarriersForTaskBlock :: "barrier_info \<Rightarrow> nat \<Rightarrow> bool \<Rightarrow> bool \<Rightarrow> bool \<Rightarrow> nat list res" where
  "getBarriersForTaskBlock s blockInd blockStartSyncPoint blockEndSyncPoint updateBarriers =
     (if blockInd \<ge> getControlGraphBlockCount s then Inl (Vpux_Throw ''Invalid task block index'')
      else res_bind (getControlGraphBlockTaskRange s blockInd blockStartSyncPoint blockEndSyncPoint) (\<lambda>(blockStartInd, blockEndInd).
        let bits = getNumOfBarrierOps s + length (bi_fifoDependencies s);
            tasks = (if updateBarriers then bi_taskUpdateBarriers s else bi_taskWaitBarriers s) in
        map_sum id sorted_list_of_set (res_fold (\<lambda>taskInd barrierInd.
          res_bind (vec_at tasks taskInd) (\<lambda>bars.
            if \<not> bars \<subseteq> {..<bits} then Inl Assertion_Failure else Inr (barrierInd \<union> bars)))
          [blockStartInd..<blockEndInd + 1] {})))"

text \<open>Every task gets the number of synchronization tasks before it.\<close>

fun assign_blocks :: "nat list \<Rightarrow> nat \<Rightarrow> nat \<Rightarrow> nat \<Rightarrow> nat list \<Rightarrow> nat list res" where
  "assign_blocks [] nTasks blockStartInd blockInd m =
     res_fold (\<lambda>t m. vec_set m t blockInd) [blockStartInd..<nTasks] m"
| "assign_blocks (syncTaskInd # rest) nTasks blockStartInd blockInd m =
     res_bind (res_fold (\<lambda>t m. vec_set m t blockInd) [blockStartInd..<syncTaskInd + 1] m) (\<lambda>m.
       assign_blocks rest nTasks (syncTaskInd + 1) (blockInd + 1) m)"

definition buildTaskBlockMap :: "barrier_info \<Rightarrow> barrier_info res" where
  "buildTaskBlockMap s =
     (if bi_syncTasksIds s = []
      then Inl (Vpux_Throw ''Control graph split was not detected. Building task block map is not necessary.'')
      else res_bind (assign_blocks (bi_syncTasksIds s) (getNumOfTasks s) 0 0 (replicate (getNumOfTasks s) 0))
        (\<lambda>m. Inr (s\<lparr>bi_taskToBlockMap := m\<rparr>)))"

section \<open>Producers and consumers\<close>

text \<open>
  The two maps of one relation between barriers and tasks, and the changes the operations make to both.
\<close>

definition map_insert :: "nat \<Rightarrow> nat \<Rightarrow> index_map \<Rightarrow> index_map res" where
  "map_insert i x m = (if i < length m then Inr (m[i := insert x (m ! i)]) else Inl Assertion_Failure)"

definition map_erase :: "nat \<Rightarrow> nat \<Rightarrow> index_map \<Rightarrow> index_map res" where
  "map_erase i x m = (if i < length m then Inr (m[i := m ! i - {x}]) else Inl Assertion_Failure)"

definition link :: "nat \<Rightarrow> nat \<Rightarrow> index_map \<times> index_map \<Rightarrow> (index_map \<times> index_map) res" where
  "link barrierInd taskInd maps =
     res_bind (map_insert barrierInd taskInd (fst maps)) (\<lambda>bm.
     res_bind (map_insert taskInd barrierInd (snd maps)) (\<lambda>tm. Inr (bm, tm)))"

definition unlink :: "nat \<Rightarrow> nat \<Rightarrow> index_map \<times> index_map \<Rightarrow> (index_map \<times> index_map) res" where
  "unlink barrierInd taskInd maps =
     res_bind (map_erase barrierInd taskInd (fst maps)) (\<lambda>bm.
     res_bind (map_erase taskInd barrierInd (snd maps)) (\<lambda>tm. Inr (bm, tm)))"

definition set_task_row :: "nat \<Rightarrow> nat set \<Rightarrow> index_map \<times> index_map \<Rightarrow> (index_map \<times> index_map) res" where
  "set_task_row taskInd barriers maps =
     res_bind (vec_at (snd maps) taskInd) (\<lambda>old.
     res_bind (res_fold (\<lambda>b bm. map_erase b taskInd bm) (sorted_list_of_set old) (fst maps)) (\<lambda>bm.
     res_bind (res_fold (\<lambda>b bm. map_insert b taskInd bm) (sorted_list_of_set barriers) bm) (\<lambda>bm.
     Inr (bm, (snd maps)[taskInd := barriers]))))"

definition clear_barrier_row :: "nat \<Rightarrow> index_map \<times> index_map \<Rightarrow> (index_map \<times> index_map) res" where
  "clear_barrier_row barrierInd maps =
     res_bind (vec_at (fst maps) barrierInd) (\<lambda>tasks.
     res_bind (res_fold (\<lambda>t tm. map_erase t barrierInd tm) (sorted_list_of_set tasks) (snd maps)) (\<lambda>tm.
     Inr ((fst maps)[barrierInd := {}], tm)))"

definition producer_maps :: "barrier_info \<Rightarrow> index_map \<times> index_map" where
  "producer_maps s = (bi_barrierProducerMap s, bi_taskUpdateBarriers s)"

definition consumer_maps :: "barrier_info \<Rightarrow> index_map \<times> index_map" where
  "consumer_maps s = (bi_barrierConsumerMap s, bi_taskWaitBarriers s)"

definition on_producers :: "(index_map \<times> index_map \<Rightarrow> (index_map \<times> index_map) res) \<Rightarrow> barrier_info \<Rightarrow> barrier_info res" where
  "on_producers f s = map_sum id (\<lambda>maps. s\<lparr>bi_barrierProducerMap := fst maps, bi_taskUpdateBarriers := snd maps\<rparr>) (f (producer_maps s))"

definition on_consumers :: "(index_map \<times> index_map \<Rightarrow> (index_map \<times> index_map) res) \<Rightarrow> barrier_info \<Rightarrow> barrier_info res" where
  "on_consumers f s = map_sum id (\<lambda>maps. s\<lparr>bi_barrierConsumerMap := fst maps, bi_taskWaitBarriers := snd maps\<rparr>) (f (consumer_maps s))"

definition bi_addProducer :: "nat \<Rightarrow> nat \<Rightarrow> barrier_info \<Rightarrow> barrier_info res" where
  "bi_addProducer barrierInd taskInd = on_producers (link barrierInd taskInd)"

definition bi_addConsumer :: "nat \<Rightarrow> nat \<Rightarrow> barrier_info \<Rightarrow> barrier_info res" where
  "bi_addConsumer barrierInd taskInd = on_consumers (link barrierInd taskInd)"

definition addProducers :: "nat \<Rightarrow> nat set \<Rightarrow> barrier_info \<Rightarrow> barrier_info res" where
  "addProducers barrierInd tasks = res_fold (bi_addProducer barrierInd) (sorted_list_of_set tasks)"

definition addConsumers :: "nat \<Rightarrow> nat set \<Rightarrow> barrier_info \<Rightarrow> barrier_info res" where
  "addConsumers barrierInd tasks = res_fold (bi_addConsumer barrierInd) (sorted_list_of_set tasks)"

definition removeProducer :: "nat \<Rightarrow> nat \<Rightarrow> barrier_info \<Rightarrow> barrier_info res" where
  "removeProducer barrierInd taskInd = on_producers (unlink barrierInd taskInd)"

definition removeConsumer :: "nat \<Rightarrow> nat \<Rightarrow> barrier_info \<Rightarrow> barrier_info res" where
  "removeConsumer barrierInd taskInd = on_consumers (unlink barrierInd taskInd)"

definition removeProducers :: "nat \<Rightarrow> nat set \<Rightarrow> barrier_info \<Rightarrow> barrier_info res" where
  "removeProducers barrierInd tasks = res_fold (removeProducer barrierInd) (sorted_list_of_set tasks)"

definition removeConsumers :: "nat \<Rightarrow> nat set \<Rightarrow> barrier_info \<Rightarrow> barrier_info res" where
  "removeConsumers barrierInd tasks = res_fold (removeConsumer barrierInd) (sorted_list_of_set tasks)"

definition setUpdateBarriers :: "nat \<Rightarrow> nat set \<Rightarrow> barrier_info \<Rightarrow> barrier_info res" where
  "setUpdateBarriers taskInd barriers = on_producers (set_task_row taskInd barriers)"

definition setWaitBarriers :: "nat \<Rightarrow> nat set \<Rightarrow> barrier_info \<Rightarrow> barrier_info res" where
  "setWaitBarriers taskInd barriers = on_consumers (set_task_row taskInd barriers)"

definition resetBarrier :: "nat \<Rightarrow> barrier_info \<Rightarrow> barrier_info res" where
  "resetBarrier barrierInd s =
     res_bind (on_producers (clear_barrier_row barrierInd) s) (on_consumers (clear_barrier_row barrierInd))"

definition addNewBarrier :: "barrier_op \<Rightarrow> barrier_info \<Rightarrow> nat \<times> barrier_info" where
  "addNewBarrier op s = (length (bi_allBarrierOps s),
     s\<lparr>bi_allBarrierOps := bi_allBarrierOps s @ [op], bi_barrierConsumerMap := bi_barrierConsumerMap s @ [{}],
       bi_barrierProducerMap := bi_barrierProducerMap s @ [{}]\<rparr>)"

definition addNewTaskOp :: "task_op \<Rightarrow> barrier_info \<Rightarrow> nat \<times> barrier_info" where
  "addNewTaskOp op s = (getNumOfTasks s,
     s\<lparr>bi_allTaskOps := bi_allTaskOps s @ [op], bi_taskUpdateBarriers := bi_taskUpdateBarriers s @ [{}],
       bi_taskWaitBarriers := bi_taskWaitBarriers s @ [{}]\<rparr>)"

definition enableUnevenVariantSplit :: "barrier_info \<Rightarrow> barrier_info" where
  "enableUnevenVariantSplit s = s\<lparr>bi_enableUnevenVariantSplit := True\<rparr>"

section \<open>Construction from the function\<close>

definition link_operands ::
  "(nat \<Rightarrow> nat \<Rightarrow> barrier_info \<Rightarrow> barrier_info res) \<Rightarrow> nat \<Rightarrow> nat option list \<Rightarrow> barrier_info \<Rightarrow> barrier_info res" where
  "link_operands add taskInd bars = res_fold (\<lambda>bar s. case bar of
       None \<Rightarrow> Inl (Vpux_Throw ''Invalid wait barrier op type'') | Some b \<Rightarrow> add b taskInd s) bars"

definition addTaskOp :: "nat \<Rightarrow> barrier_info \<Rightarrow> barrier_info res" where
  "addTaskOp taskInd s = res_bind (getTaskOpAtIndex s taskInd) (\<lambda>op.
     res_bind (link_operands bi_addConsumer taskInd (to_waitBarriers op) s)
       (link_operands bi_addProducer taskInd (to_updateBarriers op)))"

text \<open>
  The operations of a function in their order: its tasks and its barriers.  Both lists of operations are
  collected first, then the operations are visited once more in that order.
\<close>

datatype func_item = TaskItem task_op | BarrierItem barrier_op

definition item_tasks :: "func_item list \<Rightarrow> task_op list" where
  "item_tasks f = concat (map (\<lambda>i. case i of TaskItem t \<Rightarrow> [t] | BarrierItem _ \<Rightarrow> []) f)"

definition item_barriers :: "func_item list \<Rightarrow> barrier_op list" where
  "item_barriers f = concat (map (\<lambda>i. case i of TaskItem _ \<Rightarrow> [] | BarrierItem b \<Rightarrow> [b]) f)"

definition check_barrier_op :: "barrier_op \<Rightarrow> unit res" where
  "check_barrier_op b =
     (if \<not> bo_hasBarrier b then Inl (Vpux_Throw ''BarrierOpInterface has no barrier.'')
      else if \<not> bo_onlyTaskUsers b then Inl (Vpux_Throw ''Got non-TaskOp Operation'') else Inr ())"

fun visit_items :: "nat \<Rightarrow> func_item list \<Rightarrow> barrier_info \<Rightarrow> barrier_info res" where
  "visit_items taskInd [] s = Inr s"
| "visit_items taskInd (TaskItem t # items) s =
     res_bind (addTaskOp taskInd s) (visit_items (Suc taskInd) items)"
| "visit_items taskInd (BarrierItem b # items) s =
     res_bind (check_barrier_op b) (\<lambda>_. visit_items taskInd items s)"

definition buildBarrierMaps :: "func_item list \<Rightarrow> barrier_info res" where
  "buildBarrierMaps func =
     (let tasks = item_tasks func; bars = item_barriers func;
          s = empty_barrier_info\<lparr>bi_allTaskOps := tasks, bi_allBarrierOps := bars,
            bi_taskWaitBarriers := replicate (length tasks) {}, bi_taskUpdateBarriers := replicate (length tasks) {},
            bi_barrierConsumerMap := replicate (length bars) {}, bi_barrierProducerMap := replicate (length bars) {},
            bi_syncTasksIds := filter (\<lambda>i. to_syncTask (tasks ! i)) [0..<length tasks]\<rparr>
      in res_bind (if bi_syncTasksIds s \<noteq> [] then buildTaskBlockMap s else Inr s) (visit_items 0 func))"

text \<open>The operands written back to the task operations.\<close>

definition updateIR :: "barrier_info \<Rightarrow> barrier_info res" where
  "updateIR s =
     (let write = (\<lambda>m t. res_bind (vec_at m t) (\<lambda>bars. res_fold (\<lambda>b acc.
            map_sum id (\<lambda>_. acc @ [Some b]) (getBarrierOpAtIndex s b)) (sorted_list_of_set bars) [])) in
      map_sum id (\<lambda>ops. s\<lparr>bi_allTaskOps := ops\<rparr>) (res_fold (\<lambda>taskInd ops.
        res_bind (vec_at ops taskInd) (\<lambda>op.
        res_bind (write (bi_taskWaitBarriers s) taskInd) (\<lambda>waits.
        res_bind (write (bi_taskUpdateBarriers s) taskInd) (\<lambda>updates.
        Inr (ops[taskInd := op\<lparr>to_waitBarriers := waits, to_updateBarriers := updates\<rparr>])))))
        [0..<getNumOfTasks s] (bi_allTaskOps s)))"


section \<open>The relation the maps represent\<close>

text \<open>
  Both maps of a pair represent one relation between barriers and tasks: the rows of the barriers
  are its images, the rows of the tasks its inverse images.
\<close>

definition represents :: "nat \<Rightarrow> nat \<Rightarrow> (nat \<times> nat) set \<Rightarrow> index_map \<times> index_map \<Rightarrow> bool" where
  "represents n nb R maps \<longleftrightarrow> length (fst maps) = nb \<and> length (snd maps) = n \<and> R \<subseteq> {..<nb} \<times> {..<n} \<and>
     (\<forall>b<nb. fst maps ! b = R `` {b}) \<and> (\<forall>t<n. snd maps ! t = R\<inverse> `` {t})"

lemma representsD:
  assumes "represents n nb R maps"
  shows "length (fst maps) = nb" "length (snd maps) = n" "R \<subseteq> {..<nb} \<times> {..<n}"
    "b < nb \<Longrightarrow> fst maps ! b = R `` {b}" "t < n \<Longrightarrow> snd maps ! t = R\<inverse> `` {t}"
  using assms by (auto simp: represents_def)

lemma represents_finite: "represents n nb R maps \<Longrightarrow> finite (R `` {b})" "represents n nb R maps \<Longrightarrow> finite (R\<inverse> `` {t})"
  unfolding represents_def by (rule finite_subset [of _ "{..<n}"], auto) (rule finite_subset [of _ "{..<nb}"], auto)

lemma link_rep:
  assumes "represents n nb R maps" "b < nb" "t < n"
  shows "\<exists>maps'. link b t maps = Inr maps' \<and> represents n nb (insert (b, t) R) maps'"
  using assms by (simp add: represents_def link_def map_insert_def nth_list_update Image_def) fastforce

lemma unlink_rep:
  assumes "represents n nb R maps" "b < nb" "t < n"
  shows "\<exists>maps'. unlink b t maps = Inr maps' \<and> represents n nb (R - {(b, t)}) maps'"
  using assms by (simp add: represents_def unlink_def map_erase_def nth_list_update Image_def) fastforce

lemma erase_loop:
  "set is \<subseteq> {..<length m} \<Longrightarrow> \<exists>m'. res_fold (\<lambda>i m. map_erase i x m) is m = Inr m' \<and> length m' = length m \<and>
    (\<forall>i<length m. m' ! i = (if i \<in> set is then m ! i - {x} else m ! i))"
proof (induction "is" arbitrary: m)
  case (Cons i js)
  let ?m = "m[i := m ! i - {x}]"
  have "set js \<subseteq> {..<length ?m}" using Cons.prems by simp
  from Cons.IH [OF this] obtain m' where "res_fold (\<lambda>i m. map_erase i x m) js ?m = Inr m'" "length m' = length m"
    "\<forall>i<length m. m' ! i = (if i \<in> set js then ?m ! i - {x} else ?m ! i)" by auto
  then show ?case using Cons.prems by (auto simp: map_erase_def nth_list_update)
qed simp

lemma insert_loop:
  "set is \<subseteq> {..<length m} \<Longrightarrow> \<exists>m'. res_fold (\<lambda>i m. map_insert i x m) is m = Inr m' \<and> length m' = length m \<and>
    (\<forall>i<length m. m' ! i = (if i \<in> set is then insert x (m ! i) else m ! i))"
proof (induction "is" arbitrary: m)
  case (Cons i js)
  let ?m = "m[i := insert x (m ! i)]"
  have "set js \<subseteq> {..<length ?m}" using Cons.prems by simp
  from Cons.IH [OF this] obtain m' where "res_fold (\<lambda>i m. map_insert i x m) js ?m = Inr m'" "length m' = length m"
    "\<forall>i<length m. m' ! i = (if i \<in> set js then insert x (?m ! i) else ?m ! i)" by auto
  then show ?case using Cons.prems by (auto simp: map_insert_def nth_list_update)
qed simp

lemma set_task_row_rep:
  assumes R: "represents n nb R maps" and t: "t < n" and bars: "bars \<subseteq> {..<nb}"
  shows "\<exists>maps'. set_task_row t bars maps = Inr maps' \<and> represents n nb (R - UNIV \<times> {t} \<union> bars \<times> {t}) maps'"
proof -
  note r = representsD [OF R]
  have fin: "finite (R\<inverse> `` {t})" "finite bars" using represents_finite [OF R] finite_subset [OF bars] by simp_all
  have "set (sorted_list_of_set (R\<inverse> `` {t})) \<subseteq> {..<length (fst maps)}" using fin r(1,3) by auto
  from erase_loop [OF this, of t] obtain bm where bm: "res_fold (\<lambda>b bm. map_erase b t bm) (sorted_list_of_set (R\<inverse> `` {t})) (fst maps) = Inr bm"
    "length bm = nb" "\<forall>b<nb. bm ! b = (if b \<in> R\<inverse> `` {t} then fst maps ! b - {t} else fst maps ! b)"
    using r(1) fin by auto
  have "set (sorted_list_of_set bars) \<subseteq> {..<length bm}" using fin bars bm(2) by auto
  from insert_loop [OF this, of t] obtain bm' where bm': "res_fold (\<lambda>b bm. map_insert b t bm) (sorted_list_of_set bars) bm = Inr bm'"
    "length bm' = nb" "\<forall>b<nb. bm' ! b = (if b \<in> bars then insert t (bm ! b) else bm ! b)"
    using bm(2) fin by auto
  let ?R = "R - UNIV \<times> {t} \<union> bars \<times> {t}"
  have "set_task_row t bars maps = Inr (bm', (snd maps)[t := bars])"
    using bm(1) bm'(1) r(2,5) t by (simp add: set_task_row_def vec_at_def)
  moreover have "bm' ! b = ?R `` {b}" if "b < nb" for b using that bm(3) bm'(3) r(4) by (auto split: if_splits)
  moreover have "(snd maps)[t := bars] ! u = ?R\<inverse> `` {u}" if "u < n" for u
    by (cases "u = t") (use that r(2,5) in auto)
  ultimately show ?thesis using r(2,3) bars t bm'(2) unfolding represents_def by (auto simp: Image_def)
qed

lemma clear_barrier_row_rep:
  assumes R: "represents n nb R maps" and b: "b < nb"
  shows "\<exists>maps'. clear_barrier_row b maps = Inr maps' \<and> represents n nb (R - {b} \<times> UNIV) maps'"
proof -
  note r = representsD [OF R]
  have fin: "finite (R `` {b})" using represents_finite(1) [OF R] .
  have "set (sorted_list_of_set (R `` {b})) \<subseteq> {..<length (snd maps)}" using fin r(2,3) by auto
  from erase_loop [OF this, of b] obtain tm where tm: "res_fold (\<lambda>t tm. map_erase t b tm) (sorted_list_of_set (R `` {b})) (snd maps) = Inr tm"
    "length tm = n" "\<forall>t<n. tm ! t = (if t \<in> R `` {b} then snd maps ! t - {b} else snd maps ! t)"
    using r(2) fin by auto
  let ?R = "R - {b} \<times> UNIV"
  have "clear_barrier_row b maps = Inr ((fst maps)[b := {}], tm)"
    using tm(1) r(1,4) b by (simp add: clear_barrier_row_def vec_at_def)
  moreover have "tm ! t = ?R\<inverse> `` {t}" if "t < n" for t using that tm(3) r(5) by (auto split: if_splits)
  moreover have "(fst maps)[b := {}] ! c = ?R `` {c}" if "c < nb" for c
    by (cases "c = b") (use that r(1,4) in auto)
  ultimately show ?thesis using r(1,3) tm(2) unfolding represents_def by (auto simp: Image_def)
qed

text \<open>The abstract view of the state: which barrier which task produces, and which it consumes.\<close>

definition bi_rep :: "nat \<Rightarrow> nat \<Rightarrow> (nat \<times> nat) set \<Rightarrow> (nat \<times> nat) set \<Rightarrow> barrier_info \<Rightarrow> bool" where
  "bi_rep n nb P C s \<longleftrightarrow> represents n nb P (producer_maps s) \<and> represents n nb C (consumer_maps s) \<and> getNumOfTasks s = n"

text \<open>What the changes to the two maps leave alone.\<close>

definition same_rest :: "barrier_info \<Rightarrow> barrier_info \<Rightarrow> bool" where
  "same_rest s s' \<longleftrightarrow> bi_allTaskOps s' = bi_allTaskOps s \<and> bi_allBarrierOps s' = bi_allBarrierOps s \<and>
     bi_enableUnevenVariantSplit s' = bi_enableUnevenVariantSplit s \<and> bi_syncTasksIds s' = bi_syncTasksIds s \<and>
     bi_taskToBlockMap s' = bi_taskToBlockMap s \<and> bi_fifoDependencies s' = bi_fifoDependencies s \<and>
     bi_taskQueueTypeMap s' = bi_taskQueueTypeMap s"

lemma same_rest_refl [simp]: "same_rest s s" by (simp add: same_rest_def)

lemma same_rest_trans: "same_rest s t \<Longrightarrow> same_rest t u \<Longrightarrow> same_rest s u" by (simp add: same_rest_def)

lemma on_producers_rep:
  assumes "bi_rep n nb P C s" "\<exists>maps'. f (producer_maps s) = Inr maps' \<and> represents n nb P' maps'"
  shows "\<exists>s'. on_producers f s = Inr s' \<and> bi_rep n nb P' C s' \<and> same_rest s s'"
  using assms by (auto simp: on_producers_def bi_rep_def producer_maps_def consumer_maps_def getNumOfTasks_def same_rest_def)

lemma on_consumers_rep:
  assumes "bi_rep n nb P C s" "\<exists>maps'. f (consumer_maps s) = Inr maps' \<and> represents n nb C' maps'"
  shows "\<exists>s'. on_consumers f s = Inr s' \<and> bi_rep n nb P C' s' \<and> same_rest s s'"
  using assms by (auto simp: on_consumers_def bi_rep_def producer_maps_def consumer_maps_def getNumOfTasks_def same_rest_def)

lemmas bi_repD = bi_rep_def [THEN iffD1, THEN conjunct1] bi_rep_def [THEN iffD1, THEN conjunct2, THEN conjunct1]

lemma addProducer_rep:
  "bi_rep n nb P C s \<Longrightarrow> b < nb \<Longrightarrow> t < n \<Longrightarrow> \<exists>s'. bi_addProducer b t s = Inr s' \<and> bi_rep n nb (insert (b, t) P) C s' \<and> same_rest s s'"
  unfolding bi_addProducer_def by (intro on_producers_rep link_rep) (auto simp: bi_rep_def)

lemma addConsumer_rep:
  "bi_rep n nb P C s \<Longrightarrow> b < nb \<Longrightarrow> t < n \<Longrightarrow> \<exists>s'. bi_addConsumer b t s = Inr s' \<and> bi_rep n nb P (insert (b, t) C) s' \<and> same_rest s s'"
  unfolding bi_addConsumer_def by (intro on_consumers_rep link_rep) (auto simp: bi_rep_def)

lemma removeProducer_rep:
  "bi_rep n nb P C s \<Longrightarrow> b < nb \<Longrightarrow> t < n \<Longrightarrow> \<exists>s'. removeProducer b t s = Inr s' \<and> bi_rep n nb (P - {(b, t)}) C s' \<and> same_rest s s'"
  unfolding removeProducer_def by (intro on_producers_rep unlink_rep) (auto simp: bi_rep_def)

lemma removeConsumer_rep:
  "bi_rep n nb P C s \<Longrightarrow> b < nb \<Longrightarrow> t < n \<Longrightarrow> \<exists>s'. removeConsumer b t s = Inr s' \<and> bi_rep n nb P (C - {(b, t)}) s' \<and> same_rest s s'"
  unfolding removeConsumer_def by (intro on_consumers_rep unlink_rep) (auto simp: bi_rep_def)

lemma setUpdateBarriers_rep:
  "bi_rep n nb P C s \<Longrightarrow> t < n \<Longrightarrow> bars \<subseteq> {..<nb} \<Longrightarrow>
    \<exists>s'. setUpdateBarriers t bars s = Inr s' \<and> bi_rep n nb (P - UNIV \<times> {t} \<union> bars \<times> {t}) C s' \<and> same_rest s s'"
  unfolding setUpdateBarriers_def by (intro on_producers_rep set_task_row_rep) (auto simp: bi_rep_def)

lemma setWaitBarriers_rep:
  "bi_rep n nb P C s \<Longrightarrow> t < n \<Longrightarrow> bars \<subseteq> {..<nb} \<Longrightarrow>
    \<exists>s'. setWaitBarriers t bars s = Inr s' \<and> bi_rep n nb P (C - UNIV \<times> {t} \<union> bars \<times> {t}) s' \<and> same_rest s s'"
  unfolding setWaitBarriers_def by (intro on_consumers_rep set_task_row_rep) (auto simp: bi_rep_def)

lemma resetBarrier_rep:
  assumes "bi_rep n nb P C s" "b < nb"
  shows "\<exists>s'. resetBarrier b s = Inr s' \<and> bi_rep n nb (P - {b} \<times> UNIV) (C - {b} \<times> UNIV) s' \<and> same_rest s s'"
proof -
  obtain s1 where s1: "on_producers (clear_barrier_row b) s = Inr s1" "bi_rep n nb (P - {b} \<times> UNIV) C s1" "same_rest s s1"
    using on_producers_rep [where f = "clear_barrier_row b", OF assms(1) clear_barrier_row_rep [OF bi_repD(1) [OF assms(1)] assms(2)]] by blast
  obtain s2 where "on_consumers (clear_barrier_row b) s1 = Inr s2" "bi_rep n nb (P - {b} \<times> UNIV) (C - {b} \<times> UNIV) s2" "same_rest s1 s2"
    using on_consumers_rep [where f = "clear_barrier_row b", OF s1(2) clear_barrier_row_rep [OF bi_repD(2) [OF s1(2)] assms(2)]] by blast
  then show ?thesis using s1 same_rest_trans by (auto simp: resetBarrier_def)
qed

text \<open>Loops over a set of tasks.\<close>

lemma rep_loop:
  assumes step: "\<And>t s P C. bi_rep n nb P C s \<Longrightarrow> t < n \<Longrightarrow> \<exists>s'. f t s = Inr s' \<and> bi_rep n nb (p P t) (c C t) s' \<and> same_rest s s'"
  shows "set ts \<subseteq> {..<n} \<Longrightarrow> bi_rep n nb P C s \<Longrightarrow>
    \<exists>s'. res_fold f ts s = Inr s' \<and> bi_rep n nb (foldl p P ts) (foldl c C ts) s' \<and> same_rest s s'"
proof (induction ts arbitrary: P C s)
  case (Cons t ts)
  have "t < n" using Cons.prems(1) by simp
  from step [OF Cons.prems(2) this] obtain s1 where s1: "f t s = Inr s1" "bi_rep n nb (p P t) (c C t) s1" "same_rest s s1" by blast
  from Cons.IH [OF _ s1(2)] Cons.prems(1) obtain s2 where "res_fold f ts s1 = Inr s2"
    "bi_rep n nb (foldl p (p P t) ts) (foldl c (c C t) ts) s2" "same_rest s1 s2" by auto
  then show ?case using s1 same_rest_trans by fastforce
qed simp

lemma foldl_insert_pairs: "foldl (\<lambda>R t. insert (b, t) R) R ts = R \<union> {b} \<times> set ts"
  by (induction ts arbitrary: R) auto

lemma foldl_remove_pairs: "foldl (\<lambda>R t. R - {(b, t)}) R ts = R - {b} \<times> set ts"
  by (induction ts arbitrary: R) auto

lemma foldl_const: "foldl (\<lambda>R t. R) R ts = R"
  by (induction ts) auto

lemma task_set_list: "ts \<subseteq> {..<n::nat} \<Longrightarrow> set (sorted_list_of_set ts) = ts"
  by (rule set_sorted_list_of_set, rule finite_subset [of _ "{..<n}"]) simp_all

lemma addProducers_rep:
  assumes "bi_rep n nb P C s" "b < nb" "ts \<subseteq> {..<n}"
  shows "\<exists>s'. addProducers b ts s = Inr s' \<and> bi_rep n nb (P \<union> {b} \<times> ts) C s' \<and> same_rest s s'"
  using rep_loop [of n nb "bi_addProducer b" "\<lambda>R t. insert (b, t) R" "\<lambda>R t. R" "sorted_list_of_set ts" P C s]
    assms addProducer_rep [where b = b] by (simp add: addProducers_def task_set_list foldl_insert_pairs foldl_const)

lemma addConsumers_rep:
  assumes "bi_rep n nb P C s" "b < nb" "ts \<subseteq> {..<n}"
  shows "\<exists>s'. addConsumers b ts s = Inr s' \<and> bi_rep n nb P (C \<union> {b} \<times> ts) s' \<and> same_rest s s'"
  using rep_loop [of n nb "bi_addConsumer b" "\<lambda>R t. R" "\<lambda>R t. insert (b, t) R" "sorted_list_of_set ts" P C s]
    assms addConsumer_rep [where b = b] by (simp add: addConsumers_def task_set_list foldl_insert_pairs foldl_const)

lemma removeProducers_rep:
  assumes "bi_rep n nb P C s" "b < nb" "ts \<subseteq> {..<n}"
  shows "\<exists>s'. removeProducers b ts s = Inr s' \<and> bi_rep n nb (P - {b} \<times> ts) C s' \<and> same_rest s s'"
  using rep_loop [of n nb "removeProducer b" "\<lambda>R t. R - {(b, t)}" "\<lambda>R t. R" "sorted_list_of_set ts" P C s]
    assms removeProducer_rep [where b = b] by (simp add: removeProducers_def task_set_list foldl_remove_pairs foldl_const)

lemma removeConsumers_rep:
  assumes "bi_rep n nb P C s" "b < nb" "ts \<subseteq> {..<n}"
  shows "\<exists>s'. removeConsumers b ts s = Inr s' \<and> bi_rep n nb P (C - {b} \<times> ts) s' \<and> same_rest s s'"
  using rep_loop [of n nb "removeConsumer b" "\<lambda>R t. R" "\<lambda>R t. R - {(b, t)}" "sorted_list_of_set ts" P C s]
    assms removeConsumer_rep [where b = b] by (simp add: removeConsumers_def task_set_list foldl_remove_pairs foldl_const)

lemma getters_rep:
  assumes "bi_rep n nb P C s"
  shows "b < nb \<Longrightarrow> getBarrierProducers s b = Inr (P `` {b})" "b < nb \<Longrightarrow> getBarrierConsumers s b = Inr (C `` {b})"
    "t < n \<Longrightarrow> getUpdateBarriers s t = Inr (P\<inverse> `` {t})" "t < n \<Longrightarrow> getWaitBarriers s t = Inr (C\<inverse> `` {t})"
  using assms by (auto simp: bi_rep_def represents_def producer_maps_def consumer_maps_def getBarrierProducers_def
      getBarrierConsumers_def getUpdateBarriers_def getWaitBarriers_def vec_at_def)

lemma addNewBarrier_rep:
  assumes "bi_rep n nb P C s"
  shows "bi_rep n (Suc nb) P C (snd (addNewBarrier op s))"
  using assms unfolding bi_rep_def represents_def producer_maps_def consumer_maps_def addNewBarrier_def getNumOfTasks_def
  by (auto simp: nth_append less_Suc_eq)


section \<open>Construction\<close>

lemma fill_range:
  "b \<le> length m \<Longrightarrow> \<exists>m'. res_fold (\<lambda>t m. vec_set m t x) [a..<b] m = Inr m' \<and> length m' = length m \<and>
    (\<forall>t<length m. m' ! t = (if a \<le> t \<and> t < b then x else m ! t))"
proof (induction "b - a" arbitrary: b)
  case 0
  then show ?case by auto
next
  case (Suc k)
  then obtain c where b: "b = Suc c" "a \<le> c" by (metis diff_is_0_eq less_Suc_eq_le not_less_eq_eq old.nat.exhaust zero_less_Suc zero_less_diff)
  have "k = c - a" "c \<le> length m" using Suc.hyps(2) Suc.prems b by simp_all
  from Suc.hyps(1) [OF this] obtain m1 where m1: "res_fold (\<lambda>t m. vec_set m t x) [a..<c] m = Inr m1"
    "length m1 = length m" "\<forall>t<length m. m1 ! t = (if a \<le> t \<and> t < c then x else m ! t)" by blast
  have "res_fold (\<lambda>t m. vec_set m t x) [a..<b] m = Inr (m1[c := x])"
    using m1 b Suc.prems by (simp add: res_fold_append vec_set_def)
  moreover have "m1[c := x] ! t = (if a \<le> t \<and> t < b then x else m ! t)" if "t < length m" for t
    using m1(2,3) that b by (cases "t = c") auto
  ultimately show ?case using m1(2) by auto
qed

lemma assign_blocks_spec:
  "sorted_wrt (<) ids \<Longrightarrow> \<forall>i\<in>set ids. start \<le> i \<and> i < n \<Longrightarrow> length m = n \<Longrightarrow>
    \<exists>m'. assign_blocks ids n start blk m = Inr m' \<and> length m' = n \<and>
      (\<forall>t<n. m' ! t = (if t < start then m ! t else blk + length (filter (\<lambda>i. i < t) ids)))"
proof (induction ids arbitrary: start blk m)
  case Nil
  then show ?case using fill_range [of n m blk start] by auto
next
  case (Cons i ids)
  have i: "start \<le> i" "i < n" using Cons.prems(2) by auto
  obtain m1 where m1: "res_fold (\<lambda>t m. vec_set m t blk) [start..<i + 1] m = Inr m1" "length m1 = n"
    "\<forall>t<n. m1 ! t = (if start \<le> t \<and> t < i + 1 then blk else m ! t)"
    using fill_range [of "i + 1" m blk start] Cons.prems(3) i by auto
  have "sorted_wrt (<) ids" "\<forall>j\<in>set ids. i + 1 \<le> j \<and> j < n" using Cons.prems by auto
  from Cons.IH [OF this m1(2), of "blk + 1"] obtain m2 where m2: "assign_blocks ids n (i + 1) (blk + 1) m1 = Inr m2"
    "length m2 = n" "\<forall>t<n. m2 ! t = (if t < i + 1 then m1 ! t else blk + 1 + length (filter (\<lambda>j. j < t) ids))" by blast
  have none: "filter (\<lambda>j. j < t) ids = []" if "t < i + 1" for t
    using that Cons.prems(1) by (auto simp: filter_empty_conv)
  have "m2 ! t = (if t < start then m ! t else blk + length (filter (\<lambda>j. j < t) (i # ids)))" if "t < n" for t
    using m2(3) m1(3) that i none [of t] by (cases "t < i + 1") auto
  then show ?case using m1(1) m2 by simp
qed

definition blocks_ok :: "barrier_info \<Rightarrow> bool" where
  "blocks_ok s \<longleftrightarrow> sorted_wrt (<) (bi_syncTasksIds s) \<and> (\<forall>i\<in>set (bi_syncTasksIds s). i < getNumOfTasks s) \<and>
     (bi_syncTasksIds s \<noteq> [] \<longrightarrow> length (bi_taskToBlockMap s) = getNumOfTasks s \<and>
       (\<forall>t<getNumOfTasks s. bi_taskToBlockMap s ! t = length (filter (\<lambda>i. i < t) (bi_syncTasksIds s))))"

lemma buildTaskBlockMap_ok:
  assumes "sorted_wrt (<) (bi_syncTasksIds s)" "\<forall>i\<in>set (bi_syncTasksIds s). i < getNumOfTasks s" "bi_syncTasksIds s \<noteq> []"
  shows "\<exists>m. buildTaskBlockMap s = Inr (s\<lparr>bi_taskToBlockMap := m\<rparr>) \<and> blocks_ok (s\<lparr>bi_taskToBlockMap := m\<rparr>)"
  using assign_blocks_spec [of "bi_syncTasksIds s" 0 "getNumOfTasks s" "replicate (getNumOfTasks s) 0" 0] assms
  by (auto simp: buildTaskBlockMap_def blocks_ok_def getNumOfTasks_def)

lemma same_rest_blocks: "same_rest s s' \<Longrightarrow> blocks_ok s \<Longrightarrow> blocks_ok s'"
  by (simp add: same_rest_def blocks_ok_def getNumOfTasks_def)

definition operands_ok :: "nat \<Rightarrow> task_op \<Rightarrow> bool" where
  "operands_ok nb t \<longleftrightarrow> (\<forall>b\<in>set (to_waitBarriers t) \<union> set (to_updateBarriers t). \<exists>i<nb. b = Some i)"

lemma link_operands_rep:
  assumes step: "\<And>b s C P. bi_rep n nb P C s \<Longrightarrow> b < nb \<Longrightarrow> \<exists>s'. add b t s = Inr s' \<and> bi_rep n nb (p b P) (c b C) s' \<and> same_rest s s'"
  shows "\<forall>b\<in>set bars. \<exists>i<nb. b = Some i \<Longrightarrow> bi_rep n nb P C s \<Longrightarrow>
    \<exists>s'. link_operands add t bars s = Inr s' \<and> bi_rep n nb (fold p (map the bars) P) (fold c (map the bars) C) s' \<and> same_rest s s'"
proof (induction bars arbitrary: P C s)
  case (Cons b bars)
  obtain i where i: "b = Some i" "i < nb" using Cons.prems(1) by auto
  from step [OF Cons.prems(2) i(2)] obtain s1 where s1: "add i t s = Inr s1" "bi_rep n nb (p i P) (c i C) s1" "same_rest s s1" by blast
  from Cons.IH [OF _ s1(2)] Cons.prems(1) obtain s2 where "link_operands add t bars s1 = Inr s2"
    "bi_rep n nb (fold p (map the bars) (p i P)) (fold c (map the bars) (c i C)) s2" "same_rest s1 s2" by auto
  then show ?case using s1 i same_rest_trans by (fastforce simp: link_operands_def)
qed (simp add: link_operands_def)

lemma fold_pairs: "fold (\<lambda>b R. insert (b, t) R) bs R = R \<union> set bs \<times> {t}"
  by (induction bs arbitrary: R) auto

lemma fold_id: "fold (\<lambda>b R. R) bs R = R"
  by (induction bs) auto

lemma addTaskOp_rep:
  assumes "bi_rep n nb P C s" "t < n" "operands_ok nb (bi_allTaskOps s ! t)"
  shows "\<exists>s'. addTaskOp t s = Inr s' \<and>
    bi_rep n nb (P \<union> {b. Some b \<in> set (to_updateBarriers (bi_allTaskOps s ! t))} \<times> {t})
      (C \<union> {b. Some b \<in> set (to_waitBarriers (bi_allTaskOps s ! t))} \<times> {t}) s' \<and> same_rest s s'"
proof -
  let ?op = "bi_allTaskOps s ! t"
  have n: "t < getNumOfTasks s" using assms(1,2) by (simp add: bi_rep_def)
  have w: "\<forall>b\<in>set (to_waitBarriers ?op). \<exists>i<nb. b = Some i" "\<forall>b\<in>set (to_updateBarriers ?op). \<exists>i<nb. b = Some i"
    using assms(3) by (auto simp: operands_ok_def)
  then have the: "the ` set (to_waitBarriers ?op) = {b. Some b \<in> set (to_waitBarriers ?op)}"
    "the ` set (to_updateBarriers ?op) = {b. Some b \<in> set (to_updateBarriers ?op)}" by force+
  obtain s1 where s1: "link_operands bi_addConsumer t (to_waitBarriers ?op) s = Inr s1"
    "bi_rep n nb P (C \<union> {b. Some b \<in> set (to_waitBarriers ?op)} \<times> {t}) s1" "same_rest s s1"
    using link_operands_rep [of n nb bi_addConsumer t "\<lambda>b P. P" "\<lambda>b C. insert (b, t) C", OF addConsumer_rep w(1) assms(1)] assms(2)
    by (auto simp: fold_pairs fold_id the)
  obtain s2 where "link_operands bi_addProducer t (to_updateBarriers ?op) s1 = Inr s2"
    "bi_rep n nb (P \<union> {b. Some b \<in> set (to_updateBarriers ?op)} \<times> {t}) (C \<union> {b. Some b \<in> set (to_waitBarriers ?op)} \<times> {t}) s2"
    "same_rest s1 s2"
    using link_operands_rep [of n nb bi_addProducer t "\<lambda>b P. insert (b, t) P" "\<lambda>b C. C", OF addProducer_rep w(2) s1(2)] assms(2)
    by (auto simp: fold_pairs fold_id the)
  then show ?thesis using s1 n same_rest_trans by (auto simp: addTaskOp_def getTaskOpAtIndex_def)
qed


text \<open>The producers and the consumers that the operands of a list of tasks, numbered from \<^verbatim>\<open>k\<close> on, name.\<close>

definition operand_rel :: "(task_op \<Rightarrow> nat option list) \<Rightarrow> task_op list \<Rightarrow> (nat \<times> nat) set" where
  "operand_rel f ts = {(b, t). t < length ts \<and> Some b \<in> set (f (ts ! t))}"

lemma visit_items_rep:
  "bi_rep n nb P C s \<Longrightarrow> \<forall>op\<in>set (bi_allTaskOps s). operands_ok nb op \<Longrightarrow>
    \<forall>b\<in>set (item_barriers items). bo_hasBarrier b \<and> bo_onlyTaskUsers b \<Longrightarrow> k + length (item_tasks items) = n \<Longrightarrow>
    \<exists>s'. visit_items k items s = Inr s' \<and> same_rest s s' \<and>
      bi_rep n nb (P \<union> {(b, t). k \<le> t \<and> t < n \<and> Some b \<in> set (to_updateBarriers (bi_allTaskOps s ! t))})
        (C \<union> {(b, t). k \<le> t \<and> t < n \<and> Some b \<in> set (to_waitBarriers (bi_allTaskOps s ! t))}) s'"
proof (induction items arbitrary: k P C s)
  case Nil
  then have "n = k" by (simp add: item_tasks_def)
  then have e: "{(b, t). k \<le> t \<and> t < n \<and> Q b t} = {}" for Q by auto
  show ?case using Nil.prems(1) unfolding e by simp
next
  case (Cons i items)
  show ?case
  proof (cases i)
    case (BarrierItem b)
    then have "visit_items k (i # items) s = visit_items k items s" using Cons.prems(3)
      by (simp add: check_barrier_op_def item_barriers_def)
    moreover have "k + length (item_tasks items) = n" "\<forall>b\<in>set (item_barriers items). bo_hasBarrier b \<and> bo_onlyTaskUsers b"
      using Cons.prems(3,4) BarrierItem by (simp_all add: item_tasks_def item_barriers_def)
    ultimately show ?thesis using Cons.IH [OF Cons.prems(1,2)] by simp
  next
    case (TaskItem t)
    have k: "k < n" "Suc k + length (item_tasks items) = n" and bars: "\<forall>b\<in>set (item_barriers items). bo_hasBarrier b \<and> bo_onlyTaskUsers b"
      using Cons.prems(3,4) TaskItem by (simp_all add: item_tasks_def item_barriers_def)
    have len: "length (bi_allTaskOps s) = n" using Cons.prems(1) by (simp add: bi_rep_def getNumOfTasks_def)
    then have "operands_ok nb (bi_allTaskOps s ! k)" using Cons.prems(2) k(1) by simp
    from addTaskOp_rep [OF Cons.prems(1) k(1) this] obtain s1 where s1: "addTaskOp k s = Inr s1"
      "bi_rep n nb (P \<union> {b. Some b \<in> set (to_updateBarriers (bi_allTaskOps s ! k))} \<times> {k})
        (C \<union> {b. Some b \<in> set (to_waitBarriers (bi_allTaskOps s ! k))} \<times> {k}) s1" "same_rest s s1" by blast
    have ops: "bi_allTaskOps s1 = bi_allTaskOps s" using s1(3) by (simp add: same_rest_def)
    have split: "{(b, t). k \<le> t \<and> t < n \<and> Q b t} = {b. Q b k} \<times> {k} \<union> {(b, t). Suc k \<le> t \<and> t < n \<and> Q b t}" for Q
      using k(1) by (auto simp: Suc_le_eq le_less)
    from Cons.IH [OF s1(2) _ bars k(2)] Cons.prems(2) ops
    obtain s2 where "visit_items (Suc k) items s1 = Inr s2" "same_rest s1 s2"
      "bi_rep n nb (P \<union> {(b, t). k \<le> t \<and> t < n \<and> Some b \<in> set (to_updateBarriers (bi_allTaskOps s ! t))})
        (C \<union> {(b, t). k \<le> t \<and> t < n \<and> Some b \<in> set (to_waitBarriers (bi_allTaskOps s ! t))}) s2"
      unfolding split Un_assoc by auto
    then show ?thesis using TaskItem s1(1,3) same_rest_trans by (auto simp: split)
  qed
qed

lemma represents_empty: "represents n nb {} (replicate nb {}, replicate n {})"
  by (simp add: represents_def)

lemma buildBarrierMaps_rep:
  assumes "\<forall>op\<in>set (item_tasks func). operands_ok (length (item_barriers func)) op"
    "\<forall>b\<in>set (item_barriers func). bo_hasBarrier b \<and> bo_onlyTaskUsers b"
  shows "\<exists>s. buildBarrierMaps func = Inr s \<and> blocks_ok s \<and> bi_allTaskOps s = item_tasks func \<and>
    bi_allBarrierOps s = item_barriers func \<and> bi_fifoDependencies s = [] \<and>
    bi_syncTasksIds s = filter (\<lambda>i. to_syncTask (item_tasks func ! i)) [0..<length (item_tasks func)] \<and>
    bi_rep (length (item_tasks func)) (length (item_barriers func)) (operand_rel to_updateBarriers (item_tasks func))
      (operand_rel to_waitBarriers (item_tasks func)) s"
proof -
  let ?ts = "item_tasks func" and ?bs = "item_barriers func"
  let ?sync = "filter (\<lambda>i. to_syncTask (?ts ! i)) [0..<length ?ts]"
  define s0 where "s0 = empty_barrier_info\<lparr>bi_allTaskOps := ?ts, bi_allBarrierOps := ?bs,
      bi_taskWaitBarriers := replicate (length ?ts) {}, bi_taskUpdateBarriers := replicate (length ?ts) {},
      bi_barrierConsumerMap := replicate (length ?bs) {}, bi_barrierProducerMap := replicate (length ?bs) {},
      bi_syncTasksIds := ?sync\<rparr>"
  have sync: "sorted_wrt (<) (bi_syncTasksIds s0)" "\<forall>i\<in>set (bi_syncTasksIds s0). i < getNumOfTasks s0"
    by (auto simp: s0_def getNumOfTasks_def empty_barrier_info_def sorted_wrt_filter)
  obtain m where m: "(if bi_syncTasksIds s0 \<noteq> [] then buildTaskBlockMap s0 else Inr s0) = Inr (s0\<lparr>bi_taskToBlockMap := m\<rparr>)"
    "blocks_ok (s0\<lparr>bi_taskToBlockMap := m\<rparr>)"
  proof (cases "bi_syncTasksIds s0 = []")
    case True
    then show ?thesis by (intro that [of "bi_taskToBlockMap s0"]) (simp_all add: blocks_ok_def)
  next
    case False
    then show ?thesis using buildTaskBlockMap_ok [OF sync False] that by auto
  qed
  let ?s = "s0\<lparr>bi_taskToBlockMap := m\<rparr>"
  have rep: "bi_rep (length ?ts) (length ?bs) {} {} ?s"
    using represents_empty by (simp add: bi_rep_def producer_maps_def consumer_maps_def s0_def getNumOfTasks_def)
  have ops: "bi_allTaskOps ?s = ?ts" by (simp add: s0_def)
  obtain s where s: "visit_items 0 func ?s = Inr s" "same_rest ?s s"
    "bi_rep (length ?ts) (length ?bs) (operand_rel to_updateBarriers ?ts) (operand_rel to_waitBarriers ?ts) s"
    using visit_items_rep [OF rep, of func 0] assms unfolding ops operand_rel_def by auto
  have "buildBarrierMaps func = Inr s"
    using s(1) m(1) unfolding buildBarrierMaps_def Let_def s0_def [symmetric] by simp
  then show ?thesis using s(2,3) m(2) same_rest_blocks [OF s(2)]
    by (auto simp: same_rest_def s0_def empty_barrier_info_def)
qed


lemma count_before:
  assumes "t \<le> length xs"
  shows "length (filter (\<lambda>i. i < t) (filter (\<lambda>i. P (xs ! i)) [0..<length xs])) = length (filter P (take t xs))"
proof -
  have "{i. i < length [0..<length xs] \<and> [0..<length xs] ! i < t \<and> P (xs ! ([0..<length xs] ! i))} = {i. i < length (take t xs) \<and> P (take t xs ! i)}"
    using assms by auto
  then show ?thesis by (simp add: length_filter_conv_card conj_commute)
qed

section \<open>Properties\<close>

text \<open>
  C20. The state refines a pair of relations between barriers and tasks, the producers and the consumers:
  on a represented state every primitive change succeeds, makes the corresponding change to the relation
  and leaves both maps of each pair inverse to each other.
\<close>

theorem barrier_info_refines_relations:
  assumes "bi_rep n nb P C s" "b < nb" "t < n" "ts \<subseteq> {..<n}" "bars \<subseteq> {..<nb}"
  shows "(\<exists>s'. bi_addProducer b t s = Inr s' \<and> bi_rep n nb (insert (b, t) P) C s') \<and>
    (\<exists>s'. bi_addConsumer b t s = Inr s' \<and> bi_rep n nb P (insert (b, t) C) s') \<and>
    (\<exists>s'. addProducers b ts s = Inr s' \<and> bi_rep n nb (P \<union> {b} \<times> ts) C s') \<and>
    (\<exists>s'. addConsumers b ts s = Inr s' \<and> bi_rep n nb P (C \<union> {b} \<times> ts) s') \<and>
    (\<exists>s'. removeProducer b t s = Inr s' \<and> bi_rep n nb (P - {(b, t)}) C s') \<and>
    (\<exists>s'. removeConsumer b t s = Inr s' \<and> bi_rep n nb P (C - {(b, t)}) s') \<and>
    (\<exists>s'. removeProducers b ts s = Inr s' \<and> bi_rep n nb (P - {b} \<times> ts) C s') \<and>
    (\<exists>s'. removeConsumers b ts s = Inr s' \<and> bi_rep n nb P (C - {b} \<times> ts) s') \<and>
    (\<exists>s'. setUpdateBarriers t bars s = Inr s' \<and> bi_rep n nb (P - UNIV \<times> {t} \<union> bars \<times> {t}) C s') \<and>
    (\<exists>s'. setWaitBarriers t bars s = Inr s' \<and> bi_rep n nb P (C - UNIV \<times> {t} \<union> bars \<times> {t}) s') \<and>
    (\<exists>s'. resetBarrier b s = Inr s' \<and> bi_rep n nb (P - {b} \<times> UNIV) (C - {b} \<times> UNIV) s') \<and>
    bi_rep n (Suc nb) P C (snd (addNewBarrier op s))"
  using addProducer_rep [OF assms(1-3)] addConsumer_rep [OF assms(1-3)] addProducers_rep [OF assms(1,2,4)]
    addConsumers_rep [OF assms(1,2,4)] removeProducer_rep [OF assms(1-3)] removeConsumer_rep [OF assms(1-3)]
    removeProducers_rep [OF assms(1,2,4)] removeConsumers_rep [OF assms(1,2,4)] setUpdateBarriers_rep [OF assms(1,3,5)]
    setWaitBarriers_rep [OF assms(1,3,5)] resetBarrier_rep [OF assms(1,2)] addNewBarrier_rep [OF assms(1)]
  by (intro conjI) blast+

text \<open>
  C38. The constructor numbers tasks and barriers in their order and records exactly the operands of
  the tasks: a task produces the barriers it updates and consumes those it waits for.  The synchronization tasks are the
  tasks marked as such, in order, and every task is in the block after as many marked tasks as precede it.
\<close>

theorem buildBarrierMaps_reads_the_function:
  assumes "\<forall>op\<in>set (item_tasks func). operands_ok (length (item_barriers func)) op"
    "\<forall>b\<in>set (item_barriers func). bo_hasBarrier b \<and> bo_onlyTaskUsers b"
  shows "\<exists>s. buildBarrierMaps func = Inr s \<and> bi_allTaskOps s = item_tasks func \<and> bi_allBarrierOps s = item_barriers func \<and>
    bi_rep (length (item_tasks func)) (length (item_barriers func)) (operand_rel to_updateBarriers (item_tasks func))
      (operand_rel to_waitBarriers (item_tasks func)) s \<and>
    bi_syncTasksIds s = filter (\<lambda>i. to_syncTask (item_tasks func ! i)) [0..<length (item_tasks func)] \<and>
    (\<forall>t<length (item_tasks func). getControlGraphBlockIndex s t =
      Inr (length (filter to_syncTask (take t (item_tasks func)))))"
proof -
  let ?ts = "item_tasks func"
  obtain s where s: "buildBarrierMaps func = Inr s" "blocks_ok s" "bi_allTaskOps s = ?ts" "bi_allBarrierOps s = item_barriers func"
    "bi_rep (length ?ts) (length (item_barriers func)) (operand_rel to_updateBarriers ?ts) (operand_rel to_waitBarriers ?ts) s"
    and sync: "bi_syncTasksIds s = filter (\<lambda>i. to_syncTask (?ts ! i)) [0..<length ?ts]"
    using buildBarrierMaps_rep [OF assms] by blast
  have "getControlGraphBlockIndex s t = Inr (length (filter (\<lambda>i. i < t) (bi_syncTasksIds s)))" if "t < length ?ts" for t
    using s(2,3) that by (auto simp: getControlGraphBlockIndex_def blocks_ok_def getNumOfTasks_def)
  then have "getControlGraphBlockIndex s t = Inr (length (filter to_syncTask (take t ?ts)))" if "t < length ?ts" for t
    unfolding sync using count_before [of t ?ts to_syncTask] that by simp
  then show ?thesis using s sync by blast
qed

text \<open>Three tasks in a row with a barrier between each two; the second is a synchronization task.\<close>

definition example_task :: "bool \<Rightarrow> nat option list \<Rightarrow> nat option list \<Rightarrow> task_op" where
  "example_task sync waits updates = \<lparr>to_executorKind = DMA_NN, to_inner = DmaTask (Some 0) (Some CHANNEL_DDR), to_perVariantBarriers = False,
     to_syncTask = sync, to_waitBarriers = waits, to_updateBarriers = updates\<rparr>"

definition example_func :: "func_item list" where
  "example_func = [BarrierItem new_barrier_op, BarrierItem new_barrier_op, TaskItem (example_task False [] [Some 0]),
     TaskItem (example_task True [Some 0] [Some 1]), TaskItem (example_task False [Some 1] [])]"

lemma example_items:
  "item_tasks example_func = [example_task False [] [Some 0], example_task True [Some 0] [Some 1], example_task False [Some 1] []]"
  "item_barriers example_func = [new_barrier_op, new_barrier_op]"
  by (simp_all add: item_tasks_def item_barriers_def example_func_def)

lemma example_operands:
  "\<forall>op\<in>set (item_tasks example_func). operands_ok (length (item_barriers example_func)) op"
  "\<forall>b\<in>set (item_barriers example_func). bo_hasBarrier b \<and> bo_onlyTaskUsers b"
  unfolding example_items by (simp_all add: operands_ok_def example_task_def new_barrier_op_def)

theorem buildBarrierMaps_reads_the_function_witness:
  "\<exists>s. buildBarrierMaps example_func = Inr s \<and> bi_rep 3 2 (operand_rel to_updateBarriers (item_tasks example_func))
     (operand_rel to_waitBarriers (item_tasks example_func)) s \<and> bi_syncTasksIds s = [1] \<and>
     getControlGraphBlockIndex s 1 = Inr 0 \<and> getControlGraphBlockIndex s 2 = Inr 1"
proof -
  have n: "length (item_tasks example_func) = 3" "length (item_barriers example_func) = 2" by (simp_all add: example_items)
  obtain s where s: "buildBarrierMaps example_func = Inr s"
    "bi_rep 3 2 (operand_rel to_updateBarriers (item_tasks example_func)) (operand_rel to_waitBarriers (item_tasks example_func)) s"
    "bi_syncTasksIds s = filter (\<lambda>i. to_syncTask (item_tasks example_func ! i)) [0..<3]"
    "\<forall>t<3. getControlGraphBlockIndex s t = Inr (length (filter to_syncTask (take t (item_tasks example_func))))"
    using buildBarrierMaps_reads_the_function [OF example_operands] unfolding n by blast
  have "bi_syncTasksIds s = [1]" unfolding s(3) by (simp add: example_items example_task_def upt_rec)
  moreover have "getControlGraphBlockIndex s 1 = Inr 0" "getControlGraphBlockIndex s 2 = Inr 1"
    using s(4) by (simp_all add: example_items example_task_def)
  ultimately show ?thesis using s(1,2) by blast
qed

theorem barrier_info_refines_relations_witness:
  "\<exists>s s'. bi_rep 3 2 {} {} s \<and> bi_addProducer 1 0 s = Inr s' \<and> bi_rep 3 2 {(1, 0)} {} s'"
proof -
  let ?s = "empty_barrier_info\<lparr>bi_allTaskOps := replicate 3 (example_task False [] []),
    bi_taskWaitBarriers := replicate 3 {}, bi_taskUpdateBarriers := replicate 3 {},
    bi_barrierConsumerMap := replicate 2 {}, bi_barrierProducerMap := replicate 2 {}\<rparr>"
  have "bi_rep 3 2 {} {} ?s"
    using represents_empty [of 3 2] by (simp add: bi_rep_def producer_maps_def consumer_maps_def getNumOfTasks_def)
  moreover from barrier_info_refines_relations [OF this, of 1 0 "{}" "{}"]
  have "\<exists>s'. bi_addProducer 1 0 ?s = Inr s' \<and> bi_rep 3 2 {(1, 0)} {} s'" by simp
  ultimately show ?thesis by blast
qed

text \<open>
  The bound of \<^verbatim>\<open>getWaitBarriers\<close> is off by one: one past the end its check passes and the access
  is out of range, where the other accessors throw.
\<close>

lemma getWaitBarriers_off_by_one:
  "getWaitBarriers s (length (bi_taskWaitBarriers s)) = Inl Assertion_Failure"
  "getUpdateBarriers s (length (bi_taskUpdateBarriers s)) = Inl (Vpux_Throw ''Task not found in _taskUpdateBarriers'')"
  by (simp_all add: getWaitBarriers_def getUpdateBarriers_def vec_at_def)

end
