(* ===== verification/Barrier_Queues.thy ===== *)
theory Barrier_Queues
  imports Barrier_Info
begin

text \<open>
  The tasks of every hardware queue in \<^verbatim>\<open>src/core/barrier_info.cpp\<close>: \<^verbatim>\<open>_taskQueueTypeMap\<close>
  maps a queue to the bit vector of its tasks.  The \<^verbatim>\<open>std::map\<close> is the list of its entries, sorted
  by queue.  What the source reads off the module, the numbers of DMA ports, of clusters and of
  SHAVE engines and the option for one FIFO per engine, is the record \<^verbatim>\<open>platform\<close>.
\<close>

record platform =
  pf_arch :: arch_kind
  pf_dmaPorts :: nat
  pf_numClusters :: "nat option"
  pf_shavesPerCluster :: nat
  pf_fifoPerShaveEngine :: bool

type_synonym queue_map = "(queue_type \<times> bit_vector) list"

text \<open>\<^verbatim>\<open>std::map::insert\<close>, which keeps the entry of a key that is present.\<close>

fun queue_insert :: "queue_type \<Rightarrow> bit_vector \<Rightarrow> queue_map \<Rightarrow> queue_map" where
  "queue_insert q v [] = [(q, v)]"
| "queue_insert q v ((q', v') # m) =
     (if queue_less q q' then (q, v) # (q', v') # m
      else if q = q' then (q', v') # m else (q', v') # queue_insert q v m)"

definition not_initialized :: "'a res" where
  "not_initialized = Inl (Vpux_Throw ''Task queue map not initialized'')"

definition isTaskQueueTypeInitialized :: "barrier_info \<Rightarrow> queue_type \<Rightarrow> bool" where
  "isTaskQueueTypeInitialized s q =
     (if fst q = UNKNOWN_EXECUTOR then False else map_of (bi_taskQueueTypeMap s) q \<noteq> None)"

fun find_queue :: "queue_map \<Rightarrow> nat \<Rightarrow> queue_type res" where
  "find_queue [] taskInd = Inr (UNKNOWN_EXECUTOR, 0)"
| "find_queue ((q, v) # m) taskInd =
     res_bind (bv_test v taskInd) (\<lambda>found. if found then Inr q else find_queue m taskInd)"

definition getTaskQueueType :: "barrier_info \<Rightarrow> nat \<Rightarrow> queue_type res" where
  "getTaskQueueType s taskInd =
     (if bi_taskQueueTypeMap s = [] then not_initialized else find_queue (bi_taskQueueTypeMap s) taskInd)"

definition getNonEmptyTaskQueueTypes :: "barrier_info \<Rightarrow> queue_type list res" where
  "getNonEmptyTaskQueueTypes s =
     (if bi_taskQueueTypeMap s = [] then not_initialized
      else Inr (map fst (filter (\<lambda>e. snd (snd e) \<noteq> {}) (bi_taskQueueTypeMap s))))"

definition queue_tasks :: "barrier_info \<Rightarrow> queue_type \<Rightarrow> bit_vector res" where
  "queue_tasks s q =
     (if bi_taskQueueTypeMap s = [] then not_initialized
      else case map_of (bi_taskQueueTypeMap s) q of
             None \<Rightarrow> Inl (Vpux_Throw ''Task queue map not initialized for executor'') | Some v \<Rightarrow> Inr v)"

definition getLastTaskForQueueType :: "barrier_info \<Rightarrow> queue_type \<Rightarrow> nat res" where
  "getLastTaskForQueueType s q = res_bind (queue_tasks s q) (\<lambda>v.
     case bv_find_last v of None \<Rightarrow> Inl (Vpux_Throw ''No task for queue type'') | Some t \<Rightarrow> Inr t)"

definition check_task_index :: "barrier_info \<Rightarrow> nat \<Rightarrow> unit res" where
  "check_task_index s taskInd =
     (if \<not> getNumOfTasks s > taskInd then Inl (Vpux_Throw ''Task index out of range'') else Inr ())"

definition getPrevTaskOnQueue :: "barrier_info \<Rightarrow> nat \<Rightarrow> queue_type \<Rightarrow> nat option res" where
  "getPrevTaskOnQueue s taskInd q = res_bind (check_task_index s taskInd) (\<lambda>_.
     res_bind (queue_tasks s q) (\<lambda>v. Inr (bv_find_prev v taskInd)))"

definition getNextTaskOnQueue :: "barrier_info \<Rightarrow> nat \<Rightarrow> queue_type \<Rightarrow> nat option res" where
  "getNextTaskOnQueue s taskInd q = res_bind (check_task_index s taskInd) (\<lambda>_.
     res_bind (queue_tasks s q) (\<lambda>v. Inr (bv_find_next v taskInd)))"

function prev_with_wait_bar :: "index_map \<Rightarrow> bit_vector \<Rightarrow> nat \<Rightarrow> nat option res" where
  "prev_with_wait_bar waits v currentTaskInd =
     (case bv_find_prev v currentTaskInd of
        None \<Rightarrow> Inr None
      | Some prevTaskInd \<Rightarrow> res_bind (vec_at waits prevTaskInd) (\<lambda>bars.
          if bars = {} then prev_with_wait_bar waits v prevTaskInd else Inr (Some prevTaskInd)))"
  by pat_completeness auto

termination
  by (relation "measure (\<lambda>(waits, v, i). i)") (auto dest: bv_find_prev_less)

declare prev_with_wait_bar.simps [simp del]

definition getPrevTaskOnQueueWithWaitBar :: "barrier_info \<Rightarrow> nat \<Rightarrow> queue_type \<Rightarrow> nat option res" where
  "getPrevTaskOnQueueWithWaitBar s taskInd q = res_bind (check_task_index s taskInd) (\<lambda>_.
     res_bind (queue_tasks s q) (\<lambda>v. prev_with_wait_bar (bi_taskWaitBarriers s) v taskInd))"

definition getNumOfTasksOf :: "barrier_info \<Rightarrow> executor_kind \<Rightarrow> nat res" where
  "getNumOfTasksOf s kind =
     (if bi_taskQueueTypeMap s = [] then not_initialized
      else Inr (sum_list (map (\<lambda>(q, v). card (snd v)) (filter (\<lambda>(q, v). fst q = kind) (bi_taskQueueTypeMap s)))))"

section \<open>Building the map\<close>

text \<open>The queues of an executor kind, in the order in which their entries are inserted.\<close>

definition queues_of :: "platform \<Rightarrow> executor_kind \<Rightarrow> queue_type list res" where
  "queues_of pf kind =
     (case kind of
        DMA_NN \<Rightarrow> Inr (concat (map (\<lambda>port. map (\<lambda>c. (kind, getDMAQueueIdEncoding (int port) (Some c)))
          (getDMAChannelsWithIndependentLinkAgents (pf_arch pf))) [0..<pf_dmaPorts pf]))
      | DPU \<Rightarrow> (case pf_numClusters pf of None \<Rightarrow> Inl Assertion_Failure
          | Some n \<Rightarrow> Inr (map (\<lambda>c. (kind, int c)) [0..<n]))
      | SHAVE_ACT \<Rightarrow> (case pf_numClusters pf of
            None \<Rightarrow> Inl (Vpux_Throw ''Expected tileOp executor in order to query executor.'')
          | Some n \<Rightarrow> res_fold (\<lambda>c qs. res_fold (\<lambda>i qs.
              map_sum id (\<lambda>e. qs @ [(kind, e)]) (getShaveQueueIdEncoding (int n) (int c) (int i)))
              [0..<if pf_fifoPerShaveEngine pf then pf_shavesPerCluster pf else 1] qs) [0..<n] [])
      | _ \<Rightarrow> Inr [(kind, 0)])"

text \<open>\<^verbatim>\<open>checked_cast<uint32_t>\<close>\<close>

definition checked_u32 :: "nat \<Rightarrow> nat res" where
  "checked_u32 n = (if n < 2 ^ 32 then Inr n else Inl (Vpux_Throw ''Can not safely cast''))"

definition new_queue :: "queue_type \<Rightarrow> barrier_info \<Rightarrow> barrier_info res" where
  "new_queue q s = map_sum id (\<lambda>bits. s\<lparr>bi_taskQueueTypeMap := queue_insert q (bits, {}) (bi_taskQueueTypeMap s)\<rparr>)
     (checked_u32 (getNumOfTasks s))"

definition initializeTaskQueueTypeMap :: "platform \<Rightarrow> executor_kind list \<Rightarrow> barrier_info \<Rightarrow> barrier_info res" where
  "initializeTaskQueueTypeMap pf kinds = res_fold (\<lambda>kind s.
     res_bind (queues_of pf kind) (\<lambda>qs. res_fold new_queue qs s)) kinds"

definition clearTaskQueueTypeMap :: "barrier_info \<Rightarrow> barrier_info" where
  "clearTaskQueueTypeMap s = s\<lparr>bi_taskQueueTypeMap := []\<rparr>"

fun queue_set :: "queue_type \<Rightarrow> nat \<Rightarrow> queue_map \<Rightarrow> queue_map res" where
  "queue_set q i [] = Inr []"
| "queue_set q i ((q', v) # m) =
     (if q = q' then map_sum id (\<lambda>v. (q', v) # m) (bv_set i v) else map_sum id ((#) (q', v)) (queue_set q i m))"

definition enter_task :: "nat \<Rightarrow> barrier_info \<Rightarrow> barrier_info res" where
  "enter_task taskInd s = res_bind (getTaskQueueTypeOf (bi_allTaskOps s ! taskInd) False) (\<lambda>q.
     map_sum id (\<lambda>m. s\<lparr>bi_taskQueueTypeMap := m\<rparr>) (queue_set q taskInd (bi_taskQueueTypeMap s)))"

definition buildTaskQueueTypeMap :: "platform \<Rightarrow> barrier_info \<Rightarrow> barrier_info res" where
  "buildTaskQueueTypeMap pf s =
     res_bind (if bi_taskQueueTypeMap s = []
               then initializeTaskQueueTypeMap pf ([DMA_NN, DPU] @ (if pf_fifoPerShaveEngine pf then [SHAVE_ACT] else [])) s
               else Inr s) (\<lambda>s.
     res_fold enter_task
       (rev [0..<getNumOfTasks s]) s)"

section \<open>Lemmas\<close>

text \<open>Entries are sorted by queue, their vectors have one bit for every task.\<close>

definition queues_ok :: "barrier_info \<Rightarrow> bool" where
  "queues_ok s \<longleftrightarrow> sorted_wrt queue_less (map fst (bi_taskQueueTypeMap s)) \<and>
     (\<forall>(q, v)\<in>set (bi_taskQueueTypeMap s). bv_ok (getNumOfTasks s) v)"

lemma queue_less_irrefl: "\<not> queue_less q q"
  by (simp add: queue_less_def)

lemma queue_less_trans: "queue_less a b \<Longrightarrow> queue_less b c \<Longrightarrow> queue_less a c"
  by (auto simp: queue_less_def split: if_splits)

lemma queue_less_total: "queue_less a b \<or> a = b \<or> queue_less b a"
  by (cases a; cases b) (auto simp: queue_less_def)

lemma set_queue_insert: "set (queue_insert q v m) \<subseteq> insert (q, v) (set m)" "fst ` set (queue_insert q v m) = insert q (fst ` set m)"
  by (induction q v m rule: queue_insert.induct) (auto simp: image_iff)

lemma queue_insert_sorted:
  "sorted_wrt queue_less (map fst m) \<Longrightarrow> sorted_wrt queue_less (map fst (queue_insert q v m))"
proof (induction m)
  case (Cons e m)
  obtain q' v' where e: "e = (q', v')" by (cases e)
  have "\<forall>x\<in>fst ` set (queue_insert q v m). queue_less q' x" if "\<not> queue_less q q'" "q \<noteq> q'"
    using Cons.prems that queue_less_total [of q q'] by (auto simp: e set_queue_insert(2))
  then show ?case using Cons queue_less_trans by (auto simp: e)
qed simp

lemma queue_set_spec:
  assumes "queue_set q i m = Inr m'"
  shows "map fst m' = map fst m"
    "sorted_wrt queue_less (map fst m) \<Longrightarrow> (k, w) \<in> set m' \<longleftrightarrow>
      (\<exists>v. (k, v) \<in> set m \<and> (if k = q then i < fst v \<and> w = (fst v, insert i (snd v)) else w = v))"
  using assms
proof (induction q i m arbitrary: m' rule: queue_set.induct)
  case (2 q i q' v m)
  { case 1
    then show ?case using "2.IH" by (auto simp: map_sum_eq_Inr split: if_splits)
  next
    case 2
    have not_in: "(q', u) \<notin> set m" for u
    proof
      assume "(q', u) \<in> set m"
      then have "queue_less q' q'" using 2(1) by auto
      then show False by (simp add: queue_less_irrefl)
    qed
    show ?case
    proof (cases "q = q'")
      case True
      then show ?thesis using 2(2) not_in by (cases v; cases w; cases "k = q'") (auto simp: map_sum_eq_Inr bv_set_def split: if_splits)
    next
      case False
      then obtain m'' where m'': "queue_set q i m = Inr m''" "m' = (q', v) # m''" using 2(2) by (auto simp: map_sum_eq_Inr)
      note ih = "2.IH"(2) [OF False _ m''(1)]
      show ?thesis
      proof (cases "k = q'")
        case True
        then have "(k, w) \<notin> set m''" using ih 2(1) not_in False by auto
        then show ?thesis using True False not_in unfolding m''(2) by (metis insert_iff list.simps(15) prod.inject)
      next
        case other: False
        then show ?thesis using ih 2(1) unfolding m''(2) by simp
      qed
    qed }
qed simp_all

lemma queue_set_total:
  "\<forall>(k, v)\<in>set m. i < fst v \<Longrightarrow> \<exists>m'. queue_set q i m = Inr m'"
proof (induction m)
  case (Cons e m)
  then obtain m' where "queue_set q i m = Inr m'" by auto
  then show ?case using Cons.prems by (cases e) (simp add: bv_set_def)
qed simp

text \<open>What the entries of an initialized map are after the tasks of a list have been entered.\<close>

definition qmap_of :: "nat \<Rightarrow> (nat \<Rightarrow> queue_type) \<Rightarrow> nat set \<Rightarrow> queue_map \<Rightarrow> bool" where
  "qmap_of n qt ts m \<longleftrightarrow> sorted_wrt queue_less (map fst m) \<and> (\<forall>(q, v)\<in>set m. v = (n, {t \<in> ts. qt t = q}))"

lemma qmap_of_set:
  assumes "qmap_of n qt ts m" "t < n"
  shows "\<exists>m'. queue_set (qt t) t m = Inr m' \<and> qmap_of n qt (insert t ts) m' \<and> map fst m' = map fst m"
proof -
  have s: "sorted_wrt queue_less (map fst m)" and e: "\<forall>(q, v)\<in>set m. v = (n, {t \<in> ts. qt t = q})"
    using assms(1) by (auto simp: qmap_of_def)
  have "\<forall>(k, v)\<in>set m. t < fst v" using e assms(2) by auto
  from queue_set_total [OF this] obtain m' where m': "queue_set (qt t) t m = Inr m'" by blast
  note keys = queue_set_spec(1) [OF m']
  have "w = (n, {u \<in> insert t ts. qt u = q})" if w: "(q, w) \<in> set m'" for q w
  proof -
    obtain v where v: "(q, v) \<in> set m" "if q = qt t then t < fst v \<and> w = (fst v, insert t (snd v)) else w = v"
      using queue_set_spec(2) [OF m' s] w by blast
    have "v = (n, {t \<in> ts. qt t = q})" using e v(1) by blast
    then show ?thesis using v(2) by (auto split: if_splits)
  qed
  then have "qmap_of n qt (insert t ts) m'" using s keys by (auto simp: qmap_of_def)
  then show ?thesis using m' keys by blast
qed

lemma enter_tasks:
  assumes "\<forall>t\<in>set ts. t < getNumOfTasks s \<and> getTaskQueueTypeOf (bi_allTaskOps s ! t) False = Inr (qt t)"
    "qmap_of (getNumOfTasks s) qt U (bi_taskQueueTypeMap s)"
  shows "\<exists>m. res_fold enter_task ts s =
     Inr (s\<lparr>bi_taskQueueTypeMap := m\<rparr>) \<and> qmap_of (getNumOfTasks s) qt (U \<union> set ts) m \<and>
       map fst m = map fst (bi_taskQueueTypeMap s)"
  using assms
proof (induction ts arbitrary: s U)
  case Nil
  then show ?case by (intro exI [of _ "bi_taskQueueTypeMap s"]) simp
next
  case (Cons t ts)
  obtain m1 where m1: "queue_set (qt t) t (bi_taskQueueTypeMap s) = Inr m1"
    "qmap_of (getNumOfTasks s) qt (insert t U) m1" "map fst m1 = map fst (bi_taskQueueTypeMap s)"
    using qmap_of_set [OF Cons.prems(2)] Cons.prems(1) by auto
  let ?s = "s\<lparr>bi_taskQueueTypeMap := m1\<rparr>"
  have n: "getNumOfTasks ?s = getNumOfTasks s" by (simp add: getNumOfTasks_def)
  from Cons.IH [of ?s "insert t U"] Cons.prems(1) m1(2,3) show ?case
    using Cons.prems(1) m1(1) by (simp add: n enter_task_def)
qed

lemma insert_queues:
  assumes "qmap_of (getNumOfTasks s) qt {} (bi_taskQueueTypeMap s)" "getNumOfTasks s < 2 ^ 32"
  shows "\<exists>m. res_fold new_queue qs s = Inr (s\<lparr>bi_taskQueueTypeMap := m\<rparr>) \<and>
     qmap_of (getNumOfTasks s) qt {} m \<and> fst ` set m = set qs \<union> fst ` set (bi_taskQueueTypeMap s)"
  using assms
proof (induction qs arbitrary: s)
  case Nil
  then show ?case by (intro exI [of _ "bi_taskQueueTypeMap s"]) simp
next
  case (Cons q qs)
  let ?m = "queue_insert q (getNumOfTasks s, {}) (bi_taskQueueTypeMap s)"
  let ?s = "s\<lparr>bi_taskQueueTypeMap := ?m\<rparr>"
  have n: "getNumOfTasks ?s = getNumOfTasks s" by (simp add: getNumOfTasks_def)
  have "qmap_of (getNumOfTasks s) qt {} ?m"
    using Cons.prems(1) set_queue_insert(1) [of q "(getNumOfTasks s, {})" "bi_taskQueueTypeMap s"] queue_insert_sorted
    unfolding qmap_of_def by auto
  with Cons.IH [of ?s] Cons.prems(2) show ?case
    by (simp add: n new_queue_def checked_u32_def set_queue_insert(2))
qed

lemma initialize_spec:
  assumes "\<forall>k\<in>set kinds. queues_of pf k = Inr (qs k)" "getNumOfTasks s < 2 ^ 32"
    "qmap_of (getNumOfTasks s) qt {} (bi_taskQueueTypeMap s)"
  shows "\<exists>m. initializeTaskQueueTypeMap pf kinds s = Inr (s\<lparr>bi_taskQueueTypeMap := m\<rparr>) \<and>
    qmap_of (getNumOfTasks s) qt {} m \<and> fst ` set m = (\<Union>k\<in>set kinds. set (qs k)) \<union> fst ` set (bi_taskQueueTypeMap s)"
  using assms
proof (induction kinds arbitrary: s)
  case Nil
  then show ?case by (intro exI [of _ "bi_taskQueueTypeMap s"]) (simp add: initializeTaskQueueTypeMap_def)
next
  case (Cons k kinds)
  obtain m1 where m1: "res_fold new_queue (qs k) s = Inr (s\<lparr>bi_taskQueueTypeMap := m1\<rparr>)"
    "qmap_of (getNumOfTasks s) qt {} m1" "fst ` set m1 = set (qs k) \<union> fst ` set (bi_taskQueueTypeMap s)"
    using insert_queues [OF Cons.prems(3,2)] by blast
  let ?s = "s\<lparr>bi_taskQueueTypeMap := m1\<rparr>"
  have n: "getNumOfTasks ?s = getNumOfTasks s" by (simp add: getNumOfTasks_def)
  have "initializeTaskQueueTypeMap pf (k # kinds) s = initializeTaskQueueTypeMap pf kinds ?s"
    using Cons.prems(1) m1(1) by (simp add: initializeTaskQueueTypeMap_def)
  with Cons.IH [of ?s] Cons.prems(1,2) m1(2,3) show ?case by (simp add: n Un_assoc Un_left_commute)
qed

definition fifo_executors :: "platform \<Rightarrow> executor_kind list" where
  "fifo_executors pf = [DMA_NN, DPU] @ (if pf_fifoPerShaveEngine pf then [SHAVE_ACT] else [])"

lemma find_queue_qmap:
  assumes "qmap_of n qt {..<n} m" "t < n"
  shows "find_queue m t = Inr (if qt t \<in> fst ` set m then qt t else (UNKNOWN_EXECUTOR, 0))"
  using assms
proof (induction m)
  case (Cons e m)
  obtain q v where e: "e = (q, v)" by (cases e)
  have "v = (n, {u \<in> {..<n}. qt u = q})" "qmap_of n qt {..<n} m" using Cons.prems by (auto simp: qmap_of_def e)
  then show ?case using Cons.IH Cons.prems(2) by (auto simp: e bv_test_def)
qed simp

lemma qmap_lookup:
  assumes "qmap_of n qt ts m" "q \<in> fst ` set m"
  shows "map_of m q = Some (n, {t \<in> ts. qt t = q})"
proof -
  obtain v where "map_of m q = Some v" using assms(2) by (metis map_of_eq_None_iff option.exhaust)
  moreover from map_of_SomeD [OF this] have "v = (n, {t \<in> ts. qt t = q})" using assms(1) by (auto simp: qmap_of_def)
  ultimately show ?thesis by simp
qed

lemma prev_with_wait_bar_spec:
  assumes "finite (snd v)" "snd v \<subseteq> {..<length waits}"
  shows "prev_with_wait_bar waits v i = Inr (let A = {t \<in> snd v. t < i \<and> waits ! t \<noteq> {}} in if A = {} then None else Some (Max A))"
proof (induction i rule: less_induct)
  case (less i)
  show ?case
  proof (cases "bv_find_prev v i")
    case None
    then have "{t \<in> snd v. t < i \<and> waits ! t \<noteq> {}} = {}" using assms(1) by (auto simp: bv_find_prev_None)
    then show ?thesis using None by (simp add: prev_with_wait_bar.simps)
  next
    case (Some j)
    then have j: "j \<in> snd v" "j < i" "\<forall>k\<in>snd v. k < i \<longrightarrow> k \<le> j" using assms(1) by (auto simp: bv_find_prev_Some)
    have len: "j < length waits" using j(1) assms(2) by auto
    show ?thesis
    proof (cases "waits ! j = {}")
      case True
      have "{t \<in> snd v. t < i \<and> waits ! t \<noteq> {}} = {t \<in> snd v. t < j \<and> waits ! t \<noteq> {}}"
        using j True by (auto simp: less_le)
      then show ?thesis using less.IH [OF j(2)] Some len True by (simp add: prev_with_wait_bar.simps [of _ _ i] vec_at_def)
    next
      case False
      then have "j \<in> {t \<in> snd v. t < i \<and> waits ! t \<noteq> {}}" using j by simp
      moreover have "Max {t \<in> snd v. t < i \<and> waits ! t \<noteq> {}} = j"
        using j False assms(1) by (intro Max_eqI) auto
      ultimately show ?thesis using Some len False by (auto simp: prev_with_wait_bar.simps [of _ _ i] vec_at_def Let_def)
    qed
  qed
qed

section \<open>Properties\<close>

text \<open>
  Starting without a map, the queues of the platform's executors are the keys, and every queue
  holds exactly the tasks that run on it; a task on none of them has the unknown queue.  The next and the previous
  task on a queue, and the previous one that waits for a barrier, are the nearest such tasks.
\<close>

theorem buildTaskQueueTypeMap_partitions_tasks:
  assumes "bi_taskQueueTypeMap s = []" "\<forall>k\<in>set (fifo_executors pf). queues_of pf k = Inr (qs k)" "getNumOfTasks s < 2 ^ 32"
    "\<forall>t<getNumOfTasks s. getTaskQueueTypeOf (bi_allTaskOps s ! t) False = Inr (qt t)"
    "pf_dmaPorts pf > 0" "length (bi_taskWaitBarriers s) = getNumOfTasks s"
  shows "\<exists>m. buildTaskQueueTypeMap pf s = Inr (s\<lparr>bi_taskQueueTypeMap := m\<rparr>) \<and>
    fst ` set m = (\<Union>k\<in>set (fifo_executors pf). set (qs k)) \<and>
    (\<forall>t<getNumOfTasks s. getTaskQueueType (s\<lparr>bi_taskQueueTypeMap := m\<rparr>) t =
       Inr (if qt t \<in> fst ` set m then qt t else (UNKNOWN_EXECUTOR, 0))) \<and>
    (\<forall>q\<in>fst ` set m. \<forall>t<getNumOfTasks s.
       getPrevTaskOnQueueWithWaitBar (s\<lparr>bi_taskQueueTypeMap := m\<rparr>) t q =
         Inr (let A = {u. u < t \<and> qt u = q \<and> bi_taskWaitBarriers s ! u \<noteq> {}} in if A = {} then None else Some (Max A)) \<and>
       getNextTaskOnQueue (s\<lparr>bi_taskQueueTypeMap := m\<rparr>) t q =
         Inr (let A = {u. t < u \<and> u < getNumOfTasks s \<and> qt u = q} in if A = {} then None else Some (Min A)))"
proof -
  let ?n = "getNumOfTasks s" and ?kinds = "fifo_executors pf"
  have "qmap_of ?n qt {} (bi_taskQueueTypeMap s)" by (simp add: qmap_of_def assms(1))
  from initialize_spec [OF assms(2,3) this] obtain m0 where m0:
    "initializeTaskQueueTypeMap pf ?kinds s = Inr (s\<lparr>bi_taskQueueTypeMap := m0\<rparr>)"
    "qmap_of ?n qt {} m0" "fst ` set m0 = (\<Union>k\<in>set ?kinds. set (qs k))" using assms(1) by auto
  let ?s = "s\<lparr>bi_taskQueueTypeMap := m0\<rparr>"
  have n: "getNumOfTasks ?s = ?n" by (simp add: getNumOfTasks_def)
  obtain m where m: "buildTaskQueueTypeMap pf s = Inr (s\<lparr>bi_taskQueueTypeMap := m\<rparr>)"
    "qmap_of ?n qt {..<?n} m" "map fst m = map fst m0"
    using enter_tasks [of "rev [0..<?n]" ?s qt "{}"] assms(4) m0(1,2)
    by (auto simp: buildTaskQueueTypeMap_def assms(1) fifo_executors_def n atLeast0LessThan)
  have keys: "fst ` set m = (\<Union>k\<in>set ?kinds. set (qs k))" using m(3) m0(3) by (metis list.set_map)
  let ?t = "s\<lparr>bi_taskQueueTypeMap := m\<rparr>"
  have "queues_of pf DMA_NN = Inr (qs DMA_NN)" using assms(2) by (simp add: fifo_executors_def)
  moreover have "getDMAChannelsWithIndependentLinkAgents a \<noteq> []" for a
    by (simp add: getDMAChannelsWithIndependentLinkAgents_def)
  ultimately have "qs DMA_NN \<noteq> []" using assms(5) by (auto simp: queues_of_def intro!: bexI [of _ 0])
  then have "set (qs DMA_NN) \<noteq> {}" by simp
  then have "fst ` set m \<noteq> {}" unfolding keys by (auto simp: fifo_executors_def)
  then have ne: "m \<noteq> []" by auto
  have n': "getNumOfTasks ?t = ?n" by (simp add: getNumOfTasks_def)
  have find: "getTaskQueueType ?t u = Inr (if qt u \<in> fst ` set m then qt u else (UNKNOWN_EXECUTOR, 0))" if "u < ?n" for u
    using find_queue_qmap [OF m(2) that] ne by (simp add: getTaskQueueType_def)
  have lookup: "queue_tasks ?t q = Inr (?n, {t. t < ?n \<and> qt t = q})" if "q \<in> fst ` set m" for q
    using qmap_lookup [OF m(2) that] ne by (simp add: queue_tasks_def)
  have prev: "getPrevTaskOnQueueWithWaitBar ?t u q =
     Inr (let A = {v. v < u \<and> qt v = q \<and> bi_taskWaitBarriers s ! v \<noteq> {}} in if A = {} then None else Some (Max A))"
    if "q \<in> fst ` set m" "u < ?n" for q u
  proof -
    have e: "{t \<in> snd (?n, {t. t < ?n \<and> qt t = q}). t < u \<and> bi_taskWaitBarriers s ! t \<noteq> {}} =
        {v. v < u \<and> qt v = q \<and> bi_taskWaitBarriers s ! v \<noteq> {}}" using that(2) by auto
    have "snd (?n, {t. t < ?n \<and> qt t = q}) \<subseteq> {..<length (bi_taskWaitBarriers s)}" using assms(6) by auto
    note p = prev_with_wait_bar_spec [OF finite_subset [OF this] this, of u, simplified e]
    have "getPrevTaskOnQueueWithWaitBar ?t u q = prev_with_wait_bar (bi_taskWaitBarriers s) (?n, {t. t < ?n \<and> qt t = q}) u"
      using that by (simp add: getPrevTaskOnQueueWithWaitBar_def lookup check_task_index_def n')
    then show ?thesis by (simp only: p finite_lessThan)
  qed
  have succ: "getNextTaskOnQueue ?t u q =
     Inr (let A = {v. u < v \<and> v < ?n \<and> qt v = q} in if A = {} then None else Some (Min A))"
    if "q \<in> fst ` set m" "u < ?n" for q u
  proof -
    let ?A = "{v. u < v \<and> v < ?n \<and> qt v = q}"
    have fin: "finite ?A" by simp
    have "bv_find_next (?n, {t. t < ?n \<and> qt t = q}) u = (if ?A = {} then None else Some (Min ?A))"
    proof (cases "?A = {}")
      case True
      then show ?thesis by (auto simp: bv_find_next_None)
    next
      case False
      have "Min ?A \<in> ?A" "\<forall>k\<in>?A. Min ?A \<le> k" using Min_in [OF fin False] Min_le [OF fin] by blast+
      then have "bv_find_next (?n, {t. t < ?n \<and> qt t = q}) u = Some (Min ?A)" by (simp add: bv_find_next_Some)
      then show ?thesis using False by (simp only: if_False)
    qed
    then show ?thesis using that by (simp add: getNextTaskOnQueue_def lookup check_task_index_def n' Let_def)
  qed
  show ?thesis using m(1) keys find prev succ by (intro exI [of _ m]) simp
qed

definition example_platform :: platform where
  "example_platform = \<lparr>pf_arch = NPU37XX, pf_dmaPorts = 1, pf_numClusters = Some 1, pf_shavesPerCluster = 1,
     pf_fifoPerShaveEngine = False\<rparr>"

definition example_queue_task :: "dma_channel option \<Rightarrow> task_op" where
  "example_queue_task c = \<lparr>to_executorKind = DMA_NN, to_inner = DmaTask (Some 0) c, to_perVariantBarriers = False,
     to_syncTask = False, to_waitBarriers = [], to_updateBarriers = []\<rparr>"

definition example_queue_info :: barrier_info where
  "example_queue_info = empty_barrier_info\<lparr>bi_allTaskOps := [example_queue_task None, example_queue_task (Some CHANNEL_CMX), example_queue_task None],
     bi_taskWaitBarriers := [{0}, {}, {}]\<rparr>"

theorem buildTaskQueueTypeMap_partitions_tasks_witness:
  "\<exists>m. buildTaskQueueTypeMap example_platform example_queue_info = Inr (example_queue_info\<lparr>bi_taskQueueTypeMap := m\<rparr>) \<and>
     fst ` set m = {(DMA_NN, 2), (DPU, 0)} \<and>
     getTaskQueueType (example_queue_info\<lparr>bi_taskQueueTypeMap := m\<rparr>) 1 = Inr (UNKNOWN_EXECUTOR, 0) \<and>
     getTaskQueueType (example_queue_info\<lparr>bi_taskQueueTypeMap := m\<rparr>) 2 = Inr (DMA_NN, 2)"
proof -
  let ?qs = "\<lambda>k. if k = DMA_NN then [(DMA_NN, 2)] else [(DPU, 0)]"
  let ?qt = "\<lambda>t. if t = (1::nat) then (DMA_NN, 1) else (DMA_NN, 2)"
  have n: "getNumOfTasks example_queue_info = 3" by (simp add: getNumOfTasks_def example_queue_info_def)
  have 1: "bi_taskQueueTypeMap example_queue_info = []" by (simp add: example_queue_info_def empty_barrier_info_def)
  have 2: "\<forall>k\<in>set (fifo_executors example_platform). queues_of example_platform k = Inr (?qs k)"
    by (simp add: fifo_executors_def example_platform_def queues_of_def getDMAChannelsWithIndependentLinkAgents_def
        getDMAQueueIdEncoding_def getDMAQueueIdEncodingIdx_def)
  have 3: "\<forall>t<getNumOfTasks example_queue_info. getTaskQueueTypeOf (bi_allTaskOps example_queue_info ! t) False = Inr (?qt t)"
    unfolding n by (auto simp: example_queue_info_def example_queue_task_def getTaskQueueTypeOf_def getDMAQueueIdEncoding_def
        getDMAQueueIdEncodingIdx_def less_Suc_eq numeral_3_eq_3)
  have 4: "getNumOfTasks example_queue_info < 2 ^ 32" "pf_dmaPorts example_platform > 0"
    "length (bi_taskWaitBarriers example_queue_info) = getNumOfTasks example_queue_info"
    by (simp_all add: n example_platform_def) (simp add: example_queue_info_def)
  have u: "(\<Union>k\<in>set (fifo_executors example_platform). set (?qs k)) = {(DMA_NN, 2), (DPU, 0)}"
    by (simp add: fifo_executors_def example_platform_def insert_commute)
  from buildTaskQueueTypeMap_partitions_tasks [OF 1 2 4(1) 3 4(2,3), unfolded u n]
  obtain m where m: "buildTaskQueueTypeMap example_platform example_queue_info = Inr (example_queue_info\<lparr>bi_taskQueueTypeMap := m\<rparr>)"
    "fst ` set m = {(DMA_NN, 2), (DPU, 0)}"
    "\<forall>t<3. getTaskQueueType (example_queue_info\<lparr>bi_taskQueueTypeMap := m\<rparr>) t =
       Inr (if ?qt t \<in> fst ` set m then ?qt t else (UNKNOWN_EXECUTOR, 0))" by blast
  then show ?thesis by (intro exI [of _ m]) simp
qed

end
