(* ===== verification/Task_Order.thy ===== *)
theory Task_Order
  imports Main
begin

text \<open>
  The order that barriers put on tasks.  Barriers relate producers to consumers: a task is before another
  one when it produces a barrier that the other one consumes.  This theory holds the facts on relations that show
  which producers and consumers can be dropped without changing the transitive closure.
\<close>

text \<open>\<^verbatim>\<open>(b, t)\<close> in \<^verbatim>\<open>P\<close>: the task produces the barrier; in \<^verbatim>\<open>C\<close>: it consumes it.\<close>

definition bar_dep :: "(nat \<times> nat) set \<Rightarrow> (nat \<times> nat) set \<Rightarrow> (nat \<times> nat) set" where
  "bar_dep P C = P\<inverse> O C"

lemma bar_dep_iff: "(a, b) \<in> bar_dep P C \<longleftrightarrow> (\<exists>x. (x, a) \<in> P \<and> (x, b) \<in> C)"
  by (auto simp: bar_dep_def)

lemma bar_dep_mono: "P \<subseteq> P' \<Longrightarrow> C \<subseteq> C' \<Longrightarrow> bar_dep P C \<subseteq> bar_dep P' C'"
  unfolding bar_dep_def by blast

definition forward :: "(nat \<times> nat) set \<Rightarrow> bool" where
  "forward R \<longleftrightarrow> (\<forall>(a, b)\<in>R. a < b)"

lemma forwardD: "forward R \<Longrightarrow> (a, b) \<in> R \<Longrightarrow> a < b"
  by (auto simp: forward_def)

lemma forward_mono: "R \<subseteq> S \<Longrightarrow> forward S \<Longrightarrow> forward R"
  by (auto simp: forward_def)

lemma forward_Un: "forward (R \<union> S) \<longleftrightarrow> forward R \<and> forward S"
  by (auto simp: forward_def)

lemma forward_trancl:
  assumes "(a, b) \<in> R\<^sup>+" "forward R"
  shows "a < b"
  using assms(1)
proof (induction rule: trancl_induct)
  case (base b)
  then show ?case using forwardD [OF assms(2)] by blast
next
  case (step b c)
  then show ?case using forwardD [OF assms(2) step(2)] by simp
qed

text \<open>A path between two tasks stays between them.\<close>

lemma path_inside:
  assumes "(a, b) \<in> R\<^sup>+" "forward R"
  shows "(a, b) \<in> (R \<inter> {(x, y). a \<le> x \<and> y \<le> b})\<^sup>+"
  using assms(1)
proof (induction rule: trancl_induct)
  case (base b)
  then show ?case by (auto intro: r_into_trancl)
next
  case (step b c)
  have bc: "b < c" "a < b" using forwardD [OF assms(2) step(2)] forward_trancl [OF step(1) assms(2)] by simp_all
  have "(R \<inter> {(x, y). a \<le> x \<and> y \<le> b})\<^sup>+ \<subseteq> (R \<inter> {(x, y). a \<le> x \<and> y \<le> c})\<^sup>+"
    using bc(1) by (intro trancl_mono_subset) auto
  then have "(a, b) \<in> (R \<inter> {(x, y). a \<le> x \<and> y \<le> c})\<^sup>+" using step(3) by blast
  moreover have "(b, c) \<in> R \<inter> {(x, y). a \<le> x \<and> y \<le> c}" using step(2) bc(2) by simp
  ultimately show ?case by (rule trancl_into_trancl)
qed

lemma path_by_shorter_edges:
  assumes "(a, b) \<in> R\<^sup>+" "forward R" "\<And>x y. (x, y) \<in> R \<Longrightarrow> a \<le> x \<Longrightarrow> y \<le> b \<Longrightarrow> (x, y) \<in> S\<^sup>+"
  shows "(a, b) \<in> S\<^sup>+"
proof -
  have "R \<inter> {(x, y). a \<le> x \<and> y \<le> b} \<subseteq> S\<^sup>+" using assms(3) by auto
  then have "(R \<inter> {(x, y). a \<le> x \<and> y \<le> b})\<^sup>+ \<subseteq> (S\<^sup>+)\<^sup>+" by (rule trancl_mono_subset)
  then show ?thesis using path_inside [OF assms(1,2)] by auto
qed

text \<open>
  Producers whose barrier another task further on also produces can be dropped, and so can consumers whose
  barrier a task further back also consumes; \<^verbatim>\<open>F\<close> is order that does not come from barriers.
\<close>

lemma drop_producers:
  assumes fwd: "forward (bar_dep P C \<union> F)" and sub: "P' \<subseteq> P"
    and red: "\<And>b t. (b, t) \<in> P \<Longrightarrow> (b, t) \<notin> P' \<Longrightarrow> \<exists>u. (b, u) \<in> P \<and> (t, u) \<in> (bar_dep P C \<union> F)\<^sup>+"
  shows "(bar_dep P' C \<union> F)\<^sup>+ = (bar_dep P C \<union> F)\<^sup>+"
proof
  let ?R = "bar_dep P C \<union> F" and ?S = "bar_dep P' C \<union> F"
  show "?S\<^sup>+ \<subseteq> ?R\<^sup>+" using bar_dep_mono [OF sub, of C C] by (intro trancl_mono_subset) auto
  have edge: "(t, c) \<in> ?S\<^sup>+" if "(t, c) \<in> ?R" for t c
    using that
  proof (induction "c - t" arbitrary: t c rule: less_induct)
    case less
    show ?case
    proof (cases "(t, c) \<in> ?S")
      case True
      then show ?thesis by (rule r_into_trancl)
    next
      case False
      then obtain b where b: "(b, t) \<in> P" "(b, c) \<in> C" "(b, t) \<notin> P'" using less.prems by (auto simp: bar_dep_iff)
      from red [OF b(1,3)] obtain u where u: "(b, u) \<in> P" "(t, u) \<in> ?R\<^sup>+" by blast
      have uc: "(u, c) \<in> ?R" using u(1) b(2) by (auto simp: bar_dep_iff)
      have lt: "t < u" "u < c" using forward_trancl [OF u(2) fwd] forwardD [OF fwd uc] by simp_all
      have "(u, c) \<in> ?S\<^sup>+" using less.hyps [OF _ uc] lt by simp
      moreover have "(t, u) \<in> ?S\<^sup>+"
      proof (rule path_by_shorter_edges [OF u(2) fwd])
        fix x y assume xy: "(x, y) \<in> ?R" "t \<le> x" "y \<le> u"
        have "x < y" using forwardD [OF fwd xy(1)] .
        then show "(x, y) \<in> ?S\<^sup>+" using less.hyps [OF _ xy(1)] xy(2,3) lt by simp
      qed
      ultimately show ?thesis by (meson trancl_trans)
    qed
  qed
  then have "?R\<^sup>+ \<subseteq> (?S\<^sup>+)\<^sup>+" by (intro trancl_mono_subset) auto
  then show "?R\<^sup>+ \<subseteq> ?S\<^sup>+" by simp
qed

lemma drop_consumers:
  assumes fwd: "forward (bar_dep P C \<union> F)" and sub: "C' \<subseteq> C"
    and red: "\<And>b t. (b, t) \<in> C \<Longrightarrow> (b, t) \<notin> C' \<Longrightarrow> \<exists>u. (b, u) \<in> C \<and> (u, t) \<in> (bar_dep P C \<union> F)\<^sup>+"
  shows "(bar_dep P C' \<union> F)\<^sup>+ = (bar_dep P C \<union> F)\<^sup>+"
proof
  let ?R = "bar_dep P C \<union> F" and ?S = "bar_dep P C' \<union> F"
  show "?S\<^sup>+ \<subseteq> ?R\<^sup>+" using bar_dep_mono [of P P, OF _ sub] by (intro trancl_mono_subset) auto
  have edge: "(t, c) \<in> ?S\<^sup>+" if "(t, c) \<in> ?R" for t c
    using that
  proof (induction "c - t" arbitrary: t c rule: less_induct)
    case less
    show ?case
    proof (cases "(t, c) \<in> ?S")
      case True
      then show ?thesis by (rule r_into_trancl)
    next
      case False
      then obtain b where b: "(b, t) \<in> P" "(b, c) \<in> C" "(b, c) \<notin> C'" using less.prems by (auto simp: bar_dep_iff)
      from red [OF b(2,3)] obtain u where u: "(b, u) \<in> C" "(u, c) \<in> ?R\<^sup>+" by blast
      have tu: "(t, u) \<in> ?R" using u(1) b(1) by (auto simp: bar_dep_iff)
      have lt: "t < u" "u < c" using forward_trancl [OF u(2) fwd] forwardD [OF fwd tu] by simp_all
      have "(t, u) \<in> ?S\<^sup>+" using less.hyps [OF _ tu] lt by simp
      moreover have "(u, c) \<in> ?S\<^sup>+"
      proof (rule path_by_shorter_edges [OF u(2) fwd])
        fix x y assume xy: "(x, y) \<in> ?R" "u \<le> x" "y \<le> c"
        have "x < y" using forwardD [OF fwd xy(1)] .
        then show "(x, y) \<in> ?S\<^sup>+" using less.hyps [OF _ xy(1)] xy(2,3) lt by simp
      qed
      ultimately show ?thesis by (meson trancl_trans)
    qed
  qed
  then have "?R\<^sup>+ \<subseteq> (?S\<^sup>+)\<^sup>+" by (intro trancl_mono_subset) auto
  then show "?R\<^sup>+ \<subseteq> ?S\<^sup>+" by simp
qed

text \<open>
  Moving the consumers of a barrier to one with the same producers changes no dependency.
\<close>

lemma merge_barriers_dep:
  assumes "P `` {b} = P `` {c}" "b \<noteq> c"
  shows "bar_dep (P - {c} \<times> UNIV) (C \<union> {b} \<times> (C `` {c}) - {c} \<times> UNIV) = bar_dep P C"
proof -
  have "(x, y) \<in> bar_dep (P - {c} \<times> UNIV) (C \<union> {b} \<times> (C `` {c}) - {c} \<times> UNIV) \<longleftrightarrow> (x, y) \<in> bar_dep P C" for x y
    using assms unfolding bar_dep_iff by blast
  then show ?thesis by auto
qed

end
