(* ===== verification/Barrier_Control.thy ===== *)
theory Barrier_Control
  imports Barrier_Queues Task_Order
begin

text \<open>
  Which task of a block can only start after which other one, \<^verbatim>\<open>src/core/barrier_info.cpp\<close>:
  the dependencies of the hardware FIFOs, added as temporary barriers, the map of the control paths in a block,
  and the queries that use it.  The map is shown to be the transitive closure of the dependencies by barriers
  and by FIFOs, and the state to be the one from before the temporary barriers.
\<close>

definition bi_inRange :: "nat \<Rightarrow> nat \<Rightarrow> nat \<Rightarrow> bool" where
  "bi_inRange low high val \<longleftrightarrow> val \<ge> low \<and> val \<le> high"

definition setBarrierMask :: "bit_vector \<Rightarrow> nat set \<Rightarrow> nat \<Rightarrow> bit_vector res" where
  "setBarrierMask bits barriers offset =
     res_fold (\<lambda>bar m. bv_set (u64_sub bar offset mod 2 ^ 32) m) (sorted_list_of_set barriers) bits"

section \<open>Temporary barriers for the FIFOs\<close>

definition first_common :: "nat set \<Rightarrow> nat set \<Rightarrow> nat option" where
  "first_common setOne setTwo = find (\<lambda>b. b \<in> setTwo) (sorted_list_of_set setOne)"

text \<open>The common barrier, if there is one.\<close>

definition hasBarrierDependency :: "barrier_info \<Rightarrow> nat \<Rightarrow> nat \<Rightarrow> nat option res" where
  "hasBarrierDependency s taskOne taskTwo =
     res_bind (getUpdateBarriers s taskOne) (\<lambda>u. res_bind (getWaitBarriers s taskTwo) (\<lambda>w. Inr (first_common u w)))"

definition addTemporaryBarrierDependence :: "nat \<Rightarrow> nat \<Rightarrow> barrier_info \<Rightarrow> (nat \<times> barrier_info) res" where
  "addTemporaryBarrierDependence prevIndex currentIndex s =
     (let tempBarrierInd = length (bi_barrierProducerMap s);
          s1 = s\<lparr>bi_barrierProducerMap := bi_barrierProducerMap s @ [{}], bi_barrierConsumerMap := bi_barrierConsumerMap s @ [{}]\<rparr>
      in res_bind (bi_addProducer tempBarrierInd prevIndex s1) (\<lambda>s2.
         map_sum id (Pair tempBarrierInd) (bi_addConsumer tempBarrierInd currentIndex s2)))"

definition add_fifo_dependence :: "nat \<Rightarrow> nat \<Rightarrow> barrier_info \<times> nat \<Rightarrow> (barrier_info \<times> nat) res" where
  "add_fifo_dependence prevIndex currIndex = (\<lambda>(s, newDepsCount).
     res_bind (hasBarrierDependency s prevIndex currIndex) (\<lambda>common.
       case common of Some _ \<Rightarrow> Inr (s, newDepsCount)
       | None \<Rightarrow> res_bind (addTemporaryBarrierDependence prevIndex currIndex s) (\<lambda>(newBarrierIdx, s).
           Inr (s\<lparr>bi_fifoDependencies := bi_fifoDependencies s @ [(newBarrierIdx, prevIndex, currIndex)]\<rparr>, newDepsCount + 2))))"

text \<open>The loop over the neighbours on one FIFO up to the end of the block.\<close>

function walk_fifo :: "bit_vector \<Rightarrow> nat \<Rightarrow> nat \<Rightarrow> barrier_info \<times> nat \<Rightarrow> (barrier_info \<times> nat) res" where
  "walk_fifo fifoTasks blockEndInd prevIndex st =
     (case bv_find_next fifoTasks prevIndex of
        None \<Rightarrow> Inr st
      | Some currIndex \<Rightarrow>
          if currIndex \<le> blockEndInd
          then res_bind (add_fifo_dependence prevIndex currIndex st) (walk_fifo fifoTasks blockEndInd currIndex)
          else Inr st)"
  by pat_completeness auto

termination
  by (relation "measure (\<lambda>(v, e, i, st). e - i)") (auto dest: bv_find_next_gt)

declare walk_fifo.simps [simp del]

definition fifo_of_queue :: "executor_kind set option \<Rightarrow> nat \<Rightarrow> nat \<Rightarrow> queue_type \<times> bit_vector \<Rightarrow>
  barrier_info \<times> nat \<Rightarrow> (barrier_info \<times> nat) res" where
  "fifo_of_queue executorKind blockStartInd blockEndInd entry st =
     (if (case executorKind of None \<Rightarrow> False | Some ks \<Rightarrow> fst (fst entry) \<notin> ks) then Inr st
      else if card (snd (snd entry)) < 2 then Inr st
      else res_bind (bv_find_first_in (snd entry) (blockStartInd mod 2 ^ 32) (blockEndInd mod 2 ^ 32)) (\<lambda>prevIndex.
        case prevIndex of None \<Rightarrow> Inr st | Some p \<Rightarrow> walk_fifo (snd entry) blockEndInd p st))"

definition createBarrierDependenciesImpliedByFIFO ::
  "nat \<Rightarrow> executor_kind set option \<Rightarrow> barrier_info \<Rightarrow> (barrier_info \<times> nat) res" where
  "createBarrierDependenciesImpliedByFIFO blockIdx executorKind s =
     (if bi_taskQueueTypeMap s = [] then Inl (Vpux_Throw ''TaskQueueTypeMap has not been created'')
      else res_bind (getControlGraphBlockTaskRange s blockIdx False False) (\<lambda>(blockStartInd, blockEndInd).
        res_fold (fifo_of_queue executorKind blockStartInd blockEndInd) (bi_taskQueueTypeMap s) (s, 0)))"

definition remove_fifo_dependence :: "nat \<times> nat \<times> nat \<Rightarrow> barrier_info \<times> nat \<Rightarrow> (barrier_info \<times> nat) res" where
  "remove_fifo_dependence dep = (\<lambda>(s, removedDepsCount).
     case dep of (barrierIdx, parentTaskIdx, childTaskIdx) \<Rightarrow>
       res_bind (hasBarrierDependency s parentTaskIdx childTaskIdx) (\<lambda>common.
         if common = Some barrierIdx
         then res_bind (removeProducer barrierIdx parentTaskIdx s) (\<lambda>s.
              res_bind (removeConsumer barrierIdx childTaskIdx s) (\<lambda>s. Inr (s, removedDepsCount + 2)))
         else Inr (s, removedDepsCount)))"

definition removeTemporaryBarriers :: "nat \<Rightarrow> index_map \<Rightarrow> index_map res" where
  "removeTemporaryBarriers k barrierMap =
     (if sum_list (map card (drop (length barrierMap - k) barrierMap)) \<noteq> 0
      then Inl (Vpux_Throw ''Found users for temporary barrier.'') else Inr (take (length barrierMap - k) barrierMap))"

definition removeBarrierDependenciesImpliedByFIFO :: "barrier_info \<Rightarrow> (barrier_info \<times> nat) res" where
  "removeBarrierDependenciesImpliedByFIFO s =
     res_bind (res_fold remove_fifo_dependence (bi_fifoDependencies s) (s, 0)) (\<lambda>(s, removedDepsCount).
     res_bind (removeTemporaryBarriers (length (bi_fifoDependencies s)) (bi_barrierProducerMap s)) (\<lambda>prods.
     res_bind (removeTemporaryBarriers (length (bi_fifoDependencies s)) (bi_barrierConsumerMap s)) (\<lambda>cons.
     Inr (s\<lparr>bi_barrierProducerMap := prods, bi_barrierConsumerMap := cons, bi_fifoDependencies := []\<rparr>, removedDepsCount))))"

section \<open>The control map of a block\<close>

text \<open>The tasks that wait for a barrier the task updates, barrier by barrier.\<close>

definition child_tasks :: "barrier_info \<Rightarrow> nat \<Rightarrow> nat list res" where
  "child_tasks s taskInd = res_bind (vec_at (bi_taskUpdateBarriers s) taskInd) (\<lambda>bars.
     res_fold (\<lambda>b acc. map_sum id (\<lambda>cs. acc @ sorted_list_of_set cs) (vec_at (bi_barrierConsumerMap s) b))
       (sorted_list_of_set bars) [])"

definition add_row :: "nat \<Rightarrow> nat \<Rightarrow> nat \<Rightarrow> index_map \<Rightarrow> index_map" where
  "add_row lo taskInd childTaskInd m = m[taskInd - lo := m ! (taskInd - lo) \<union> m ! (childTaskInd - lo)]"

definition direct_step :: "barrier_info \<Rightarrow> nat \<Rightarrow> nat \<Rightarrow> nat \<Rightarrow> index_map \<Rightarrow> index_map res" where
  "direct_step s lo hi taskInd m = res_bind (child_tasks s taskInd) (\<lambda>cs.
     Inr (fold (\<lambda>c m. if bi_inRange lo hi c then m[taskInd - lo := insert (c - lo) (m ! (taskInd - lo))] else m) cs m))"

definition closure_child :: "nat \<Rightarrow> nat \<Rightarrow> bool \<Rightarrow> nat \<Rightarrow> nat \<Rightarrow> index_map \<times> nat list \<Rightarrow> (index_map \<times> nat list) res" where
  "closure_child lo hi ignoreOutOfBlock taskInd c = (\<lambda>(m, pending).
     if bi_inRange lo hi c then Inr (add_row lo taskInd c m, if c < taskInd then pending @ [taskInd] else pending)
     else if ignoreOutOfBlock then Inr (m, pending)
     else Inl (Vpux_Throw ''Task has update barrier with a consumer from outside of the current range''))"

definition closure_step :: "barrier_info \<Rightarrow> nat \<Rightarrow> nat \<Rightarrow> bool \<Rightarrow> nat \<Rightarrow> index_map \<times> nat list \<Rightarrow> (index_map \<times> nat list) res" where
  "closure_step s lo hi ignoreOutOfBlock taskInd st =
     res_bind (if taskInd = hi then isSyncPoint s taskInd else Inr False) (\<lambda>skip.
     if skip then Inr st
     else res_bind (child_tasks s taskInd) (\<lambda>cs. res_fold (closure_child lo hi ignoreOutOfBlock taskInd) cs st))"

definition rows_step :: "barrier_info \<Rightarrow> nat \<Rightarrow> nat \<Rightarrow> nat \<Rightarrow> index_map \<Rightarrow> index_map res" where
  "rows_step s lo hi taskInd m = res_bind (child_tasks s taskInd) (\<lambda>cs.
     Inr (fold (\<lambda>c m. if bi_inRange lo hi c then add_row lo taskInd c m else m) cs m))"

definition control_rows :: "barrier_info \<Rightarrow> nat \<Rightarrow> nat \<Rightarrow> bool \<Rightarrow> index_map res" where
  "control_rows s lo hi ignoreOutOfBlock =
     res_bind (res_fold (direct_step s lo hi) (rev [lo..<u64_add hi 1]) (replicate (u64_add (u64_sub hi lo) 1) {})) (\<lambda>m.
     res_bind (res_fold (closure_step s lo hi ignoreOutOfBlock) (rev [lo..<u64_add hi 1]) (m, [])) (\<lambda>(m, pending).
     if pending = [] then Inr m
     else res_bind (res_fold (rows_step s lo hi) (sort pending) m) (\<lambda>m.
          res_fold (rows_step s lo hi) (rev [lo..<last (sort pending)]) m)))"

definition buildTaskControlMap :: "nat \<Rightarrow> bool \<Rightarrow> bool \<Rightarrow> barrier_info \<Rightarrow> ((index_map \<times> nat) \<times> barrier_info) res" where
  "buildTaskControlMap blockIdx considerTaskFifoDependency ignoreOutOfBlockDependencies s =
     (if blockIdx \<ge> getControlGraphBlockCount s then Inl (Vpux_Throw ''Invalid task block index'')
      else res_bind (getControlGraphBlockTaskRange s blockIdx True True) (\<lambda>(lo, hi).
      if \<not> lo \<le> hi then Inl (Vpux_Throw ''Invalid range of tasks for building task control map'')
      else res_bind (checked_u32 (u64_add (u64_sub hi lo) 1)) (\<lambda>_.
      res_bind (if considerTaskFifoDependency then createBarrierDependenciesImpliedByFIFO blockIdx None s else Inr (s, 0)) (\<lambda>(s, newDeps).
      res_bind (control_rows s lo hi ignoreOutOfBlockDependencies) (\<lambda>m.
      if considerTaskFifoDependency
      then res_bind (removeBarrierDependenciesImpliedByFIFO s) (\<lambda>(s, removedDeps).
        if newDeps \<noteq> removedDeps then Inl (Vpux_Throw ''Temporary barriers have not been correctly removed'')
        else Inr ((m, lo), s))
      else Inr ((m, lo), s))))))"

definition controlPathExistsBetweenTasksInSameBlock :: "index_map \<Rightarrow> nat \<Rightarrow> nat \<Rightarrow> bool \<Rightarrow> bool res" where
  "controlPathExistsBetweenTasksInSameBlock taskControlMap taskA taskB biDirection =
     (if taskControlMap = [] then Inl (Vpux_Throw ''Task control map not initialized'')
      else if taskA \<ge> length taskControlMap then Inl (Vpux_Throw ''taskAInd out of range'')
      else if taskB \<ge> length taskControlMap then Inl (Vpux_Throw ''taskBInd out of range'')
      else if taskA = taskB then Inr True
      else if biDirection then Inr (taskB \<in> taskControlMap ! taskA \<or> taskA \<in> taskControlMap ! taskB)
      else Inr (taskB \<in> taskControlMap ! taskA))"

section \<open>Queries\<close>

text \<open>
  The control map in use, its offset and the block it is of; the queries build a new one when they come to
  another block.
\<close>

type_synonym control_cache = "(index_map \<times> nat) \<times> nat option"

type_synonym query_state = "barrier_info \<times> control_cache"






section \<open>Tasks that run in parallel\<close>

definition updateControlMap :: "nat \<Rightarrow> query_state \<Rightarrow> query_state res" where
  "updateControlMap taskBlockInd = (\<lambda>(s, cache).
     if snd cache \<noteq> Some taskBlockInd
     then map_sum id (\<lambda>(m, s). (s, m, Some taskBlockInd)) (buildTaskControlMap taskBlockInd True False s)
     else Inr (s, cache))"

text \<open>The scan of other tasks in the given order: a task on no control path joins, until there are enough.\<close>

fun scan_parallel :: "barrier_info \<Rightarrow> index_map \<times> nat \<Rightarrow> (nat \<Rightarrow> nat \<times> nat) \<Rightarrow> nat \<Rightarrow> nat list \<Rightarrow> nat set \<Rightarrow> nat set res" where
  "scan_parallel s cm pair maxCount [] found = Inr found"
| "scan_parallel s cm pair maxCount (idx # is) found =
     res_bind (controlPathExistsBetweenTasksInSameBlock (fst cm) (u64_sub (fst (pair idx)) (snd cm)) (u64_sub (snd (pair idx)) (snd cm)) False)
     (\<lambda>path. if path then scan_parallel s cm pair maxCount is found
       else res_bind (getUpdateBarriers s idx) (\<lambda>u.
         res_bind (if u = {} then map_sum id (\<lambda>w. w = {}) (getWaitBarriers s idx) else Inr False) (\<lambda>none.
         if none then scan_parallel s cm pair maxCount is found
         else if card (insert idx found) \<ge> maxCount then Inr (insert idx found)
         else scan_parallel s cm pair maxCount is (insert idx found))))"

definition parallel_before :: "nat \<Rightarrow> nat \<Rightarrow> query_state \<Rightarrow> (nat set \<times> query_state) res" where
  "parallel_before maxCount taskIdx st =
     res_bind (getControlGraphBlockIndex (fst st) taskIdx) (\<lambda>blk.
     res_bind (getControlGraphBlockTaskRange (fst st) blk False True) (\<lambda>(fromIdx, _).
     res_bind (updateControlMap blk st) (\<lambda>(s, cache).
     map_sum id (\<lambda>found. (found, s, cache))
       (scan_parallel s (fst cache) (\<lambda>idx. (idx, taskIdx)) maxCount (rev [fromIdx..<taskIdx]) {}))))"

definition parallel_after :: "nat \<Rightarrow> nat \<Rightarrow> nat set \<Rightarrow> query_state \<Rightarrow> (nat set \<times> query_state) res" where
  "parallel_after maxCount taskIdx found st =
     (if card found \<ge> maxCount then Inr (found, st)
      else res_bind (getControlGraphBlockIndex (fst st) taskIdx) (\<lambda>blk.
      res_bind (getControlGraphBlockTaskRange (fst st) blk False True) (\<lambda>(_, toIdx).
      res_bind (updateControlMap blk st) (\<lambda>(s, cache).
      map_sum id (\<lambda>found. (found, s, cache))
        (scan_parallel s (fst cache) (\<lambda>idx. (taskIdx, idx)) maxCount [taskIdx + 1..<toIdx + 1] found)))))"

definition findParallelTasksWithBarrierDependence ::
  "platform \<Rightarrow> nat set \<Rightarrow> nat \<Rightarrow> barrier_info \<Rightarrow> (nat set list \<times> barrier_info) res" where
  "findParallelTasksWithBarrierDependence pf tasks maxCount s =
     res_bind (buildTaskQueueTypeMap pf s) (\<lambda>s.
     res_bind (res_fold (\<lambda>t (acc, st). res_bind (parallel_before maxCount t st) (\<lambda>(found, st). Inr (acc @ [found], st)))
       (sorted_list_of_set tasks) ([], s, ([], 0), None)) (\<lambda>(before, st).
     map_sum id (\<lambda>(acc, st). (acc, fst st)) (res_fold (\<lambda>(t, found) (acc, st).
         res_bind (parallel_after maxCount t found st) (\<lambda>(found, st). Inr (acc @ [found], st)))
       (zip (sorted_list_of_set tasks) before) ([], st))))"

section \<open>Dependencies of a state\<close>

lemma bi_rep_bounds: "bi_rep n nb P C s \<Longrightarrow> P \<subseteq> {..<nb} \<times> {..<n} \<and> C \<subseteq> {..<nb} \<times> {..<n}"
  by (simp add: bi_rep_def represents_def)

lemma bi_rep_finite: "bi_rep n nb P C s \<Longrightarrow> finite (P\<inverse> `` {t}) \<and> finite (C\<inverse> `` {t}) \<and> finite (P `` {b}) \<and> finite (C `` {b})"
  using represents_finite unfolding bi_rep_def by blast

lemma hasBarrierDependency_rep:
  assumes "bi_rep n nb P C s" "a < n" "b < n"
  shows "\<exists>r. hasBarrierDependency s a b = Inr r \<and> (r = None \<longleftrightarrow> (a, b) \<notin> bar_dep P C) \<and>
    (\<forall>x. r = Some x \<longrightarrow> (x, a) \<in> P \<and> (x, b) \<in> C)"
proof -
  have "set (sorted_list_of_set (P\<inverse> `` {a})) = P\<inverse> `` {a}" using bi_rep_finite [OF assms(1)] by simp
  then show ?thesis using getters_rep [OF assms(1)] assms(2,3)
    by (auto simp: hasBarrierDependency_def first_common_def bar_dep_iff find_None_iff find_Some_iff)
qed

text \<open>The relations and the other fields determine the state.\<close>

lemma represents_unique: "represents n nb R m \<Longrightarrow> represents n nb R m' \<Longrightarrow> m = m'"
  by (auto simp: represents_def prod_eq_iff list_eq_iff_nth_eq)

lemma bi_rep_unique:
  assumes "bi_rep n nb P C s" "bi_rep n nb P C s'" "same_rest s s'"
  shows "s = s'"
proof -
  have "producer_maps s = producer_maps s'" "consumer_maps s = consumer_maps s'"
    using assms(1,2) represents_unique unfolding bi_rep_def by blast+
  then show ?thesis using assms(3) by (cases s; cases s') (simp add: same_rest_def producer_maps_def consumer_maps_def)
qed

section \<open>The state with temporary barriers\<close>

text \<open>
  \<^verbatim>\<open>ds\<close> are the pairs of tasks that got a temporary barrier, \<^verbatim>\<open>K\<close> the temporary barriers that are still in use.
\<close>

definition temp_rel :: "nat \<Rightarrow> (nat \<times> nat \<Rightarrow> nat) \<Rightarrow> (nat \<times> nat) list \<Rightarrow> nat set \<Rightarrow> (nat \<times> nat) set" where
  "temp_rel nb f ds K = {(nb + k, f (ds ! k)) |k. k < length ds \<and> k \<in> K}"

definition temp_state ::
  "nat \<Rightarrow> nat \<Rightarrow> (nat \<times> nat) set \<Rightarrow> (nat \<times> nat) set \<Rightarrow> barrier_info \<Rightarrow> (nat \<times> nat) list \<Rightarrow> nat set \<Rightarrow> barrier_info \<Rightarrow> bool" where
  "temp_state n nb P C s0 ds K s \<longleftrightarrow>
     bi_rep n (nb + length ds) (P \<union> temp_rel nb fst ds K) (C \<union> temp_rel nb snd ds K) s \<and>
     bi_fifoDependencies s = map (\<lambda>k. (nb + k, ds ! k)) [0..<length ds] \<and>
     same_rest s0 (s\<lparr>bi_fifoDependencies := bi_fifoDependencies s0\<rparr>)"

definition new_pairs :: "(nat \<times> nat) set \<Rightarrow> (nat \<times> nat) set \<Rightarrow> nat \<Rightarrow> (nat \<times> nat) list \<Rightarrow> bool" where
  "new_pairs P C n ds \<longleftrightarrow> distinct ds \<and> set ds \<inter> bar_dep P C = {} \<and> set ds \<subseteq> {..<n} \<times> {..<n}"

lemma temp_rel_simps [simp]: "temp_rel nb f [] K = {}" "temp_rel nb f ds {} = {}"
  by (auto simp: temp_rel_def)

lemma temp_rel_image: "temp_rel nb f ds K = (\<lambda>k. (nb + k, f (ds ! k))) ` ({..<length ds} \<inter> K)"
  by (auto simp: temp_rel_def)

lemma temp_common:
  assumes "P \<subseteq> {..<nb} \<times> {..<n}" "C \<subseteq> {..<nb} \<times> {..<n}"
  shows "(x, a) \<in> P \<union> temp_rel nb fst ds K \<and> (x, b) \<in> C \<union> temp_rel nb snd ds K \<longleftrightarrow>
    (x, a) \<in> P \<and> (x, b) \<in> C \<or> (\<exists>k. x = nb + k \<and> k < length ds \<and> k \<in> K \<and> ds ! k = (a, b))"
proof -
  have "(nb + k, t) \<notin> P" "(nb + k, t) \<notin> C" for k t using assms by auto
  then show ?thesis by (auto simp: temp_rel_def prod_eq_iff)
qed

lemma temp_dep:
  assumes "P \<subseteq> {..<nb} \<times> {..<n}" "C \<subseteq> {..<nb} \<times> {..<n}"
  shows "bar_dep (P \<union> temp_rel nb fst ds K) (C \<union> temp_rel nb snd ds K) = bar_dep P C \<union> (!) ds ` ({..<length ds} \<inter> K)"
proof -
  have "(a, b) \<in> bar_dep (P \<union> temp_rel nb fst ds K) (C \<union> temp_rel nb snd ds K) \<longleftrightarrow>
      (a, b) \<in> bar_dep P C \<or> (\<exists>k. k < length ds \<and> k \<in> K \<and> ds ! k = (a, b))" for a b
    unfolding bar_dep_iff temp_common [OF assms] by blast
  then show ?thesis by (auto simp: set_eq_iff) (metis imageI IntI lessThan_iff)+
qed

lemma temp_rel_snoc: "temp_rel nb f (ds @ [d]) UNIV = insert (nb + length ds, f d) (temp_rel nb f ds UNIV)"
proof -
  have "temp_rel nb f (ds @ [d]) UNIV = insert (nb + length ds, f d) ((\<lambda>k. (nb + k, f ((ds @ [d]) ! k))) ` {..<length ds})"
    by (simp add: temp_rel_image lessThan_Suc)
  also have "(\<lambda>k. (nb + k, f ((ds @ [d]) ! k))) ` {..<length ds} = (\<lambda>k. (nb + k, f (ds ! k))) ` {..<length ds}"
    by (intro image_cong) (simp_all add: nth_append)
  finally show ?thesis by (simp add: temp_rel_image)
qed

lemma temp_rel_remove:
  assumes "j < length ds"
  shows "temp_rel nb f ds {j..} - {(nb + j, f (ds ! j))} = temp_rel nb f ds {Suc j..}"
  using assms by (auto simp: temp_rel_def Suc_le_eq le_less)

lemma same_rest_fifo:
  "same_rest s0 (s\<lparr>bi_fifoDependencies := f\<rparr>) \<Longrightarrow> same_rest s s' \<Longrightarrow> same_rest s0 (s'\<lparr>bi_fifoDependencies := f\<rparr>)"
  by (simp add: same_rest_def)

lemma push_barrier_rep:
  "bi_rep n nb P C s \<Longrightarrow> bi_rep n (Suc nb) P C
     (s\<lparr>bi_barrierProducerMap := bi_barrierProducerMap s @ [{}], bi_barrierConsumerMap := bi_barrierConsumerMap s @ [{}]\<rparr>)"
  unfolding bi_rep_def represents_def producer_maps_def consumer_maps_def getNumOfTasks_def
  by (auto simp: nth_append less_Suc_eq)

lemma add_fifo_dependence_temp:
  assumes ts: "temp_state n nb P C s0 ds UNIV s" and new: "new_pairs P C n ds" and pc: "p < n" "c < n"
    and bnd: "P \<subseteq> {..<nb} \<times> {..<n}" "C \<subseteq> {..<nb} \<times> {..<n}"
  shows "\<exists>s' ds'. add_fifo_dependence p c (s, 2 * length ds) = Inr (s', 2 * length ds') \<and>
    temp_state n nb P C s0 ds' UNIV s' \<and> new_pairs P C n ds' \<and> (p, c) \<in> bar_dep P C \<union> set ds' \<and>
    set ds \<subseteq> set ds' \<and> set ds' \<subseteq> insert (p, c) (set ds)"
proof -
  have rep: "bi_rep n (nb + length ds) (P \<union> temp_rel nb fst ds UNIV) (C \<union> temp_rel nb snd ds UNIV) s"
    using ts by (simp add: temp_state_def)
  have all: "(!) ds ` ({..<length ds} \<inter> UNIV) = set ds" by (auto simp: set_conv_nth)
  obtain r where r: "hasBarrierDependency s p c = Inr r" "r = None \<longleftrightarrow> (p, c) \<notin> bar_dep P C \<union> set ds"
    using hasBarrierDependency_rep [OF rep pc] unfolding temp_dep [OF bnd] all by blast
  show ?thesis
  proof (cases r)
    case (Some x)
    then show ?thesis using r ts new by (intro exI [of _ s] exI [of _ ds]) (auto simp: add_fifo_dependence_def)
  next
    case None
    let ?k = "nb + length ds"
    let ?s1 = "s\<lparr>bi_barrierProducerMap := bi_barrierProducerMap s @ [{}], bi_barrierConsumerMap := bi_barrierConsumerMap s @ [{}]\<rparr>"
    have len: "length (bi_barrierProducerMap s) = ?k" using rep by (simp add: bi_rep_def represents_def producer_maps_def)
    obtain s2 where s2: "bi_addProducer ?k p ?s1 = Inr s2" "same_rest ?s1 s2"
      "bi_rep n (Suc ?k) (insert (?k, p) (P \<union> temp_rel nb fst ds UNIV)) (C \<union> temp_rel nb snd ds UNIV) s2"
      using addProducer_rep [OF push_barrier_rep [OF rep], of ?k p] pc by blast
    obtain s3 where s3: "bi_addConsumer ?k c s2 = Inr s3" "same_rest s2 s3"
      "bi_rep n (Suc ?k) (insert (?k, p) (P \<union> temp_rel nb fst ds UNIV)) (insert (?k, c) (C \<union> temp_rel nb snd ds UNIV)) s3"
      using addConsumer_rep [OF s2(3), of ?k c] pc by blast
    let ?s4 = "s3\<lparr>bi_fifoDependencies := bi_fifoDependencies s3 @ [(?k, p, c)]\<rparr>"
    have "add_fifo_dependence p c (s, 2 * length ds) = Inr (?s4, 2 * length (ds @ [(p, c)]))"
      using r(1) None len s2(1) s3(1) by (simp add: add_fifo_dependence_def addTemporaryBarrierDependence_def Let_def)
    moreover have "temp_state n nb P C s0 (ds @ [(p, c)]) UNIV ?s4"
    proof -
      have "bi_fifoDependencies s3 = map (\<lambda>k. (nb + k, ds ! k)) [0..<length ds]"
        using ts s2(2) s3(2) by (simp add: temp_state_def same_rest_def)
      moreover have "map (\<lambda>k. (nb + k, (ds @ [(p, c)]) ! k)) [0..<length ds] = map (\<lambda>k. (nb + k, ds ! k)) [0..<length ds]"
        by (simp add: nth_append)
      moreover have "bi_rep n (nb + length (ds @ [(p, c)])) (P \<union> temp_rel nb fst (ds @ [(p, c)]) UNIV)
          (C \<union> temp_rel nb snd (ds @ [(p, c)]) UNIV) ?s4"
        using s3(3) by (simp add: temp_rel_snoc bi_rep_def producer_maps_def consumer_maps_def getNumOfTasks_def)
      moreover have "same_rest s0 (?s4\<lparr>bi_fifoDependencies := bi_fifoDependencies s0\<rparr>)"
        using ts s2(2) s3(2) by (simp add: temp_state_def same_rest_def)
      ultimately show ?thesis by (simp add: temp_state_def)
    qed
    moreover have "new_pairs P C n (ds @ [(p, c)])" using new r(2) None pc by (auto simp: new_pairs_def)
    ultimately show ?thesis by (intro exI [of _ ?s4] exI [of _ "ds @ [(p, c)]"]) auto
  qed
qed

text \<open>Tasks of one queue in the block, in their order.\<close>

definition fifo_order :: "nat set \<Rightarrow> nat \<Rightarrow> nat \<Rightarrow> (nat \<times> nat) set" where
  "fifo_order S lo hi = {(a, b). a \<in> S \<and> b \<in> S \<and> a < b \<and> lo \<le> a \<and> b \<le> hi}"

definition queue_order :: "queue_map \<Rightarrow> nat \<Rightarrow> nat \<Rightarrow> (nat \<times> nat) set" where
  "queue_order m lo hi = (\<Union>e\<in>set m. fifo_order (snd (snd e)) lo hi)"

lemma walk_fifo_temp:
  assumes "temp_state n nb P C s0 ds UNIV s" "new_pairs P C n ds" "snd v \<subseteq> {..<n}" "p \<in> snd v"
    and bnd: "P \<subseteq> {..<nb} \<times> {..<n}" "C \<subseteq> {..<nb} \<times> {..<n}"
  shows "\<exists>s' ds'. walk_fifo v e p (s, 2 * length ds) = Inr (s', 2 * length ds') \<and>
    temp_state n nb P C s0 ds' UNIV s' \<and> new_pairs P C n ds' \<and> set ds \<subseteq> set ds' \<and>
    set ds' \<subseteq> set ds \<union> fifo_order (snd v) p e \<and> fifo_order (snd v) p e \<subseteq> (bar_dep P C \<inter> fifo_order (snd v) p e \<union> set ds')\<^sup>+"
  using assms(1,2,4)
proof (induction "e - p" arbitrary: p ds s rule: less_induct)
  case less
  have fin: "finite (snd v)" using assms(3) finite_subset by blast
  show ?case
  proof (cases "bv_find_next v p")
    case None
    then have "fifo_order (snd v) p e = {}" using fin by (auto simp: bv_find_next_None fifo_order_def)
    then show ?thesis using None less.prems by (intro exI [of _ s] exI [of _ ds]) (simp add: walk_fifo.simps)
  next
    case (Some c)
    then have c: "c \<in> snd v" "p < c" "\<forall>k\<in>snd v. p < k \<longrightarrow> c \<le> k" using fin by (auto simp: bv_find_next_Some)
    show ?thesis
    proof (cases "c \<le> e")
      case False
      then have "fifo_order (snd v) p e = {}" using c by (fastforce simp: fifo_order_def)
      then show ?thesis using Some False less.prems by (intro exI [of _ s] exI [of _ ds]) (simp add: walk_fifo.simps)
    next
      case True
      have "p < n" "c < n" using assms(3) less.prems(3) c(1) by auto
      from add_fifo_dependence_temp [OF less.prems(1,2) this bnd]
      obtain s1 ds1 where s1: "add_fifo_dependence p c (s, 2 * length ds) = Inr (s1, 2 * length ds1)"
        "temp_state n nb P C s0 ds1 UNIV s1" "new_pairs P C n ds1" "(p, c) \<in> bar_dep P C \<union> set ds1"
        "set ds \<subseteq> set ds1" "set ds1 \<subseteq> insert (p, c) (set ds)" by blast
      have "e - c < e - p" using c(2) True by simp
      from less.hyps [OF this s1(2,3) c(1)]
      obtain s2 ds2 where s2: "walk_fifo v e c (s1, 2 * length ds1) = Inr (s2, 2 * length ds2)"
        "temp_state n nb P C s0 ds2 UNIV s2" "new_pairs P C n ds2" "set ds1 \<subseteq> set ds2"
        "set ds2 \<subseteq> set ds1 \<union> fifo_order (snd v) c e" "fifo_order (snd v) c e \<subseteq> (bar_dep P C \<inter> fifo_order (snd v) c e \<union> set ds2)\<^sup>+"
        by blast
      let ?T = "bar_dep P C \<inter> fifo_order (snd v) p e \<union> set ds2"
      have sub: "fifo_order (snd v) c e \<subseteq> fifo_order (snd v) p e" "(p, c) \<in> fifo_order (snd v) p e"
        using c True less.prems(3) by (auto simp: fifo_order_def)
      have pc: "(p, c) \<in> ?T" using s1(4) s2(4) sub(2) by blast
      have "(bar_dep P C \<inter> fifo_order (snd v) c e \<union> set ds2)\<^sup>+ \<subseteq> ?T\<^sup>+"
        using sub(1) by (intro trancl_mono_subset) blast
      then have rest: "fifo_order (snd v) c e \<subseteq> ?T\<^sup>+" using s2(6) by blast
      have step: "(a, b) \<in> ?T\<^sup>+" if "(a, b) \<in> fifo_order (snd v) p e" for a b
      proof (cases "a = p")
        case True
        then have "c \<le> b" "b \<in> snd v" "b \<le> e" using that c(3) by (auto simp: fifo_order_def)
        show ?thesis
        proof (cases "b = c")
          case False
          then have "(c, b) \<in> fifo_order (snd v) c e" using \<open>c \<le> b\<close> \<open>b \<in> snd v\<close> \<open>b \<le> e\<close> c(1) by (simp add: fifo_order_def)
          then have "(c, b) \<in> ?T\<^sup>+" using rest by blast
          then show ?thesis using pc \<open>a = p\<close> by (simp add: trancl_into_trancl2)
        qed (use r_into_trancl [OF pc] True in simp)
      next
        case False
        then have "p < a" using that by (simp add: fifo_order_def)
        then have "(a, b) \<in> fifo_order (snd v) c e" using that c(3) by (auto simp: fifo_order_def)
        then show ?thesis using rest by blast
      qed
      have "set ds2 \<subseteq> set ds \<union> fifo_order (snd v) p e" using s2(5) s1(6) sub by blast
      moreover have "walk_fifo v e p (s, 2 * length ds) = Inr (s2, 2 * length ds2)"
        using Some True s1(1) s2(1) by (simp add: walk_fifo.simps [of v e p])
      moreover have "set ds \<subseteq> set ds2" using s1(5) s2(4) by blast
      moreover have "fifo_order (snd v) p e \<subseteq> ?T\<^sup>+" using step by auto
      ultimately show ?thesis using s2(2,3) by blast
    qed
  qed
qed

lemma fifo_of_queue_temp:
  assumes ts: "temp_state n nb P C s0 ds UNIV s" "new_pairs P C n ds" and v: "bv_ok n (snd entry)"
    and bnd: "P \<subseteq> {..<nb} \<times> {..<n}" "C \<subseteq> {..<nb} \<times> {..<n}" and r: "lo \<le> hi" "hi < n" "n < 2 ^ 32"
  shows "\<exists>s' ds'. fifo_of_queue None lo hi entry (s, 2 * length ds) = Inr (s', 2 * length ds') \<and>
    temp_state n nb P C s0 ds' UNIV s' \<and> new_pairs P C n ds' \<and> set ds \<subseteq> set ds' \<and>
    set ds' \<subseteq> set ds \<union> fifo_order (snd (snd entry)) lo hi \<and> fifo_order (snd (snd entry)) lo hi \<subseteq> (bar_dep P C \<inter> fifo_order (snd (snd entry)) lo hi \<union> set ds')\<^sup>+"
proof -
  let ?v = "snd entry"
  have S: "fst ?v = n" "snd ?v \<subseteq> {..<n}" and fin: "finite (snd ?v)" using v by (auto simp: bv_ok_def intro: finite_subset)
  have m: "lo mod 2 ^ 32 = lo" "hi mod 2 ^ 32 = hi" using r by simp_all
  note first = bv_find_first_in_Some [OF fin r(1), unfolded S(1), OF less_imp_le [OF r(2)]]
    bv_find_first_in_None [OF fin r(1), unfolded S(1), OF less_imp_le [OF r(2)]]
  show ?thesis
  proof (cases "card (snd ?v) < 2")
    case True
    have "fifo_order (snd ?v) lo hi = {}"
    proof (rule ccontr)
      assume "fifo_order (snd ?v) lo hi \<noteq> {}"
      then obtain a b where "{a, b} \<subseteq> snd ?v" "a < b" by (auto simp: fifo_order_def)
      then show False using card_mono [OF fin, of "{a, b}"] True by simp
    qed
    then show ?thesis using ts True by (intro exI [of _ s] exI [of _ ds]) (simp add: fifo_of_queue_def)
  next
    case many: False
    obtain r where res: "bv_find_first_in ?v lo hi = Inr r" using r S(1) by (auto simp: bv_find_first_in_def)
    show ?thesis
    proof (cases r)
      case None
      then have none: "\<forall>k\<in>snd ?v. lo \<le> k \<longrightarrow> hi \<le> k" using first(2) res by simp
      have "fifo_order (snd ?v) lo hi = {}"
      proof -
        have False if "a \<in> snd ?v" "lo \<le> a" "a < b" "b \<le> hi" for a b
          using none that by fastforce
        then show ?thesis unfolding fifo_order_def by blast
      qed
      then show ?thesis using ts None many res m
        by (intro exI [of _ s] exI [of _ ds]) (simp add: fifo_of_queue_def)
    next
      case (Some p)
      then have p: "p \<in> snd ?v" "lo \<le> p" "\<forall>k\<in>snd ?v. lo \<le> k \<longrightarrow> p \<le> k" using first(1) res by auto
      have e: "fifo_order (snd ?v) p hi = fifo_order (snd ?v) lo hi" using p by (auto simp: fifo_order_def)
      have "fifo_of_queue None lo hi entry (s, 2 * length ds) = walk_fifo ?v hi p (s, 2 * length ds)"
        using Some many res m by (simp add: fifo_of_queue_def)
      then show ?thesis using walk_fifo_temp [OF ts S(2) p(1) bnd, of hi] unfolding e by simp
    qed
  qed
qed

lemma fifo_queues_temp:
  assumes "temp_state n nb P C s0 ds UNIV s" "new_pairs P C n ds" "\<forall>(q, v)\<in>set m. bv_ok n v"
    and bnd: "P \<subseteq> {..<nb} \<times> {..<n}" "C \<subseteq> {..<nb} \<times> {..<n}" and r: "lo \<le> hi" "hi < n" "n < 2 ^ 32"
  shows "\<exists>s' ds'. res_fold (fifo_of_queue None lo hi) m (s, 2 * length ds) = Inr (s', 2 * length ds') \<and>
    temp_state n nb P C s0 ds' UNIV s' \<and> new_pairs P C n ds' \<and> set ds \<subseteq> set ds' \<and>
    set ds' \<subseteq> set ds \<union> queue_order m lo hi \<and> queue_order m lo hi \<subseteq> (bar_dep P C \<inter> queue_order m lo hi \<union> set ds')\<^sup>+"
  using assms(1,2,3)
proof (induction m arbitrary: s ds)
  case Nil
  then show ?case by (intro exI [of _ s] exI [of _ ds]) (simp add: queue_order_def)
next
  case (Cons entry m)
  have "bv_ok n (snd entry)" using Cons.prems(3) by (cases entry) simp
  from fifo_of_queue_temp [OF Cons.prems(1,2) this bnd r]
  obtain s1 ds1 where s1: "fifo_of_queue None lo hi entry (s, 2 * length ds) = Inr (s1, 2 * length ds1)"
    "temp_state n nb P C s0 ds1 UNIV s1" "new_pairs P C n ds1" "set ds \<subseteq> set ds1"
    "set ds1 \<subseteq> set ds \<union> fifo_order (snd (snd entry)) lo hi" "fifo_order (snd (snd entry)) lo hi \<subseteq> (bar_dep P C \<inter> fifo_order (snd (snd entry)) lo hi \<union> set ds1)\<^sup>+"
    by blast
  from Cons.IH [OF s1(2,3)] Cons.prems(3)
  obtain s2 ds2 where s2: "res_fold (fifo_of_queue None lo hi) m (s1, 2 * length ds1) = Inr (s2, 2 * length ds2)"
    "temp_state n nb P C s0 ds2 UNIV s2" "new_pairs P C n ds2" "set ds1 \<subseteq> set ds2"
    "set ds2 \<subseteq> set ds1 \<union> queue_order m lo hi" "queue_order m lo hi \<subseteq> (bar_dep P C \<inter> queue_order m lo hi \<union> set ds2)\<^sup>+"
    by auto
  have q: "queue_order (entry # m) lo hi = fifo_order (snd (snd entry)) lo hi \<union> queue_order m lo hi"
    by (simp add: queue_order_def)
  let ?T = "bar_dep P C \<inter> queue_order (entry # m) lo hi \<union> set ds2"
  have "(bar_dep P C \<inter> fifo_order (snd (snd entry)) lo hi \<union> set ds1)\<^sup>+ \<subseteq> ?T\<^sup>+" "(bar_dep P C \<inter> queue_order m lo hi \<union> set ds2)\<^sup>+ \<subseteq> ?T\<^sup>+"
    using s2(4) unfolding q by (intro trancl_mono_subset; blast)+
  then have "queue_order (entry # m) lo hi \<subseteq> ?T\<^sup>+" unfolding q using s1(6) s2(6) by blast
  moreover have "set ds2 \<subseteq> set ds \<union> queue_order (entry # m) lo hi" unfolding q using s1(5) s2(5) by blast
  ultimately show ?case using s1(1,4) s2(1-4) by (intro exI [of _ s2] exI [of _ ds2]) auto
qed

section \<open>Removing the temporary barriers\<close>

lemma remove_fifo_dependence_temp:
  assumes ts: "temp_state n nb P C s0 ds {j..} s" and new: "new_pairs P C n ds" and j: "j < length ds"
    and bnd: "P \<subseteq> {..<nb} \<times> {..<n}" "C \<subseteq> {..<nb} \<times> {..<n}"
  shows "\<exists>s'. remove_fifo_dependence (nb + j, ds ! j) (s, k) = Inr (s', k + 2) \<and> temp_state n nb P C s0 ds {Suc j..} s'"
proof -
  obtain a b where ab: "ds ! j = (a, b)" by (cases "ds ! j")
  have mem: "(a, b) \<in> set ds" using j ab by (metis nth_mem)
  then have n: "a < n" "b < n" "(a, b) \<notin> bar_dep P C" using new by (auto simp: new_pairs_def)
  let ?P = "P \<union> temp_rel nb fst ds {j..}" and ?C = "C \<union> temp_rel nb snd ds {j..}"
  have rep: "bi_rep n (nb + length ds) ?P ?C s" using ts by (simp add: temp_state_def)
  have only: "x = nb + j" if x: "(x, a) \<in> ?P" "(x, b) \<in> ?C" for x
  proof -
    obtain k where k: "x = nb + k" "k < length ds" "ds ! k = (a, b)"
      using x n(3) temp_common [OF bnd, of x a ds "{j..}" b] unfolding bar_dep_iff by blast
    have "distinct ds" using new by (simp add: new_pairs_def)
    then have "k = j" using k(2,3) j ab by (simp add: nth_eq_iff_index_eq [symmetric])
    then show ?thesis using k(1) by simp
  qed
  have "(a, b) \<in> bar_dep ?P ?C" unfolding temp_dep [OF bnd] using j ab by (auto intro!: image_eqI [of _ _ j])
  then obtain x where "hasBarrierDependency s a b = Inr (Some x)" "(x, a) \<in> ?P" "(x, b) \<in> ?C"
    using hasBarrierDependency_rep [OF rep n(1,2)] by (metis not_Some_eq)
  then have h: "hasBarrierDependency s a b = Inr (Some (nb + j))" using only by blast
  obtain s1 where s1: "removeProducer (nb + j) a s = Inr s1" "same_rest s s1" "bi_rep n (nb + length ds) (?P - {(nb + j, a)}) ?C s1"
    using removeProducer_rep [OF rep, of "nb + j" a] j n by auto
  obtain s2 where s2: "removeConsumer (nb + j) b s1 = Inr s2" "same_rest s1 s2"
    "bi_rep n (nb + length ds) (?P - {(nb + j, a)}) (?C - {(nb + j, b)}) s2"
    using removeConsumer_rep [OF s1(3), of "nb + j" b] j n by auto
  have out: "(nb + j, t) \<notin> P" "(nb + j, t) \<notin> C" for t using bnd by auto
  have "?P - {(nb + j, a)} = P \<union> temp_rel nb fst ds {Suc j..}" "?C - {(nb + j, b)} = C \<union> temp_rel nb snd ds {Suc j..}"
    using temp_rel_remove [OF j, of nb fst] temp_rel_remove [OF j, of nb snd] out ab by auto
  moreover have "bi_fifoDependencies s2 = bi_fifoDependencies s" using s1(2) s2(2) by (simp add: same_rest_def)
  ultimately have "temp_state n nb P C s0 ds {Suc j..} s2"
    using ts s2(3) same_rest_fifo [OF _ same_rest_trans [OF s1(2) s2(2)]] by (simp add: temp_state_def)
  then show ?thesis using h s1(1) s2(1) ab by (simp add: remove_fifo_dependence_def)
qed

lemma remove_fifo_loop:
  assumes "new_pairs P C n ds" and bnd: "P \<subseteq> {..<nb} \<times> {..<n}" "C \<subseteq> {..<nb} \<times> {..<n}"
  shows "j \<le> length ds \<Longrightarrow> temp_state n nb P C s0 ds {j..} s \<Longrightarrow>
    \<exists>s'. res_fold remove_fifo_dependence (map (\<lambda>k. (nb + k, ds ! k)) [j..<length ds]) (s, 2 * j) = Inr (s', 2 * length ds) \<and>
      temp_state n nb P C s0 ds {length ds..} s'"
proof (induction "length ds - j" arbitrary: j s)
  case (Suc d)
  then have j: "j < length ds" by simp
  from remove_fifo_dependence_temp [OF Suc.prems(2) assms(1) j bnd, of "2 * j"]
  obtain s1 where s1: "remove_fifo_dependence (nb + j, ds ! j) (s, 2 * j) = Inr (s1, 2 * j + 2)"
    "temp_state n nb P C s0 ds {Suc j..} s1" by blast
  have "d = length ds - Suc j" "Suc j \<le> length ds" using Suc.hyps(2) j by simp_all
  from Suc.hyps(1) [OF this s1(2)]
  obtain s2 where "res_fold remove_fifo_dependence (map (\<lambda>k. (nb + k, ds ! k)) [Suc j..<length ds]) (s1, 2 * Suc j) = Inr (s2, 2 * length ds)"
    "temp_state n nb P C s0 ds {length ds..} s2" by auto
  then show ?case using s1(1) j by (simp add: upt_conv_Cons)
qed auto

lemma remove_temporary_rows:
  assumes "represents n (nb + k) R maps" "R \<subseteq> {..<nb} \<times> {..<n}"
  shows "removeTemporaryBarriers k (fst maps) = Inr (take nb (fst maps))" "represents n nb R (take nb (fst maps), snd maps)"
proof -
  have len: "length (fst maps) = nb + k" using assms(1) by (simp add: represents_def)
  have "x = {}" if "x \<in> set (drop nb (fst maps))" for x
  proof -
    have "\<exists>i<length (drop nb (fst maps)). drop nb (fst maps) ! i = x" using that by (simp only: in_set_conv_nth)
    then obtain i where "i < k" "x = fst maps ! (nb + i)" using len by auto
    then have "x = R `` {nb + i}" using assms(1) by (simp add: represents_def)
    then show ?thesis using assms(2) by auto
  qed
  then have "\<forall>x\<in>set (drop nb (fst maps)). card x = 0" by (metis card.empty)
  then have "sum_list (map card (drop nb (fst maps))) = 0" by simp
  then show "removeTemporaryBarriers k (fst maps) = Inr (take nb (fst maps))" using len by (simp add: removeTemporaryBarriers_def)
  show "represents n nb R (take nb (fst maps), snd maps)" using assms len by (simp add: represents_def)
qed

lemma remove_fifo_temp:
  assumes ts: "temp_state n nb P C s0 ds UNIV s" and new: "new_pairs P C n ds" and s0: "bi_rep n nb P C s0" "bi_fifoDependencies s0 = []"
  shows "removeBarrierDependenciesImpliedByFIFO s = Inr (s0, 2 * length ds)"
proof -
  have bnd: "P \<subseteq> {..<nb} \<times> {..<n}" "C \<subseteq> {..<nb} \<times> {..<n}" using bi_rep_bounds [OF s0(1)] by blast+
  have UN: "UNIV = {0::nat..}" by auto
  obtain s1 where s1: "res_fold remove_fifo_dependence (bi_fifoDependencies s) (s, 0) = Inr (s1, 2 * length ds)"
    "temp_state n nb P C s0 ds {length ds..} s1"
    using remove_fifo_loop [OF new bnd, of 0 s0 s] ts unfolding UN by (auto simp: temp_state_def)
  have none: "temp_rel nb f ds {length ds..} = {}" for f by (auto simp: temp_rel_def)
  have rep: "represents n (nb + length ds) P (producer_maps s1)" "represents n (nb + length ds) C (consumer_maps s1)"
    and n: "getNumOfTasks s1 = n" and len: "length (bi_fifoDependencies s1) = length ds"
    using s1(2) unfolding temp_state_def bi_rep_def none by simp_all
  note p = remove_temporary_rows [OF rep(1) bnd(1)] and c = remove_temporary_rows [OF rep(2) bnd(2)]
  let ?s = "s1\<lparr>bi_barrierProducerMap := take nb (fst (producer_maps s1)), bi_barrierConsumerMap := take nb (fst (consumer_maps s1)),
    bi_fifoDependencies := []\<rparr>"
  have "removeBarrierDependenciesImpliedByFIFO s = Inr (?s, 2 * length ds)"
    using s1(1) p(1) c(1) len
    by (simp add: removeBarrierDependenciesImpliedByFIFO_def producer_maps_def consumer_maps_def)
  moreover have "bi_rep n nb P C ?s"
    using p(2) c(2) n by (simp add: bi_rep_def producer_maps_def consumer_maps_def getNumOfTasks_def)
  moreover have "same_rest s0 ?s" using s1(2) s0(2) by (simp add: temp_state_def same_rest_def)
  ultimately show ?thesis using bi_rep_unique [OF s0(1)] by metis
qed

section \<open>The rows of the control map\<close>

lemma child_tasks_rep:
  assumes rep: "bi_rep n nb P C s" and t: "t < n"
  shows "\<exists>cs. child_tasks s t = Inr cs \<and> set cs = bar_dep P C `` {t}"
proof -
  have loop: "\<exists>cs. res_fold (\<lambda>b acc. map_sum id (\<lambda>cs. acc @ sorted_list_of_set cs) (vec_at (bi_barrierConsumerMap s) b)) bs acc =
      Inr cs \<and> set cs = set acc \<union> C `` set bs" if "set bs \<subseteq> {..<nb}" for bs acc
    using that
  proof (induction bs arbitrary: acc)
    case (Cons b bs)
    have b: "vec_at (bi_barrierConsumerMap s) b = Inr (C `` {b})"
      using rep Cons.prems by (auto simp: bi_rep_def represents_def consumer_maps_def vec_at_def)
    have "set (sorted_list_of_set (C `` {b})) = C `` {b}" using bi_rep_finite [OF rep] by simp
    then show ?case using Cons.IH [of "acc @ sorted_list_of_set (C `` {b})"] Cons.prems by (auto simp: b)
  qed simp
  have row: "vec_at (bi_taskUpdateBarriers s) t = Inr (P\<inverse> `` {t})"
    using rep t by (auto simp: bi_rep_def represents_def producer_maps_def vec_at_def)
  have sub: "set (sorted_list_of_set (P\<inverse> `` {t})) = P\<inverse> `` {t}" using bi_rep_finite [OF rep] by simp
  have "P\<inverse> `` {t} \<subseteq> {..<nb}" using bi_rep_bounds [OF rep] by auto
  then show ?thesis using loop [of "sorted_list_of_set (P\<inverse> `` {t})" "[]"] sub
    by (auto simp: child_tasks_def row bar_dep_def relcomp_Image)
qed

text \<open>The rows of a block represent a relation on its tasks.\<close>

definition rows_rep :: "nat \<Rightarrow> nat \<Rightarrow> (nat \<times> nat) set \<Rightarrow> index_map \<Rightarrow> bool" where
  "rows_rep lo hi R m \<longleftrightarrow> length m = Suc hi - lo \<and> R \<subseteq> {lo..hi} \<times> {lo..hi} \<and>
     (\<forall>t\<in>{lo..hi}. m ! (t - lo) = (\<lambda>c. c - lo) ` (R `` {t}))"

lemma rows_rep_member:
  assumes "rows_rep lo hi R m" "a \<in> {lo..hi}" "b \<in> {lo..hi}"
  shows "b - lo \<in> m ! (a - lo) \<longleftrightarrow> (a, b) \<in> R"
proof -
  have "c = b" if "(a, c) \<in> R" "b - lo = c - lo" for c
    using that assms by (auto simp: rows_rep_def eq_diff_iff)
  then show ?thesis using assms(1,2) by (auto simp: rows_rep_def)
qed

lemma rows_rep_update:
  assumes "rows_rep lo hi R m" "t \<in> {lo..hi}" "S \<subseteq> {lo..hi}" "row = m ! (t - lo) \<union> (\<lambda>c. c - lo) ` S"
  shows "rows_rep lo hi (R \<union> {t} \<times> S) (m[t - lo := row])"
proof -
  have "m[t - lo := row] ! (u - lo) = (\<lambda>c. c - lo) ` ((R \<union> {t} \<times> S) `` {u})" if u: "u \<in> {lo..hi}" for u
  proof (cases "u = t")
    case True
    then show ?thesis using assms by (auto simp: rows_rep_def)
  next
    case False
    then have "u - lo \<noteq> t - lo" "(R \<union> {t} \<times> S) `` {u} = R `` {u}" using u assms(2) by auto
    then show ?thesis using u assms(1) by (simp add: rows_rep_def)
  qed
  then show ?thesis using assms by (auto simp: rows_rep_def)
qed

lemma add_row_rep:
  assumes "rows_rep lo hi R m" "t \<in> {lo..hi}" "c \<in> {lo..hi}"
  shows "rows_rep lo hi (R \<union> {t} \<times> (R `` {c})) (add_row lo t c m)"
proof -
  have "R `` {c} \<subseteq> {lo..hi}" "m ! (c - lo) = (\<lambda>c. c - lo) ` (R `` {c})" using assms by (auto simp: rows_rep_def)
  then show ?thesis unfolding add_row_def using rows_rep_update [OF assms(1,2)] by simp
qed

lemma direct_fold_rep:
  "rows_rep lo hi R m \<Longrightarrow> t \<in> {lo..hi} \<Longrightarrow>
    rows_rep lo hi (R \<union> {t} \<times> (set cs \<inter> {lo..hi}))
      (fold (\<lambda>c m. if bi_inRange lo hi c then m[t - lo := insert (c - lo) (m ! (t - lo))] else m) cs m)"
proof (induction cs arbitrary: R m)
  case (Cons c cs)
  show ?case
  proof (cases "c \<in> {lo..hi}")
    case True
    have "rows_rep lo hi (R \<union> {t} \<times> {c}) (m[t - lo := insert (c - lo) (m ! (t - lo))])"
      using rows_rep_update [OF Cons.prems, of "{c}"] True by simp
    note ih = Cons.IH [OF this Cons.prems(2)]
    have "R \<union> {t} \<times> {c} \<union> {t} \<times> (set cs \<inter> {lo..hi}) = R \<union> {t} \<times> (set (c # cs) \<inter> {lo..hi})" using True by auto
    then show ?thesis using ih True by (simp add: bi_inRange_def)
  next
    case False
    then show ?thesis using Cons by (auto simp: bi_inRange_def)
  qed
qed simp

text \<open>What the rows of the children add to the row of a task.\<close>

definition absorb :: "nat \<Rightarrow> (nat \<times> nat) set \<Rightarrow> nat list \<Rightarrow> (nat \<times> nat) set" where
  "absorb t R cs = foldl (\<lambda>R c. R \<union> {t} \<times> (R `` {c})) R cs"

lemma absorb_simps [simp]:
  "absorb t R [] = R" "absorb t R (c # cs) = absorb t (R \<union> {t} \<times> (R `` {c})) cs"
  by (simp_all add: absorb_def)

lemma absorb_grows: "R \<subseteq> absorb t R cs"
proof (induction cs arbitrary: R)
  case (Cons c cs)
  from Cons [of "R \<union> {t} \<times> (R `` {c})"] show ?case by auto
qed simp

lemma absorb_paths:
  "R \<subseteq> E\<^sup>+ \<Longrightarrow> \<forall>c\<in>set cs. (t, c) \<in> E \<Longrightarrow> absorb t R cs \<subseteq> E\<^sup>+"
proof (induction cs arbitrary: R)
  case (Cons c cs)
  have "(t, d) \<in> E\<^sup>+" if "(c, d) \<in> R" for d
    using Cons.prems that by (intro trancl_into_trancl2 [of t c]) auto
  then have "R \<union> {t} \<times> (R `` {c}) \<subseteq> E\<^sup>+" using Cons.prems(1) by auto
  from Cons.IH [OF this] Cons.prems(2) show ?case by simp
qed simp

lemma absorb_others: "t \<notin> set cs \<Longrightarrow> absorb t R cs = R \<union> {t} \<times> (R `` set cs)"
proof (induction cs arbitrary: R)
  case (Cons c cs)
  then have "(R \<union> {t} \<times> (R `` {c})) `` set cs = R `` set cs" by auto
  with Cons show ?case by auto
qed simp

lemma rows_fold_rep:
  "rows_rep lo hi R m \<Longrightarrow> t \<in> {lo..hi} \<Longrightarrow>
    rows_rep lo hi (absorb t R (filter (bi_inRange lo hi) cs)) (fold (\<lambda>c m. if bi_inRange lo hi c then add_row lo t c m else m) cs m)"
proof (induction cs arbitrary: R m)
  case (Cons c cs)
  show ?case
  proof (cases "bi_inRange lo hi c")
    case True
    then have "c \<in> {lo..hi}" by (simp add: bi_inRange_def)
    from Cons.IH [OF add_row_rep [OF Cons.prems this] Cons.prems(2)] True show ?thesis by simp
  qed (use Cons in simp)
qed simp

text \<open>The dependencies inside the block, and what holds of the rows throughout.\<close>

definition in_block :: "nat \<Rightarrow> nat \<Rightarrow> (nat \<times> nat) set \<Rightarrow> (nat \<times> nat) set" where
  "in_block lo hi D = D \<inter> {lo..hi} \<times> {lo..hi}"

definition rows_inv :: "nat \<Rightarrow> nat \<Rightarrow> (nat \<times> nat) set \<Rightarrow> (nat \<times> nat) set \<Rightarrow> index_map \<Rightarrow> bool" where
  "rows_inv lo hi E R m \<longleftrightarrow> rows_rep lo hi R m \<and> E \<subseteq> R \<and> R \<subseteq> E\<^sup>+"

lemma in_range_children:
  "set cs = D `` {t} \<Longrightarrow> t \<in> {lo..hi} \<Longrightarrow> set (filter (bi_inRange lo hi) cs) = in_block lo hi D `` {t}"
  by (auto simp: in_block_def bi_inRange_def)

lemma absorb_inv:
  assumes "rows_inv lo hi E R m" "rows_rep lo hi (absorb t R cs) m'" "set cs = E `` {t}"
  shows "rows_inv lo hi E (absorb t R cs) m'"
  using assms absorb_grows [of R t cs] absorb_paths [of R E cs t] unfolding rows_inv_def by auto

text \<open>A block of a state that represents a pair of relations, with the dependencies inside the block.\<close>

definition block_of ::
  "nat \<Rightarrow> nat \<Rightarrow> (nat \<times> nat) set \<Rightarrow> (nat \<times> nat) set \<Rightarrow> barrier_info \<Rightarrow> nat \<Rightarrow> nat \<Rightarrow> (nat \<times> nat) set \<Rightarrow> bool" where
  "block_of n nb P C s lo hi E \<longleftrightarrow> bi_rep n nb P C s \<and> lo \<le> hi \<and> hi < n \<and> E = in_block lo hi (bar_dep P C)"

lemma block_ofD:
  assumes "block_of n nb P C s lo hi E"
  shows "bi_rep n nb P C s" "lo \<le> hi" "hi < n" "E = in_block lo hi (bar_dep P C)"
  using assms by (simp_all add: block_of_def)

text \<open>The last task of a block is passed over when it is a synchronization task.\<close>

definition skips :: "barrier_info \<Rightarrow> nat \<Rightarrow> nat \<Rightarrow> bool" where
  "skips s hi t \<longleftrightarrow> t = hi \<and> isSyncPoint s hi = Inr True"

lemma direct_loop:
  assumes B: "block_of n nb P C s lo hi E"
  shows "set ts \<subseteq> {lo..hi} \<Longrightarrow> rows_rep lo hi R m \<Longrightarrow>
    \<exists>m'. res_fold (direct_step s lo hi) ts m = Inr m' \<and> rows_rep lo hi (R \<union> (E \<inter> set ts \<times> UNIV)) m'"
proof (induction ts arbitrary: R m)
  case (Cons t ts)
  note rep = block_ofD(1) [OF B] and range = block_ofD(2,3) [OF B] and E_def = block_ofD(4) [OF B]
  have t: "t \<in> {lo..hi}" "t < n" using Cons.prems(1) range by auto
  obtain cs where cs: "child_tasks s t = Inr cs" "set cs = bar_dep P C `` {t}" using child_tasks_rep [OF rep t(2)] by blast
  from Cons.IH [OF _ direct_fold_rep [OF Cons.prems(2) t(1), of cs]] Cons.prems(1)
  obtain m' where m': "res_fold (direct_step s lo hi) (t # ts) m = Inr m'"
    "rows_rep lo hi (R \<union> {t} \<times> (set cs \<inter> {lo..hi}) \<union> (E \<inter> set ts \<times> UNIV)) m'"
    by (auto simp: direct_step_def [of _ _ _ t] cs(1))
  have "R \<union> {t} \<times> (set cs \<inter> {lo..hi}) \<union> (E \<inter> set ts \<times> UNIV) = R \<union> (E \<inter> set (t # ts) \<times> UNIV)"
    using t(1) unfolding cs(2) E_def in_block_def by auto
  then show ?case using m' by metis
qed simp

lemma rows_step_inv:
  assumes B: "block_of n nb P C s lo hi E" and A: "rows_inv lo hi E R m" "t \<in> {lo..hi}"
  shows "\<exists>m' R'. rows_step s lo hi t m = Inr m' \<and> rows_inv lo hi E R' m'"
proof -
  note rep = block_ofD(1) [OF B] and range = block_ofD(2,3) [OF B] and E_def = block_ofD(4) [OF B]
  obtain cs where cs: "child_tasks s t = Inr cs" "set cs = bar_dep P C `` {t}"
    using child_tasks_rep [OF rep, of t] range A(2) by auto
  have "rows_rep lo hi R m" using A(1) by (simp add: rows_inv_def)
  from absorb_inv [OF A(1) rows_fold_rep [OF this A(2), of cs] in_range_children [OF cs(2) A(2), folded E_def]]
  show ?thesis using cs(1) by (auto simp: rows_step_def)
qed

lemma rows_loop_inv:
  assumes B: "block_of n nb P C s lo hi E"
  shows "set ts \<subseteq> {lo..hi} \<Longrightarrow> rows_inv lo hi E R m \<Longrightarrow>
    \<exists>m' R'. res_fold (rows_step s lo hi) ts m = Inr m' \<and> rows_inv lo hi E R' m'"
proof (induction ts arbitrary: R m)
  case (Cons t ts)
  then obtain m1 R1 where "rows_step s lo hi t m = Inr m1" "rows_inv lo hi E R1 m1"
    using rows_step_inv [OF B, of R m t] by auto
  then show ?case using Cons.IH [of R1 m1] Cons.prems(1) by simp
qed auto

text \<open>One task in the loop that closes the rows.\<close>

lemma closure_children:
  assumes "rows_rep lo hi R m" "t \<in> {lo..hi}" "ign \<or> set cs \<subseteq> {lo..hi}"
  shows "\<exists>m' pend'. res_fold (closure_child lo hi ign t) cs (m, pend) = Inr (m', pend') \<and>
     rows_rep lo hi (absorb t R (filter (bi_inRange lo hi) cs)) m' \<and> set pend' \<subseteq> insert t (set pend) \<and>
     ((\<forall>c\<in>set cs. bi_inRange lo hi c \<longrightarrow> t \<le> c) \<longrightarrow> pend' = pend)"
  using assms
proof (induction cs arbitrary: R m pend)
  case (Cons c cs)
  show ?case
  proof (cases "bi_inRange lo hi c")
    case True
    then have "c \<in> {lo..hi}" by (simp add: bi_inRange_def)
    from Cons.IH [OF add_row_rep [OF Cons.prems(1,2) this] Cons.prems(2), of "if c < t then pend @ [t] else pend"] Cons.prems(3) True
    show ?thesis by (auto simp: closure_child_def bi_inRange_def split: if_splits)
  next
    case False
    then have "ign" using Cons.prems(3) by (auto simp: bi_inRange_def)
    then show ?thesis using Cons.IH [OF Cons.prems(1,2)] False by (simp add: closure_child_def)
  qed
qed (simp add: subset_insertI)

lemma closure_step_inv:
  assumes B: "block_of n nb P C s lo hi E" and A: "rows_inv lo hi E R m" "t \<in> {lo..hi}" "blocks_ok s" "ign \<or> skips s hi t \<or> bar_dep P C `` {t} \<subseteq> {lo..hi}"
  shows "\<exists>m' R' pend'. closure_step s lo hi ign t (m, pend) = Inr (m', pend') \<and> rows_inv lo hi E R' m' \<and>
    set pend' \<subseteq> insert t (set pend) \<and>
    ((\<forall>c. (t, c) \<in> E \<longrightarrow> t < c) \<longrightarrow> pend' = pend \<and> (skips s hi t \<and> R' = R \<or> R' = R \<union> {t} \<times> (R `` (E `` {t}))))"
proof -
  note rep = block_ofD(1) [OF B] and range = block_ofD(2,3) [OF B] and E_def = block_ofD(4) [OF B]
  have n: "hi < getNumOfTasks s" using rep range by (simp add: bi_rep_def)
  have "bi_syncTasksIds s = [] \<or> length (bi_taskToBlockMap s) = getNumOfTasks s" using A(3) by (auto simp: blocks_ok_def)
  then have "\<exists>sp. isSyncPoint s hi = Inr sp" using n by (auto simp: isSyncPoint_def Let_def)
  then obtain sp where sp: "isSyncPoint s hi = Inr sp" by blast
  show ?thesis
  proof (cases "skips s hi t")
    case True
    then show ?thesis using A(1) by (intro exI [of _ m] exI [of _ R] exI [of _ pend]) (auto simp: skips_def closure_step_def)
  next
    case False
    obtain cs where cs: "child_tasks s t = Inr cs" "set cs = bar_dep P C `` {t}"
      using child_tasks_rep [OF rep, of t] range A(2) by auto
    note kids = in_range_children [OF cs(2) A(2), folded E_def]
    have rr: "rows_rep lo hi R m" using A(1) by (simp add: rows_inv_def)
    have kr: "ign \<or> set cs \<subseteq> {lo..hi}" using A(4) False cs(2) by simp
    have "closure_step s lo hi ign t (m, pend) = res_fold (closure_child lo hi ign t) cs (m, pend)"
      using False sp cs(1) by (auto simp: closure_step_def skips_def)
    with closure_children [OF rr A(2) kr, of pend] obtain m' pend' where m': "closure_step s lo hi ign t (m, pend) = Inr (m', pend')"
      "rows_rep lo hi (absorb t R (filter (bi_inRange lo hi) cs)) m'" "set pend' \<subseteq> insert t (set pend)"
      "(\<forall>c\<in>set cs. bi_inRange lo hi c \<longrightarrow> t \<le> c) \<longrightarrow> pend' = pend"
      by metis
    have "pend' = pend \<and> absorb t R (filter (bi_inRange lo hi) cs) = R \<union> {t} \<times> (R `` (E `` {t}))" if fwd: "\<forall>c. (t, c) \<in> E \<longrightarrow> t < c"
    proof -
      have "\<forall>c\<in>set cs. bi_inRange lo hi c \<longrightarrow> t < c" using fwd kids by auto
      moreover have "t \<notin> set (filter (bi_inRange lo hi) cs)" using fwd unfolding kids by blast
      ultimately show ?thesis using m'(4) absorb_others kids less_imp_le by metis
    qed
    then show ?thesis using m'(1,3) absorb_inv [OF A(1) m'(2) kids] by blast
  qed
qed

lemma closure_loop_inv:
  assumes B: "block_of n nb P C s lo hi E" and A: "blocks_ok s" "\<forall>t\<in>{lo..hi}. ign \<or> skips s hi t \<or> bar_dep P C `` {t} \<subseteq> {lo..hi}"
  shows "set ts \<subseteq> {lo..hi} \<Longrightarrow> rows_inv lo hi E R m \<Longrightarrow>
    \<exists>m' R' pend'. res_fold (closure_step s lo hi ign) ts (m, pend) = Inr (m', pend') \<and> rows_inv lo hi E R' m' \<and>
      set pend' \<subseteq> set pend \<union> set ts"
proof (induction ts arbitrary: R m pend)
  case (Cons t ts)
  have t: "t \<in> {lo..hi}" "ign \<or> skips s hi t \<or> bar_dep P C `` {t} \<subseteq> {lo..hi}" using Cons.prems(1) A(2) by auto
  from closure_step_inv [OF B Cons.prems(2) t(1) A(1) t(2), of pend] obtain m1 R1 pend1 where
    s1: "closure_step s lo hi ign t (m, pend) = Inr (m1, pend1)" "rows_inv lo hi E R1 m1" "set pend1 \<subseteq> insert t (set pend)" by blast
  from Cons.IH [OF _ s1(2), of pend1] Cons.prems(1) obtain m2 R2 pend2 where
    "res_fold (closure_step s lo hi ign) ts (m1, pend1) = Inr (m2, pend2)" "rows_inv lo hi E R2 m2"
    "set pend2 \<subseteq> set pend1 \<union> set ts" by auto
  then show ?case using s1(1,3) by (intro exI [of _ m2] exI [of _ R2] exI [of _ pend2]) auto
qed auto

lemma reach_row: "(E::(nat \<times> nat) set)\<^sup>+ `` {t} = E `` {t} \<union> E\<^sup>+ `` (E `` {t})"
  by (auto elim: converse_tranclE intro: trancl_into_trancl2)

text \<open>When every dependency leads to a later task, one pass from the last task on closes the rows.\<close>

lemma closure_loop_forward:
  assumes B: "block_of n nb P C s lo hi E" and A: "blocks_ok s" "\<forall>t\<in>{lo..hi}. ign \<or> skips s hi t \<or> bar_dep P C `` {t} \<subseteq> {lo..hi}"
    and fwd: "\<forall>(a, b)\<in>E. a < b" and m: "rows_inv lo hi E E m"
  shows "lo \<le> t \<Longrightarrow> t \<le> Suc hi \<Longrightarrow>
    \<exists>m' R'. res_fold (closure_step s lo hi ign) (rev [t..<Suc hi]) (m, []) = Inr (m', []) \<and> rows_inv lo hi E R' m' \<and>
      (\<forall>u. t \<le> u \<longrightarrow> R' `` {u} = E\<^sup>+ `` {u})"
proof (induction "Suc hi - t" arbitrary: t)
  case 0
  then have "t = Suc hi" by simp
  moreover have "E `` {u} = {}" "E\<^sup>+ `` {u} = {}" if "Suc hi \<le> u" for u
  proof -
    show e: "E `` {u} = {}" using that block_ofD(4) [OF B] by (auto simp: in_block_def)
    show "E\<^sup>+ `` {u} = {}" using reach_row [of E u] e by auto
  qed
  ultimately show ?case using m by auto
next
  case (Suc k)
  then have t: "t \<in> {lo..hi}" "k = Suc hi - Suc t" "lo \<le> Suc t" "Suc t \<le> Suc hi" by auto
  from Suc.hyps(1) [OF t(2-4)] obtain m1 R1 where s1:
    "res_fold (closure_step s lo hi ign) (rev [Suc t..<Suc hi]) (m, []) = Inr (m1, [])"
    "rows_inv lo hi E R1 m1" "\<forall>u. Suc t \<le> u \<longrightarrow> R1 `` {u} = E\<^sup>+ `` {u}" by blast
  have f: "\<forall>c. (t, c) \<in> E \<longrightarrow> t < c" using fwd by auto
  have "ign \<or> skips s hi t \<or> bar_dep P C `` {t} \<subseteq> {lo..hi}" using A(2) t(1) by blast
  from closure_step_inv [OF B s1(2) t(1) A(1) this, of "[]"] f obtain m2 R2 where s2:
    "closure_step s lo hi ign t (m1, []) = Inr (m2, [])" "rows_inv lo hi E R2 m2"
    "skips s hi t \<and> R2 = R1 \<or> R2 = R1 \<union> {t} \<times> (R1 `` (E `` {t}))" by blast
  have sub: "E \<subseteq> R1" "R1 \<subseteq> E\<^sup>+" using s1(2) by (simp_all add: rows_inv_def)
  have later: "R1 `` (E `` {t}) = E\<^sup>+ `` (E `` {t})"
  proof -
    have "R1 `` {c} = E\<^sup>+ `` {c}" if "c \<in> E `` {t}" for c using that f s1(3) by (simp add: Suc_le_eq)
    then show ?thesis by blast
  qed
  have row: "R2 `` {t} = E\<^sup>+ `` {t}"
  proof (cases "R2 = R1 \<union> {t} \<times> (R1 `` (E `` {t}))")
    case True
    then have "R2 `` {t} = R1 `` {t} \<union> E\<^sup>+ `` (E `` {t})" using later by auto
    then show ?thesis using sub reach_row [of E t] by auto
  next
    case False
    then have "t = hi" "R2 = R1" using s2(3) by (auto simp: skips_def)
    moreover have "E `` {hi} = {}" using f \<open>t = hi\<close> block_ofD(4) [OF B] by (auto simp: in_block_def)
    ultimately show ?thesis using sub reach_row [of E t] by auto
  qed
  have others: "R2 `` {u} = R1 `` {u}" if "u \<noteq> t" for u using s2(3) that by auto
  have "R2 `` {u} = E\<^sup>+ `` {u}" if "t \<le> u" for u
  proof (cases "u = t")
    case False
    then have "R1 `` {u} = E\<^sup>+ `` {u}" using s1(3) that by (simp add: Suc_le_eq)
    then show ?thesis using others [OF False] by simp
  qed (use row in simp)
  moreover have "rev [t..<Suc hi] = rev [Suc t..<Suc hi] @ [t]" using t(1) by (simp add: upt_conv_Cons del: upt_Suc)
  then have "res_fold (closure_step s lo hi ign) (rev [t..<Suc hi]) (m, []) = Inr (m2, [])"
    by (simp add: res_fold_append s1(1) s2(1) del: upt_Suc)
  ultimately show ?case using s2(2) by blast
qed

lemma control_rows_correct:
  assumes B: "block_of n nb P C s lo hi E" and ok: "blocks_ok s" "\<forall>t\<in>{lo..hi}. ign \<or> skips s hi t \<or> bar_dep P C `` {t} \<subseteq> {lo..hi}" and n: "n < 2 ^ 32"
  shows "\<exists>m R. control_rows s lo hi ign = Inr m \<and> rows_inv lo hi E R m \<and> ((\<forall>(a, b)\<in>E. a < b) \<longrightarrow> R = E\<^sup>+)"
proof -
  note rep = block_ofD(1) [OF B] and range = block_ofD(2,3) [OF B] and E_def = block_ofD(4) [OF B]
  have u: "u64_add hi 1 = Suc hi" "u64_add (u64_sub hi lo) 1 = Suc hi - lo"
    using range n by (simp_all add: u64_add_eq u64_sub_eq U64_def)
  have all: "set (rev [lo..<Suc hi]) = {lo..hi}" by auto
  have "rows_rep lo hi {} (replicate (Suc hi - lo) {})" by (auto simp: rows_rep_def)
  from direct_loop [OF B _ this, of "rev [lo..<Suc hi]"] obtain m where m:
    "res_fold (direct_step s lo hi) (rev [lo..<Suc hi]) (replicate (Suc hi - lo) {}) = Inr m" "rows_rep lo hi (E \<inter> {lo..hi} \<times> UNIV) m"
    unfolding all by auto
  have "E \<inter> {lo..hi} \<times> UNIV = E" by (auto simp: E_def in_block_def)
  then have inv: "rows_inv lo hi E E m" using m(2) by (auto simp: rows_inv_def)
  show ?thesis
  proof (cases "\<forall>(a, b)\<in>E. a < b")
    case True
    from closure_loop_forward [OF B ok True inv, of lo] range obtain m' R' where
      m': "res_fold (closure_step s lo hi ign) (rev [lo..<Suc hi]) (m, []) = Inr (m', [])" "rows_inv lo hi E R' m'"
      "\<forall>u. lo \<le> u \<longrightarrow> R' `` {u} = E\<^sup>+ `` {u}" by (auto simp del: upt_Suc)
    have "control_rows s lo hi ign = Inr m'" using m(1) m'(1) unfolding control_rows_def u by simp
    moreover have "E\<^sup>+ \<subseteq> R'"
    proof clarify
      fix a b assume "(a, b) \<in> E\<^sup>+"
      moreover then obtain c where "(a, c) \<in> E" by (meson tranclD)
      then have "lo \<le> a" by (simp add: E_def in_block_def)
      ultimately show "(a, b) \<in> R'" using m'(3) by blast
    qed
    ultimately show ?thesis using m'(2) by (auto simp: rows_inv_def)
  next
    case False
    obtain m1 R1 pend where m1: "res_fold (closure_step s lo hi ign) (rev [lo..<Suc hi]) (m, []) = Inr (m1, pend)"
      "rows_inv lo hi E R1 m1" "set pend \<subseteq> {lo..hi}"
      using closure_loop_inv [OF B ok _ inv, of "rev [lo..<Suc hi]" "[]"] unfolding all by auto
    have "\<exists>m2 R2. control_rows s lo hi ign = Inr m2 \<and> rows_inv lo hi E R2 m2"
    proof (cases "pend = []")
      case True
      then show ?thesis using m(1) m1(1,2) unfolding control_rows_def u by auto
    next
      case ne: False
      obtain m2 R2 where m2: "res_fold (rows_step s lo hi) (sort pend) m1 = Inr m2" "rows_inv lo hi E R2 m2"
        using rows_loop_inv [OF B _ m1(2), of "sort pend"] m1(3) by auto
      have "sort pend \<noteq> []" using ne by (metis set_empty set_sort)
      then have "last (sort pend) \<le> hi" using m1(3) last_in_set [of "sort pend"] by (auto simp: subset_eq)
      then have "set (rev [lo..<last (sort pend)]) \<subseteq> {lo..hi}" by auto
      from rows_loop_inv [OF B this m2(2)] show ?thesis using m(1) m1(1) m2(1) ne unfolding control_rows_def u by auto
    qed
    then show ?thesis using False by blast
  qed
qed

section \<open>The control map\<close>

text \<open>The dependencies that a control map follows: those by barriers in the block, and those by the FIFOs.\<close>

definition block_deps ::
  "(nat \<times> nat) set \<Rightarrow> (nat \<times> nat) set \<Rightarrow> queue_map \<Rightarrow> bool \<Rightarrow> nat \<times> nat \<Rightarrow> nat \<times> nat \<Rightarrow> (nat \<times> nat) set" where
  "block_deps P C m fifo inner outer = in_block (fst outer) (snd outer) (bar_dep P C) \<union>
     (if fifo then queue_order m (fst inner) (snd inner) else {})"

text \<open>A state on which a control map of a block can be built: \<^verbatim>\<open>inner\<close> and \<^verbatim>\<open>outer\<close> are the first and the
  last task of the block without and with its synchronization tasks.\<close>

definition control_ready ::
  "nat \<Rightarrow> nat \<Rightarrow> (nat \<times> nat) set \<Rightarrow> (nat \<times> nat) set \<Rightarrow> barrier_info \<Rightarrow> nat \<Rightarrow> bool \<Rightarrow> bool \<Rightarrow> nat \<times> nat \<Rightarrow> nat \<times> nat \<Rightarrow> bool" where
  "control_ready n nb P C s blk fifo ign inner outer \<longleftrightarrow>
     bi_rep n nb P C s \<and> blocks_ok s \<and> bi_fifoDependencies s = [] \<and> n < 2 ^ 32 \<and> blk < getControlGraphBlockCount s \<and>
     getControlGraphBlockTaskRange s blk True True = Inr outer \<and> getControlGraphBlockTaskRange s blk False False = Inr inner \<and>
     fst outer \<le> fst inner \<and> fst inner \<le> snd inner \<and> snd inner \<le> snd outer \<and> snd outer < n \<and>
     (fifo \<longrightarrow> bi_taskQueueTypeMap s \<noteq> [] \<and> (\<forall>(q, v)\<in>set (bi_taskQueueTypeMap s). bv_ok n v)) \<and>
     (\<forall>t\<in>{fst outer..snd outer}. ign \<or> skips s (snd outer) t \<or> bar_dep P C `` {t} \<subseteq> {fst outer..snd outer})"

lemma isSyncPoint_cong:
  "bi_syncTasksIds s = bi_syncTasksIds s' \<Longrightarrow> bi_taskToBlockMap s = bi_taskToBlockMap s' \<Longrightarrow> bi_allTaskOps s = bi_allTaskOps s' \<Longrightarrow>
    isSyncPoint s t = isSyncPoint s' t"
  by (simp only: isSyncPoint_def getNumOfTasks_def)

lemma queue_order_bounds: "queue_order m st en \<subseteq> {st..en} \<times> {st..en}" "(a, b) \<in> queue_order m st en \<Longrightarrow> a < b"
  by (auto simp: queue_order_def fifo_order_def)

lemma buildTaskControlMap_spec:
  assumes ready: "control_ready n nb P C s blk fifo ign (st, en) (lo, hi)"
  shows "\<exists>m R. buildTaskControlMap blk fifo ign s = Inr ((m, lo), s) \<and> rows_rep lo hi R m \<and>
    R \<subseteq> (block_deps P C (bi_taskQueueTypeMap s) fifo (st, en) (lo, hi))\<^sup>+ \<and> in_block lo hi (bar_dep P C) \<subseteq> R \<and>
    ((\<forall>(a, b)\<in>in_block lo hi (bar_dep P C). a < b) \<longrightarrow> R = (block_deps P C (bi_taskQueueTypeMap s) fifo (st, en) (lo, hi))\<^sup>+)"
proof -
  have rep: "bi_rep n nb P C s" and ok: "blocks_ok s" and nofifo: "bi_fifoDependencies s = []" and n: "n < 2 ^ 32"
    and blk: "blk < getControlGraphBlockCount s"
    and outer: "getControlGraphBlockTaskRange s blk True True = Inr (lo, hi)"
    and inner: "getControlGraphBlockTaskRange s blk False False = Inr (st, en)"
    and r: "lo \<le> st" "st \<le> en" "en \<le> hi" "hi < n"
    and kids: "\<forall>t\<in>{lo..hi}. ign \<or> skips s hi t \<or> bar_dep P C `` {t} \<subseteq> {lo..hi}"
    using ready by (simp_all add: control_ready_def)
  have lohi: "lo \<le> hi" using r by simp
  have small: "checked_u32 (u64_add (u64_sub hi lo) 1) = Inr (Suc hi - lo)"
    using r n lohi by (simp add: checked_u32_def u64_add_eq u64_sub_eq U64_def Suc_diff_le)
  let ?D = "in_block lo hi (bar_dep P C)"
  show ?thesis
  proof (cases fifo)
    case False
    have "block_of n nb P C s lo hi ?D" using rep lohi r(4) by (simp add: block_of_def)
    from control_rows_correct [OF this ok kids n] obtain m R where "control_rows s lo hi ign = Inr m" "rows_inv lo hi ?D R m"
      "(\<forall>(a, b)\<in>?D. a < b) \<longrightarrow> R = ?D\<^sup>+" by blast
    then show ?thesis using False blk outer lohi small
      by (auto simp: buildTaskControlMap_def block_deps_def rows_inv_def intro!: exI [of _ m] exI [of _ R])
  next
    case True
    let ?m = "bi_taskQueueTypeMap s"
    have q: "?m \<noteq> []" "\<forall>(q, v)\<in>set ?m. bv_ok n v" using ready True by (simp_all add: control_ready_def)
    have bnd: "P \<subseteq> {..<nb} \<times> {..<n}" "C \<subseteq> {..<nb} \<times> {..<n}" using bi_rep_bounds [OF rep] by blast+
    have ts0: "temp_state n nb P C s [] UNIV s" using rep nofifo by (simp add: temp_state_def same_rest_def)
    have "new_pairs P C n []" by (simp add: new_pairs_def)
    from fifo_queues_temp [OF ts0 this q(2) bnd r(2) _ n] r
    obtain s1 ds where s1: "res_fold (fifo_of_queue None st en) ?m (s, 0) = Inr (s1, 2 * length ds)"
      "temp_state n nb P C s ds UNIV s1" "new_pairs P C n ds" "set ds \<subseteq> queue_order ?m st en"
      "queue_order ?m st en \<subseteq> (bar_dep P C \<inter> queue_order ?m st en \<union> set ds)\<^sup>+" by auto
    have create: "createBarrierDependenciesImpliedByFIFO blk None s = Inr (s1, 2 * length ds)"
      using q(1) inner s1(1) by (simp add: createBarrierDependenciesImpliedByFIFO_def)
    have rep1: "bi_rep n (nb + length ds) (P \<union> temp_rel nb fst ds UNIV) (C \<union> temp_rel nb snd ds UNIV) s1"
      and same: "same_rest s (s1\<lparr>bi_fifoDependencies := bi_fifoDependencies s\<rparr>)"
      using s1(2) by (simp_all add: temp_state_def)
    have dep1: "bar_dep (P \<union> temp_rel nb fst ds UNIV) (C \<union> temp_rel nb snd ds UNIV) = bar_dep P C \<union> set ds"
      unfolding temp_dep [OF bnd] by (auto simp: set_conv_nth)
    have Q: "queue_order ?m st en \<subseteq> {lo..hi} \<times> {lo..hi}" using queue_order_bounds(1) [of ?m st en] r by fastforce
    let ?E = "?D \<union> set ds"
    have E1: "in_block lo hi (bar_dep P C \<union> set ds) = ?E" using s1(4) Q unfolding in_block_def by blast
    have "block_of n (nb + length ds) (P \<union> temp_rel nb fst ds UNIV) (C \<union> temp_rel nb snd ds UNIV) s1 lo hi ?E"
      using rep1 lohi r(4) by (simp add: block_of_def dep1 E1)
    moreover have "blocks_ok s1" using ok same by (simp add: same_rest_def blocks_ok_def getNumOfTasks_def)
    moreover have "skips s1 hi t = skips s hi t" for t
      using same by (simp add: skips_def same_rest_def isSyncPoint_cong [of s1 s])
    then have "\<forall>t\<in>{lo..hi}. ign \<or> skips s1 hi t \<or>
        bar_dep (P \<union> temp_rel nb fst ds UNIV) (C \<union> temp_rel nb snd ds UNIV) `` {t} \<subseteq> {lo..hi}"
      unfolding dep1 using kids s1(4) Q by blast
    ultimately obtain m R where m: "control_rows s1 lo hi ign = Inr m" "rows_inv lo hi ?E R m"
      "(\<forall>(a, b)\<in>?E. a < b) \<longrightarrow> R = ?E\<^sup>+" using control_rows_correct n by blast
    have remove: "removeBarrierDependenciesImpliedByFIFO s1 = Inr (s, 2 * length ds)"
      by (rule remove_fifo_temp [OF s1(2,3) rep nofifo])
    let ?B = "?D \<union> queue_order ?m st en"
    have "?E\<^sup>+ \<subseteq> ?B\<^sup>+" using s1(4) by (intro trancl_mono_subset) blast
    moreover have "?B\<^sup>+ \<subseteq> ?E\<^sup>+"
    proof -
      have "(bar_dep P C \<inter> queue_order ?m st en \<union> set ds)\<^sup>+ \<subseteq> ?E\<^sup>+"
        using Q unfolding in_block_def by (intro trancl_mono_subset) blast
      then have "?B \<subseteq> ?E\<^sup>+" using s1(5) by auto
      then have "?B\<^sup>+ \<subseteq> (?E\<^sup>+)\<^sup>+" by (rule trancl_mono_subset)
      then show ?thesis by simp
    qed
    ultimately have eq: "?E\<^sup>+ = ?B\<^sup>+" by blast
    have fwd: "\<forall>(a, b)\<in>?E. a < b" if "\<forall>(a, b)\<in>?D. a < b" using that s1(4) queue_order_bounds(2) by blast
    have "buildTaskControlMap blk fifo ign s = Inr ((m, lo), s)"
      using True blk outer lohi small create m(1) remove by (simp add: buildTaskControlMap_def)
    then show ?thesis using m(2,3) fwd True unfolding eq rows_inv_def block_deps_def
      by (intro exI [of _ m] exI [of _ R]) auto
  qed
qed

lemma control_path_rep:
  assumes "rows_rep lo hi R m" "a \<in> {lo..hi}" "b \<in> {lo..hi}"
  shows "controlPathExistsBetweenTasksInSameBlock m (a - lo) (b - lo) False = Inr (a = b \<or> (a, b) \<in> R)"
proof -
  have "length m = Suc hi - lo" using assms(1) by (simp add: rows_rep_def)
  moreover have "a - lo = b - lo \<longleftrightarrow> a = b" using assms(2,3) by auto
  moreover have "m \<noteq> []" using calculation(1) assms(2) by auto
  ultimately show ?thesis using rows_rep_member [OF assms] assms(2,3)
    by (auto simp: controlPathExistsBetweenTasksInSameBlock_def)
qed

section \<open>The queries\<close>










section \<open>Properties\<close>

text \<open>
  C11. When the dependencies in a block lead to later tasks, the control map answers exactly
  whether a path of barriers and FIFO neighbours leads from one task of the block to another, and building it leaves the
  state as it was: every temporary barrier is gone.
\<close>

theorem control_map_is_reachability:
  assumes "control_ready n nb P C s blk fifo ign (st, en) (lo, hi)" "\<forall>(a, b)\<in>in_block lo hi (bar_dep P C). a < b"
  shows "\<exists>m. buildTaskControlMap blk fifo ign s = Inr ((m, lo), s) \<and> (\<forall>a\<in>{lo..hi}. \<forall>b\<in>{lo..hi}.
    controlPathExistsBetweenTasksInSameBlock m (a - lo) (b - lo) False =
      Inr (a = b \<or> (a, b) \<in> (block_deps P C (bi_taskQueueTypeMap s) fifo (st, en) (lo, hi))\<^sup>+))"
  using buildTaskControlMap_spec [OF assms(1)] assms(2) control_path_rep by blast

text \<open>
  C21. Whatever the order of the tasks, the control map has every direct dependency by a barrier, and
  nothing but real paths; it is built without error and the state is restored.
\<close>

theorem control_map_sound:
  assumes "control_ready n nb P C s blk fifo ign (st, en) (lo, hi)"
  shows "\<exists>m. buildTaskControlMap blk fifo ign s = Inr ((m, lo), s) \<and> (\<forall>a\<in>{lo..hi}. \<forall>b\<in>{lo..hi}. \<exists>r.
    controlPathExistsBetweenTasksInSameBlock m (a - lo) (b - lo) False = Inr r \<and>
    ((a, b) \<in> bar_dep P C \<longrightarrow> r) \<and>
    (r \<longrightarrow> a = b \<or> (a, b) \<in> (block_deps P C (bi_taskQueueTypeMap s) fifo (st, en) (lo, hi))\<^sup>+))"
proof -
  obtain m R where m: "buildTaskControlMap blk fifo ign s = Inr ((m, lo), s)" "rows_rep lo hi R m"
    "R \<subseteq> (block_deps P C (bi_taskQueueTypeMap s) fifo (st, en) (lo, hi))\<^sup>+" "in_block lo hi (bar_dep P C) \<subseteq> R"
    using buildTaskControlMap_spec [OF assms] by blast
  have "(a, b) \<in> R" if "(a, b) \<in> bar_dep P C" "a \<in> {lo..hi}" "b \<in> {lo..hi}" for a b
    using m(4) that by (auto simp: in_block_def)
  then show ?thesis using m(1,3) control_path_rep [OF m(2)] by (intro exI [of _ m]) blast
qed


text \<open>Three tasks: the first and the second on one queue, the third waits for the barrier the first one updates.\<close>

definition example_control :: barrier_info where
  "example_control = empty_barrier_info\<lparr>bi_allTaskOps := replicate 3 (example_queue_task None),
     bi_taskWaitBarriers := [{}, {}, {0}], bi_taskUpdateBarriers := [{0}, {}, {}], bi_barrierProducerMap := [{0}],
     bi_barrierConsumerMap := [{2}], bi_taskQueueTypeMap := [((DMA_NN, 2), (3, {0, 1}))]\<rparr>"

lemma example_control_rep: "bi_rep 3 1 {(0, 0)} {(0, 2)} example_control"
  by (auto simp: bi_rep_def represents_def producer_maps_def consumer_maps_def example_control_def getNumOfTasks_def
      less_Suc_eq numeral_3_eq_3 numeral_2_eq_2)

lemma example_control_ready: "control_ready 3 1 {(0, 0)} {(0, 2)} example_control 0 True False (0, 2) (0, 2)"
proof -
  have "getControlGraphBlockTaskRange example_control 0 a b = Inr (0, 2)" for a b
    by (simp add: getControlGraphBlockTaskRange_def getControlGraphBlockCount_def example_control_def empty_barrier_info_def
        getNumOfTasks_def u64_sub_def U64_def)
  moreover have "blocks_ok example_control" "bi_fifoDependencies example_control = []" "getControlGraphBlockCount example_control = 1"
    by (simp_all add: blocks_ok_def example_control_def empty_barrier_info_def getControlGraphBlockCount_def)
  ultimately show ?thesis using example_control_rep
    by (auto simp: control_ready_def example_control_def bv_ok_def bar_dep_iff)
qed

lemma example_control_forward: "\<forall>(a, b)\<in>bar_dep {(0::nat, 0::nat)} {(0, 2)}. a < b"
  by (auto simp: bar_dep_iff)

theorem control_map_is_reachability_witness:
  "\<exists>m. buildTaskControlMap 0 True False example_control = Inr ((m, 0), example_control) \<and>
     controlPathExistsBetweenTasksInSameBlock m 0 1 False = Inr True"
proof -
  have "\<forall>(a, b)\<in>in_block 0 2 (bar_dep {(0, 0)} {(0, 2)}). a < b" using example_control_forward by (auto simp: in_block_def)
  from control_map_is_reachability [OF example_control_ready this]
  obtain m where m: "buildTaskControlMap 0 True False example_control = Inr ((m, 0), example_control)"
    "\<forall>a\<in>{0..2}. \<forall>b\<in>{0..2}. controlPathExistsBetweenTasksInSameBlock m (a - 0) (b - 0) False =
      Inr (a = b \<or> (a, b) \<in> (block_deps {(0, 0)} {(0, 2)} (bi_taskQueueTypeMap example_control) True (0, 2) (0, 2))\<^sup>+)" by blast
  have "(0, 1) \<in> block_deps {(0, 0)} {(0, 2)} (bi_taskQueueTypeMap example_control) True (0, 2) (0, 2)"
    by (simp add: block_deps_def queue_order_def fifo_order_def example_control_def)
  then show ?thesis using m(1) m(2) [rule_format, of 0 1] by (auto dest: r_into_trancl)
qed

theorem control_map_sound_witness:
  "\<exists>m. buildTaskControlMap 0 True False example_control = Inr ((m, 0), example_control) \<and>
     controlPathExistsBetweenTasksInSameBlock m 0 2 False = Inr True"
proof -
  have "(0, 2) \<in> bar_dep {(0::nat, 0::nat)} {(0, 2)}" by (auto simp: bar_dep_iff)
  then show ?thesis using control_map_sound [OF example_control_ready] by fastforce
qed


end
