(* ===== verification/Barrier_Optimize.thy ===== *)
theory Barrier_Optimize
  imports Barrier_Control
begin

text \<open>
  Removal of redundant dependencies, \<^verbatim>\<open>src/core/barrier_info.cpp\<close>: a producer of a barrier that a
  task behind it also produces, a consumer that a task before it also consumes, and barriers with the same producers.
  The order of the tasks, the transitive closure of the dependencies, is shown to stay the same.
\<close>

section \<open>Redundant producers\<close>

definition or_rows :: "nat \<Rightarrow> nat \<Rightarrow> nat \<Rightarrow> bit_vector list \<Rightarrow> bit_vector list" where
  "or_rows lo t u rows = rows[t - lo := bv_or (rows ! (t - lo)) (rows ! (u - lo))]"

definition reset_rows :: "nat \<Rightarrow> nat \<Rightarrow> nat \<Rightarrow> bit_vector list \<Rightarrow> bit_vector list" where
  "reset_rows lo t u rows = rows[t - lo := bv_reset (rows ! (t - lo)) (rows ! (u - lo))]"

definition set_row :: "nat \<Rightarrow> nat \<Rightarrow> nat \<Rightarrow> nat set \<Rightarrow> bit_vector list \<Rightarrow> bit_vector list res" where
  "set_row lo off t bars rows =
     map_sum id (\<lambda>v. rows[t - lo := v]) (setBarrierMask (rows ! (t - lo)) bars off)"

definition in_range_or :: "string \<Rightarrow> nat \<Rightarrow> nat \<Rightarrow> nat \<Rightarrow> nat \<Rightarrow> bit_vector list \<Rightarrow> bit_vector list res" where
  "in_range_or msg lo hi t u rows =
     (if bi_inRange lo hi u then Inr (or_rows lo t u rows) else Inl (Vpux_Throw msg))"

definition collect_producers_step ::
  "barrier_info \<Rightarrow> nat \<Rightarrow> nat \<Rightarrow> nat \<Rightarrow> nat \<Rightarrow> bit_vector list \<Rightarrow> bit_vector list res" where
  "collect_producers_step s lo hi off taskInd rows =
     res_bind (vec_at (bi_taskUpdateBarriers s) taskInd) (\<lambda>bars.
     res_bind (set_row lo off taskInd bars rows) (\<lambda>rows.
     res_bind (if taskInd = hi then isSyncPoint s taskInd else Inr False) (\<lambda>skip.
     if skip then Inr rows
     else res_bind (child_tasks s taskInd) (\<lambda>cs. res_fold
       (in_range_or ''Task has update barriers with a consumer from outside of the current range'' lo hi taskInd) cs rows))))"

definition target_barriers :: "nat \<Rightarrow> bit_vector \<Rightarrow> nat set" where
  "target_barriers off v = (\<lambda>b. b + off) ` snd v"

definition remove_producers_step ::
  "nat \<Rightarrow> nat \<Rightarrow> nat \<Rightarrow> nat \<Rightarrow> barrier_info \<times> bit_vector list \<Rightarrow> (barrier_info \<times> bit_vector list) res" where
  "remove_producers_step lo hi off taskInd = (\<lambda>(s, rows).
     res_bind (child_tasks s taskInd) (\<lambda>cs.
     let rows = fold (\<lambda>c rows. if bi_inRange lo hi c then reset_rows lo taskInd c rows else rows) cs rows in
     map_sum id (\<lambda>s. (s, rows)) (setUpdateBarriers taskInd (target_barriers off (rows ! (taskInd - lo))) s)))"

definition optimizeBarrierProducers :: "nat \<Rightarrow> barrier_info \<Rightarrow> barrier_info res" where
  "optimizeBarrierProducers blockIdx s =
     res_bind (getControlGraphBlockTaskRange s blockIdx True True) (\<lambda>(lo, hi).
     res_bind (getBarriersForTaskBlock s blockIdx True True True) (\<lambda>bars.
     if bars = [] then Inr s
     else let off = hd bars; hi = min hi (u64_sub (getNumOfTasks s) 1) in
       if lo > hi then Inl (Vpux_Throw ''Lower bound of task optimization range is greater than upper bound'')
       else res_bind (checked_u32 (last bars - hd bars + 1)) (\<lambda>barrierSize.
         res_bind (res_fold (collect_producers_step s lo hi off) (rev [lo..<hi + 1]) (replicate (hi - lo + 1) (barrierSize, {}))) (\<lambda>rows.
         map_sum id fst (res_fold (remove_producers_step lo hi off) [lo..<hi + 1] (s, rows))))))"

section \<open>Redundant consumers\<close>

text \<open>The producers of the barriers a task waits for, barrier by barrier.\<close>

definition parent_tasks :: "barrier_info \<Rightarrow> nat \<Rightarrow> nat list res" where
  "parent_tasks s taskInd = res_bind (vec_at (bi_taskWaitBarriers s) taskInd) (\<lambda>bars.
     res_fold (\<lambda>b acc. map_sum id (\<lambda>ps. acc @ sorted_list_of_set ps) (vec_at (bi_barrierProducerMap s) b))
       (sorted_list_of_set bars) [])"

definition collect_consumers_step ::
  "barrier_info \<Rightarrow> nat \<Rightarrow> nat \<Rightarrow> nat \<Rightarrow> nat \<Rightarrow> bit_vector list \<Rightarrow> bit_vector list res" where
  "collect_consumers_step s lo hi off taskInd rows =
     res_bind (vec_at (bi_taskWaitBarriers s) taskInd) (\<lambda>bars.
     res_bind (set_row lo off taskInd bars rows) (\<lambda>rows.
     res_bind (if taskInd = lo then isSyncPoint s taskInd else Inr False) (\<lambda>skip.
     if skip then Inr rows
     else res_bind (parent_tasks s taskInd) (\<lambda>ps. res_fold
       (in_range_or ''Task has wait barriers with a producer from outside of the current range'' lo hi taskInd) ps rows))))"

definition remove_consumers_step ::
  "nat \<Rightarrow> nat \<Rightarrow> nat \<Rightarrow> nat \<Rightarrow> barrier_info \<times> bit_vector list \<Rightarrow> (barrier_info \<times> bit_vector list) res" where
  "remove_consumers_step lo hi off taskInd = (\<lambda>(s, rows).
     res_bind (parent_tasks s taskInd) (\<lambda>ps.
     let rows = fold (\<lambda>p rows. if bi_inRange lo hi p then reset_rows lo taskInd p rows else rows) ps rows in
     map_sum id (\<lambda>s. (s, rows)) (setWaitBarriers taskInd (target_barriers off (rows ! (taskInd - lo))) s)))"

definition optimizeBarrierConsumers :: "nat \<Rightarrow> barrier_info \<Rightarrow> barrier_info res" where
  "optimizeBarrierConsumers blockIdx s =
     res_bind (getControlGraphBlockTaskRange s blockIdx True True) (\<lambda>(lo, hi).
     res_bind (getBarriersForTaskBlock s blockIdx True True False) (\<lambda>bars.
     if bars = [] then Inr s
     else let off = hd bars; hi = min hi (u64_sub (getNumOfTasks s) 1) in
       if lo > hi then Inl (Vpux_Throw ''Lower bound of task optimization range is greater than upper bound'')
       else res_bind (checked_u32 (last bars - hd bars + 1)) (\<lambda>barrierSize.
         res_bind (res_fold (collect_consumers_step s lo hi off) [lo..<hi + 1] (replicate (hi - lo + 1) (barrierSize, {}))) (\<lambda>rows.
         map_sum id fst (res_fold (remove_consumers_step lo hi off) (rev [lo..<hi + 1]) (s, rows))))))"

section \<open>Barriers with the same producers\<close>

text \<open>
  The source compares the producers of two barriers as vectors in the iteration order of
  \<^verbatim>\<open>llvm::SmallSet\<close>; the parameter \<^verbatim>\<open>producersInOrder\<close> is that order for the set of a barrier.
\<close>

definition legalMergeSlotCount :: "nat \<Rightarrow> bool \<Rightarrow> barrier_info \<Rightarrow> nat \<Rightarrow> nat \<Rightarrow> bool res" where
  "legalMergeSlotCount maxVariantCount checkValidSlotCount s bar1 bar2 =
     (if \<not> checkValidSlotCount then Inr True
      else res_bind (vec_at (bi_barrierProducerMap s) bar1) (\<lambda>ps.
        res_bind (vec_at (bi_barrierConsumerMap s) bar1) (\<lambda>c1. res_bind (vec_at (bi_barrierConsumerMap s) bar2) (\<lambda>c2.
        res_bind (slot_sum s (sorted_list_of_set ps)) (\<lambda>n.
        map_sum id (\<lambda>k. n + k \<le> maxVariantCount) (slot_sum s (sorted_list_of_set (c1 \<union> c2))))))))"

definition merge_pair ::
  "nat \<Rightarrow> bool \<Rightarrow> nat list \<Rightarrow> nat \<times> nat \<Rightarrow> barrier_info \<times> nat list list \<Rightarrow> (barrier_info \<times> nat list list) res" where
  "merge_pair maxVariantCount checkValidSlotCount bars = (\<lambda>(ind1, ind2) (s, producerVecs).
     if producerVecs ! ind1 = producerVecs ! ind2
     then res_bind (legalMergeSlotCount maxVariantCount checkValidSlotCount s (bars ! ind1) (bars ! ind2)) (\<lambda>legal.
       if legal
       then res_bind (vec_at (bi_barrierConsumerMap s) (bars ! ind2)) (\<lambda>cs.
         res_bind (res_fold (bi_addConsumer (bars ! ind1)) (sorted_list_of_set cs) s) (\<lambda>s.
         map_sum id (\<lambda>s. (s, producerVecs[ind2 := []])) (resetBarrier (bars ! ind2) s)))
       else Inr (s, producerVecs))
     else Inr (s, producerVecs))"

definition index_pairs :: "nat \<Rightarrow> (nat \<times> nat) list" where
  "index_pairs n = concat (map (\<lambda>i. map (Pair i) [i + 1..<n]) [0..<n])"

definition optimizeBarriersWithSameProducers ::
  "nat \<Rightarrow> (nat \<Rightarrow> nat list) \<Rightarrow> nat \<Rightarrow> bool \<Rightarrow> barrier_info \<Rightarrow> barrier_info res" where
  "optimizeBarriersWithSameProducers maxVariantCount producersInOrder blockIdx checkValidSlotCount s =
     res_bind (getBarriersForTaskBlock s blockIdx True False True) (\<lambda>bars.
     if bars = [] then Inr s
     else let maxBarrierIndex = u64_sub (length (bi_allBarrierOps s) + length (bi_fifoDependencies s)) 1 in
       if hd bars > maxBarrierIndex then Inl (Vpux_Throw ''Invalid barrier index for lower limit of barrier range optimization'')
       else if last bars > maxBarrierIndex then Inl (Vpux_Throw ''Invalid barrier index for upper limit of barrier range optimization'')
       else map_sum id fst (res_fold (merge_pair maxVariantCount checkValidSlotCount bars)
              (index_pairs (length bars)) (s, map producersInOrder bars)))"

section \<open>All blocks\<close>

definition optimize_block ::
  "nat \<Rightarrow> (nat \<Rightarrow> barrier_info \<Rightarrow> nat \<Rightarrow> nat list) \<Rightarrow> bool \<Rightarrow> executor_kind set option \<Rightarrow> nat \<Rightarrow> barrier_info \<Rightarrow> barrier_info res" where
  "optimize_block maxVariantCount producersInOrder checkValidSlotCount fifoExecutors blockIdx s =
     (let n = getNumOfBarrierOps s in
      res_bind (case fifoExecutors of None \<Rightarrow> Inr s
                | Some ks \<Rightarrow> map_sum id fst (createBarrierDependenciesImpliedByFIFO blockIdx (Some ks) s)) (\<lambda>s.
      res_bind (optimizeBarrierProducers blockIdx s) (\<lambda>s.
      res_bind (optimizeBarriersWithSameProducers maxVariantCount (producersInOrder blockIdx s) blockIdx checkValidSlotCount s) (\<lambda>s.
      res_bind (optimizeBarrierConsumers blockIdx s) (\<lambda>s.
      if getNumOfBarrierOps s \<noteq> n then Inl (Vpux_Throw ''Number of barriers changed during optimization.'')
      else if fifoExecutors = None then Inr s
      else res_bind (removeBarrierDependenciesImpliedByFIFO s) (\<lambda>(s, removedDepsCount).
        if getNumOfBarrierOps s \<noteq> n
        then Inl (Vpux_Throw ''Incorrect number of barriers after removing barrier representation of FIFO dependencies.'')
        else Inr s))))))"

definition optimizeBarriers ::
  "platform \<Rightarrow> nat \<Rightarrow> (nat \<Rightarrow> barrier_info \<Rightarrow> nat \<Rightarrow> nat list) \<Rightarrow> bool \<Rightarrow> bool \<Rightarrow> executor_kind set \<Rightarrow> barrier_info \<Rightarrow> barrier_info res" where
  "optimizeBarriers pf maxVariantCount producersInOrder checkValidSlotCount considerTaskFifoDependency executors s =
     res_bind (if considerTaskFifoDependency then buildTaskQueueTypeMap pf s else Inr s) (\<lambda>s.
     res_fold (optimize_block maxVariantCount producersInOrder checkValidSlotCount
         (if considerTaskFifoDependency then Some executors else None))
       [0..<getControlGraphBlockCount s] s)"

section \<open>The rows of the barriers reached\<close>

text \<open>The rows of a block, each a bit vector over the barriers from an offset on, represent a function from tasks to barriers.\<close>

definition brep :: "nat \<Rightarrow> nat \<Rightarrow> nat \<Rightarrow> nat \<Rightarrow> (nat \<Rightarrow> nat set) \<Rightarrow> bit_vector list \<Rightarrow> bool" where
  "brep lo hi off sz B rows \<longleftrightarrow> length rows = Suc hi - lo \<and>
     (\<forall>t\<in>{lo..hi}. B t \<subseteq> {off..<off + sz} \<and> rows ! (t - lo) = (sz, (\<lambda>b. b - off) ` B t))"

lemma brep_update:
  assumes "brep lo hi off sz B rows" "t \<in> {lo..hi}" "S \<subseteq> {off..<off + sz}" "v = (sz, (\<lambda>b. b - off) ` S)"
  shows "brep lo hi off sz (B(t := S)) (rows[t - lo := v])"
proof -
  have "rows[t - lo := v] ! (u - lo) = (sz, (\<lambda>b. b - off) ` (B(t := S)) u)" if u: "u \<in> {lo..hi}" for u
  proof (cases "u = t")
    case False
    then have "u - lo \<noteq> t - lo" using u assms(2) by auto
    then show ?thesis using assms(1) u False by (simp add: brep_def)
  qed (use assms in \<open>auto simp: brep_def\<close>)
  then show ?thesis using assms by (simp add: brep_def)
qed

lemma or_rows_rep:
  assumes "brep lo hi off sz B rows" "t \<in> {lo..hi}" "u \<in> {lo..hi}"
  shows "brep lo hi off sz (B(t := B t \<union> B u)) (or_rows lo t u rows)"
proof -
  have "B t \<subseteq> {off..<off + sz}" "B u \<subseteq> {off..<off + sz}" using assms by (auto simp: brep_def)
  moreover have "bv_or (rows ! (t - lo)) (rows ! (u - lo)) = (sz, (\<lambda>b. b - off) ` (B t \<union> B u))"
    using assms by (simp add: brep_def bv_or_def image_Un)
  ultimately show ?thesis unfolding or_rows_def by (intro brep_update [OF assms(1,2)]) auto
qed

lemma reset_rows_rep:
  assumes "brep lo hi off sz B rows" "t \<in> {lo..hi}" "u \<in> {lo..hi}"
  shows "brep lo hi off sz (B(t := B t - B u)) (reset_rows lo t u rows)"
proof -
  have sub: "B t \<subseteq> {off..<off + sz}" "B u \<subseteq> {off..<off + sz}" using assms by (auto simp: brep_def)
  have "inj_on (\<lambda>b. b - off) {off..<off + sz}" by (auto simp: inj_on_def)
  from inj_on_image_set_diff [OF this, of "B t" "B u"] sub
  have "(\<lambda>b. b - off) ` (B t - B u) = (\<lambda>b. b - off) ` B t - (\<lambda>b. b - off) ` B u" by blast
  then have "bv_reset (rows ! (t - lo)) (rows ! (u - lo)) = (sz, (\<lambda>b. b - off) ` (B t - B u))"
    using assms by (simp add: brep_def bv_reset_def)
  then show ?thesis unfolding reset_rows_def using sub by (intro brep_update [OF assms(1,2)]) auto
qed

lemma in_range_or_loop:
  "brep lo hi off sz B rows \<Longrightarrow> t \<in> {lo..hi} \<Longrightarrow> set cs \<subseteq> {lo..hi} \<Longrightarrow> t \<notin> set cs \<Longrightarrow>
    \<exists>rows'. res_fold (in_range_or msg lo hi t) cs rows = Inr rows' \<and> brep lo hi off sz (B(t := B t \<union> \<Union> (B ` set cs))) rows'"
proof (induction cs arbitrary: B rows)
  case (Cons c cs)
  have c: "c \<in> {lo..hi}" "c \<noteq> t" "t \<notin> set cs" "set cs \<subseteq> {lo..hi}" using Cons.prems(3,4) by auto
  let ?B = "B(t := B t \<union> B c)"
  from Cons.IH [OF or_rows_rep [OF Cons.prems(1,2) c(1)] Cons.prems(2) c(4,3)] obtain rows' where "res_fold (in_range_or msg lo hi t) cs (or_rows lo t c rows) = Inr rows'"
    "brep lo hi off sz (?B(t := ?B t \<union> \<Union> (?B ` set cs))) rows'" by blast
  moreover have "\<Union> (?B ` set cs) = \<Union> (B ` set cs)" using c(3) by auto
  then have "?B(t := ?B t \<union> \<Union> (?B ` set cs)) = B(t := B t \<union> \<Union> (B ` set (c # cs)))" by (auto simp: Un_assoc)
  moreover have "in_range_or msg lo hi t c rows = Inr (or_rows lo t c rows)" using c(1) by (simp add: in_range_or_def bi_inRange_def)
  ultimately show ?case by (metis res_bind_simps(2) res_fold.simps(2))
qed simp

lemma reset_loop:
  "brep lo hi off sz B rows \<Longrightarrow> t \<in> {lo..hi} \<Longrightarrow> t \<notin> set cs \<Longrightarrow>
    brep lo hi off sz (B(t := B t - \<Union> (B ` (set cs \<inter> {lo..hi}))))
      (fold (\<lambda>c rows. if bi_inRange lo hi c then reset_rows lo t c rows else rows) cs rows)"
proof (induction cs arbitrary: B rows)
  case (Cons c cs)
  show ?case
  proof (cases "c \<in> {lo..hi}")
    case True
    let ?B = "B(t := B t - B c)"
    have nt: "t \<notin> set cs" using Cons.prems(3) by simp
    have ih: "brep lo hi off sz (?B(t := ?B t - \<Union> (?B ` (set cs \<inter> {lo..hi}))))
      (fold (\<lambda>c rows. if bi_inRange lo hi c then reset_rows lo t c rows else rows) cs (reset_rows lo t c rows))"
      by (rule Cons.IH [OF reset_rows_rep [OF Cons.prems(1,2) True] Cons.prems(2) nt])
    have "?B ` (set cs \<inter> {lo..hi}) = B ` (set cs \<inter> {lo..hi})" using Cons.prems(3) by (intro image_cong) auto
    then have e: "?B(t := ?B t - \<Union> (?B ` (set cs \<inter> {lo..hi}))) = B(t := B t - \<Union> (B ` (set (c # cs) \<inter> {lo..hi})))"
      using True by (auto simp: fun_eq_iff)
    have "fold (\<lambda>c rows. if bi_inRange lo hi c then reset_rows lo t c rows else rows) (c # cs) rows =
        fold (\<lambda>c rows. if bi_inRange lo hi c then reset_rows lo t c rows else rows) cs (reset_rows lo t c rows)"
      using True by (simp add: bi_inRange_def)
    then show ?thesis using ih unfolding e by (simp only:)
  next
    case False
    then show ?thesis using Cons by (auto simp: bi_inRange_def)
  qed
qed simp

lemma setBarrierMask_rep:
  assumes "S \<subseteq> {off..<off + sz}" "off + sz \<le> 2 ^ 32"
  shows "setBarrierMask (sz, {}) S off = Inr (sz, (\<lambda>b. b - off) ` S)"
proof -
  have fin: "finite S" using assms(1) finite_subset by blast
  have bit: "u64_sub b off mod 2 ^ 32 = b - off" if "b \<in> {off..<off + sz}" for b
  proof -
    have "b - off < 2 ^ 32" "b < U64" using that assms(2) by (auto simp: U64_def)
    then show ?thesis using that by (simp add: u64_sub_eq)
  qed
  have loop: "res_fold (\<lambda>bar m. bv_set (u64_sub bar off mod 2 ^ 32) m) bs (sz, A) = Inr (sz, A \<union> (\<lambda>b. b - off) ` set bs)"
    if "set bs \<subseteq> {off..<off + sz}" for bs A
    using that
  proof (induction bs arbitrary: A)
    case (Cons b bs)
    have b: "b \<in> {off..<off + sz}" using Cons.prems by simp
    then have "bv_set (u64_sub b off mod 2 ^ 32) (sz, A) = Inr (sz, insert (b - off) A)"
      unfolding bit [OF b] by (auto simp: bv_set_def)
    then show ?case using Cons by simp
  qed simp
  show ?thesis unfolding setBarrierMask_def using loop [of "sorted_list_of_set S" "{}"] fin assms(1) by simp
qed

lemma set_row_rep:
  assumes "brep lo hi off sz B rows" "t \<in> {lo..hi}" "S \<subseteq> {off..<off + sz}" "off + sz \<le> 2 ^ 32" "B t = {}"
  shows "\<exists>rows'. set_row lo off t S rows = Inr rows' \<and> brep lo hi off sz (B(t := S)) rows'"
proof -
  have "rows ! (t - lo) = (sz, {})" using assms(1,2,5) by (simp add: brep_def)
  then show ?thesis using brep_update [OF assms(1-3) refl] setBarrierMask_rep [OF assms(3,4)] by (simp add: set_row_def)
qed

lemma target_barriers_rep:
  assumes "brep lo hi off sz B rows" "t \<in> {lo..hi}"
  shows "target_barriers off (rows ! (t - lo)) = B t"
proof -
  have "B t \<subseteq> {off..<off + sz}" "rows ! (t - lo) = (sz, (\<lambda>b. b - off) ` B t)" using assms by (auto simp: brep_def)
  then show ?thesis by (force simp: target_barriers_def image_image)
qed

section \<open>The two loops over a block\<close>

text \<open>
  \<^verbatim>\<open>own\<close> are the barriers of a task itself, \<^verbatim>\<open>G\<close> leads to the tasks whose barriers it also reaches.  The
  first loop visits those tasks before the task itself.
\<close>

definition reached :: "(nat \<Rightarrow> nat set) \<Rightarrow> (nat \<times> nat) set \<Rightarrow> nat \<Rightarrow> nat set" where
  "reached own G t = \<Union> (own ` (G\<^sup>* `` {t}))"

lemma reached_step: "reached own G t = own t \<union> \<Union> (reached own G ` (G `` {t}))"
proof -
  have "G\<^sup>* `` {t} = insert t (\<Union>c\<in>G `` {t}. G\<^sup>* `` {c})"
    by (auto elim: converse_rtranclE intro: converse_rtrancl_into_rtrancl)
  then show ?thesis by (auto simp: reached_def)
qed

lemma collect_loop:
  assumes step: "\<And>t B rows. t \<in> {lo..hi} \<Longrightarrow> brep lo hi off sz B rows \<Longrightarrow> B t = {} \<Longrightarrow>
      \<exists>rows'. f t rows = Inr rows' \<and> brep lo hi off sz (B(t := own t \<union> \<Union> (B ` (G `` {t})))) rows'"
    and before: "\<And>t c. (t, c) \<in> G \<Longrightarrow> r c t" and asym: "\<And>x y. r x y \<Longrightarrow> \<not> r y x"
  shows "sorted_wrt r ts \<Longrightarrow> set ts \<subseteq> {lo..hi} \<Longrightarrow> \<forall>t\<in>set ts. G `` {t} \<subseteq> set ts \<Longrightarrow> brep lo hi off sz (\<lambda>_. {}) rows \<Longrightarrow>
    \<exists>rows'. res_fold f ts rows = Inr rows' \<and> brep lo hi off sz (\<lambda>t. if t \<in> set ts then reached own G t else {}) rows'"
proof (induction ts rule: rev_induct)
  case (snoc t ts)
  have s: "sorted_wrt r ts" "\<forall>x\<in>set ts. r x t" using snoc.prems(1) by (simp_all add: sorted_wrt_append)
  have nt: "t \<notin> set ts" using s(2) asym by blast
  have kids: "G `` {t} \<subseteq> set ts" using snoc.prems(3) before asym by fastforce
  have "\<forall>x\<in>set ts. G `` {x} \<subseteq> set ts" using snoc.prems(3) before asym s(2) by fastforce
  with snoc.IH [OF s(1)] snoc.prems(2,4) obtain rows1 where rows1: "res_fold f ts rows = Inr rows1"
    "brep lo hi off sz (\<lambda>t. if t \<in> set ts then reached own G t else {}) rows1" by auto
  let ?B = "\<lambda>t. if t \<in> set ts then reached own G t else {}"
  from step [OF _ rows1(2), of t] snoc.prems(2) nt obtain rows2 where rows2: "f t rows1 = Inr rows2"
    "brep lo hi off sz (?B(t := own t \<union> \<Union> (?B ` (G `` {t})))) rows2" by auto
  have "?B ` (G `` {t}) = reached own G ` (G `` {t})" using kids by (intro image_cong) auto
  then have "?B(t := own t \<union> \<Union> (?B ` (G `` {t}))) = (\<lambda>u. if u \<in> set (ts @ [t]) then reached own G u else {})"
    using reached_step [of own G t] by (auto simp: fun_eq_iff)
  then show ?case using rows1(1) rows2 by (simp add: res_fold_append)
qed auto

lemma remove_loop:
  assumes kids: "\<And>xs t s. J xs s \<Longrightarrow> t \<in> {lo..hi} \<Longrightarrow> t \<notin> set xs \<Longrightarrow> \<exists>cs. ch s t = Inr cs \<and> set cs \<inter> {lo..hi} = G `` {t}"
    and upd: "\<And>xs t s. J xs s \<Longrightarrow> t \<in> {lo..hi} \<Longrightarrow> t \<notin> set xs \<Longrightarrow>
      \<exists>s'. up t (reached own G t - \<Union> (reached own G ` (G `` {t}))) s = Inr s' \<and> J (xs @ [t]) s'"
    and later: "\<And>t c. (t, c) \<in> G \<Longrightarrow> r t c" and asym: "\<And>x y. r x y \<Longrightarrow> \<not> r y x"
    and f: "\<And>t s rows. f t (s, rows) = res_bind (ch s t) (\<lambda>cs.
       let rows = fold (\<lambda>c rows. if bi_inRange lo hi c then reset_rows lo t c rows else rows) cs rows in
       map_sum id (\<lambda>s. (s, rows)) (up t (target_barriers off (rows ! (t - lo))) s))"
    and init: "J [] s" "brep lo hi off sz (reached own G) rows"
  shows "sorted_wrt r ts \<Longrightarrow> set ts \<subseteq> {lo..hi} \<Longrightarrow> \<exists>s' rows' B. res_fold f ts (s, rows) = Inr (s', rows') \<and> J ts s' \<and>
    brep lo hi off sz B rows' \<and> (\<forall>u. u \<notin> set ts \<longrightarrow> B u = reached own G u)"
proof (induction ts rule: rev_induct)
  case Nil
  then show ?case using init by auto
next
  case (snoc t ts)
  have s: "sorted_wrt r ts" "\<forall>x\<in>set ts. r x t" using snoc.prems(1) by (simp_all add: sorted_wrt_append)
  have t: "t \<in> {lo..hi}" "t \<notin> set ts" using snoc.prems(2) s(2) asym by auto
  from snoc.IH [OF s(1)] snoc.prems(2) obtain s1 rows1 B where s1: "res_fold f ts (s, rows) = Inr (s1, rows1)" "J ts s1"
    "brep lo hi off sz B rows1" "\<forall>u. u \<notin> set ts \<longrightarrow> B u = reached own G u" by auto
  obtain cs where cs: "ch s1 t = Inr cs" "set cs \<inter> {lo..hi} = G `` {t}" using kids [OF s1(2) t] by blast
  have "\<forall>c\<in>G `` {t}. c \<notin> set ts \<and> c \<noteq> t" using later asym s(2) by blast
  moreover then have "t \<notin> set cs" using cs(2) t(1) by blast
  ultimately have rr: "t \<notin> set cs" "B ` (G `` {t}) = reached own G ` (G `` {t})"
    using s1(4) by (auto intro!: image_cong)
  let ?rows = "fold (\<lambda>c rows. if bi_inRange lo hi c then reset_rows lo t c rows else rows) cs rows1"
  let ?B = "B(t := B t - \<Union> (B ` (G `` {t})))"
  have b: "brep lo hi off sz ?B ?rows" using reset_loop [OF s1(3) t(1) rr(1)] unfolding cs(2) .
  have "target_barriers off (?rows ! (t - lo)) = reached own G t - \<Union> (reached own G ` (G `` {t}))"
    using target_barriers_rep [OF b t(1)] rr(2) s1(4) t(2) by simp
  moreover obtain s2 where s2: "up t (reached own G t - \<Union> (reached own G ` (G `` {t}))) s1 = Inr s2" "J (ts @ [t]) s2"
    using upd [OF s1(2) t] by blast
  ultimately have ft: "f t (s1, rows1) = Inr (s2, ?rows)" using cs(1) by (simp add: f)
  show ?case
  proof (intro exI conjI)
    show "res_fold f (ts @ [t]) (s, rows) = Inr (s2, ?rows)" using s1(1) ft by (simp add: res_fold_append)
    show "\<forall>u. u \<notin> set (ts @ [t]) \<longrightarrow> ?B u = reached own G u" using s1(4) by simp
  qed (rule s2(2), rule b)
qed

section \<open>A block that can be optimized\<close>

definition starts_after_sync :: "barrier_info \<Rightarrow> nat \<Rightarrow> nat \<Rightarrow> bool" where
  "starts_after_sync s lo t \<longleftrightarrow> t = lo \<and> isSyncPoint s lo = Inr True"

text \<open>
  The barriers of the maps are those of the function and the temporary ones; all dependencies lead to later
  tasks, and those of the tasks in the block stay in the block, the synchronization tasks at its ends apart.
\<close>

definition block_ready ::
  "nat \<Rightarrow> nat \<Rightarrow> (nat \<times> nat) set \<Rightarrow> (nat \<times> nat) set \<Rightarrow> barrier_info \<Rightarrow> nat \<Rightarrow> nat \<Rightarrow> nat \<Rightarrow> bool" where
  "block_ready n nb P C s blk lo hi \<longleftrightarrow> bi_rep n nb P C s \<and> blocks_ok s \<and> n < 2 ^ 32 \<and> nb < 2 ^ 32 \<and>
     nb = getNumOfBarrierOps s + length (bi_fifoDependencies s) \<and> blk < getControlGraphBlockCount s \<and>
     getControlGraphBlockTaskRange s blk True True = Inr (lo, hi) \<and> lo \<le> hi \<and> hi < n \<and>
     (\<exists>hi'\<le>hi. getControlGraphBlockTaskRange s blk True False = Inr (lo, hi')) \<and> forward (bar_dep P C) \<and>
     (\<forall>t\<in>{lo..hi}. (skips s hi t \<or> bar_dep P C `` {t} \<subseteq> {lo..hi}) \<and>
       (starts_after_sync s lo t \<or> (bar_dep P C)\<inverse> `` {t} \<subseteq> {lo..hi}))"

lemma collect_barriers:
  "set ts \<subseteq> {..<length m} \<Longrightarrow> \<forall>t\<in>set ts. m ! t \<subseteq> {..<k} \<Longrightarrow>
    res_fold (\<lambda>taskInd barrierInd. res_bind (vec_at m taskInd) (\<lambda>bars.
      if \<not> bars \<subseteq> {..<k} then Inl Assertion_Failure else Inr (barrierInd \<union> bars))) ts A = Inr (A \<union> \<Union> ((!) m ` set ts))"
  by (induction ts arbitrary: A) (auto simp: vec_at_def Un_assoc)

lemma getBarriersForTaskBlock_rep:
  assumes rep: "bi_rep n nb P C s" and nb: "nb = getNumOfBarrierOps s + length (bi_fifoDependencies s)"
    and blk: "blk < getControlGraphBlockCount s" and range: "getControlGraphBlockTaskRange s blk a b = Inr (lo, hi)" "hi < n"
  shows "getBarriersForTaskBlock s blk a b True = Inr (sorted_list_of_set (P\<inverse> `` {lo..hi}))"
    "getBarriersForTaskBlock s blk a b False = Inr (sorted_list_of_set (C\<inverse> `` {lo..hi}))"
proof -
  have set: "set [lo..<hi + 1] = {lo..hi}" by auto
  have len: "length (bi_taskUpdateBarriers s) = n" "length (bi_taskWaitBarriers s) = n"
    and rows: "\<forall>t<n. bi_taskUpdateBarriers s ! t = P\<inverse> `` {t} \<and> bi_taskWaitBarriers s ! t = C\<inverse> `` {t}"
    using rep by (auto simp: bi_rep_def represents_def producer_maps_def consumer_maps_def)
  have bnd: "P\<inverse> `` {t} \<subseteq> {..<nb}" "C\<inverse> `` {t} \<subseteq> {..<nb}" for t using bi_rep_bounds [OF rep] by auto
  have in_n: "t < n" if "t \<in> {lo..hi}" for t using that range(2) by simp
  have un: "\<Union> ((!) (bi_taskUpdateBarriers s) ` {lo..hi}) = P\<inverse> `` {lo..hi}"
    "\<Union> ((!) (bi_taskWaitBarriers s) ` {lo..hi}) = C\<inverse> `` {lo..hi}" using rows in_n by auto
  have inside: "set [lo..<hi + 1] \<subseteq> {..<length (bi_taskUpdateBarriers s)}" "\<forall>t\<in>set [lo..<hi + 1]. bi_taskUpdateBarriers s ! t \<subseteq> {..<nb}"
    "set [lo..<hi + 1] \<subseteq> {..<length (bi_taskWaitBarriers s)}" "\<forall>t\<in>set [lo..<hi + 1]. bi_taskWaitBarriers s ! t \<subseteq> {..<nb}"
    unfolding set len using rows bnd in_n by auto
  have u: "res_fold (\<lambda>taskInd barrierInd. res_bind (vec_at (bi_taskUpdateBarriers s) taskInd) (\<lambda>bars.
      if \<not> bars \<subseteq> {..<nb} then Inl Assertion_Failure else Inr (barrierInd \<union> bars))) [lo..<hi + 1] {} = Inr (P\<inverse> `` {lo..hi})"
    using collect_barriers [of "[lo..<hi + 1]" "bi_taskUpdateBarriers s" nb "{}", OF inside(1,2)] unfolding set un by simp
  have w: "res_fold (\<lambda>taskInd barrierInd. res_bind (vec_at (bi_taskWaitBarriers s) taskInd) (\<lambda>bars.
      if \<not> bars \<subseteq> {..<nb} then Inl Assertion_Failure else Inr (barrierInd \<union> bars))) [lo..<hi + 1] {} = Inr (C\<inverse> `` {lo..hi})"
    using collect_barriers [of "[lo..<hi + 1]" "bi_taskWaitBarriers s" nb "{}", OF inside(3,4)] unfolding set un by simp
  show "getBarriersForTaskBlock s blk a b True = Inr (sorted_list_of_set (P\<inverse> `` {lo..hi}))"
    "getBarriersForTaskBlock s blk a b False = Inr (sorted_list_of_set (C\<inverse> `` {lo..hi}))"
    using blk u w by (simp_all only: getBarriersForTaskBlock_def not_le [symmetric] if_False range(1) res_bind_simps prod.case
        Let_def nb [symmetric] if_True map_sum.simps simp_thms)
qed

lemma isSyncPoint_total:
  assumes "blocks_ok s" "t < getNumOfTasks s"
  shows "\<exists>sp. isSyncPoint s t = Inr sp"
proof -
  have "bi_syncTasksIds s = [] \<or> length (bi_taskToBlockMap s) = getNumOfTasks s" using assms(1) by (auto simp: blocks_ok_def)
  then show ?thesis using assms(2) by (auto simp: isSyncPoint_def Let_def)
qed

text \<open>A set of barriers and the offset and size of its bit vectors.\<close>

lemma sorted_bounds:
  assumes "finite (S :: nat set)" "S \<noteq> {}" "b \<in> S"
  shows "hd (sorted_list_of_set S) \<le> b" "b \<le> last (sorted_list_of_set S)" "hd (sorted_list_of_set S) \<in> S" "last (sorted_list_of_set S) \<in> S"
proof -
  let ?xs = "sorted_list_of_set S"
  have xs: "set ?xs = S" "?xs \<noteq> []" "sorted ?xs" using assms by (simp_all add: sorted_list_of_set_eq_Nil_iff)
  obtain i where i: "i < length ?xs" "?xs ! i = b" using xs(1) assms(3) by (metis in_set_conv_nth)
  show "hd ?xs \<le> b" using sorted_nth_mono [OF xs(3), of 0 i] i xs(2) by (simp add: hd_conv_nth)
  show "b \<le> last ?xs" using sorted_nth_mono [OF xs(3), of i "length ?xs - 1"] i xs(2) by (simp add: last_conv_nth)
  show "hd ?xs \<in> S" "last ?xs \<in> S" using xs hd_in_set last_in_set by metis+
qed

lemma barrier_window:
  assumes "S \<subseteq> {..<nb}" "S \<noteq> {}" "nb < 2 ^ 32"
  defines "off \<equiv> hd (sorted_list_of_set S)" and "sz \<equiv> last (sorted_list_of_set S) - hd (sorted_list_of_set S) + 1"
  shows "S \<subseteq> {off..<off + sz}" "off + sz \<le> 2 ^ 32" "checked_u32 sz = Inr sz"
proof -
  have fin: "finite S" using assms(1) finite_subset by blast
  have b: "off \<le> b \<and> b \<le> last (sorted_list_of_set S)" if "b \<in> S" for b
    using sorted_bounds [OF fin assms(2) that] by (simp add: off_def)
  obtain b where "b \<in> S" using assms(2) by blast
  have l: "last (sorted_list_of_set S) < nb" "off \<le> last (sorted_list_of_set S)"
    using sorted_bounds(4) [OF fin assms(2) \<open>b \<in> S\<close>] b [OF \<open>b \<in> S\<close>] assms(1) by auto
  then have e: "off + sz = Suc (last (sorted_list_of_set S))" by (simp add: sz_def off_def)
  show "S \<subseteq> {off..<off + sz}" using b unfolding e by (auto simp: less_Suc_eq_le)
  show "off + sz \<le> 2 ^ 32" using e l(1) assms(3) by linarith
  have "sz \<le> nb" using e l by linarith
  then show "checked_u32 sz = Inr sz" using assms(3) by (simp add: checked_u32_def)
qed

lemma brep_init: "brep lo hi off sz (\<lambda>_. {}) (replicate (Suc hi - lo) (sz, {}))"
  by (auto simp: brep_def)

lemma sorted_block: "sorted_wrt (<) [lo..<Suc hi]" "sorted_wrt (\<lambda>x y. y < x) (rev [lo..<Suc hi])"
  by (simp_all add: sorted_wrt_rev del: upt_Suc)

lemma in_block_paths:
  assumes "(t, u) \<in> (in_block lo hi D)\<^sup>*" "t \<in> {lo..hi}"
  shows "u \<in> {lo..hi}"
  using assms by (induction rule: rtrancl_induct) (auto simp: in_block_def)

section \<open>The two passes\<close>

lemma optimizeBarrierProducers_spec:
  assumes ready: "block_ready n nb P C s blk lo hi"
  defines "G \<equiv> in_block lo hi (bar_dep P C)"
  shows "\<exists>s'. optimizeBarrierProducers blk s = Inr s' \<and> same_rest s s' \<and>
    bi_rep n nb (P - {(b, t). t \<in> {lo..hi} \<and> (\<exists>u. (t, u) \<in> G\<^sup>+ \<and> (b, u) \<in> P)}) C s'"
proof -
  have rep: "bi_rep n nb P C s" and ok: "blocks_ok s" and n: "n < 2 ^ 32" and nb: "nb < 2 ^ 32"
    "nb = getNumOfBarrierOps s + length (bi_fifoDependencies s)" and blk: "blk < getControlGraphBlockCount s"
    and range: "getControlGraphBlockTaskRange s blk True True = Inr (lo, hi)" and r: "lo \<le> hi" "hi < n"
    and fwd: "forward (bar_dep P C)"
    and stay: "\<And>t. t \<in> {lo..hi} \<Longrightarrow> skips s hi t \<or> bar_dep P C `` {t} \<subseteq> {lo..hi}"
    using ready by (auto simp: block_ready_def)
  let ?own = "\<lambda>t. P\<inverse> `` {t}"
  let ?R = "\<lambda>t. \<Union> (reached ?own G ` (G `` {t}))"
  have gone: "b \<in> ?R t \<longleftrightarrow> (\<exists>u. (t, u) \<in> G\<^sup>+ \<and> (b, u) \<in> P)" for b t
    by (auto simp: reached_def trancl_unfold_left)
  have G: "t < c" "c \<in> {lo..hi}" "t \<in> {lo..hi}" if "(t, c) \<in> G" for t c
    using that forwardD [OF fwd] by (auto simp: G_def in_block_def)
  let ?S = "P\<inverse> `` {lo..hi}"
  have Snb: "?S \<subseteq> {..<nb}" using bi_rep_bounds [OF rep] by auto
  then have finS: "finite ?S" using finite_subset by blast
  note bars = getBarriersForTaskBlock_rep(1) [OF rep nb(2) blk range r(2)]
  have hi: "min hi (u64_sub (getNumOfTasks s) 1) = hi"
    using rep r n by (simp add: bi_rep_def u64_sub_eq U64_def)
  show ?thesis
  proof (cases "?S = {}")
    case True
    then have "P - {(b, t). t \<in> {lo..hi} \<and> (\<exists>u. (t, u) \<in> G\<^sup>+ \<and> (b, u) \<in> P)} = P" by blast
    then show ?thesis using rep range bars True by (simp add: optimizeBarrierProducers_def)
  next
    case ne: False
    let ?off = "hd (sorted_list_of_set ?S)" and ?sz = "last (sorted_list_of_set ?S) - hd (sorted_list_of_set ?S) + 1"
    note w = barrier_window [OF Snb ne nb(1)]
    have own: "?own t \<subseteq> {?off..<?off + ?sz}" if "t \<in> {lo..hi}" for t
      by (rule subset_trans [OF _ w(1)]) (use that in blast)
    have row: "vec_at (bi_taskUpdateBarriers s) t = Inr (?own t)" if "t < n" for t
      using rep that by (auto simp: bi_rep_def represents_def producer_maps_def vec_at_def)
    have collect: "\<exists>rows'. collect_producers_step s lo hi ?off t rows = Inr rows' \<and>
        brep lo hi ?off ?sz (B(t := ?own t \<union> \<Union> (B ` (G `` {t})))) rows'"
      if t: "t \<in> {lo..hi}" and B: "brep lo hi ?off ?sz B rows" "B t = {}" for t B rows
    proof -
      have tn: "t < n" using t r by simp
      obtain rows1 where rows1: "set_row lo ?off t (?own t) rows = Inr rows1" "brep lo hi ?off ?sz (B(t := ?own t)) rows1"
        using set_row_rep [OF B(1) t own [OF t] w(2) B(2)] by blast
      obtain cs where cs: "child_tasks s t = Inr cs" "set cs = bar_dep P C `` {t}" using child_tasks_rep [OF rep tn] by blast
      obtain sp where sp: "isSyncPoint s hi = Inr sp" using isSyncPoint_total [OF ok] rep r by (auto simp: bi_rep_def)
      show ?thesis
      proof (cases "skips s hi t")
        case True
        then have "G `` {t} = {}" using G by (fastforce simp: skips_def)
        then show ?thesis using True rows1 by (simp add: collect_producers_step_def skips_def row [OF tn] row [OF r(2)])
      next
        case False
        then have sub: "set cs \<subseteq> {lo..hi}" using stay [OF t] cs(2) by simp
        have g: "set cs = G `` {t}" using sub t cs(2) by (auto simp: G_def in_block_def)
        have "t \<notin> set cs" using g G by blast
        from in_range_or_loop [OF rows1(2) t sub this, of "''Task has update barriers with a consumer from outside of the current range''"]
        obtain rows2 where rows2: "res_fold (in_range_or ''Task has update barriers with a consumer from outside of the current range'' lo hi t) cs rows1 = Inr rows2"
          "brep lo hi ?off ?sz ((B(t := ?own t))(t := (B(t := ?own t)) t \<union> \<Union> ((B(t := ?own t)) ` set cs))) rows2" by blast
        have "(B(t := ?own t)) ` set cs = B ` (G `` {t})" unfolding g using G by (intro image_cong) auto
        then have "(B(t := ?own t))(t := (B(t := ?own t)) t \<union> \<Union> ((B(t := ?own t)) ` set cs)) = B(t := ?own t \<union> \<Union> (B ` (G `` {t})))" by simp
        moreover have "collect_producers_step s lo hi ?off t rows = Inr rows2"
          using False sp rows1(1) cs(1) rows2(1) by (auto simp: collect_producers_step_def skips_def row [OF tn] row [OF r(2)])
        ultimately show ?thesis using rows2(2) by metis
      qed
    qed
    have all: "set (rev [lo..<Suc hi]) = {lo..hi}" "set [lo..<Suc hi] = {lo..hi}" by auto
    have "\<exists>rows. res_fold (collect_producers_step s lo hi ?off) (rev [lo..<Suc hi]) (replicate (Suc hi - lo) (?sz, {})) = Inr rows \<and>
        brep lo hi ?off ?sz (\<lambda>t. if t \<in> set (rev [lo..<Suc hi]) then reached ?own G t else {}) rows"
      by (rule collect_loop [where r = "\<lambda>x y. y < x", OF collect _ _ sorted_block(2) _ _ brep_init])
        (use G in \<open>auto simp: less_Suc_eq_le simp del: upt_Suc\<close>)
    then obtain rows where rows: "res_fold (collect_producers_step s lo hi ?off) (rev [lo..<Suc hi]) (replicate (Suc hi - lo) (?sz, {})) = Inr rows"
      "brep lo hi ?off ?sz (reached ?own G) rows" unfolding all by (auto simp: brep_def)
    let ?P = "\<lambda>xs. P - {(b, t). t \<in> set xs \<and> b \<in> ?R t}"
    let ?J = "\<lambda>xs s'. set xs \<subseteq> {lo..hi} \<and> same_rest s s' \<and> bi_rep n nb (?P xs) C s'"
    have loop: "\<exists>s' rows' B. res_fold (remove_producers_step lo hi ?off) [lo..<Suc hi] (s, rows) = Inr (s', rows') \<and> ?J [lo..<Suc hi] s' \<and>
        brep lo hi ?off ?sz B rows' \<and> (\<forall>u. u \<notin> set [lo..<Suc hi] \<longrightarrow> B u = reached ?own G u)"
    proof (rule remove_loop [where r = "(<)" and ch = child_tasks and up = setUpdateBarriers and G = G and own = ?own])
      fix xs t s1 assume J: "?J xs s1" and t: "t \<in> {lo..hi}" "t \<notin> set xs"
      have tn: "t < n" using t r by simp
      obtain cs where cs: "child_tasks s1 t = Inr cs" "set cs = bar_dep (?P xs) C `` {t}" using child_tasks_rep J tn by blast
      have "bar_dep (?P xs) C `` {t} = bar_dep P C `` {t}" using t(2) by (auto simp: bar_dep_iff)
      then show "\<exists>cs. child_tasks s1 t = Inr cs \<and> set cs \<inter> {lo..hi} = G `` {t}"
        using cs t(1) by (auto simp: G_def in_block_def)
      have keep: "reached ?own G t - ?R t = ?own t - ?R t" using reached_step [of ?own G t] by auto
      have "?own t - ?R t \<subseteq> {..<nb}" using bi_rep_bounds [OF rep] by auto
      from setUpdateBarriers_rep [OF _ tn this] J obtain s2 where s2: "setUpdateBarriers t (?own t - ?R t) s1 = Inr s2"
        "bi_rep n nb (?P xs - UNIV \<times> {t} \<union> (?own t - ?R t) \<times> {t}) C s2" "same_rest s1 s2" by blast
      have "?P xs - UNIV \<times> {t} \<union> (?own t - ?R t) \<times> {t} = ?P (xs @ [t])" by auto
      then show "\<exists>s'. setUpdateBarriers t (reached ?own G t - ?R t) s1 = Inr s' \<and> ?J (xs @ [t]) s'"
        unfolding keep using s2 J t(1) same_rest_trans by auto
    next
      show "remove_producers_step lo hi ?off t (s, rows) = res_bind (child_tasks s t) (\<lambda>cs.
        let rows = fold (\<lambda>c rows. if bi_inRange lo hi c then reset_rows lo t c rows else rows) cs rows in
        map_sum id (\<lambda>s. (s, rows)) (setUpdateBarriers t (target_barriers ?off (rows ! (t - lo))) s))" for t s rows
        by (simp add: remove_producers_step_def)
    qed (use G rep rows(2) sorted_block(1) all(2) in auto)
    then obtain s' rows' where s': "res_fold (remove_producers_step lo hi ?off) [lo..<Suc hi] (s, rows) = Inr (s', rows')"
      "same_rest s s'" "bi_rep n nb (?P [lo..<Suc hi]) C s'" by auto
    have eq: "?P [lo..<Suc hi] = P - {(b, t). t \<in> {lo..hi} \<and> (\<exists>u. (t, u) \<in> G\<^sup>+ \<and> (b, u) \<in> P)}" unfolding all gone by simp
    have "optimizeBarrierProducers blk s = Inr s'"
      using range bars ne finS hi r(1) w(3) rows(1) s'(1)
      by (simp add: optimizeBarrierProducers_def Suc_diff_le del: upt_Suc)
    then show ?thesis using s'(2) s'(3) [unfolded eq] by blast
  qed
qed

lemma parent_tasks_rep:
  assumes rep: "bi_rep n nb P C s" and t: "t < n"
  shows "\<exists>ps. parent_tasks s t = Inr ps \<and> set ps = (bar_dep P C)\<inverse> `` {t}"
proof -
  have loop: "\<exists>ps. res_fold (\<lambda>b acc. map_sum id (\<lambda>ps. acc @ sorted_list_of_set ps) (vec_at (bi_barrierProducerMap s) b)) bs acc =
      Inr ps \<and> set ps = set acc \<union> P `` set bs" if "set bs \<subseteq> {..<nb}" for bs acc
    using that
  proof (induction bs arbitrary: acc)
    case (Cons b bs)
    have b: "vec_at (bi_barrierProducerMap s) b = Inr (P `` {b})"
      using rep Cons.prems by (auto simp: bi_rep_def represents_def producer_maps_def vec_at_def)
    have "set (sorted_list_of_set (P `` {b})) = P `` {b}" using bi_rep_finite [OF rep] by simp
    then show ?case using Cons.IH [of "acc @ sorted_list_of_set (P `` {b})"] Cons.prems by (auto simp: b)
  qed simp
  have row: "vec_at (bi_taskWaitBarriers s) t = Inr (C\<inverse> `` {t})"
    using rep t by (auto simp: bi_rep_def represents_def consumer_maps_def vec_at_def)
  have sub: "set (sorted_list_of_set (C\<inverse> `` {t})) = C\<inverse> `` {t}" using bi_rep_finite [OF rep] by simp
  have "C\<inverse> `` {t} \<subseteq> {..<nb}" using bi_rep_bounds [OF rep] by auto
  then show ?thesis using loop [of "sorted_list_of_set (C\<inverse> `` {t})" "[]"] sub
    by (auto simp: parent_tasks_def row bar_dep_def relcomp_Image converse_relcomp)
qed

lemma optimizeBarrierConsumers_spec:
  assumes ready: "block_ready n nb P C s blk lo hi"
  defines "G \<equiv> (in_block lo hi (bar_dep P C))\<inverse>"
  shows "\<exists>s'. optimizeBarrierConsumers blk s = Inr s' \<and> same_rest s s' \<and>
    bi_rep n nb P (C - {(b, t). t \<in> {lo..hi} \<and> (\<exists>u. (t, u) \<in> G\<^sup>+ \<and> (b, u) \<in> C)}) s'"
proof -
  have rep: "bi_rep n nb P C s" and ok: "blocks_ok s" and n: "n < 2 ^ 32" and nb: "nb < 2 ^ 32"
    "nb = getNumOfBarrierOps s + length (bi_fifoDependencies s)" and blk: "blk < getControlGraphBlockCount s"
    and range: "getControlGraphBlockTaskRange s blk True True = Inr (lo, hi)" and r: "lo \<le> hi" "hi < n" and lon: "lo < n"
    and fwd: "forward (bar_dep P C)"
    and stay: "\<And>t. t \<in> {lo..hi} \<Longrightarrow> starts_after_sync s lo t \<or> (bar_dep P C)\<inverse> `` {t} \<subseteq> {lo..hi}"
    using ready by (auto simp: block_ready_def)
  let ?own = "\<lambda>t. C\<inverse> `` {t}"
  let ?R = "\<lambda>t. \<Union> (reached ?own G ` (G `` {t}))"
  have gone: "b \<in> ?R t \<longleftrightarrow> (\<exists>u. (t, u) \<in> G\<^sup>+ \<and> (b, u) \<in> C)" for b t
    by (auto simp: reached_def trancl_unfold_left)
  have G: "c < t" "c \<in> {lo..hi}" "t \<in> {lo..hi}" if "(t, c) \<in> G" for t c
    using that forwardD [OF fwd] by (auto simp: G_def in_block_def)
  let ?S = "C\<inverse> `` {lo..hi}"
  have Snb: "?S \<subseteq> {..<nb}" using bi_rep_bounds [OF rep] by auto
  then have finS: "finite ?S" using finite_subset by blast
  note bars = getBarriersForTaskBlock_rep(2) [OF rep nb(2) blk range r(2)]
  have hi: "min hi (u64_sub (getNumOfTasks s) 1) = hi"
    using rep r n by (simp add: bi_rep_def u64_sub_eq U64_def)
  show ?thesis
  proof (cases "?S = {}")
    case True
    then have "C - {(b, t). t \<in> {lo..hi} \<and> (\<exists>u. (t, u) \<in> G\<^sup>+ \<and> (b, u) \<in> C)} = C" by blast
    then show ?thesis using rep range bars True by (simp add: optimizeBarrierConsumers_def)
  next
    case ne: False
    let ?off = "hd (sorted_list_of_set ?S)" and ?sz = "last (sorted_list_of_set ?S) - hd (sorted_list_of_set ?S) + 1"
    note w = barrier_window [OF Snb ne nb(1)]
    have own: "?own t \<subseteq> {?off..<?off + ?sz}" if "t \<in> {lo..hi}" for t
      by (rule subset_trans [OF _ w(1)]) (use that in blast)
    have row: "vec_at (bi_taskWaitBarriers s) t = Inr (?own t)" if "t < n" for t
      using rep that by (auto simp: bi_rep_def represents_def consumer_maps_def vec_at_def)
    have collect: "\<exists>rows'. collect_consumers_step s lo hi ?off t rows = Inr rows' \<and>
        brep lo hi ?off ?sz (B(t := ?own t \<union> \<Union> (B ` (G `` {t})))) rows'"
      if t: "t \<in> {lo..hi}" and B: "brep lo hi ?off ?sz B rows" "B t = {}" for t B rows
    proof -
      have tn: "t < n" using t r by simp
      obtain rows1 where rows1: "set_row lo ?off t (?own t) rows = Inr rows1" "brep lo hi ?off ?sz (B(t := ?own t)) rows1"
        using set_row_rep [OF B(1) t own [OF t] w(2) B(2)] by blast
      obtain cs where cs: "parent_tasks s t = Inr cs" "set cs = (bar_dep P C)\<inverse> `` {t}" using parent_tasks_rep [OF rep tn] by blast
      obtain sp where sp: "isSyncPoint s lo = Inr sp" using isSyncPoint_total [OF ok, of lo] rep lon by (auto simp: bi_rep_def)
      show ?thesis
      proof (cases "starts_after_sync s lo t")
        case True
        then have "G `` {t} = {}" using G by (fastforce simp: starts_after_sync_def)
        then show ?thesis using True rows1 by (simp add: collect_consumers_step_def starts_after_sync_def row [OF tn] row [OF lon])
      next
        case False
        then have sub: "set cs \<subseteq> {lo..hi}" using stay [OF t] cs(2) by simp
        have g: "set cs = G `` {t}" using sub t cs(2) by (auto simp: G_def in_block_def)
        have "t \<notin> set cs" using g G by blast
        from in_range_or_loop [OF rows1(2) t sub this, of "''Task has wait barriers with a producer from outside of the current range''"]
        obtain rows2 where rows2: "res_fold (in_range_or ''Task has wait barriers with a producer from outside of the current range'' lo hi t) cs rows1 = Inr rows2"
          "brep lo hi ?off ?sz ((B(t := ?own t))(t := (B(t := ?own t)) t \<union> \<Union> ((B(t := ?own t)) ` set cs))) rows2" by blast
        have "(B(t := ?own t)) ` set cs = B ` (G `` {t})" unfolding g using G by (intro image_cong) auto
        then have "(B(t := ?own t))(t := (B(t := ?own t)) t \<union> \<Union> ((B(t := ?own t)) ` set cs)) = B(t := ?own t \<union> \<Union> (B ` (G `` {t})))" by simp
        moreover have "collect_consumers_step s lo hi ?off t rows = Inr rows2"
          using False sp rows1(1) cs(1) rows2(1) by (auto simp: collect_consumers_step_def starts_after_sync_def row [OF tn] row [OF lon])
        ultimately show ?thesis using rows2(2) by metis
      qed
    qed
    have all: "set [lo..<Suc hi] = {lo..hi}" "set (rev [lo..<Suc hi]) = {lo..hi}" by auto
    have "\<exists>rows. res_fold (collect_consumers_step s lo hi ?off) ([lo..<Suc hi]) (replicate (Suc hi - lo) (?sz, {})) = Inr rows \<and>
        brep lo hi ?off ?sz (\<lambda>t. if t \<in> set ([lo..<Suc hi]) then reached ?own G t else {}) rows"
      by (rule collect_loop [where r = "(<)", OF collect _ _ sorted_block(1) _ _ brep_init])
        (use G in \<open>auto simp: less_Suc_eq_le simp del: upt_Suc\<close>)
    then obtain rows where rows: "res_fold (collect_consumers_step s lo hi ?off) ([lo..<Suc hi]) (replicate (Suc hi - lo) (?sz, {})) = Inr rows"
      "brep lo hi ?off ?sz (reached ?own G) rows" unfolding all by (auto simp: brep_def)
    let ?P = "\<lambda>xs. C - {(b, t). t \<in> set xs \<and> b \<in> ?R t}"
    let ?J = "\<lambda>xs s'. set xs \<subseteq> {lo..hi} \<and> same_rest s s' \<and> bi_rep n nb P (?P xs) s'"
    have loop: "\<exists>s' rows' B. res_fold (remove_consumers_step lo hi ?off) (rev [lo..<Suc hi]) (s, rows) = Inr (s', rows') \<and> ?J (rev [lo..<Suc hi]) s' \<and>
        brep lo hi ?off ?sz B rows' \<and> (\<forall>u. u \<notin> set (rev [lo..<Suc hi]) \<longrightarrow> B u = reached ?own G u)"
    proof (rule remove_loop [where r = "\<lambda>x y. y < x" and ch = parent_tasks and up = setWaitBarriers and G = G and own = ?own])
      fix xs t s1 assume J: "?J xs s1" and t: "t \<in> {lo..hi}" "t \<notin> set xs"
      have tn: "t < n" using t r by simp
      obtain cs where cs: "parent_tasks s1 t = Inr cs" "set cs = (bar_dep P (?P xs))\<inverse> `` {t}" using parent_tasks_rep J tn by blast
      have "(bar_dep P (?P xs))\<inverse> `` {t} = (bar_dep P C)\<inverse> `` {t}" using t(2) by (auto simp: bar_dep_iff)
      then show "\<exists>cs. parent_tasks s1 t = Inr cs \<and> set cs \<inter> {lo..hi} = G `` {t}"
        using cs t(1) by (auto simp: G_def in_block_def)
      have keep: "reached ?own G t - ?R t = ?own t - ?R t" using reached_step [of ?own G t] by auto
      have "?own t - ?R t \<subseteq> {..<nb}" using bi_rep_bounds [OF rep] by auto
      from setWaitBarriers_rep [OF _ tn this] J obtain s2 where s2: "setWaitBarriers t (?own t - ?R t) s1 = Inr s2"
        "bi_rep n nb P (?P xs - UNIV \<times> {t} \<union> (?own t - ?R t) \<times> {t}) s2" "same_rest s1 s2" by blast
      have "?P xs - UNIV \<times> {t} \<union> (?own t - ?R t) \<times> {t} = ?P (xs @ [t])" by auto
      then show "\<exists>s'. setWaitBarriers t (reached ?own G t - ?R t) s1 = Inr s' \<and> ?J (xs @ [t]) s'"
        unfolding keep using s2 J t(1) same_rest_trans by auto
    next
      show "remove_consumers_step lo hi ?off t (s, rows) = res_bind (parent_tasks s t) (\<lambda>cs.
        let rows = fold (\<lambda>c rows. if bi_inRange lo hi c then reset_rows lo t c rows else rows) cs rows in
        map_sum id (\<lambda>s. (s, rows)) (setWaitBarriers t (target_barriers ?off (rows ! (t - lo))) s))" for t s rows
        by (simp add: remove_consumers_step_def)
    qed (use G rep rows(2) sorted_block(2) all(2) in auto)
    then obtain s' rows' where s': "res_fold (remove_consumers_step lo hi ?off) (rev [lo..<Suc hi]) (s, rows) = Inr (s', rows')"
      "same_rest s s'" "bi_rep n nb P (?P (rev [lo..<Suc hi])) s'" by auto
    have eq: "?P (rev [lo..<Suc hi]) = C - {(b, t). t \<in> {lo..hi} \<and> (\<exists>u. (t, u) \<in> G\<^sup>+ \<and> (b, u) \<in> C)}" unfolding all gone by simp
    have "optimizeBarrierConsumers blk s = Inr s'"
      using range bars ne finS hi r(1) w(3) rows(1) s'(1)
      by (simp add: optimizeBarrierConsumers_def Suc_diff_le del: upt_Suc)
    then show ?thesis using s'(2) s'(3) [unfolded eq] by blast
  qed
qed

section \<open>Merging barriers with the same producers\<close>

definition slots_known :: "barrier_info \<Rightarrow> bool" where
  "slots_known s \<longleftrightarrow> (\<forall>op\<in>set (bi_allTaskOps s). \<exists>k. getNumOfSlotsUsed op = Inr k)"

lemma slot_sum_total:
  assumes "slots_known s"
  shows "set ts \<subseteq> {..<getNumOfTasks s} \<Longrightarrow> \<exists>k. slot_sum s ts = Inr k"
proof -
  have "\<exists>k. res_fold (\<lambda>t sum. res_bind (getTaskOpAtIndex s t) (\<lambda>op. res_bind (getNumOfSlotsUsed op) (\<lambda>n. Inr (sum + n)))) ts a = Inr k"
    if "set ts \<subseteq> {..<getNumOfTasks s}" for a
    using that
  proof (induction ts arbitrary: a)
    case (Cons t ts)
    then have t: "t < length (bi_allTaskOps s)" by (simp add: getNumOfTasks_def)
    then have op: "getTaskOpAtIndex s t = Inr (bi_allTaskOps s ! t)" by (simp add: getTaskOpAtIndex_def getNumOfTasks_def)
    obtain k where "getNumOfSlotsUsed (bi_allTaskOps s ! t) = Inr k"
      using assms nth_mem [OF t] unfolding slots_known_def by blast
    then show ?case using Cons op by simp
  qed simp
  then show "set ts \<subseteq> {..<getNumOfTasks s} \<Longrightarrow> \<exists>k. slot_sum s ts = Inr k" by (simp add: slot_sum_def)
qed

definition vecs_ok :: "(nat \<times> nat) set \<Rightarrow> nat list \<Rightarrow> nat list list \<Rightarrow> bool" where
  "vecs_ok P bars vecs \<longleftrightarrow> length vecs = length bars \<and> (\<forall>i<length bars. set (vecs ! i) = P `` {bars ! i})"

lemma legalMergeSlotCount_total:
  assumes rep: "bi_rep n nb P C s" and b: "b < nb" "c < nb" and slots: "chk \<longrightarrow> slots_known s"
  shows "\<exists>legal. legalMergeSlotCount mx chk s b c = Inr legal"
proof (cases chk)
  case True
  have rows: "vec_at (bi_barrierProducerMap s) b = Inr (P `` {b})" "vec_at (bi_barrierConsumerMap s) b = Inr (C `` {b})"
    "vec_at (bi_barrierConsumerMap s) c = Inr (C `` {c})"
    using rep b by (auto simp: bi_rep_def represents_def producer_maps_def consumer_maps_def vec_at_def)
  have sub: "P `` {b} \<subseteq> {..<getNumOfTasks s}" "C `` {b} \<union> C `` {c} \<subseteq> {..<getNumOfTasks s}" and fin: "finite (P `` {b})" "finite (C `` {b} \<union> C `` {c})"
    using bi_rep_bounds [OF rep] bi_rep_finite [OF rep] rep by (auto simp: bi_rep_def)
  obtain k1 k2 where "slot_sum s (sorted_list_of_set (P `` {b})) = Inr k1" "slot_sum s (sorted_list_of_set (C `` {b} \<union> C `` {c})) = Inr k2"
    using slot_sum_total [of s] slots True sub fin by (metis set_sorted_list_of_set)
  then show ?thesis by (simp add: legalMergeSlotCount_def True rows)
qed (auto simp: legalMergeSlotCount_def)

lemma merge_pair_rep:
  assumes rep: "bi_rep n nb P C s" and bars: "distinct bars" "set bars \<subseteq> {..<nb}" and vecs: "vecs_ok P bars vecs"
    and ij: "i < j" "j < length bars" and slots: "chk \<longrightarrow> slots_known s"
  shows "\<exists>s' vecs' P' C'. merge_pair mx chk bars (i, j) (s, vecs) = Inr (s', vecs') \<and> bi_rep n nb P' C' s' \<and> same_rest s s' \<and>
    vecs_ok P' bars vecs' \<and> bar_dep P' C' = bar_dep P C"
proof -
  let ?b = "bars ! i" and ?c = "bars ! j"
  have nb: "?b < nb" "?c < nb" "?b \<noteq> ?c" using bars ij by (auto simp: subset_eq nth_eq_iff_index_eq)
  obtain legal where legal: "legalMergeSlotCount mx chk s ?b ?c = Inr legal"
    using legalMergeSlotCount_total [OF rep nb(1,2) slots] by blast
  show ?thesis
  proof (cases "vecs ! i = vecs ! j \<and> legal")
    case False
    then show ?thesis using rep vecs legal by (intro exI [of _ s] exI [of _ vecs] exI [of _ P] exI [of _ C]) (auto simp: merge_pair_def)
  next
    case True
    have same: "P `` {?b} = P `` {?c}" using True vecs ij by (metis order_less_trans vecs_ok_def)
    have row: "vec_at (bi_barrierConsumerMap s) ?c = Inr (C `` {?c})"
      using rep nb(2) by (auto simp: bi_rep_def represents_def consumer_maps_def vec_at_def)
    have "C `` {?c} \<subseteq> {..<n}" using bi_rep_bounds [OF rep] by auto
    from addConsumers_rep [OF rep nb(1) this] obtain s1 where s1: "addConsumers ?b (C `` {?c}) s = Inr s1"
      "bi_rep n nb P (C \<union> {?b} \<times> C `` {?c}) s1" "same_rest s s1" by blast
    from resetBarrier_rep [OF s1(2) nb(2)] obtain s2 where s2: "resetBarrier ?c s1 = Inr s2"
      "bi_rep n nb (P - {?c} \<times> UNIV) (C \<union> {?b} \<times> C `` {?c} - {?c} \<times> UNIV) s2" "same_rest s1 s2" by blast
    have "merge_pair mx chk bars (i, j) (s, vecs) = Inr (s2, vecs[j := []])"
      using True legal s1(1) s2(1) by (simp add: merge_pair_def row addConsumers_def)
    moreover have "vecs_ok (P - {?c} \<times> UNIV) bars (vecs[j := []])"
    proof -
      have "set (vecs[j := []] ! k) = (P - {?c} \<times> UNIV) `` {bars ! k}" if k: "k < length bars" for k
      proof (cases "k = j")
        case False
        then have "bars ! k \<noteq> ?c" using bars(1) ij(2) k by (simp add: nth_eq_iff_index_eq)
        then show ?thesis using vecs k False by (auto simp: vecs_ok_def)
      qed (use ij(2) vecs in \<open>auto simp: vecs_ok_def\<close>)
      then show ?thesis using vecs by (simp add: vecs_ok_def)
    qed
    moreover have "bar_dep (P - {?c} \<times> UNIV) (C \<union> {?b} \<times> C `` {?c} - {?c} \<times> UNIV) = bar_dep P C"
      by (rule merge_barriers_dep [OF same nb(3)])
    ultimately show ?thesis using s2(2) same_rest_trans [OF s1(3) s2(3)] by blast
  qed
qed

lemma same_rest_slots: "same_rest s s' \<Longrightarrow> slots_known s' = slots_known s"
  by (simp add: same_rest_def slots_known_def)

lemma merge_pairs_rep:
  "bi_rep n nb P C s \<Longrightarrow> distinct bars \<Longrightarrow> set bars \<subseteq> {..<nb} \<Longrightarrow> vecs_ok P bars vecs \<Longrightarrow> (chk \<longrightarrow> slots_known s) \<Longrightarrow>
    \<forall>(i, j)\<in>set ijs. i < j \<and> j < length bars \<Longrightarrow>
    \<exists>s' vecs' P' C'. res_fold (merge_pair mx chk bars) ijs (s, vecs) = Inr (s', vecs') \<and> bi_rep n nb P' C' s' \<and> same_rest s s' \<and>
      bar_dep P' C' = bar_dep P C"
proof (induction ijs arbitrary: P C s vecs)
  case Nil
  then show ?case by auto
next
  case (Cons ij ijs)
  obtain i j where ij: "ij = (i, j)" "i < j" "j < length bars" using Cons.prems(6) by auto
  from merge_pair_rep [OF Cons.prems(1-4) ij(2,3) Cons.prems(5)] obtain s1 vecs1 P1 C1 where s1:
    "merge_pair mx chk bars (i, j) (s, vecs) = Inr (s1, vecs1)" "bi_rep n nb P1 C1 s1" "same_rest s s1"
    "vecs_ok P1 bars vecs1" "bar_dep P1 C1 = bar_dep P C" by blast
  have "chk \<longrightarrow> slots_known s1" using Cons.prems(5) same_rest_slots [OF s1(3)] by simp
  from Cons.IH [OF s1(2) Cons.prems(2,3) s1(4) this] Cons.prems(6) obtain s2 vecs2 P2 C2 where
    "res_fold (merge_pair mx chk bars) ijs (s1, vecs1) = Inr (s2, vecs2)" "bi_rep n nb P2 C2 s2" "same_rest s1 s2"
    "bar_dep P2 C2 = bar_dep P1 C1" by auto
  then show ?case using s1 ij(1) same_rest_trans by auto
qed

text \<open>What the iteration order of a set of producers must satisfy.\<close>

definition lists_producers :: "(nat \<Rightarrow> nat list) \<Rightarrow> barrier_info \<Rightarrow> bool" where
  "lists_producers order s \<longleftrightarrow> (\<forall>b<length (bi_barrierProducerMap s). finite (bi_barrierProducerMap s ! b) \<longrightarrow>
     set (order b) = bi_barrierProducerMap s ! b)"

lemma optimizeBarriersWithSameProducers_spec:
  assumes ready: "block_ready n nb P C s blk lo hi" and order: "lists_producers order s" and slots: "chk \<longrightarrow> slots_known s"
  shows "\<exists>s' P' C'. optimizeBarriersWithSameProducers mx order blk chk s = Inr s' \<and> bi_rep n nb P' C' s' \<and> same_rest s s' \<and>
    bar_dep P' C' = bar_dep P C"
proof -
  have rep: "bi_rep n nb P C s" and nb: "nb = getNumOfBarrierOps s + length (bi_fifoDependencies s)" "nb < 2 ^ 32"
    and blk: "blk < getControlGraphBlockCount s" and hi: "hi < n" using ready by (auto simp: block_ready_def)
  obtain hi' where range: "getControlGraphBlockTaskRange s blk True False = Inr (lo, hi')" "hi' < n"
    using ready by (auto simp: block_ready_def)
  let ?S = "P\<inverse> `` {lo..hi'}"
  let ?bars = "sorted_list_of_set ?S"
  have S: "?S \<subseteq> {..<nb}" using bi_rep_bounds [OF rep] by auto
  then have fin: "finite ?S" using finite_subset by blast
  note bars = getBarriersForTaskBlock_rep(1) [OF rep nb(1) blk range]
  show ?thesis
  proof (cases "?S = {}")
    case True
    then show ?thesis using rep bars by (auto simp: optimizeBarriersWithSameProducers_def)
  next
    case False
    then obtain b where b: "b \<in> ?S" by blast
    have ends: "hd ?bars < nb" "last ?bars < nb" using sorted_bounds(3,4) [OF fin False b] S by auto
    then have "nb > 0" by simp
    then have one: "1 \<le> nb" "nb < U64" using nb(2) by (auto simp: U64_def)
    have mx: "u64_sub (length (bi_allBarrierOps s) + length (bi_fifoDependencies s)) 1 = nb - 1"
      using u64_sub_eq [OF one] nb(1) by (simp add: getNumOfBarrierOps_def)
    have vecs: "vecs_ok P ?bars (map order ?bars)"
    proof -
      have "set (order b) = P `` {b}" if "b < nb" for b
        using order rep that bi_rep_finite [OF rep]
        by (auto simp: lists_producers_def bi_rep_def represents_def producer_maps_def)
      moreover have "?bars ! i < nb" if "i < length ?bars" for i using S fin nth_mem [OF that] by auto
      ultimately show ?thesis by (simp add: vecs_ok_def)
    qed
    have pairs: "\<forall>(i, j)\<in>set (index_pairs (length ?bars)). i < j \<and> j < length ?bars" by (auto simp: index_pairs_def)
    have dist: "distinct ?bars" "set ?bars \<subseteq> {..<nb}" using S fin by simp_all
    from merge_pairs_rep [OF rep dist vecs slots pairs] obtain s' vecs' P' C' where
      "res_fold (merge_pair mx chk ?bars) (index_pairs (length ?bars)) (s, map order ?bars) = Inr (s', vecs')"
      "bi_rep n nb P' C' s'" "same_rest s s'" "bar_dep P' C' = bar_dep P C" by blast
    moreover have "?bars \<noteq> []" using False fin by simp
    ultimately show ?thesis using bars ends mx by (auto simp: optimizeBarriersWithSameProducers_def Let_def)
  qed
qed

section \<open>All passes and all blocks\<close>

lemma same_rest_ranges:
  assumes "same_rest s s'"
  shows "getControlGraphBlockCount s' = getControlGraphBlockCount s" "getControlGraphBlockTaskRange s' blk a b = getControlGraphBlockTaskRange s blk a b"
    "getNumOfBarrierOps s' = getNumOfBarrierOps s" "isSyncPoint s' t = isSyncPoint s t"
  using assms by (simp_all only: same_rest_def getControlGraphBlockCount_def getControlGraphBlockTaskRange_def getNumOfTasks_def
      getNumOfBarrierOps_def isSyncPoint_def)

lemma block_ready_shrink:
  assumes ready: "block_ready n nb P C s blk lo hi" and rep: "bi_rep n nb P' C' s'" and same: "same_rest s s'"
    and sub: "bar_dep P' C' \<subseteq> bar_dep P C"
  shows "block_ready n nb P' C' s' blk lo hi"
proof -
  have ok: "blocks_ok s'" "bi_fifoDependencies s' = bi_fifoDependencies s" using ready same same_rest_blocks by (auto simp: block_ready_def same_rest_def)
  have same_sync: "skips s' hi t = skips s hi t" "starts_after_sync s' lo t = starts_after_sync s lo t" for t
    using same_rest_ranges(4) [OF same] by (simp_all only: skips_def starts_after_sync_def)
  have "bar_dep P' C' `` {t} \<subseteq> bar_dep P C `` {t}" "(bar_dep P' C')\<inverse> `` {t} \<subseteq> (bar_dep P C)\<inverse> `` {t}" for t using sub by blast+
  then have "skips s' hi t \<or> bar_dep P' C' `` {t} \<subseteq> {lo..hi}" "starts_after_sync s' lo t \<or> (bar_dep P' C')\<inverse> `` {t} \<subseteq> {lo..hi}"
    if "t \<in> {lo..hi}" for t using that ready same_sync unfolding block_ready_def by (meson subset_trans)+
  then show ?thesis using ready rep ok forward_mono [OF sub] unfolding block_ready_def same_rest_ranges(1,2,3) [OF same] by simp
qed

text \<open>The passes over one block, with any further forward order \<^verbatim>\<open>F\<close> on the tasks.\<close>

lemma passes_keep_order:
  assumes ready: "block_ready n nb P C s blk lo hi" and order: "\<And>s. lists_producers (order s) s"
    and slots: "chk \<longrightarrow> slots_known s" and F: "forward F"
  shows "\<exists>s1 s2 s3 P' C'. optimizeBarrierProducers blk s = Inr s1 \<and>
    optimizeBarriersWithSameProducers mx (order s1) blk chk s1 = Inr s2 \<and> optimizeBarrierConsumers blk s2 = Inr s3 \<and>
    bi_rep n nb P' C' s3 \<and> same_rest s s3 \<and> bar_dep P' C' \<subseteq> bar_dep P C \<and> (bar_dep P' C' \<union> F)\<^sup>+ = (bar_dep P C \<union> F)\<^sup>+"
proof -
  have into: "(in_block lo hi D)\<^sup>+ \<subseteq> (D \<union> F)\<^sup>+" for D by (intro trancl_mono_subset) (auto simp: in_block_def)
  let ?P1 = "P - {(b, t). t \<in> {lo..hi} \<and> (\<exists>u. (t, u) \<in> (in_block lo hi (bar_dep P C))\<^sup>+ \<and> (b, u) \<in> P)}"
  obtain s1 where s1: "optimizeBarrierProducers blk s = Inr s1" "same_rest s s1" "bi_rep n nb ?P1 C s1"
    using optimizeBarrierProducers_spec [OF ready] by blast
  have D1: "bar_dep ?P1 C \<subseteq> bar_dep P C" by (rule bar_dep_mono) auto
  have fwd: "forward (bar_dep P C \<union> F)" using ready F by (simp add: block_ready_def forward_Un)
  have o1: "(bar_dep ?P1 C \<union> F)\<^sup>+ = (bar_dep P C \<union> F)\<^sup>+"
    by (rule drop_producers [OF fwd]) (use into in blast)+
  have ready1: "block_ready n nb ?P1 C s1 blk lo hi" by (rule block_ready_shrink [OF ready s1(3,2) D1])
  have "chk \<longrightarrow> slots_known s1" using slots same_rest_slots [OF s1(2)] by simp
  from optimizeBarriersWithSameProducers_spec [OF ready1 order this] obtain s2 P2 C2 where s2:
    "optimizeBarriersWithSameProducers mx (order s1) blk chk s1 = Inr s2" "bi_rep n nb P2 C2 s2" "same_rest s1 s2"
    "bar_dep P2 C2 = bar_dep ?P1 C" by blast
  have ready2: "block_ready n nb P2 C2 s2 blk lo hi" by (rule block_ready_shrink [OF ready1 s2(2,3)]) (simp add: s2(4))
  let ?C3 = "C2 - {(b, t). t \<in> {lo..hi} \<and> (\<exists>u. (t, u) \<in> ((in_block lo hi (bar_dep P2 C2))\<inverse>)\<^sup>+ \<and> (b, u) \<in> C2)}"
  obtain s3 where s3: "optimizeBarrierConsumers blk s2 = Inr s3" "same_rest s2 s3" "bi_rep n nb P2 ?C3 s3"
    using optimizeBarrierConsumers_spec [OF ready2] by blast
  have fwd2: "forward (bar_dep P2 C2 \<union> F)" using ready2 F by (simp add: block_ready_def forward_Un)
  have o3: "(bar_dep P2 ?C3 \<union> F)\<^sup>+ = (bar_dep P2 C2 \<union> F)\<^sup>+"
    by (rule drop_consumers [OF fwd2]) (use into in \<open>auto simp: trancl_converse\<close>)
  have "bar_dep P2 ?C3 \<subseteq> bar_dep P2 C2" by (rule bar_dep_mono) auto
  then show ?thesis using s1(1) s2(1) s3(1,3) same_rest_trans [OF s1(2) same_rest_trans [OF s2(3) s3(2)]] D1 o1 o3
    unfolding s2(4) by blast
qed

lemma optimize_blocks:
  assumes order: "\<And>blk s. lists_producers (order blk s) s"
  shows "bi_rep n nb P C s \<Longrightarrow> \<forall>blk\<in>set blks. \<exists>lo hi. block_ready n nb P C s blk lo hi \<Longrightarrow> (chk \<longrightarrow> slots_known s) \<Longrightarrow>
    \<exists>s' P' C'. res_fold (optimize_block mx order chk None) blks s = Inr s' \<and> bi_rep n nb P' C' s' \<and> same_rest s s' \<and>
      (bar_dep P' C')\<^sup>+ = (bar_dep P C)\<^sup>+"
proof (induction blks arbitrary: P C s)
  case Nil
  then show ?case by auto
next
  case (Cons blk blks)
  obtain lo hi where ready: "block_ready n nb P C s blk lo hi" using Cons.prems(2) by auto
  have "forward {}" by (simp add: forward_def)
  from passes_keep_order [where order = "order blk" and mx = mx, OF ready order Cons.prems(3) this] obtain s1 s2 s3 P3 C3 where p:
    "optimizeBarrierProducers blk s = Inr s1" "optimizeBarriersWithSameProducers mx (order blk s1) blk chk s1 = Inr s2"
    "optimizeBarrierConsumers blk s2 = Inr s3" "bi_rep n nb P3 C3 s3" "same_rest s s3" "bar_dep P3 C3 \<subseteq> bar_dep P C"
    "(bar_dep P3 C3)\<^sup>+ = (bar_dep P C)\<^sup>+" by (metis Un_empty_right)
  have block: "optimize_block mx order chk None blk s = Inr s3"
    using p(1-3) same_rest_ranges(3) [OF p(5)] by (simp add: optimize_block_def)
  have "\<forall>b\<in>set blks. \<exists>lo hi. block_ready n nb P3 C3 s3 b lo hi"
    using Cons.prems(2) block_ready_shrink [OF _ p(4,5,6)] by (meson list.set_intros(2))
  moreover have "chk \<longrightarrow> slots_known s3" using Cons.prems(3) same_rest_slots [OF p(5)] by simp
  ultimately obtain s' P' C' where "res_fold (optimize_block mx order chk None) blks s3 = Inr s'" "bi_rep n nb P' C' s'" "same_rest s3 s'"
    "(bar_dep P' C')\<^sup>+ = (bar_dep P3 C3)\<^sup>+" using Cons.IH [OF p(4)] by blast
  then show ?case using block p(7) same_rest_trans [OF p(5)] by auto
qed

section \<open>Properties\<close>



text \<open>
  C12. The whole optimization without FIFO order, over all blocks, never fails when each
  block is as above, whatever order the sets of producers are read in, and the order of the tasks stays what it was.
\<close>

theorem optimizeBarriers_keeps_order:
  assumes rep: "bi_rep n nb P C s" and order: "\<And>blk s. lists_producers (order blk s) s" and slots: "chk \<longrightarrow> slots_known s"
    and ready: "\<And>blk. blk < getControlGraphBlockCount s \<Longrightarrow> \<exists>lo hi. block_ready n nb P C s blk lo hi"
  shows "\<exists>s' P' C'. optimizeBarriers pf mx order chk False executors s = Inr s' \<and> bi_rep n nb P' C' s' \<and> same_rest s s' \<and>
    (bar_dep P' C')\<^sup>+ = (bar_dep P C)\<^sup>+"
  using optimize_blocks [OF order rep, of "[0..<getControlGraphBlockCount s]" chk mx] ready slots
  by (simp add: optimizeBarriers_def)

text \<open>A task whose update of the second barrier follows from its update of the first one.\<close>

definition example_opt :: barrier_info where
  "example_opt = empty_barrier_info\<lparr>bi_allTaskOps := replicate 3 (example_queue_task None), bi_allBarrierOps := replicate 2 new_barrier_op,
     bi_taskWaitBarriers := [{}, {0}, {1}], bi_taskUpdateBarriers := [{0, 1}, {1}, {}], bi_barrierProducerMap := [{0}, {0, 1}],
     bi_barrierConsumerMap := [{1}, {2}]\<rparr>"

lemma example_opt_rep: "bi_rep 3 2 {(0, 0), (1, 0), (1, 1)} {(0, 1), (1, 2)} example_opt"
  by (auto simp: bi_rep_def represents_def producer_maps_def consumer_maps_def example_opt_def getNumOfTasks_def
      less_Suc_eq numeral_3_eq_3 numeral_2_eq_2)

lemma example_opt_ready: "block_ready 3 2 {(0, 0), (1, 0), (1, 1)} {(0, 1), (1, 2)} example_opt 0 0 2"
proof -
  have "getControlGraphBlockTaskRange example_opt 0 a b = Inr (0, 2)" for a b
    by (simp add: getControlGraphBlockTaskRange_def getControlGraphBlockCount_def example_opt_def empty_barrier_info_def
        getNumOfTasks_def u64_sub_def U64_def)
  moreover have "blocks_ok example_opt" "bi_fifoDependencies example_opt = []" "getControlGraphBlockCount example_opt = 1"
    "getNumOfBarrierOps example_opt = 2"
    by (simp_all add: blocks_ok_def example_opt_def empty_barrier_info_def getControlGraphBlockCount_def getNumOfBarrierOps_def)
  moreover have "forward (bar_dep {(0::nat, 0::nat), (1, 0), (1, 1)} {(0, 1), (1, 2)})" by (auto simp: forward_def bar_dep_iff)
  ultimately show ?thesis using example_opt_rep by (auto simp: block_ready_def bar_dep_iff)
qed


theorem optimizeBarriers_keeps_order_witness:
  "\<exists>s' P' C'. optimizeBarriers example_platform 8 (\<lambda>_ s b. sorted_list_of_set (bi_barrierProducerMap s ! b)) False False {} example_opt = Inr s' \<and>
    bi_rep 3 2 P' C' s' \<and> (0, 2) \<in> (bar_dep P' C')\<^sup>+"
proof -
  let ?P = "{(0, 0), (1, 0), (1, 1)} :: (nat \<times> nat) set" and ?C = "{(0, 1), (1, 2)} :: (nat \<times> nat) set"
  have order: "lists_producers (\<lambda>b. sorted_list_of_set (bi_barrierProducerMap s ! b)) s" for s by (simp add: lists_producers_def)
  have ready: "\<exists>lo hi. block_ready 3 2 ?P ?C example_opt blk lo hi" if "blk < getControlGraphBlockCount example_opt" for blk
    using that example_opt_ready by (auto simp: getControlGraphBlockCount_def example_opt_def empty_barrier_info_def)
  have "(0, 2) \<in> (bar_dep ?P ?C)\<^sup>+" by (rule r_into_trancl) (auto simp: bar_dep_iff)
  then show ?thesis
    using optimizeBarriers_keeps_order [OF example_opt_rep, of "\<lambda>_ s b. sorted_list_of_set (bi_barrierProducerMap s ! b)" False example_platform 8 "{}",
        OF order _ ready] by fastforce
qed

end
