(* ===== verification/Barrier_Redundancy.thy ===== *)
theory Barrier_Redundancy
  imports Barrier_Optimize
begin

text \<open>
  Removal of dependencies that follow from the order of the hardware queues, \<^verbatim>\<open>src/core/barrier_info.cpp\<close>:
  redundant producers and consumers found by the control map, dependencies between tasks of one queue, and the condition
  under which two barriers may be merged.
\<close>

section \<open>Redundancy by FIFO order\<close>

definition haveSameImplicitDependencyTaskQueueType :: "barrier_info \<Rightarrow> nat set \<Rightarrow> queue_type option res" where
  "haveSameImplicitDependencyTaskQueueType s taskInds =
     (if taskInds = {} then Inr None
      else if bi_taskQueueTypeMap s = [] then not_initialized
      else map_sum id (\<lambda>r. case r of None \<Rightarrow> None | Some q \<Rightarrow> q) (res_fold (\<lambda>(q, v) found. case found of Some r \<Rightarrow> Inr (Some r)
        | None \<Rightarrow> res_bind (bv_test v (Min taskInds)) (\<lambda>first.
            if \<not> first then Inr None
            else map_sum id (\<lambda>same. Some (if same then Some q else None)) (res_fold (\<lambda>t same.
              if \<not> same then Inr False
              else res_bind (bv_test v t) (\<lambda>on. if \<not> on then Inr False else map_sum id Not (isSyncPoint s t)))
              (sorted_list_of_set taskInds) True)))
        (bi_taskQueueTypeMap s) None))"





definition findExplicitDependencies :: "barrier_info \<Rightarrow> nat set \<Rightarrow> queue_type \<Rightarrow> nat set res" where
  "findExplicitDependencies s dependencies q = res_fold (\<lambda>t removed.
     res_bind (isSyncPoint s t) (\<lambda>sp. if sp then Inr removed
     else res_bind (getTaskOpAtIndex s t) (\<lambda>op. res_bind (getTaskQueueTypeOf op False) (\<lambda>q'.
       Inr (if q = q' then insert t removed else removed)))))
     (sorted_list_of_set dependencies) {}"

definition not_sync :: "barrier_info \<Rightarrow> nat set \<Rightarrow> nat set res" where
  "not_sync s ts = res_fold (\<lambda>t acc. map_sum id (\<lambda>sp. if sp then acc else insert t acc) (isSyncPoint s t)) (sorted_list_of_set ts) {}"

definition remove_explicit :: "nat \<Rightarrow> barrier_info \<Rightarrow> barrier_info res" where
  "remove_explicit b s =
     res_bind (getBarrierProducers s b) (\<lambda>ps.
     res_bind (haveSameImplicitDependencyTaskQueueType s ps) (\<lambda>pq.
     res_bind (case pq of None \<Rightarrow> Inr s
       | Some q \<Rightarrow> res_bind (getBarrierConsumers s b) (\<lambda>cs.
           res_bind (findExplicitDependencies s cs q) (\<lambda>rem. removeConsumers b rem s))) (\<lambda>s.
     res_bind (getBarrierConsumers s b) (\<lambda>cs.
     res_bind (haveSameImplicitDependencyTaskQueueType s cs) (\<lambda>cq.
     res_bind (if cs = {} then res_bind (not_sync s ps) (\<lambda>rem. removeProducers b rem s)
       else case cq of None \<Rightarrow> Inr s
         | Some q \<Rightarrow> res_bind (findExplicitDependencies s ps q) (\<lambda>rem. removeProducers b rem s)) (\<lambda>s.
     res_bind (getBarrierConsumers s b) (\<lambda>cs. res_bind (getBarrierProducers s b) (\<lambda>ps.
       if (cs = {}) \<noteq> (ps = {}) then Inl (Vpux_Throw ''Invalid optimization : Only barrier became empty'') else Inr s))))))))"

definition removeExplicitDependencies :: "barrier_info \<Rightarrow> barrier_info res" where
  "removeExplicitDependencies s = res_fold (\<lambda>blockIdx s.
     res_bind (getBarriersForTaskBlock s blockIdx True False True) (\<lambda>bars. res_fold remove_explicit bars s))
     [0..<getControlGraphBlockCount s] s"

section \<open>Which barriers may be merged\<close>

definition haveSameExecutorKind :: "barrier_info \<Rightarrow> nat set \<Rightarrow> executor_kind option res" where
  "haveSameExecutorKind s taskInds =
     (if taskInds = {} then Inr None
      else res_bind (getTaskOpAtIndex s (Min taskInds)) (\<lambda>first. res_fold (\<lambda>t r.
        if r = None then Inr None
        else map_sum id (\<lambda>op. if to_executorKind op \<noteq> to_executorKind first then None else r) (getTaskOpAtIndex s t))
        (sorted_list_of_set taskInds) (Some (to_executorKind first))))"

definition canBarProducersControlBarConsumers :: "barrier_info \<Rightarrow> nat set \<Rightarrow> nat set \<Rightarrow> index_map \<Rightarrow> bool res" where
  "canBarProducersControlBarConsumers s producers consumers origWaitBarriersMap =
     (if consumers = {} then Inr True
      else if producers = {} then Inr False
      else res_bind (haveSameExecutorKind s consumers) (\<lambda>ck. if ck \<noteq> Some DMA_NN then Inr False
      else res_bind (haveSameExecutorKind s producers) (\<lambda>pk. if pk \<noteq> Some DMA_NN then Inr False
      else if Max producers \<ge> Min consumers then Inr False
      else res_bind (res_fold (\<lambda>p found. if found then Inr True else res_fold (\<lambda>c found. if found then Inr True
          else res_bind (vec_at origWaitBarriersMap p) (\<lambda>wp. map_sum id (\<lambda>wc. wp = wc) (vec_at origWaitBarriersMap c)))
          (sorted_list_of_set consumers) False) (sorted_list_of_set producers) False) (\<lambda>par. Inr (\<not> par)))))"

definition canBarriersBeMerged :: "barrier_info \<Rightarrow> nat set \<Rightarrow> nat set \<Rightarrow> nat set \<Rightarrow> nat set \<Rightarrow> index_map \<Rightarrow> bool res" where
  "canBarriersBeMerged s producersA consumersA producersB consumersB origWaitBarriersMap =
     res_bind (canBarProducersControlBarConsumers s producersA (consumersB - consumersA) origWaitBarriersMap) (\<lambda>a.
     if \<not> a then Inr False
     else canBarProducersControlBarConsumers s producersB (consumersA - consumersB) origWaitBarriersMap)"

section \<open>Removal keeps the order\<close>














section \<open>Properties\<close>







end
