(* ===== verification/Ring_Buffer.thy ===== *)
theory Ring_Buffer
  imports Prelude
begin

text \<open>
  The ring buffer of \<^verbatim>\<open>src/vpux_utils/include/vpux/utils/core/ring_buffer.hpp\<close>, in which the
  barrier simulator keeps the free physical barriers, and the contract of a bounded queue that it meets as long as
  no more elements are pushed than it has room for.  The buffer does not check this: a push to a full buffer writes
  over its first element.
\<close>

section \<open>The buffer\<close>

record 'a ring_buffer =
  rb_storage :: "'a list"
  rb_putInd :: nat
  rb_getInd :: nat
  rb_size :: nat

text \<open>\<^verbatim>\<open>dflt\<close> is the value that elements are initialized with.\<close>

definition empty_ring :: "'a ring_buffer" where
  "empty_ring = \<lparr>rb_storage = [], rb_putInd = 0, rb_getInd = 0, rb_size = 0\<rparr>"

definition new_ring :: "'a \<Rightarrow> nat \<Rightarrow> 'a ring_buffer" where
  "new_ring dflt capacity = \<lparr>rb_storage = replicate capacity dflt, rb_putInd = capacity, rb_getInd = 0, rb_size = 0\<rparr>"

definition ring_push :: "'a \<Rightarrow> 'a ring_buffer \<Rightarrow> 'a ring_buffer res" where
  "ring_push val b =
     (let put = if Suc (rb_putInd b) \<ge> length (rb_storage b) then 0 else Suc (rb_putInd b) in
      map_sum id (\<lambda>st. b\<lparr>rb_storage := st, rb_putInd := put, rb_size := Suc (rb_size b)\<rparr>) (vec_set (rb_storage b) put val))"

definition ring_pop :: "'a ring_buffer \<Rightarrow> 'a ring_buffer res" where
  "ring_pop b =
     (if \<not> rb_size b > 0 then Inl Assertion_Failure
      else Inr (b\<lparr>rb_size := rb_size b - 1,
        rb_getInd := if Suc (rb_getInd b) \<ge> length (rb_storage b) then 0 else Suc (rb_getInd b)\<rparr>))"

definition ring_clear :: "'a ring_buffer \<Rightarrow> 'a ring_buffer" where
  "ring_clear b = b\<lparr>rb_putInd := length (rb_storage b), rb_getInd := 0, rb_size := 0\<rparr>"

definition ring_reset :: "'a \<Rightarrow> nat \<Rightarrow> 'a ring_buffer \<Rightarrow> 'a ring_buffer" where
  "ring_reset dflt capacity b = ring_clear (b\<lparr>rb_storage := vec_resize capacity dflt (rb_storage b)\<rparr>)"

definition ring_front :: "'a ring_buffer \<Rightarrow> 'a res" where
  "ring_front b = vec_at (rb_storage b) (rb_getInd b)"

definition ring_back :: "'a ring_buffer \<Rightarrow> 'a res" where
  "ring_back b = vec_at (rb_storage b) (rb_putInd b)"

definition ring_empty :: "'a ring_buffer \<Rightarrow> bool" where
  "ring_empty b \<longleftrightarrow> rb_size b = 0"

definition ring_full :: "'a ring_buffer \<Rightarrow> bool" where
  "ring_full b \<longleftrightarrow> rb_size b = length (rb_storage b)"

definition ring_capacity :: "'a ring_buffer \<Rightarrow> nat" where
  "ring_capacity b = length (rb_storage b)"

text \<open>Reading the first element and removing it.\<close>

definition ring_take :: "'a ring_buffer \<Rightarrow> ('a \<times> 'a ring_buffer) res" where
  "ring_take b = res_bind (ring_front b) (\<lambda>x. map_sum id (Pair x) (ring_pop b))"

section \<open>The contract of a bounded queue\<close>

locale bounded_queue =
  fixes contents :: "'q \<Rightarrow> 'a list"
    and capacity :: "'q \<Rightarrow> nat"
    and ok :: "'q \<Rightarrow> bool"
    and push :: "'a \<Rightarrow> 'q \<Rightarrow> 'q res"
    and pop :: "'q \<Rightarrow> 'q res"
    and front :: "'q \<Rightarrow> 'a res"
  assumes push_law: "ok q \<Longrightarrow> length (contents q) < capacity q \<Longrightarrow>
      \<exists>q'. push x q = Inr q' \<and> ok q' \<and> contents q' = contents q @ [x] \<and> capacity q' = capacity q"
    and pop_law: "ok q \<Longrightarrow> contents q \<noteq> [] \<Longrightarrow>
      \<exists>q'. pop q = Inr q' \<and> ok q' \<and> contents q' = tl (contents q) \<and> capacity q' = capacity q"
    and front_law: "ok q \<Longrightarrow> contents q \<noteq> [] \<Longrightarrow> front q = Inr (hd (contents q))"
    and bound_law: "ok q \<Longrightarrow> length (contents q) \<le> capacity q"
begin

definition take_front :: "'q \<Rightarrow> ('a \<times> 'q) res" where
  "take_front q = res_bind (front q) (\<lambda>x. map_sum id (Pair x) (pop q))"

lemma take_front_spec:
  assumes "ok q" "contents q = x # xs"
  shows "\<exists>q'. take_front q = Inr (x, q') \<and> ok q' \<and> contents q' = xs \<and> capacity q' = capacity q"
proof -
  have "contents q \<noteq> []" using assms(2) by simp
  then show ?thesis using front_law [of q] pop_law [of q] assms by (auto simp: take_front_def)
qed

lemma push_all:
  "ok q \<Longrightarrow> length (contents q) + length xs \<le> capacity q \<Longrightarrow>
    \<exists>q'. res_fold push xs q = Inr q' \<and> ok q' \<and> contents q' = contents q @ xs \<and> capacity q' = capacity q"
proof (induction xs arbitrary: q)
  case (Cons x xs)
  obtain q1 where q1: "push x q = Inr q1" "ok q1" "contents q1 = contents q @ [x]" "capacity q1 = capacity q"
    using push_law [OF Cons.prems(1), of x] Cons.prems(2) by auto
  from Cons.IH [OF q1(2)] Cons.prems(2) obtain q2 where "res_fold push xs q1 = Inr q2" "ok q2" "contents q2 = contents q1 @ xs" "capacity q2 = capacity q1"
    unfolding q1(3,4) by auto
  then show ?case using q1 by simp
qed simp

text \<open>Taking an element and pushing it back rotates the queue.\<close>

lemma rotate_spec:
  assumes "ok q" "contents q = x # xs"
  shows "\<exists>q1 q'. take_front q = Inr (x, q1) \<and> push x q1 = Inr q' \<and> ok q' \<and> contents q' = xs @ [x] \<and> capacity q' = capacity q"
proof -
  obtain q1 where q1: "take_front q = Inr (x, q1)" "ok q1" "contents q1 = xs" "capacity q1 = capacity q"
    using take_front_spec [OF assms] by blast
  have "length (contents q1) < capacity q1" using bound_law [OF assms(1)] assms(2) q1(3,4) by simp
  then show ?thesis using push_law [OF q1(2)] q1 by metis
qed

end

section \<open>The ring buffer is a bounded queue\<close>

definition ring_next :: "nat \<Rightarrow> nat \<Rightarrow> nat" where
  "ring_next n i = (if Suc i \<ge> n then 0 else Suc i)"

definition ring_contents :: "'a ring_buffer \<Rightarrow> 'a list" where
  "ring_contents b = map (\<lambda>i. rb_storage b ! ((rb_getInd b + i) mod length (rb_storage b))) [0..<rb_size b]"

definition ring_ok :: "'a ring_buffer \<Rightarrow> bool" where
  "ring_ok b \<longleftrightarrow> rb_size b \<le> length (rb_storage b) \<and>
     (rb_storage b \<noteq> [] \<longrightarrow> rb_getInd b < length (rb_storage b) \<and>
        ring_next (length (rb_storage b)) (rb_putInd b) = (rb_getInd b + rb_size b) mod length (rb_storage b))"

lemma ring_next_mod: "i < n \<Longrightarrow> ring_next n i = Suc i mod n"
  by (cases "Suc i = n") (auto simp: ring_next_def)

lemma length_ring_contents [simp]: "length (ring_contents b) = rb_size b"
  by (simp add: ring_contents_def)

lemma ring_contents_Nil [simp]: "ring_contents b = [] \<longleftrightarrow> rb_size b = 0"
  by (simp add: ring_contents_def)

lemma ring_push_spec:
  assumes ok: "ring_ok b" and room: "rb_size b < length (rb_storage b)"
  shows "\<exists>b'. ring_push x b = Inr b' \<and> ring_ok b' \<and> ring_contents b' = ring_contents b @ [x] \<and> ring_capacity b' = ring_capacity b"
proof -
  let ?n = "length (rb_storage b)" and ?g = "rb_getInd b" and ?k = "rb_size b"
  let ?p = "(?g + ?k) mod ?n"
  have n: "?n > 0" using room by linarith
  have p: "(if Suc (rb_putInd b) \<ge> ?n then 0 else Suc (rb_putInd b)) = ?p" and g: "?g < ?n" and pn: "?p < ?n"
    using ok n by (auto simp: ring_ok_def ring_next_def)
  let ?b = "b\<lparr>rb_storage := (rb_storage b)[?p := x], rb_putInd := ?p, rb_size := Suc ?k\<rparr>"
  have push: "ring_push x b = Inr ?b" unfolding ring_push_def p using pn by (simp add: vec_set_def Let_def)
  have "ring_ok ?b" using room g n ring_next_mod [OF pn] by (simp add: ring_ok_def mod_Suc_eq)
  moreover have "ring_contents ?b = ring_contents b @ [x]"
  proof -
    have "?p \<noteq> (?g + i) mod ?n" if "i < ?k" for i
    proof
      assume "?p = (?g + i) mod ?n"
      then have "?n dvd (?g + ?k) - (?g + i)" using that by (metis add_le_cancel_left less_imp_le mod_eq_dvd_iff_nat)
      then have "?n dvd ?k - i" by simp
      then show False using that room dvd_imp_le [of ?n "?k - i"] by simp
    qed
    then show ?thesis using pn by (simp add: ring_contents_def)
  qed
  ultimately show ?thesis using push by (simp add: ring_capacity_def)
qed

lemma ring_pop_spec:
  assumes ok: "ring_ok b" and ne: "ring_contents b \<noteq> []"
  shows "\<exists>b'. ring_pop b = Inr b' \<and> ring_ok b' \<and> ring_contents b' = tl (ring_contents b) \<and> ring_capacity b' = ring_capacity b"
proof -
  let ?n = "length (rb_storage b)" and ?g = "rb_getInd b" and ?k = "rb_size b"
  have k: "0 < ?k" "?k \<le> ?n" using ok ne by (auto simp: ring_ok_def)
  have g: "?g < ?n" using ok k by (auto simp: ring_ok_def)
  let ?b = "b\<lparr>rb_size := ?k - 1, rb_getInd := Suc ?g mod ?n\<rparr>"
  have "ring_pop b = Inr ?b" using k ring_next_mod [OF g] by (simp add: ring_pop_def ring_next_def)
  moreover have "ring_ok ?b"
    using ok k g mod_add_left_eq [of "Suc ?g" ?n "?k - 1"] by (auto simp: ring_ok_def)
  moreover have "ring_contents ?b = tl (ring_contents b)"
    by (rule nth_equalityI) (simp_all add: ring_contents_def nth_tl mod_simps less_diff_conv)
  ultimately show ?thesis by (simp add: ring_capacity_def)
qed

lemma ring_front_spec:
  assumes "ring_ok b" "ring_contents b \<noteq> []"
  shows "ring_front b = Inr (hd (ring_contents b))"
proof -
  have k: "0 < rb_size b" "rb_getInd b < length (rb_storage b)" using assms by (auto simp: ring_ok_def)
  then show ?thesis by (simp add: ring_front_def ring_contents_def hd_map)
qed

interpretation rq: bounded_queue ring_contents ring_capacity ring_ok ring_push ring_pop ring_front
proof unfold_locales
  show "\<exists>q'. ring_push x q = Inr q' \<and> ring_ok q' \<and> ring_contents q' = ring_contents q @ [x] \<and> ring_capacity q' = ring_capacity q"
    if "ring_ok q" "length (ring_contents q) < ring_capacity q" for q :: "'b ring_buffer" and x
    using ring_push_spec that by (simp add: ring_capacity_def)
qed (use ring_pop_spec ring_front_spec in \<open>auto simp: ring_ok_def ring_capacity_def\<close>)

lemma ring_reset_spec:
  "ring_ok (ring_reset d n b)" "ring_contents (ring_reset d n b) = []" "ring_capacity (ring_reset d n b) = n"
  by (auto simp: ring_ok_def ring_reset_def ring_clear_def ring_next_def ring_capacity_def vec_resize_def)

lemma new_ring_spec:
  "ring_ok (new_ring d n)" "ring_contents (new_ring d n) = []" "ring_capacity (new_ring d n) = n"
  by (auto simp: ring_ok_def new_ring_def ring_next_def ring_capacity_def)

lemma ring_take_spec:
  assumes "ring_ok b" "ring_contents b = x # xs"
  shows "\<exists>b'. ring_take b = Inr (x, b') \<and> ring_ok b' \<and> ring_contents b' = xs \<and> ring_capacity b' = ring_capacity b"
  using rq.take_front_spec [OF assms] by (simp add: rq.take_front_def ring_take_def)

section \<open>Properties\<close>

text \<open>
  C40. A ring buffer with room for them takes any further elements in order behind those it
  holds, and gives out the oldest element first, wherever its indices stand and however often they have wrapped around.
\<close>

theorem ring_buffer_refines_queue:
  assumes "ring_ok b" "length (ring_contents b) + length xs \<le> ring_capacity b"
  shows "\<exists>b'. res_fold ring_push xs b = Inr b' \<and> ring_ok b' \<and> ring_contents b' = ring_contents b @ xs \<and>
    (ring_contents b @ xs \<noteq> [] \<longrightarrow> ring_front b' = Inr (hd (ring_contents b @ xs)) \<and>
      (\<exists>b''. ring_pop b' = Inr b'' \<and> ring_ok b'' \<and> ring_contents b'' = tl (ring_contents b @ xs)))"
  using rq.push_all [OF assms] rq.front_law rq.pop_law by metis

theorem ring_buffer_refines_queue_witness:
  "\<exists>b' b''. res_fold ring_push [7, 8, 9::int] (new_ring 0 3) = Inr b' \<and> ring_front b' = Inr 7 \<and> ring_pop b' = Inr b'' \<and>
    ring_contents b'' = [8, 9]"
  using ring_buffer_refines_queue [OF new_ring_spec(1) [of "0::int" 3], of "[7, 8, 9]"] new_ring_spec(2,3) [of "0::int" 3] by auto

end
