(* ===== verification/Barrier_Simulator.thy ===== *)
theory Barrier_Simulator
  imports Barrier_Control Ring_Buffer "HOL-Library.AList"
begin

text \<open>
  The simulation of the barriers at run time, \<^verbatim>\<open>src/dialect/VPURT/interfaces/barrier_simulator.cpp\<close>:
  virtual barriers are given the physical barriers that are free, the queues of the hardware run their tasks as soon
  as the barriers they wait for are produced, and a barrier that all its consumers have passed is free again.

  A barrier operation is identified with its virtual id, which is its position among the barrier operations of the
  function.  Counts and identifiers of type \<^verbatim>\<open>int64_t\<close> are integers; none of them exceeds the size of the
  function or the sum of the variants of its tasks.
\<close>

section \<open>The function\<close>

record virtual_barrier =
  vb_page :: "nat option"
  vb_isFinal :: bool
  vb_useEmpty :: bool

datatype sim_item = DeclareVirtualBarrier virtual_barrier | ConfigureBarrier int | SimTask task_op

definition sim_barriers :: "sim_item list \<Rightarrow> sim_item list" where
  "sim_barriers func = filter (\<lambda>i. case i of SimTask _ \<Rightarrow> False | _ \<Rightarrow> True) func"

definition sim_tasks :: "sim_item list \<Rightarrow> task_op list" where
  "sim_tasks func = concat (map (\<lambda>i. case i of SimTask t \<Rightarrow> [t] | _ \<Rightarrow> []) func)"

text \<open>The barrier operations with their virtual ids.\<close>

definition assignVirtualIds :: "sim_item list \<Rightarrow> (nat \<times> sim_item) list res" where
  "assignVirtualIds func =
     (if length (sim_barriers func) \<ge> 2 ^ 32 then Inl (Vpux_Throw ''Barrier virtual id is too large'')
      else Inr (enumerate 0 (sim_barriers func)))"

definition getVirtualId :: "nat option \<Rightarrow> int res" where
  "getVirtualId bar = (case bar of None \<Rightarrow> Inl (Vpux_Throw ''The barrier operation does not have attribute'') | Some vid \<Rightarrow> Inr (int vid))"

section \<open>The tracker of dependencies\<close>

type_synonym dep_range = "int \<times> int"

record virtual_deps =
  vd_ids :: "int list"
  vd_deps :: "(dep_range \<times> dep_range) list"

definition new_virtual_deps :: virtual_deps where
  "new_virtual_deps = \<lparr>vd_ids = [], vd_deps = [((0, 0), (0, 0))]\<rparr>"

definition int_at :: "'a list \<Rightarrow> int \<Rightarrow> 'a res" where
  "int_at xs i = (if i < 0 then Inl Assertion_Failure else vec_at xs (nat i))"

definition int_set :: "'a list \<Rightarrow> int \<Rightarrow> 'a \<Rightarrow> 'a list res" where
  "int_set xs i x = (if i < 0 then Inl Assertion_Failure else vec_set xs (nat i) x)"

definition vd_id :: "virtual_deps \<Rightarrow> int \<Rightarrow> int res" where
  "vd_id d i = int_at (vd_ids d) i"

definition vd_dep :: "virtual_deps \<Rightarrow> int \<Rightarrow> (dep_range \<times> dep_range) res" where
  "vd_dep d i = int_at (vd_deps d) i"

definition extract_ids :: "nat option list \<Rightarrow> int list \<Rightarrow> (dep_range \<times> int list) res" where
  "extract_ids barriers ids = res_fold (\<lambda>bar (range, ids).
     map_sum id (\<lambda>vid. ((fst range, snd range + 1), ids @ [vid])) (getVirtualId bar)) barriers ((int (length ids), 0), ids)"

definition vd_push :: "dep_range \<times> dep_range \<Rightarrow> virtual_deps \<Rightarrow> int \<times> virtual_deps" where
  "vd_push dep d = (int (length (vd_deps d)), d\<lparr>vd_deps := vd_deps d @ [dep]\<rparr>)"

definition vd_add :: "task_op \<Rightarrow> virtual_deps \<Rightarrow> (int \<times> virtual_deps) res" where
  "vd_add op d =
     res_bind (extract_ids (to_waitBarriers op) (vd_ids d)) (\<lambda>(consumer, ids).
     res_bind (extract_ids (to_updateBarriers op) ids) (\<lambda>(producer, ids).
     Inr (if snd consumer \<noteq> 0 \<or> snd producer \<noteq> 0 then vd_push (consumer, producer) (d\<lparr>vd_ids := ids\<rparr>)
          else (0, d\<lparr>vd_ids := ids\<rparr>))))"

definition vd_addLists :: "int list \<Rightarrow> int list \<Rightarrow> virtual_deps \<Rightarrow> int \<times> virtual_deps" where
  "vd_addLists waits posts d =
     (if waits = [] \<and> posts = [] then (0, d)
      else let n = int (length (vd_ids d)) in
        vd_push ((n, int (length waits)), (n + int (length waits), int (length posts))) (d\<lparr>vd_ids := vd_ids d @ waits @ posts\<rparr>))"

definition vd_clone :: "int \<Rightarrow> virtual_deps \<Rightarrow> (int \<times> virtual_deps) res" where
  "vd_clone i d = map_sum id (\<lambda>dep. vd_push dep d) (vd_dep d i)"

text \<open>A loop with an early exit: \<^verbatim>\<open>Some r\<close> leaves it with \<^verbatim>\<open>r\<close>.\<close>

fun res_until :: "('i \<Rightarrow> 's \<Rightarrow> ('r option \<times> 's) res) \<Rightarrow> 'i list \<Rightarrow> 's \<Rightarrow> ('r option \<times> 's) res" where
  "res_until f [] s = Inr (None, s)"
| "res_until f (x # xs) s = res_bind (f x s) (\<lambda>(r, s). case r of None \<Rightarrow> res_until f xs s | Some _ \<Rightarrow> Inr (r, s))"

section \<open>Restrictions on the reuse of physical barriers\<close>

record wlm_handler =
  wh_info :: barrier_info
  wh_block :: nat
  wh_map :: "index_map \<times> nat"

definition new_wlm_handler :: "platform \<Rightarrow> barrier_info \<Rightarrow> wlm_handler res" where
  "new_wlm_handler pf info =
     res_bind (buildTaskQueueTypeMap pf info) (\<lambda>info.
     map_sum id (\<lambda>(cm, info). \<lparr>wh_info = info, wh_block = 0, wh_map = cm\<rparr>) (buildTaskControlMap 0 True False info))"

definition reuse_path :: "nat \<Rightarrow> nat \<Rightarrow> wlm_handler \<Rightarrow> (bool option \<times> wlm_handler) res" where
  "reuse_path prevBarConsumer barProducer h =
     res_bind (getControlGraphBlockIndex (wh_info h) prevBarConsumer) (\<lambda>consumerBlock.
     res_bind (getControlGraphBlockIndex (wh_info h) barProducer) (\<lambda>producerBlock.
     if producerBlock \<noteq> consumerBlock then Inr (None, h)
     else res_bind (if producerBlock \<noteq> wh_block h
         then map_sum id (\<lambda>(cm, info). h\<lparr>wh_info := info, wh_block := producerBlock, wh_map := cm\<rparr>)
           (buildTaskControlMap producerBlock True False (wh_info h))
         else Inr h) (\<lambda>h.
       res_bind (controlPathExistsBetweenTasksInSameBlock (fst (wh_map h)) (u64_sub prevBarConsumer (snd (wh_map h)))
           (u64_sub barProducer (snd (wh_map h))) True) (\<lambda>isPath.
       Inr (if isPath then None else Some False, h)))))"

definition canBarrierReusePidFromBarrier :: "nat \<Rightarrow> nat \<Rightarrow> wlm_handler \<Rightarrow> (bool \<times> wlm_handler) res" where
  "canBarrierReusePidFromBarrier vid prevVid h =
     res_bind (getBarrierConsumers (wh_info h) prevVid) (\<lambda>prevBarConsumers.
     res_bind (getBarrierProducers (wh_info h) vid) (\<lambda>barProducers.
     map_sum id (\<lambda>(r, h). (r = None, h)) (res_until (\<lambda>c. res_until (reuse_path c) (sorted_list_of_set barProducers))
       (sorted_list_of_set prevBarConsumers) h)))"

section \<open>The simulator\<close>

record barrier_config =
  bc_realId :: int
  bc_nextSameId :: int
  bc_producerCount :: int
  bc_consumerCount :: int

definition new_config :: "int \<Rightarrow> barrier_config" where
  "new_config realId = \<lparr>bc_realId = realId, bc_nextSameId = -1, bc_producerCount = 0, bc_consumerCount = 0\<rparr>"

record barrier_user =
  bu_waits :: "int set"
  bu_posts :: "int set"
  bu_startAfter :: int
  bu_cleanAfter :: int
  bu_virtualDep :: int
  bu_count :: int

definition new_user :: "int \<Rightarrow> int \<Rightarrow> barrier_user" where
  "new_user virtualDep cnt = \<lparr>bu_waits = {}, bu_posts = {}, bu_startAfter = -1, bu_cleanAfter = -1,
     bu_virtualDep = virtualDep, bu_count = cnt\<rparr>"

record barrier_simulator =
  bs_producerSlotCount :: int
  bs_totalSlotCount :: int
  bs_availableBarriers :: int
  bs_usedBarriers :: int
  bs_barriersMap :: "nat \<rightharpoonup> nat"
  bs_barriers :: "barrier_config list"
  bs_isDynamic :: bool
  bs_wlmPid :: bool
  bs_wlmPage :: bool
  bs_dmaTasks :: "barrier_user list list"
  bs_nceTasks :: "barrier_user list"
  bs_actTasks :: "barrier_user list"
  bs_m2iTasks :: "barrier_user list"
  bs_vdt :: virtual_deps
  bs_batches :: "int set list"
  bs_barrierVID :: "nat \<rightharpoonup> virtual_barrier"
  bs_pages :: "(nat \<times> nat list) list"
  bs_pidToVid :: "(nat \<times> nat list) list"
  bs_order :: "nat list"
  bs_wlm :: "wlm_handler option"
  bs_info :: barrier_info

section \<open>Reading the function\<close>

definition parse_virtual_barrier :: "nat \<times> sim_item \<Rightarrow> barrier_simulator \<Rightarrow> barrier_simulator res" where
  "parse_virtual_barrier = (\<lambda>(vid, item) s. case item of
     DeclareVirtualBarrier b \<Rightarrow>
       (if vid \<noteq> length (bs_barriers s) then Inl (Vpux_Throw ''Got wrong virtual ID for the barrier'')
        else let s = s\<lparr>bs_isDynamic := True, bs_barriersMap := (bs_barriersMap s)(vid \<mapsto> length (bs_barriers s)),
                 bs_barrierVID := (bs_barrierVID s)(length (bs_barriers s) \<mapsto> b), bs_barriers := bs_barriers s @ [new_config (-1)]\<rparr>;
                 s = (case vb_page b of None \<Rightarrow> s
                      | Some page \<Rightarrow> s\<lparr>bs_wlmPage := vid = 0 \<or> bs_wlmPage s,
                          bs_pages := AList.map_default page [vid] (\<lambda>vids. vids @ [vid]) (bs_pages s)\<rparr>)
          in if bs_wlmPage s \<noteq> (vb_page b \<noteq> None) then Inl (Vpux_Throw ''Misalignment on WLM page approach setting'') else Inr s)
   | _ \<Rightarrow> Inr s)"

definition parse_configure_barrier :: "nat \<times> sim_item \<Rightarrow> barrier_simulator \<Rightarrow> barrier_simulator res" where
  "parse_configure_barrier = (\<lambda>(vid, item) s. case item of
     ConfigureBarrier i \<Rightarrow>
       (if bs_isDynamic s then Inl (Vpux_Throw ''Can not have both dynamic and static barriers at the same time'')
        else if vid \<noteq> length (bs_barriers s) then Inl (Vpux_Throw ''Got wrong virtual ID for the barrier'')
        else Inr (s\<lparr>bs_barriersMap := (bs_barriersMap s)(vid \<mapsto> length (bs_barriers s)),
          bs_barriers := bs_barriers s @ [new_config i], bs_usedBarriers := max (bs_usedBarriers s) (i + 1)\<rparr>))
   | _ \<Rightarrow> Inr s)"

definition parseBarriers :: "(nat \<times> sim_item) list \<Rightarrow> barrier_simulator \<Rightarrow> barrier_simulator res" where
  "parseBarriers bars s =
     res_bind (res_fold parse_virtual_barrier bars (s\<lparr>bs_isDynamic := False, bs_wlmPage := False\<rparr>)) (res_fold parse_configure_barrier bars)"

definition add_count :: "(int \<Rightarrow> barrier_config \<Rightarrow> barrier_config) \<Rightarrow> int \<Rightarrow> nat option list \<Rightarrow> barrier_simulator \<Rightarrow> barrier_simulator res" where
  "add_count inc cnt bars s = res_fold (\<lambda>bar s. res_bind (getVirtualId bar) (\<lambda>v.
     res_bind (int_at (bs_barriers s) v) (\<lambda>b. Inr (s\<lparr>bs_barriers := (bs_barriers s)[nat v := inc cnt b]\<rparr>)))) bars s"

definition updateBarrierConfigs :: "task_op \<Rightarrow> int \<Rightarrow> barrier_simulator \<Rightarrow> barrier_simulator res" where
  "updateBarrierConfigs op cnt s =
     res_bind (add_count (\<lambda>c b. b\<lparr>bc_consumerCount := bc_consumerCount b + c\<rparr>) cnt (to_waitBarriers op) s)
       (add_count (\<lambda>c b. b\<lparr>bc_producerCount := bc_producerCount b + c\<rparr>) cnt (to_updateBarriers op))"

definition parse_task :: "task_op \<Rightarrow> barrier_simulator \<times> (int \<times> nat) list \<Rightarrow> (barrier_simulator \<times> (int \<times> nat) list) res" where
  "parse_task op = (\<lambda>(s, dmaQueues).
     res_bind (vd_add op (bs_vdt s)) (\<lambda>(virtualDep, vdt).
     let s = s\<lparr>bs_vdt := vdt\<rparr> in
     case to_executorKind op of
       DMA_NN \<Rightarrow> (case to_inner op of
           DmaTask port channel \<Rightarrow> (case port of
               None \<Rightarrow> Inl (Vpux_Throw ''DMA task port value is not set'')
             | Some p \<Rightarrow>
                 let q = getDMAQueueIdEncoding p channel;
                     (e, dmaQueues) = (case map_of dmaQueues q of
                         None \<Rightarrow> (length dmaQueues, dmaQueues @ [(q, length dmaQueues)]) | Some e \<Rightarrow> (e, dmaQueues))
                 in if \<not> e < length (bs_dmaTasks s)
                    then Inl (Vpux_Throw ''NNDMAOp queue index larger than maximum number of queues'')
                    else map_sum id (\<lambda>s. (s, dmaQueues)) (updateBarrierConfigs op 1
                      (s\<lparr>bs_dmaTasks := (bs_dmaTasks s)[e := bs_dmaTasks s ! e @ [new_user virtualDep 1]]\<rparr>)))
         | _ \<Rightarrow> Inl (Vpux_Throw ''Not a DMA task''))
     | DPU \<Rightarrow> (case to_inner op of
           NceTask _ \<Rightarrow> res_bind (getNumOfSlotsUsed op) (\<lambda>numVariants.
             map_sum id (\<lambda>s. (s, dmaQueues)) (updateBarrierConfigs op (int numVariants)
               (s\<lparr>bs_nceTasks := bs_nceTasks s @ [new_user virtualDep (int numVariants)]\<rparr>)))
         | _ \<Rightarrow> Inl (Vpux_Throw ''Could not cast to NCE task''))
     | SHAVE_ACT \<Rightarrow> map_sum id (\<lambda>s. (s, dmaQueues)) (updateBarrierConfigs op 1 (s\<lparr>bs_actTasks := bs_actTasks s @ [new_user virtualDep 1]\<rparr>))
     | M2I \<Rightarrow> map_sum id (\<lambda>s. (s, dmaQueues)) (updateBarrierConfigs op 1 (s\<lparr>bs_m2iTasks := bs_m2iTasks s @ [new_user virtualDep 1]\<rparr>))
     | UNKNOWN_EXECUTOR \<Rightarrow>
         if bs_dmaTasks s = [] then Inl Assertion_Failure
         else map_sum id (\<lambda>s. (s, dmaQueues)) (updateBarrierConfigs op 1
           (s\<lparr>bs_dmaTasks := (bs_dmaTasks s)[0 := bs_dmaTasks s ! 0 @ [new_user virtualDep 1]]\<rparr>))
     | _ \<Rightarrow> Inl (Vpux_Throw ''Unsupported executor'')))"

definition parseTasks :: "task_op list \<Rightarrow> barrier_simulator \<Rightarrow> barrier_simulator res" where
  "parseTasks ops s = map_sum id fst (res_fold parse_task ops (s, []))"

text \<open>The limits of the platform, and the number of independent DMA queues, are arguments of the constructor.\<close>

definition new_simulator :: "int \<Rightarrow> int \<Rightarrow> int \<Rightarrow> nat \<Rightarrow> sim_item list \<Rightarrow> barrier_simulator res" where
  "new_simulator maxVariantCount maxVariantSum availableBarriers dmaQueues func =
     res_bind (assignVirtualIds func) (\<lambda>bars.
     res_bind (parseBarriers bars \<lparr>bs_producerSlotCount = maxVariantCount, bs_totalSlotCount = maxVariantSum,
       bs_availableBarriers = availableBarriers, bs_usedBarriers = 0, bs_barriersMap = Map.empty, bs_barriers = [],
       bs_isDynamic = False, bs_wlmPid = False, bs_wlmPage = False, bs_dmaTasks = replicate dmaQueues [], bs_nceTasks = [],
       bs_actTasks = [], bs_m2iTasks = [], bs_vdt = new_virtual_deps, bs_batches = [], bs_barrierVID = Map.empty,
       bs_pages = [], bs_pidToVid = [], bs_order = [], bs_wlm = None, bs_info = empty_barrier_info\<rparr>) (parseTasks (sim_tasks func)))"

definition configureForWlm :: "platform \<Rightarrow> barrier_info \<Rightarrow> barrier_simulator \<Rightarrow> barrier_simulator res" where
  "configureForWlm pf info s = map_sum id (\<lambda>h. s\<lparr>bs_wlm := Some h, bs_wlmPid := True\<rparr>) (new_wlm_handler pf info)"

definition new_wlm_simulator ::
  "int \<Rightarrow> int \<Rightarrow> int \<Rightarrow> nat \<Rightarrow> sim_item list \<Rightarrow> bool \<Rightarrow> platform \<Rightarrow> barrier_info \<Rightarrow> barrier_simulator res" where
  "new_wlm_simulator maxVariantCount maxVariantSum availableBarriers dmaQueues func wlmFlag pf info =
     res_bind (new_simulator maxVariantCount maxVariantSum availableBarriers dmaQueues func) (\<lambda>s.
     map_sum id (\<lambda>s. s\<lparr>bs_info := info\<rparr>) (if wlmFlag then configureForWlm pf info s else Inr s))"

definition getConfig :: "nat \<Rightarrow> barrier_simulator \<Rightarrow> barrier_config res" where
  "getConfig bar s = (case bs_barriersMap s bar of
     None \<Rightarrow> Inl (Vpux_Throw ''Barrier was not covered by BarrierSimulator'') | Some i \<Rightarrow> vec_at (bs_barriers s) i)"

definition checkProducerCount :: "barrier_simulator \<Rightarrow> bool" where
  "checkProducerCount s \<longleftrightarrow> list_all (\<lambda>b. \<not> bc_producerCount b > bs_producerSlotCount s) (bs_barriers s)"

definition checkProducerAndConsumerCount :: "barrier_simulator \<Rightarrow> bool" where
  "checkProducerAndConsumerCount s \<longleftrightarrow>
     list_all (\<lambda>b. \<not> bc_producerCount b + bc_consumerCount b > bs_totalSlotCount s) (bs_barriers s)"

text \<open>The barriers of a batch that still have users; batches without any are left out.\<close>

definition legal_batch :: "(nat \<rightharpoonup> virtual_barrier) \<Rightarrow> int set \<Rightarrow> int set res" where
  "legal_batch ops batch = res_fold (\<lambda>vid acc. if vid < 0 then Inl Assertion_Failure else
     case ops (nat vid) of None \<Rightarrow> Inl Assertion_Failure
     | Some b \<Rightarrow> Inr (if vb_useEmpty b then acc else insert vid acc)) (sorted_list_of_set batch) {}"

definition getBarrierBatchesToLegalize :: "'a barrier_simulator_scheme \<Rightarrow> int set list res" where
  "getBarrierBatchesToLegalize s = res_fold (\<lambda>batch acc.
     map_sum id (\<lambda>b. if b = {} then acc else acc @ [b]) (legal_batch (bs_barrierVID s) batch)) (bs_batches s) []"

section \<open>One task\<close>

text \<open>The local variables of a simulation are added to the state of the simulator.\<close>

record sim_run = barrier_simulator +
  sm_toVirtual :: "int list"
  sm_prevVid :: "int list"
  sm_nextReal :: "int ring_buffer"
  sm_bar :: nat
  sm_dma :: "nat list"
  sm_dpu :: nat
  sm_act :: nat
  sm_m2i :: nat
  sm_progressed :: bool

datatype sim_status = Success | Skip | Fail

definition isBarrierMapped :: "sim_run \<Rightarrow> int \<Rightarrow> int \<Rightarrow> bool" where
  "isBarrierMapped st v r =
     (if r < 0 \<or> nat r \<ge> length (sm_toVirtual st) then False else bs_isDynamic st \<or> sm_toVirtual st ! nat r = v)"

definition wait_check :: "dep_range \<Rightarrow> nat \<Rightarrow> sim_run \<Rightarrow> (sim_status option \<times> sim_run) res" where
  "wait_check rng i st =
     res_bind (vd_id (bs_vdt st) (fst rng + int i)) (\<lambda>v. res_bind (int_at (bs_barriers st) v) (\<lambda>b.
     Inr (if \<not> isBarrierMapped st v (bc_realId b) then Some Skip
          else if bc_producerCount b > 0 then Some Skip else None, st)))"

definition update_check :: "dep_range \<Rightarrow> nat \<Rightarrow> sim_run \<Rightarrow> (sim_status option \<times> sim_run) res" where
  "update_check rng i st =
     res_bind (vd_id (bs_vdt st) (fst rng + int i)) (\<lambda>v. res_bind (int_at (bs_barriers st) v) (\<lambda>b.
     Inr (if \<not> isBarrierMapped st v (bc_realId b) then Some Skip else None, st)))"

definition consume_barrier :: "int \<Rightarrow> dep_range \<Rightarrow> nat \<Rightarrow> barrier_user \<times> sim_run \<Rightarrow> (sim_status option \<times> barrier_user \<times> sim_run) res" where
  "consume_barrier cnt rng i = (\<lambda>(user, st).
     res_bind (vd_id (bs_vdt st) (fst rng + int i)) (\<lambda>v. res_bind (int_at (bs_barriers st) v) (\<lambda>b.
     let r = bc_realId b in
     if isBarrierMapped st v r then
       (if bc_producerCount b \<noteq> 0 \<or> bc_consumerCount b < cnt then Inr (Some Fail, user, st)
        else let c = bc_consumerCount b - cnt;
                 st = st\<lparr>bs_barriers := (bs_barriers st)[nat v := b\<lparr>bc_consumerCount := c\<rparr>]\<rparr>;
                 user = user\<lparr>bu_waits := insert r (bu_waits user), bu_startAfter := max (bu_startAfter user) (v + 1)\<rparr>
             in if c = 0 then
                  (let st = st\<lparr>sm_toVirtual := (sm_toVirtual st)[nat r := -1]\<rparr> in
                   if bs_isDynamic st then map_sum id (\<lambda>q. (None, user, st\<lparr>sm_nextReal := q\<rparr>)) (ring_push r (sm_nextReal st))
                   else Inr (None, user, st))
                else Inr (None, user, st))
     else Inr (Some Fail, user, st))))"

definition produce_barrier :: "int \<Rightarrow> dep_range \<Rightarrow> nat \<Rightarrow> barrier_user \<times> sim_run \<Rightarrow> (sim_status option \<times> barrier_user \<times> sim_run) res" where
  "produce_barrier cnt rng i = (\<lambda>(user, st).
     res_bind (vd_id (bs_vdt st) (fst rng + int i)) (\<lambda>v. res_bind (int_at (bs_barriers st) v) (\<lambda>b.
     let r = bc_realId b in
     if isBarrierMapped st v r then
       (if bc_producerCount b < cnt then Inr (Some Fail, user, st)
        else Inr (None, user\<lparr>bu_posts := insert r (bu_posts user), bu_startAfter := max (bu_startAfter user) (v + 1),
               bu_cleanAfter := min (bu_cleanAfter user) v\<rparr>,
             st\<lparr>bs_barriers := (bs_barriers st)[nat v := b\<lparr>bc_producerCount := bc_producerCount b - cnt\<rparr>]\<rparr>))
     else Inr (Some Fail, user, st))))"

definition processSim ::
  "dep_range \<times> dep_range \<Rightarrow> barrier_user \<Rightarrow> int \<Rightarrow> sim_run \<Rightarrow> (sim_status \<times> barrier_user \<times> sim_run) res" where
  "processSim dep user cnt st =
     (let waits = [0..<nat (snd (fst dep))]; posts = [0..<nat (snd (snd dep))] in
      res_bind (res_until (wait_check (fst dep)) waits st) (\<lambda>(r, st). case r of Some status \<Rightarrow> Inr (status, user, st) | None \<Rightarrow>
      res_bind (res_until (update_check (snd dep)) posts st) (\<lambda>(r, st). case r of Some status \<Rightarrow> Inr (status, user, st) | None \<Rightarrow>
      res_bind (res_until (consume_barrier cnt (fst dep)) waits (user\<lparr>bu_startAfter := 0\<rparr>, st)) (\<lambda>(r, user, st).
        case r of Some status \<Rightarrow> Inr (status, user, st) | None \<Rightarrow>
      res_bind (res_until (produce_barrier cnt (snd dep)) posts
          (user\<lparr>bu_cleanAfter := int (length (bs_barriers st))\<rparr>, st)) (\<lambda>(r, user, st).
        Inr (case r of Some status \<Rightarrow> status | None \<Rightarrow> Success, user, st))))))"

section \<open>The queues\<close>

datatype sim_queue = DmaQueue nat | DpuQueue | ActQueue | M2iQueue

fun queue_users :: "sim_queue \<Rightarrow> 'a barrier_simulator_scheme \<Rightarrow> barrier_user list" where
  "queue_users (DmaQueue e) st = bs_dmaTasks st ! e"
| "queue_users DpuQueue st = bs_nceTasks st"
| "queue_users ActQueue st = bs_actTasks st"
| "queue_users M2iQueue st = bs_m2iTasks st"

fun queue_index :: "sim_queue \<Rightarrow> sim_run \<Rightarrow> nat" where
  "queue_index (DmaQueue e) st = sm_dma st ! e"
| "queue_index DpuQueue st = sm_dpu st"
| "queue_index ActQueue st = sm_act st"
| "queue_index M2iQueue st = sm_m2i st"

fun set_queue_user :: "sim_queue \<Rightarrow> nat \<Rightarrow> barrier_user \<Rightarrow> sim_run \<Rightarrow> sim_run" where
  "set_queue_user (DmaQueue e) k u st = st\<lparr>bs_dmaTasks := (bs_dmaTasks st)[e := (bs_dmaTasks st ! e)[k := u]]\<rparr>"
| "set_queue_user DpuQueue k u st = st\<lparr>bs_nceTasks := (bs_nceTasks st)[k := u]\<rparr>"
| "set_queue_user ActQueue k u st = st\<lparr>bs_actTasks := (bs_actTasks st)[k := u]\<rparr>"
| "set_queue_user M2iQueue k u st = st\<lparr>bs_m2iTasks := (bs_m2iTasks st)[k := u]\<rparr>"

fun advance_queue :: "sim_queue \<Rightarrow> sim_run \<Rightarrow> sim_run" where
  "advance_queue (DmaQueue e) st = st\<lparr>sm_dma := (sm_dma st)[e := Suc (sm_dma st ! e)]\<rparr>"
| "advance_queue DpuQueue st = st\<lparr>sm_dpu := Suc (sm_dpu st)\<rparr>"
| "advance_queue ActQueue st = st\<lparr>sm_act := Suc (sm_act st)\<rparr>"
| "advance_queue M2iQueue st = st\<lparr>sm_m2i := Suc (sm_m2i st)\<rparr>"

definition sim_queues :: "'a barrier_simulator_scheme \<Rightarrow> sim_queue list" where
  "sim_queues st = map DmaQueue [0..<length (bs_dmaTasks st)] @ [DpuQueue, ActQueue, M2iQueue]"

definition process_task :: "sim_queue \<Rightarrow> nat \<Rightarrow> sim_run \<Rightarrow> (sim_status option \<times> sim_run) res" where
  "process_task q k st =
     (let user = queue_users q st ! k in
      res_bind (vd_dep (bs_vdt st) (bu_virtualDep user)) (\<lambda>dep.
      res_bind (processSim dep user (bu_count user) st) (\<lambda>(status, user, st).
      let st = set_queue_user q k user st in
      Inr (case status of Success \<Rightarrow> (None, (advance_queue q st)\<lparr>sm_progressed := True\<rparr>) | _ \<Rightarrow> (Some status, st)))))"

definition run_queue :: "sim_queue \<Rightarrow> sim_run \<Rightarrow> (sim_status option \<times> sim_run) res" where
  "run_queue q st = res_until (process_task q) [queue_index q st..<length (queue_users q st)] st"

definition run_queues :: "sim_run \<Rightarrow> (sim_status option \<times> sim_run) res" where
  "run_queues st = res_until (\<lambda>q st. map_sum id (\<lambda>(r, st). (if r = Some Fail then Some Fail else None, st)) (run_queue q st))
     (sim_queues st) st"

section \<open>Mapping of virtual barriers\<close>

definition pid_queue :: "'a barrier_simulator_scheme \<Rightarrow> nat \<Rightarrow> nat list" where
  "pid_queue st pid = (case map_of (bs_pidToVid st) pid of None \<Rightarrow> [] | Some vids \<Rightarrow> vids)"

definition free_pid :: "sim_run \<Rightarrow> nat option" where
  "free_pid st = find (\<lambda>pid. sm_toVirtual st ! pid = -1 \<and> pid_queue st pid \<noteq> []) [0..<length (sm_toVirtual st)]"

definition hasBarriersToMap :: "sim_run \<Rightarrow> bool res" where
  "hasBarriersToMap st =
     (if bs_isDynamic st then Inr (\<not> ring_empty (sm_nextReal st))
      else if bs_pidToVid st \<noteq> [] then Inr (free_pid st \<noteq> None)
      else res_bind (vec_at (bs_barriers st) (sm_bar st)) (\<lambda>b. map_sum id (\<lambda>v. v = -1) (int_at (sm_toVirtual st) (bc_realId b))))"

text \<open>Physical barriers that may not be reused for the barrier are pushed back.\<close>

fun find_pid :: "nat \<Rightarrow> sim_run \<Rightarrow> (int option \<times> sim_run) res" where
  "find_pid 0 st = Inr (None, st)"
| "find_pid (Suc n) st =
     res_bind (ring_take (sm_nextReal st)) (\<lambda>(real, q).
     res_bind (int_at (sm_prevVid st) real) (\<lambda>prevVid.
     let st = st\<lparr>sm_nextReal := q\<rparr> in
     if prevVid \<ge> 0 then
       (case bs_wlm st of None \<Rightarrow> Inl Assertion_Failure
        | Some h \<Rightarrow> res_bind (canBarrierReusePidFromBarrier (sm_bar st) (nat prevVid) h) (\<lambda>(reuse, h).
            let st = st\<lparr>bs_wlm := Some h\<rparr> in
            if \<not> reuse then res_bind (ring_push real q) (\<lambda>q. find_pid n (st\<lparr>sm_nextReal := q\<rparr>))
            else Inr (Some real, st)))
     else Inr (Some real, st)))"

definition choose_pid :: "sim_run \<Rightarrow> (int option \<times> sim_run) res" where
  "choose_pid st =
     (if bs_isDynamic st then
        res_bind (if bs_wlmPid st \<and> bs_wlm st \<noteq> None then find_pid (rb_size (sm_nextReal st)) st
            else map_sum id (\<lambda>(real, q). (Some real, st\<lparr>sm_nextReal := q\<rparr>)) (ring_take (sm_nextReal st))) (\<lambda>(real, st).
        case real of None \<Rightarrow> Inr (None, st)
        | Some r \<Rightarrow> res_bind (vec_at (bs_barriers st) (sm_bar st)) (\<lambda>b.
            Inr (Some r, st\<lparr>bs_barriers := (bs_barriers st)[sm_bar st := b\<lparr>bc_realId := r\<rparr>]\<rparr>)))
      else if bs_pidToVid st \<noteq> [] then Inr (Some (case free_pid st of None \<Rightarrow> -1 | Some pid \<Rightarrow> int pid), st)
      else map_sum id (\<lambda>b. (Some (bc_realId b), st)) (vec_at (bs_barriers st) (sm_bar st)))"

definition next_vid :: "int \<Rightarrow> sim_run \<Rightarrow> (nat \<times> sim_run) res" where
  "next_vid real st =
     (if bs_pidToVid st = [] then Inr (sm_bar st, st)
      else case pid_queue st (nat real) of
          [] \<Rightarrow> Inl Assertion_Failure
        | vid # vids \<Rightarrow> Inr (vid, st\<lparr>bs_pidToVid := AList.update (nat real) vids (bs_pidToVid st), bs_order := bs_order st @ [vid]\<rparr>))"

definition map_barrier :: "nat \<Rightarrow> sim_run \<Rightarrow> (unit option \<times> sim_run) res" where
  "map_barrier bar st =
     res_bind (hasBarriersToMap st) (\<lambda>more. if \<not> more then Inr (Some (), st)
     else res_bind (choose_pid st) (\<lambda>(real, st). case real of None \<Rightarrow> Inr (Some (), st)
       | Some r \<Rightarrow>
           if r < 0 then Inl (Vpux_Throw ''No new barrier was mapped'')
           else res_bind (next_vid r st) (\<lambda>(vid, st).
             res_bind (int_set (sm_toVirtual st) r (int vid)) (\<lambda>toVirtual.
             res_bind (int_set (sm_prevVid st) r (int vid)) (\<lambda>prevVid.
             Inr (None, st\<lparr>sm_toVirtual := toVirtual, sm_prevVid := prevVid, sm_bar := Suc bar, sm_progressed := True\<rparr>))))))"

definition map_barriers :: "sim_run \<Rightarrow> (unit option \<times> sim_run) res" where
  "map_barriers st = res_until map_barrier [sm_bar st..<length (bs_barriers st)] st"

section \<open>Legalization\<close>

definition isNewBatchNeeded :: "sim_run \<Rightarrow> bool res" where
  "isNewBatchNeeded st =
     (if bs_batches st = [] then Inr True
      else if last (bs_batches st) = {} then Inr False
      else map_sum id (\<lambda>(r, mapped). r = None \<and> mapped) (res_until (\<lambda>activeBar mapped.
        if activeBar = -1 then
          (if \<not> bs_wlmPid st then Inl (Vpux_Throw ''Found not mapped barrier with exceeding barriers'') else Inr (None, mapped))
        else if activeBar \<in> last (bs_batches st) then Inr (Some (), mapped)
        else Inr (None, True)) (sm_toVirtual st) False))"

definition store_batch :: "nat \<Rightarrow> sim_run \<Rightarrow> sim_run res" where
  "store_batch limit st =
     (if \<not> length (sm_toVirtual st) > limit then Inr st
      else res_bind (isNewBatchNeeded st) (\<lambda>new.
        let st = (if new then st\<lparr>bs_batches := bs_batches st @ [{}]\<rparr> else st) in
        res_fold (\<lambda>activeBar st.
          if activeBar = -1 then
            (if \<not> bs_wlmPid st then Inl (Vpux_Throw ''Found not mapped barrier with exceeding barriers'') else Inr st)
          else Inr (st\<lparr>bs_batches := butlast (bs_batches st) @ [insert activeBar (last (bs_batches st))]\<rparr>)) (sm_toVirtual st) st))"

definition updateNextReal :: "sim_run \<Rightarrow> sim_run res" where
  "updateNextReal st = map_sum id (\<lambda>q. st\<lparr>sm_nextReal := q\<rparr>)
     (res_fold (\<lambda>p q. if sm_toVirtual st ! p = -1 then ring_push (int p) q else Inr q) [0..<length (sm_toVirtual st)]
       (ring_reset 0 (length (sm_toVirtual st)) (sm_nextReal st)))"

text \<open>The physical barriers of the virtual ones that stay, numbered without the free ones that go.\<close>

definition remap_barriers :: "nat \<Rightarrow> sim_run \<Rightarrow> sim_run res" where
  "remap_barriers limit st = map_sum id fst (res_fold (\<lambda>p (st, freeBarrierCount).
     let v = sm_toVirtual st ! p in
     if v \<noteq> -1 then
       res_bind (int_at (bs_barriers st) v) (\<lambda>b.
       Inr (st\<lparr>bs_barriers := (bs_barriers st)[nat v := b\<lparr>bc_realId := int (u64_sub p freeBarrierCount)\<rparr>]\<rparr>, freeBarrierCount))
     else Inr (st, if length (sm_toVirtual st) - freeBarrierCount > limit then Suc freeBarrierCount else freeBarrierCount))
     [0..<length (sm_toVirtual st)] (st, 0))"

fun first_free :: "nat \<Rightarrow> int list \<Rightarrow> nat option" where
  "first_free k [] = None"
| "first_free k (v # vs) = (if v = -1 then Some k else first_free (Suc k) vs)"

lemma first_free_bounds: "first_free k vs = Some i \<Longrightarrow> k \<le> i \<and> i < k + length vs"
  by (induction vs arbitrary: k) (fastforce split: if_splits)+

text \<open>Removes free barriers from the front down to the limit, with the positions they had when they were removed.\<close>

function remove_free :: "nat \<Rightarrow> int list \<Rightarrow> nat list \<Rightarrow> int list \<times> nat list" where
  "remove_free limit toVirtual removed =
     (case first_free 0 toVirtual of
        None \<Rightarrow> (toVirtual, removed)
      | Some i \<Rightarrow> if length toVirtual > limit then remove_free limit (take i toVirtual @ drop (Suc i) toVirtual) (removed @ [i])
                 else (toVirtual, removed))"
  by pat_completeness auto
termination
  by (relation "measure (\<lambda>(_, toVirtual, _). length toVirtual)") (auto dest: first_free_bounds)

definition shrink_barriers :: "nat \<Rightarrow> sim_run \<Rightarrow> sim_run res" where
  "shrink_barriers limit st =
     res_bind (remap_barriers limit st) (\<lambda>st.
     let (toVirtual, removed) = remove_free limit (sm_toVirtual st) []; st = st\<lparr>sm_toVirtual := toVirtual\<rparr> in
     res_bind (res_fold (\<lambda>i st. if i \<ge> length (sm_prevVid st) then Inl (Vpux_Throw ''Incorrect index to remove'')
         else Inr (st\<lparr>sm_prevVid := take i (sm_prevVid st) @ drop (Suc i) (sm_prevVid st)\<rparr>))
       (rev (sorted_list_of_set (set removed))) st) updateNextReal)"

definition legalize_step :: "nat \<Rightarrow> sim_run \<Rightarrow> sim_run res" where
  "legalize_step limit st =
     (let freeBarriers = length (filter (\<lambda>v. v = -1) (sm_toVirtual st)) in
      if \<not> sm_progressed st then
        (if \<not> bs_wlmPid st \<and> freeBarriers > 0 then Inl (Vpux_Throw ''Simulation not progressed and there are free barriers'')
         else updateNextReal (st\<lparr>sm_toVirtual := sm_toVirtual st @ [-1], sm_prevVid := sm_prevVid st @ [-1], sm_progressed := True\<rparr>))
      else if freeBarriers > 0 \<and> length (sm_toVirtual st) > limit then shrink_barriers limit st
      else Inr st)"

section \<open>The simulation\<close>

definition sim_finished :: "sim_run \<Rightarrow> bool" where
  "sim_finished st \<longleftrightarrow> \<not> sm_bar st < length (bs_barriers st) \<and>
     list_all (\<lambda>e. \<not> sm_dma st ! e < length (bs_dmaTasks st ! e)) [0..<length (bs_dmaTasks st)] \<and>
     \<not> sm_dpu st < length (bs_nceTasks st) \<and> \<not> sm_act st < length (bs_actTasks st) \<and> \<not> sm_m2i st < length (bs_m2iTasks st)"

text \<open>When nothing moved, every physical barrier in use must be the one its virtual barrier has.\<close>

definition check_blocked :: "sim_run \<Rightarrow> unit res" where
  "check_blocked st = res_fold (\<lambda>pid _. let vid = sm_toVirtual st ! pid in
     if vid < 0 then Inr ()
     else res_bind (int_at (bs_barriers st) vid) (\<lambda>b.
       if bc_realId b \<noteq> int pid then Inl (Vpux_Throw ''Mismatch in barrier config'') else Inr ())) [0..<length (sm_toVirtual st)] ()"

definition sim_iteration :: "nat \<Rightarrow> bool \<Rightarrow> sim_run \<Rightarrow> (bool option \<times> sim_run) res" where
  "sim_iteration limit legal st =
     res_bind (map_barriers (st\<lparr>sm_progressed := False\<rparr>)) (\<lambda>(_, st).
     res_bind (if legal then store_batch limit st else Inr st) (\<lambda>st.
     res_bind (run_queues st) (\<lambda>(r, st). if r \<noteq> None then Inr (Some False, st)
     else res_bind (if legal then legalize_step limit st else Inr st) (\<lambda>st.
       if \<not> sm_progressed st then map_sum id (\<lambda>_. (Some False, st)) (check_blocked st)
       else Inr (None, st)))))"

text \<open>Not to return is the value \<^verbatim>\<open>None\<close>.\<close>

partial_function (option) sim_loop :: "nat \<Rightarrow> bool \<Rightarrow> sim_run \<Rightarrow> (bool \<times> sim_run) res option" where
  "sim_loop limit legal st =
     (if sim_finished st then Some (Inr (True, st))
      else case sim_iteration limit legal st of
          Inl e \<Rightarrow> Some (Inl e)
        | Inr (r, st) \<Rightarrow> (case r of Some b \<Rightarrow> Some (Inr (b, st)) | None \<Rightarrow> sim_loop limit legal st))"

declare sim_loop.simps [code]

definition start_run :: "nat \<Rightarrow> barrier_simulator \<Rightarrow> sim_run res" where
  "start_run limit s =
     map_sum id (\<lambda>q. barrier_simulator.extend s (sim_run.fields (replicate limit (-1)) (replicate limit (-1)) q 0
         (replicate (length (bs_dmaTasks s)) 0) 0 0 0 False))
       (if bs_isDynamic s then res_fold (\<lambda>p. ring_push (int p)) [0..<limit] (ring_reset 0 limit empty_ring) else Inr empty_ring)"

definition simulateBarriers ::
  "int option \<Rightarrow> bool option \<Rightarrow> barrier_simulator \<Rightarrow> (bool \<times> barrier_simulator) res option" where
  "simulateBarriers numBarriers barrierLegalization s =
     (if (case numBarriers of None \<Rightarrow> False | Some n \<Rightarrow> \<not> n \<le> bs_availableBarriers s)
      then Some (Inl (Vpux_Throw ''Provided number of barriers is greater than HW limitation''))
      else let n = (case numBarriers of None \<Rightarrow> bs_availableBarriers s | Some n \<Rightarrow> n);
               legal = (case barrierLegalization of None \<Rightarrow> False | Some b \<Rightarrow> b)
        in if n < 0 then Some (Inl (Vpux_Throw ''Can not safely cast''))
           else case start_run (nat n) s of Inl e \<Rightarrow> Some (Inl e) | Inr st \<Rightarrow>
             (case sim_loop (nat n) legal st of
                None \<Rightarrow> None
              | Some (Inl e) \<Rightarrow> Some (Inl e)
              | Some (Inr (b, st)) \<Rightarrow> Some (
                  if b \<and> legal
                  then map_sum id (\<lambda>batches. (batches = [], barrier_simulator.truncate st)) (getBarrierBatchesToLegalize st)
                  else Inr (b, barrier_simulator.truncate st))))"

section \<open>Given assignments and the results\<close>

definition assign_page :: "bool \<Rightarrow> nat \<Rightarrow> nat list \<Rightarrow> barrier_simulator \<Rightarrow> barrier_simulator res" where
  "assign_page partialWlmEnabled pidOffset vids s = res_fold (\<lambda>i s.
     let pid = (if partialWlmEnabled then u64_sub (u64_sub (u64_add pidOffset (length vids)) 1) i else u64_add pidOffset i); vid = vids ! i in
     res_bind (vec_at (bs_barriers s) vid) (\<lambda>b.
     Inr (s\<lparr>bs_barriers := (bs_barriers s)[vid := b\<lparr>bc_realId := int pid\<rparr>],
       bs_pidToVid := AList.map_default pid [vid] (\<lambda>q. q @ [vid]) (bs_pidToVid s)\<rparr>))) [0..<length vids] s"

text \<open>
  The loop runs while its index is below the number of pages, and looking up a page that is missing adds it: it visits
  every number up to the last page.
\<close>

definition page_numbers :: "barrier_simulator \<Rightarrow> nat list" where
  "page_numbers s = (if bs_pages s = [] then [] else [0..<Suc (Max (fst ` set (bs_pages s)))])"

definition assign_pages :: "nat \<Rightarrow> bool \<Rightarrow> barrier_simulator \<Rightarrow> barrier_simulator res" where
  "assign_pages pageSize partialWlmEnabled s = res_fold (\<lambda>page s.
     let vids = (case map_of (bs_pages s) page of None \<Rightarrow> [] | Some vids \<Rightarrow> vids) in
     if length vids > pageSize then Inl (Vpux_Throw ''Number of barriers in page not within limit of page size'')
     else assign_page partialWlmEnabled (if page mod 2 = 1 then pageSize else 0) vids s) (page_numbers s) s"

definition dynamic_again :: "(bool \<times> barrier_simulator) res option \<Rightarrow> (bool \<times> barrier_simulator) res option" where
  "dynamic_again = map_option (map_sum id (\<lambda>(b, s). (b, s\<lparr>bs_isDynamic := True\<rparr>)))"

definition simulateBarriersForWlmPageApproach ::
  "int \<Rightarrow> bool \<Rightarrow> barrier_simulator \<Rightarrow> (bool \<times> barrier_simulator) res option" where
  "simulateBarriersForWlmPageApproach numBarriers partialWlmEnabled s =
     (if \<not> bs_isDynamic s then Some (Inl (Vpux_Throw ''Unexpected dynamic barrier type for barrier simulation with WLM page approach''))
      else if \<not> bs_wlmPage s then Some (Inl (Vpux_Throw ''Barrier simulator not initialized for WLM page approach''))
      else case assign_pages (nat ((numBarriers sdiv 2) mod 2 ^ 64)) partialWlmEnabled (s\<lparr>bs_isDynamic := False\<rparr>) of
          Inl e \<Rightarrow> Some (Inl e)
        | Inr s \<Rightarrow> dynamic_again (simulateBarriers (Some numBarriers) None s))"

definition assign_barrier :: "nat list \<Rightarrow> nat \<Rightarrow> barrier_simulator \<Rightarrow> barrier_simulator res" where
  "assign_barrier pids vid s =
     res_bind (vec_at (bs_barriers s) vid) (\<lambda>b.
     Inr (s\<lparr>bs_barriers := (bs_barriers s)[vid := b\<lparr>bc_realId := int (pids ! vid)\<rparr>],
       bs_pidToVid := AList.map_default (pids ! vid) [vid] (\<lambda>q. q @ [vid]) (bs_pidToVid s)\<rparr>))"

definition generateBarrierOrderWithSimulation ::
  "int \<Rightarrow> nat list \<Rightarrow> barrier_simulator \<Rightarrow> (bool \<times> barrier_simulator) res option" where
  "generateBarrierOrderWithSimulation numBarriers virtualToPhysicalBarrierMapping s =
     (if \<not> bs_isDynamic s then Some (Inl (Vpux_Throw ''Unexpected dynamic barrier type for barrier simulation with manual barrier mapping configured''))
      else case res_fold (assign_barrier virtualToPhysicalBarrierMapping) [0..<length virtualToPhysicalBarrierMapping]
            (s\<lparr>bs_isDynamic := False\<rparr>) of
          Inl e \<Rightarrow> Some (Inl e)
        | Inr s \<Rightarrow> dynamic_again (simulateBarriers (Some numBarriers) None s))"

text \<open>The order of the barrier operations in the function, each named by its virtual id.\<close>

definition move_after :: "nat \<Rightarrow> nat \<Rightarrow> nat list \<Rightarrow> nat list" where
  "move_after bar point ir =
     (let ir = remove1 bar ir in takeWhile (\<lambda>b. b \<noteq> point) ir @ point # bar # tl (dropWhile (\<lambda>b. b \<noteq> point) ir))"

definition place_barrier ::
  "(nat \<rightharpoonup> virtual_barrier) \<Rightarrow> nat \<Rightarrow> nat list \<times> nat option \<times> nat option \<Rightarrow> (nat list \<times> nat option \<times> nat option) res" where
  "place_barrier ops bar = (\<lambda>(ir, insertPoint, finalBar). case ops bar of None \<Rightarrow> Inl Assertion_Failure
     | Some b \<Rightarrow>
         let ir = (case insertPoint of None \<Rightarrow> ir | Some p \<Rightarrow> move_after bar p ir) in
         if \<not> vb_isFinal b then Inr (ir, Some bar, finalBar)
         else if finalBar \<noteq> None then Inl (Vpux_Throw ''More then one final barrier'')
         else Inr (ir, Some bar, Some bar))"

definition updateBarrierOrderInIr :: "barrier_simulator \<Rightarrow> nat list \<Rightarrow> nat list res" where
  "updateBarrierOrderInIr s ir =
     (if bs_order s = [] then Inl (Vpux_Throw ''No barriers order vector available'')
      else map_sum id (\<lambda>(ir, _, finalBar). case finalBar of
            None \<Rightarrow> ir
          | Some f \<Rightarrow> if last (bs_order s) \<noteq> f then move_after f (last (bs_order s)) ir else ir)
        (res_fold (place_barrier (bs_barrierVID s)) (bs_order s) (ir, None, None)))"

definition calculateBarrierBatchesFor :: "platform \<Rightarrow> int set \<Rightarrow> barrier_simulator \<Rightarrow> barrier_simulator res" where
  "calculateBarrierBatchesFor pf activeBarriers s =
     res_bind (getBarriersUsers (bs_info s) (nat ` activeBarriers)) (\<lambda>users.
     res_bind (findParallelTasksWithBarrierDependence pf users 1 (bs_info s)) (\<lambda>(parallelTasksBatches, info).
     let s = s\<lparr>bs_info := info, bs_batches := (if bs_batches s = [] then [{}] else bs_batches s)\<rparr> in
     res_fold (\<lambda>parallelTasks s. res_fold (\<lambda>t s.
       res_bind (getUpdateBarriers (bs_info s) t) (\<lambda>updates. res_bind (getWaitBarriers (bs_info s) t) (\<lambda>waits.
       Inr (s\<lparr>bs_batches := butlast (bs_batches s) @ [last (bs_batches s) \<union> int ` updates \<union> int ` waits]\<rparr>))))
       (sorted_list_of_set parallelTasks) s) parallelTasksBatches s))"

definition calculateBarrierBatchesForParallelTasks :: "platform \<Rightarrow> barrier_simulator \<Rightarrow> barrier_simulator res" where
  "calculateBarrierBatchesForParallelTasks pf s =
     res_bind (getBarrierBatchesToLegalize s) (\<lambda>batches. res_fold (calculateBarrierBatchesFor pf) batches s)"

text \<open>The next barrier behind each one that has the same physical barrier.\<close>

definition linkNextIds :: "barrier_simulator \<Rightarrow> barrier_simulator" where
  "linkNextIds s = fold (\<lambda>i s. s\<lparr>bs_barriers := (bs_barriers s)[i := (bs_barriers s ! i)\<lparr>bc_nextSameId :=
       (case find (\<lambda>j. bc_realId (bs_barriers s ! j) = bc_realId (bs_barriers s ! i)) [Suc i..<length (bs_barriers s)] of
          None \<Rightarrow> -1 | Some j \<Rightarrow> int j)\<rparr>]\<rparr>) [0..<length (bs_barriers s)] s"

end
