(* ===== verification/Barrier_Simulation.thy ===== *)
theory Barrier_Simulation
  imports Barrier_Simulator
begin

text \<open>
  Correctness of the barrier simulation with virtual barriers: it ends without an error, a physical barrier is only
  reused when its barrier is fully consumed, a simulation that stops is really blocked, and it does not stop when
  enough physical barriers are there for the tasks in program order.
\<close>

section \<open>Tasks as the function has them\<close>

text \<open>The number of variants of a task, and the barriers it waits for and updates.\<close>

record task_view =
  tv_count :: int
  tv_waits :: "int list"
  tv_posts :: "int list"

definition range_view :: "nat \<Rightarrow> virtual_deps \<Rightarrow> dep_range \<Rightarrow> int list \<Rightarrow> bool" where
  "range_view nb d rng vids \<longleftrightarrow> 0 \<le> fst rng \<and> snd rng = int (length vids) \<and> nat (fst rng) + length vids \<le> length (vd_ids d) \<and>
     (\<forall>i<length vids. vd_ids d ! (nat (fst rng) + i) = vids ! i) \<and> set vids \<subseteq> {0..<int nb}"

definition user_view :: "nat \<Rightarrow> virtual_deps \<Rightarrow> barrier_user \<Rightarrow> task_view \<Rightarrow> bool" where
  "user_view nb d u t \<longleftrightarrow> bu_count u = tv_count t \<and> tv_count t \<ge> 1 \<and>
     (\<exists>dep. vd_dep d (bu_virtualDep u) = Inr dep \<and> range_view nb d (fst dep) (tv_waits t) \<and> range_view nb d (snd dep) (tv_posts t))"

text \<open>
  \<^verbatim>\<open>V\<close> are the tasks by their position in the function, \<^verbatim>\<open>pos\<close> the positions of the
  tasks of each queue.
\<close>

definition sim_static :: "nat \<Rightarrow> (nat \<Rightarrow> task_view) \<Rightarrow> (sim_queue \<Rightarrow> nat list) \<Rightarrow> sim_run \<Rightarrow> bool" where
  "sim_static nb V pos st \<longleftrightarrow> length (bs_barriers st) = nb \<and> length (sm_dma st) = length (bs_dmaTasks st) \<and>
     (\<forall>q\<in>set (sim_queues st). length (queue_users q st) = length (pos q) \<and> distinct (pos q) \<and>
        (\<forall>k<length (pos q). user_view nb (bs_vdt st) (queue_users q st ! k) (V (pos q ! k)))) \<and>
     (\<forall>q\<in>set (sim_queues st). \<forall>q'\<in>set (sim_queues st). q \<noteq> q' \<longrightarrow> set (pos q) \<inter> set (pos q') = {}) \<and>
     (\<forall>t. t \<notin> (\<Union>q\<in>set (sim_queues st). set (pos q)) \<longrightarrow> tv_waits (V t) = [])"

lemma range_view_id:
  assumes "range_view nb d rng vids" "i < length vids"
  shows "vd_id d (fst rng + int i) = Inr (vids ! i)"
  using assms by (auto simp: range_view_def vd_id_def int_at_def nat_add_distrib)

lemma range_view_in:
  assumes "range_view nb d rng vids" "v \<in> set vids"
  shows "0 \<le> v" "nat v < nb"
  using assms by (force simp: range_view_def)+

text \<open>A loop over the positions of a list is a loop over its elements.\<close>

lemma res_until_list:
  assumes "\<And>i s. i < length xs \<Longrightarrow> I s \<Longrightarrow> f i s = g (xs ! i) s" "\<And>x s r s'. I s \<Longrightarrow> g x s = Inr (r, s') \<Longrightarrow> I s'"
  shows "I s \<Longrightarrow> k \<le> length xs \<Longrightarrow> res_until f [k..<length xs] s = res_until g (drop k xs) s"
proof (induction "length xs - k" arbitrary: k s)
  case (Suc m)
  then have k: "k < length xs" by simp
  have "res_until f [Suc k..<length xs] s' = res_until g (drop (Suc k) xs) s'" if "I s'" for s' using Suc k that by simp
  then have "(\<lambda>(r, s). case r of None \<Rightarrow> res_until f [Suc k..<length xs] s | Some _ \<Rightarrow> Inr (r, s)) (r, s') =
      (\<lambda>(r, s). case r of None \<Rightarrow> res_until g (drop (Suc k) xs) s | Some _ \<Rightarrow> Inr (r, s)) (r, s')" if "g (xs ! k) s = Inr (r, s')" for r s'
    using assms(2) [OF Suc.prems(1) that] by (simp split: option.split)
  then show ?case using k assms(1) [OF k Suc.prems(1)]
    by (cases "g (xs ! k) s") (auto simp: upt_conv_Cons Cons_nth_drop_Suc [symmetric] simp del: drop_Suc_Cons)
qed simp

lemma res_until_all: "(\<And>x. x \<in> set xs \<Longrightarrow> f x s = Inr (None, s)) \<Longrightarrow> res_until f xs s = Inr (None, s)"
  by (induction xs) auto

text \<open>A loop that only tests stops at the first element that does not pass.\<close>

lemma res_until_check:
  "(\<And>x. x \<in> set xs \<Longrightarrow> f x s = Inr (if p x then None else Some r, s)) \<Longrightarrow>
    res_until f xs s = Inr (if \<forall>x\<in>set xs. p x then None else Some r, s)"
  by (induction xs) auto

section \<open>The state of the barriers\<close>

abbreviation prod_count :: "sim_run \<Rightarrow> nat \<Rightarrow> int" where "prod_count st v \<equiv> bc_producerCount (bs_barriers st ! v)"
abbreviation cons_count :: "sim_run \<Rightarrow> nat \<Rightarrow> int" where "cons_count st v \<equiv> bc_consumerCount (bs_barriers st ! v)"
abbreviation real_id :: "sim_run \<Rightarrow> nat \<Rightarrow> int" where "real_id st v \<equiv> bc_realId (bs_barriers st ! v)"

definition free_pids :: "int list \<Rightarrow> int set" where
  "free_pids toV = {int p | p. p < length toV \<and> toV ! p = -1}"

text \<open>
  The free physical barriers are those in the ring; the virtual barriers up to the next one to map have a physical
  barrier each, which is theirs until they are fully consumed.  \<^verbatim>\<open>N\<close> are the barriers that nothing
  consumes, which keep theirs.
\<close>

definition sim_core :: "nat \<Rightarrow> nat set \<Rightarrow> sim_run \<Rightarrow> bool" where
  "sim_core nb N st \<longleftrightarrow> bs_isDynamic st \<and> bs_pidToVid st = [] \<and> length (bs_barriers st) = nb \<and> sm_bar st \<le> nb \<and>
     ring_ok (sm_nextReal st) \<and> ring_capacity (sm_nextReal st) = length (sm_toVirtual st) \<and>
     distinct (ring_contents (sm_nextReal st)) \<and> set (ring_contents (sm_nextReal st)) = free_pids (sm_toVirtual st) \<and>
     length (sm_prevVid st) = length (sm_toVirtual st) \<and>
     (\<forall>v<sm_bar st. 0 \<le> real_id st v \<and> nat (real_id st v) < length (sm_toVirtual st) \<and>
        (sm_toVirtual st ! nat (real_id st v) = int v \<or> prod_count st v = 0 \<and> cons_count st v = 0)) \<and>
     (\<forall>v<nb. sm_bar st \<le> v \<longrightarrow> real_id st v = -1) \<and>
     (\<forall>p<length (sm_toVirtual st). sm_toVirtual st ! p = -1 \<or>
        (\<exists>v<sm_bar st. sm_toVirtual st ! p = int v \<and> real_id st v = int p)) \<and>
     (\<forall>v<nb. 0 \<le> prod_count st v \<and> 0 \<le> cons_count st v) \<and>
     (\<forall>p<length (sm_toVirtual st). \<forall>w. sm_toVirtual st ! p = int w \<longrightarrow> w \<in> N \<or> 0 < cons_count st w)"

lemma isBarrierMapped_core:
  assumes "sim_core nb N st" "v < nb"
  shows "isBarrierMapped st (int v) (real_id st v) \<longleftrightarrow> v < sm_bar st"
  using assms by (cases "v < sm_bar st") (auto simp: sim_core_def isBarrierMapped_def)

lemma int_at_nat [simp]: "int_at xs (int v) = vec_at xs v" "int_set xs (int v) x = vec_set xs v x"
  by (simp_all add: int_at_def int_set_def)

text \<open>The bodies of the loops over the barriers of a task, by barrier.\<close>

definition wait_at :: "int \<Rightarrow> sim_run \<Rightarrow> (sim_status option \<times> sim_run) res" where
  "wait_at v st = res_bind (int_at (bs_barriers st) v) (\<lambda>b.
     Inr (if \<not> isBarrierMapped st v (bc_realId b) then Some Skip
          else if bc_producerCount b > 0 then Some Skip else None, st))"

definition update_at :: "int \<Rightarrow> sim_run \<Rightarrow> (sim_status option \<times> sim_run) res" where
  "update_at v st = res_bind (int_at (bs_barriers st) v) (\<lambda>b.
     Inr (if \<not> isBarrierMapped st v (bc_realId b) then Some Skip else None, st))"

definition blocked_waits :: "sim_run \<Rightarrow> int list \<Rightarrow> bool" where
  "blocked_waits st vids \<longleftrightarrow> (\<exists>v\<in>set vids. nat v \<ge> sm_bar st \<or> prod_count st (nat v) > 0)"

definition blocked_posts :: "sim_run \<Rightarrow> int list \<Rightarrow> bool" where
  "blocked_posts st vids \<longleftrightarrow> (\<exists>v\<in>set vids. nat v \<ge> sm_bar st)"

lemma wait_loop:
  assumes core: "sim_core nb N st" and view: "range_view nb (bs_vdt st) rng vids"
  shows "res_until (wait_check rng) [0..<length vids] st = Inr (if blocked_waits st vids then Some Skip else None, st)"
proof -
  have "res_until (wait_check rng) [0..<length vids] st = res_until wait_at (drop 0 vids) st"
    by (rule res_until_list [where I = "\<lambda>s. s = st"])
      (use range_view_id [OF view] in \<open>auto simp: wait_check_def wait_at_def res_bind_eq_Inr\<close>)
  also have "\<dots> = Inr (if \<forall>v\<in>set vids. \<not> (nat v \<ge> sm_bar st \<or> prod_count st (nat v) > 0) then None else Some Skip, st)"
  proof (simp only: drop_0, rule res_until_check)
    fix v assume v: "v \<in> set vids"
    note v0 = range_view_in [OF view v]
    have "int_at (bs_barriers st) v = Inr (bs_barriers st ! nat v)" using v0 core by (auto simp: int_at_def sim_core_def)
    moreover have "isBarrierMapped st v (real_id st (nat v)) \<longleftrightarrow> nat v < sm_bar st"
      using isBarrierMapped_core [OF core v0(2)] v0(1) by simp
    ultimately show "wait_at v st = Inr (if \<not> (nat v \<ge> sm_bar st \<or> prod_count st (nat v) > 0) then None else Some Skip, st)"
      by (auto simp: wait_at_def)
  qed
  finally show ?thesis by (auto simp: blocked_waits_def)
qed

lemma update_loop:
  assumes core: "sim_core nb N st" and view: "range_view nb (bs_vdt st) rng vids"
  shows "res_until (update_check rng) [0..<length vids] st = Inr (if blocked_posts st vids then Some Skip else None, st)"
proof -
  have "res_until (update_check rng) [0..<length vids] st = res_until update_at (drop 0 vids) st"
    by (rule res_until_list [where I = "\<lambda>s. s = st"])
      (use range_view_id [OF view] in \<open>auto simp: update_check_def update_at_def res_bind_eq_Inr\<close>)
  also have "\<dots> = Inr (if \<forall>v\<in>set vids. \<not> nat v \<ge> sm_bar st then None else Some Skip, st)"
  proof (simp only: drop_0, rule res_until_check)
    fix v assume v: "v \<in> set vids"
    note v0 = range_view_in [OF view v]
    have "int_at (bs_barriers st) v = Inr (bs_barriers st ! nat v)" using v0 core by (auto simp: int_at_def sim_core_def)
    moreover have "isBarrierMapped st v (real_id st (nat v)) \<longleftrightarrow> nat v < sm_bar st"
      using isBarrierMapped_core [OF core v0(2)] v0(1) by simp
    ultimately show "update_at v st = Inr (if \<not> nat v \<ge> sm_bar st then None else Some Skip, st)"
      by (auto simp: update_at_def)
  qed
  finally show ?thesis by (auto simp: blocked_posts_def)
qed

text \<open>What processing a task leaves alone.\<close>

definition same_sim :: "sim_run \<Rightarrow> sim_run \<Rightarrow> bool" where
  "same_sim st st' \<longleftrightarrow> (\<exists>bars toV q. st' = st\<lparr>bs_barriers := bars, sm_toVirtual := toV, sm_nextReal := q\<rparr>)"

lemma same_sim_refl: "same_sim st st"
  unfolding same_sim_def by (rule exI [of _ "bs_barriers st"], rule exI [of _ "sm_toVirtual st"], rule exI [of _ "sm_nextReal st"]) simp

lemma same_sim_trans: "same_sim s t \<Longrightarrow> same_sim t u \<Longrightarrow> same_sim s u"
  unfolding same_sim_def by (elim exE) (simp, intro exI, rule refl)

lemma same_simD:
  assumes "same_sim st st'"
  shows "sm_bar st' = sm_bar st" "bs_vdt st' = bs_vdt st" "bs_isDynamic st' = bs_isDynamic st" "queue_users q st' = queue_users q st"
    "queue_index q st' = queue_index q st" "sim_queues st' = sim_queues st" "sm_progressed st' = sm_progressed st"
    "bs_wlmPid st' = bs_wlmPid st" "bs_wlm st' = bs_wlm st" "sm_dma st' = sm_dma st" "bs_dmaTasks st' = bs_dmaTasks st"
  using assms by (cases q; auto simp: same_sim_def sim_queues_def)+

definition same_user :: "barrier_user \<Rightarrow> barrier_user \<Rightarrow> bool" where
  "same_user u u' \<longleftrightarrow> bu_count u' = bu_count u \<and> bu_virtualDep u' = bu_virtualDep u"

definition consume_at :: "int \<Rightarrow> int \<Rightarrow> barrier_user \<times> sim_run \<Rightarrow> (sim_status option \<times> barrier_user \<times> sim_run) res" where
  "consume_at cnt v = (\<lambda>(user, st). res_bind (int_at (bs_barriers st) v) (\<lambda>b.
     let r = bc_realId b in
     if isBarrierMapped st v r then
       (if bc_producerCount b \<noteq> 0 \<or> bc_consumerCount b < cnt then Inr (Some Fail, user, st)
        else let c = bc_consumerCount b - cnt;
                 st = st\<lparr>bs_barriers := (bs_barriers st)[nat v := b\<lparr>bc_consumerCount := c\<rparr>]\<rparr>;
                 user = user\<lparr>bu_waits := insert r (bu_waits user), bu_startAfter := max (bu_startAfter user) (v + 1)\<rparr>
             in if c = 0 then
                  (let st = st\<lparr>sm_toVirtual := (sm_toVirtual st)[nat r := -1]\<rparr> in
                   if bs_isDynamic st then map_sum id (\<lambda>q. (None, user, st\<lparr>sm_nextReal := q\<rparr>)) (ring_push r (sm_nextReal st))
                   else Inr (None, user, st))
                else Inr (None, user, st))
     else Inr (Some Fail, user, st)))"

definition produce_at :: "int \<Rightarrow> int \<Rightarrow> barrier_user \<times> sim_run \<Rightarrow> (sim_status option \<times> barrier_user \<times> sim_run) res" where
  "produce_at cnt v = (\<lambda>(user, st). res_bind (int_at (bs_barriers st) v) (\<lambda>b.
     let r = bc_realId b in
     if isBarrierMapped st v r then
       (if bc_producerCount b < cnt then Inr (Some Fail, user, st)
        else Inr (None, user\<lparr>bu_posts := insert r (bu_posts user), bu_startAfter := max (bu_startAfter user) (v + 1),
               bu_cleanAfter := min (bu_cleanAfter user) v\<rparr>,
             st\<lparr>bs_barriers := (bs_barriers st)[nat v := b\<lparr>bc_producerCount := bc_producerCount b - cnt\<rparr>]\<rparr>))
     else Inr (Some Fail, user, st)))"

text \<open>One barrier consumed: when the last consumer has passed, its physical barrier joins the ring.\<close>

lemma consume_step:
  assumes core: "sim_core nb N st" and v: "v < sm_bar st" "prod_count st v = 0" "cnt \<le> cons_count st v" and cnt: "1 \<le> cnt"
  shows "\<exists>u' st'. consume_at cnt (int v) (u, st) = Inr (None, u', st') \<and> sim_core nb N st' \<and> same_sim st st' \<and> same_user u u' \<and>
    bs_barriers st' = (bs_barriers st)[v := (bs_barriers st ! v)\<lparr>bc_consumerCount := cons_count st v - cnt\<rparr>]"
proof -
  have vn: "v < nb" and len: "length (bs_barriers st) = nb" using core v(1) by (auto simp: sim_core_def)
  let ?b = "bs_barriers st ! v" and ?r = "nat (real_id st v)" and ?toV = "sm_toVirtual st"
  let ?c = "cons_count st v - cnt"
  define B where "B = (bs_barriers st)[v := ?b\<lparr>bc_consumerCount := ?c\<rparr>]"
  have r: "0 \<le> real_id st v" "?r < length ?toV" and own: "?toV ! ?r = int v"
    using core v cnt by (auto simp: sim_core_def)
  have mapped: "isBarrierMapped st (int v) (real_id st v)" using isBarrierMapped_core [OF core vn] v(1) by simp
  have bars: "bc_realId (B ! w) = real_id st w" "bc_producerCount (B ! w) = prod_count st w"
      "bc_consumerCount (B ! w) = (if w = v then ?c else cons_count st w)" for w using vn len unfolding B_def by (cases "w = v"; simp)+
  have lenB: "length B = nb" using len by (simp add: B_def)
  let ?u = "u\<lparr>bu_waits := insert (real_id st v) (bu_waits u), bu_startAfter := max (bu_startAfter u) (int v + 1)\<rparr>"
  have user: "same_user u ?u" by (simp add: same_user_def)
  show ?thesis
  proof (cases "?c = 0")
    case False
    let ?st = "st\<lparr>bs_barriers := B\<rparr>"
    have "consume_at cnt (int v) (u, st) = Inr (None, ?u, ?st)"
      using vn len mapped v(2,3) False by (simp add: consume_at_def Let_def vec_at_def B_def)
    moreover have "0 < ?c" using False v(3) by simp
    then have "sim_core nb N ?st" using core v(1,3) own unfolding sim_core_def by (simp add: bars lenB)
    moreover have "same_sim st ?st" unfolding same_sim_def
      by (rule exI [of _ B], rule exI [of _ ?toV], rule exI [of _ "sm_nextReal st"]) simp
    ultimately show ?thesis using user by (intro exI [of _ ?u] exI [of _ ?st]) (simp add: B_def)
  next
    case True
    have notin: "real_id st v \<notin> set (ring_contents (sm_nextReal st))"
    proof
      assume "real_id st v \<in> set (ring_contents (sm_nextReal st))"
      then obtain p where "real_id st v = int p" "?toV ! p = -1" using core by (auto simp: sim_core_def free_pids_def)
      then show False using own by simp
    qed
    have "card (free_pids ?toV) < length ?toV"
    proof -
      have "free_pids ?toV \<subseteq> int ` ({..<length ?toV} - {?r})" using own by (auto simp: free_pids_def)
      from card_mono [OF _ this] have "card (free_pids ?toV) \<le> card ({..<length ?toV} - {?r})"
        by (simp add: card_image inj_on_def)
      also have "\<dots> < length ?toV" using r(2) by (simp add: card_Diff_singleton)
      finally show ?thesis .
    qed
    moreover have "length (ring_contents (sm_nextReal st)) = card (free_pids ?toV)"
      using core distinct_card [of "ring_contents (sm_nextReal st)"] by (simp add: sim_core_def)
    ultimately have room: "length (ring_contents (sm_nextReal st)) < ring_capacity (sm_nextReal st)" using core by (simp add: sim_core_def)
    have rok: "ring_ok (sm_nextReal st)" using core by (simp add: sim_core_def)
    obtain q where q: "ring_push (real_id st v) (sm_nextReal st) = Inr q" "ring_ok q"
      "ring_contents q = ring_contents (sm_nextReal st) @ [real_id st v]" "ring_capacity q = ring_capacity (sm_nextReal st)"
      using rq.push_law [OF rok room] by blast
    let ?toV' = "?toV[?r := -1]"
    let ?st = "st\<lparr>bs_barriers := B, sm_toVirtual := ?toV', sm_nextReal := q\<rparr>"
    have dyn: "bs_isDynamic st" using core by (simp add: sim_core_def)
    have "consume_at cnt (int v) (u, st) = Inr (None, ?u, ?st)"
      using vn len mapped v(2,3) True q(1) dyn by (simp add: consume_at_def Let_def vec_at_def B_def)
    moreover have "sim_core nb N ?st"
    proof -
      have free: "free_pids ?toV' = insert (real_id st v) (free_pids ?toV)"
        using r by (auto simp: free_pids_def nth_list_update split: if_splits)
      have only: "w = v" if "w < sm_bar st" "?toV ! ?r = int w" for w using own that by simp
      have "\<forall>w<sm_bar st. 0 \<le> real_id st w \<and> nat (real_id st w) < length ?toV' \<and>
          (?toV' ! nat (real_id st w) = int w \<or> prod_count st w = 0 \<and> (if w = v then ?c else cons_count st w) = 0)"
      proof (intro allI impI)
        fix w assume w: "w < sm_bar st"
        then have c: "0 \<le> real_id st w" "nat (real_id st w) < length ?toV"
          "?toV ! nat (real_id st w) = int w \<or> prod_count st w = 0 \<and> cons_count st w = 0" using core by (auto simp: sim_core_def)
        show "0 \<le> real_id st w \<and> nat (real_id st w) < length ?toV' \<and>
          (?toV' ! nat (real_id st w) = int w \<or> prod_count st w = 0 \<and> (if w = v then ?c else cons_count st w) = 0)"
          using c True v(2) own by (cases "nat (real_id st w) = ?r") auto
      qed
      moreover have "\<forall>p<length ?toV'. ?toV' ! p = -1 \<or> (\<exists>w<sm_bar st. ?toV' ! p = int w \<and> real_id st w = int p)"
      proof (intro allI impI)
        fix p assume "p < length ?toV'"
        then show "?toV' ! p = -1 \<or> (\<exists>w<sm_bar st. ?toV' ! p = int w \<and> real_id st w = int p)"
          using core r(2) by (cases "p = ?r") (simp_all add: sim_core_def)
      qed
      moreover have "\<forall>p<length ?toV'. \<forall>w. ?toV' ! p = int w \<longrightarrow> w \<in> N \<or> 0 < (if w = v then ?c else cons_count st w)"
      proof (intro allI impI)
        fix p w assume p: "p < length ?toV'" "?toV' ! p = int w"
        then have "p \<noteq> ?r" by auto
        then have w: "?toV ! p = int w" and p': "p < length ?toV" using p by simp_all
        then obtain w' where "w' < sm_bar st" "?toV ! p = int w'" "real_id st w' = int p" using core by (force simp: sim_core_def)
        then have "w \<noteq> v" using w \<open>p \<noteq> ?r\<close> by auto
        moreover have "w \<in> N \<or> 0 < cons_count st w" using core w p' by (simp add: sim_core_def)
        ultimately show "w \<in> N \<or> 0 < (if w = v then ?c else cons_count st w)" by simp
      qed
      ultimately show ?thesis
        using core q(2,3,4) notin free True len v(3) unfolding sim_core_def by (simp add: bars lenB)
    qed
    moreover have "same_sim st ?st" by (auto simp: same_sim_def)
    ultimately show ?thesis using user by (intro exI [of _ ?u] exI [of _ ?st]) (simp add: B_def)
  qed
qed

lemma produce_step:
  assumes core: "sim_core nb N st" and v: "v < sm_bar st" "cnt \<le> prod_count st v" and cnt: "1 \<le> cnt"
  shows "\<exists>u' st'. produce_at cnt (int v) (u, st) = Inr (None, u', st') \<and> sim_core nb N st' \<and> same_sim st st' \<and> same_user u u' \<and>
    bs_barriers st' = (bs_barriers st)[v := (bs_barriers st ! v)\<lparr>bc_producerCount := prod_count st v - cnt\<rparr>]"
proof -
  have vn: "v < nb" and len: "length (bs_barriers st) = nb" using core v(1) by (auto simp: sim_core_def)
  let ?b = "bs_barriers st ! v"
  let ?c = "prod_count st v - cnt"
  define B where "B = (bs_barriers st)[v := ?b\<lparr>bc_producerCount := ?c\<rparr>]"
  have own: "sm_toVirtual st ! nat (real_id st v) = int v" using core v cnt by (auto simp: sim_core_def)
  have mapped: "isBarrierMapped st (int v) (real_id st v)" using isBarrierMapped_core [OF core vn] v(1) by simp
  have bars: "bc_realId (B ! w) = real_id st w" "bc_consumerCount (B ! w) = cons_count st w"
      "bc_producerCount (B ! w) = (if w = v then ?c else prod_count st w)" for w using vn len unfolding B_def by (cases "w = v"; simp)+
  have lenB: "length B = nb" using len by (simp add: B_def)
  let ?u = "u\<lparr>bu_posts := insert (real_id st v) (bu_posts u), bu_startAfter := max (bu_startAfter u) (int v + 1),
    bu_cleanAfter := min (bu_cleanAfter u) (int v)\<rparr>"
  let ?st = "st\<lparr>bs_barriers := B\<rparr>"
  have "produce_at cnt (int v) (u, st) = Inr (None, ?u, ?st)"
    using vn len mapped v(2) by (simp add: produce_at_def Let_def vec_at_def B_def)
  moreover have "sim_core nb N ?st" using core v own unfolding sim_core_def by (simp add: bars lenB)
  moreover have "same_sim st ?st" unfolding same_sim_def
    by (rule exI [of _ B], rule exI [of _ "sm_toVirtual st"], rule exI [of _ "sm_nextReal st"]) simp
  moreover have "same_user u ?u" by (simp add: same_user_def)
  ultimately show ?thesis by (intro exI [of _ ?u] exI [of _ ?st]) (simp add: B_def)
qed

lemma same_user_trans: "same_user u v \<Longrightarrow> same_user v w \<Longrightarrow> same_user u w"
  by (simp add: same_user_def)

lemma consume_loop:
  "sim_core nb N st \<Longrightarrow> (\<forall>v\<in>set vids. 0 \<le> v \<and> nat v < sm_bar st \<and> prod_count st (nat v) = 0) \<Longrightarrow> 1 \<le> cnt \<Longrightarrow>
    (\<forall>v<nb. cnt * int (count_list vids (int v)) \<le> cons_count st v) \<Longrightarrow>
    \<exists>u' st'. res_until (consume_at cnt) vids (u, st) = Inr (None, u', st') \<and> sim_core nb N st' \<and> same_sim st st' \<and> same_user u u' \<and>
      (\<forall>v<nb. prod_count st' v = prod_count st v \<and> cons_count st' v = cons_count st v - cnt * int (count_list vids (int v)) \<and>
        real_id st' v = real_id st v)"
proof (induction vids arbitrary: u st)
  case Nil
  then show ?case using same_sim_refl by (auto simp: same_user_def)
next
  case (Cons x vids)
  obtain v where x: "x = int v" using Cons.prems(2) by (metis list.set_intros(1) nonneg_int_cases)
  have v: "v < sm_bar st" "prod_count st v = 0" and vn: "v < nb" and len: "length (bs_barriers st) = nb"
    using Cons.prems(1,2) x by (auto simp: sim_core_def)
  have "cnt * int (count_list (x # vids) (int v)) \<le> cons_count st v" using Cons.prems(4) vn by blast
  moreover have "0 \<le> cnt * int (count_list vids (int v))" using Cons.prems(3) by simp
  ultimately have c: "cnt \<le> cons_count st v" using x by (simp add: algebra_simps)
  from consume_step [OF Cons.prems(1) v c Cons.prems(3)] obtain u1 st1 where s1:
    "consume_at cnt x (u, st) = Inr (None, u1, st1)" "sim_core nb N st1" "same_sim st st1" "same_user u u1"
    "bs_barriers st1 = (bs_barriers st)[v := (bs_barriers st ! v)\<lparr>bc_consumerCount := cons_count st v - cnt\<rparr>]"
    unfolding x by blast
  have bars: "prod_count st1 w = prod_count st w" "real_id st1 w = real_id st w"
    "cons_count st1 w = (if w = v then cons_count st v - cnt else cons_count st w)" for w
    using vn len unfolding s1(5) by (cases "w = v"; simp)+
  have "\<forall>w\<in>set vids. 0 \<le> w \<and> nat w < sm_bar st1 \<and> prod_count st1 (nat w) = 0"
    using Cons.prems(2) by (simp add: bars same_simD(1) [OF s1(3)])
  moreover have "\<forall>w<nb. cnt * int (count_list vids (int w)) \<le> cons_count st1 w"
  proof (intro allI impI)
    fix w assume "w < nb"
    then have "cnt * int (count_list (x # vids) (int w)) \<le> cons_count st w" using Cons.prems(4) by blast
    then show "cnt * int (count_list vids (int w)) \<le> cons_count st1 w" unfolding bars by (auto simp: x algebra_simps)
  qed
  ultimately obtain u2 st2 where s2: "res_until (consume_at cnt) vids (u1, st1) = Inr (None, u2, st2)" "sim_core nb N st2"
    "same_sim st1 st2" "same_user u1 u2"
    "\<forall>w<nb. prod_count st2 w = prod_count st1 w \<and> cons_count st2 w = cons_count st1 w - cnt * int (count_list vids (int w)) \<and>
      real_id st2 w = real_id st1 w"
    using Cons.IH [OF s1(2) _ Cons.prems(3), of u1] by blast
  have "\<forall>w<nb. prod_count st2 w = prod_count st w \<and> cons_count st2 w = cons_count st w - cnt * int (count_list (x # vids) (int w)) \<and>
      real_id st2 w = real_id st w"
    using s2(5) unfolding bars by (auto simp: x algebra_simps)
  then show ?case using s1(1) s2(1,2) same_sim_trans [OF s1(3) s2(3)] same_user_trans [OF s1(4) s2(4)]
    by (intro exI [of _ u2] exI [of _ st2]) simp
qed

lemma produce_loop:
  "sim_core nb N st \<Longrightarrow> (\<forall>v\<in>set vids. 0 \<le> v \<and> nat v < sm_bar st) \<Longrightarrow> 1 \<le> cnt \<Longrightarrow>
    (\<forall>v<nb. cnt * int (count_list vids (int v)) \<le> prod_count st v) \<Longrightarrow>
    \<exists>u' st'. res_until (produce_at cnt) vids (u, st) = Inr (None, u', st') \<and> sim_core nb N st' \<and> same_sim st st' \<and> same_user u u' \<and>
      (\<forall>v<nb. cons_count st' v = cons_count st v \<and> prod_count st' v = prod_count st v - cnt * int (count_list vids (int v)) \<and>
        real_id st' v = real_id st v)"
proof (induction vids arbitrary: u st)
  case Nil
  then show ?case using same_sim_refl by (auto simp: same_user_def)
next
  case (Cons x vids)
  obtain v where x: "x = int v" using Cons.prems(2) by (metis list.set_intros(1) nonneg_int_cases)
  have v: "v < sm_bar st" and vn: "v < nb" and len: "length (bs_barriers st) = nb"
    using Cons.prems(1,2) x by (auto simp: sim_core_def)
  have "cnt * int (count_list (x # vids) (int v)) \<le> prod_count st v" using Cons.prems(4) vn by blast
  moreover have "0 \<le> cnt * int (count_list vids (int v))" using Cons.prems(3) by simp
  ultimately have c: "cnt \<le> prod_count st v" using x by (simp add: algebra_simps)
  from produce_step [OF Cons.prems(1) v c Cons.prems(3)] obtain u1 st1 where s1:
    "produce_at cnt x (u, st) = Inr (None, u1, st1)" "sim_core nb N st1" "same_sim st st1" "same_user u u1"
    "bs_barriers st1 = (bs_barriers st)[v := (bs_barriers st ! v)\<lparr>bc_producerCount := prod_count st v - cnt\<rparr>]"
    unfolding x by blast
  have bars: "cons_count st1 w = cons_count st w" "real_id st1 w = real_id st w"
    "prod_count st1 w = (if w = v then prod_count st v - cnt else prod_count st w)" for w
    using vn len unfolding s1(5) by (cases "w = v"; simp)+
  have "\<forall>w\<in>set vids. 0 \<le> w \<and> nat w < sm_bar st1"
    using Cons.prems(2) by (simp add: same_simD(1) [OF s1(3)])
  moreover have "\<forall>w<nb. cnt * int (count_list vids (int w)) \<le> prod_count st1 w"
  proof (intro allI impI)
    fix w assume "w < nb"
    then have "cnt * int (count_list (x # vids) (int w)) \<le> prod_count st w" using Cons.prems(4) by blast
    then show "cnt * int (count_list vids (int w)) \<le> prod_count st1 w" unfolding bars by (auto simp: x algebra_simps)
  qed
  ultimately obtain u2 st2 where s2: "res_until (produce_at cnt) vids (u1, st1) = Inr (None, u2, st2)" "sim_core nb N st2"
    "same_sim st1 st2" "same_user u1 u2"
    "\<forall>w<nb. cons_count st2 w = cons_count st1 w \<and> prod_count st2 w = prod_count st1 w - cnt * int (count_list vids (int w)) \<and>
      real_id st2 w = real_id st1 w"
    using Cons.IH [OF s1(2) _ Cons.prems(3), of u1] by blast
  have "\<forall>w<nb. cons_count st2 w = cons_count st w \<and> prod_count st2 w = prod_count st w - cnt * int (count_list (x # vids) (int w)) \<and>
      real_id st2 w = real_id st w"
    using s2(5) unfolding bars by (auto simp: x algebra_simps)
  then show ?case using s1(1) s2(1,2) same_sim_trans [OF s1(3) s2(3)] same_user_trans [OF s1(4) s2(4)]
    by (intro exI [of _ u2] exI [of _ st2]) simp
qed

lemma consume_until:
  assumes view: "range_view nb d rng vids" and d: "bs_vdt (snd x) = d"
  shows "res_until (consume_barrier cnt rng) [0..<length vids] x = res_until (consume_at cnt) vids x"
proof -
  have "res_until (consume_barrier cnt rng) [0..<length vids] x = res_until (consume_at cnt) (drop 0 vids) x"
  proof (rule res_until_list [where I = "\<lambda>x. bs_vdt (snd x) = d"])
    show "consume_barrier cnt rng i y = consume_at cnt (vids ! i) y" if "i < length vids" "bs_vdt (snd y) = d" for i y
      using range_view_id [OF view that(1)] that(2) by (cases y) (simp add: consume_barrier_def consume_at_def)
    show "bs_vdt (snd y') = d" if "bs_vdt (snd y) = d" "consume_at cnt v y = Inr (r, y')" for v y r y'
      using that by (cases y; cases y') (auto simp: consume_at_def Let_def res_bind_eq_Inr map_sum_eq_Inr split: if_splits)
  qed (use d in auto)
  then show ?thesis by simp
qed

lemma produce_until:
  assumes view: "range_view nb d rng vids" and d: "bs_vdt (snd x) = d"
  shows "res_until (produce_barrier cnt rng) [0..<length vids] x = res_until (produce_at cnt) vids x"
proof -
  have "res_until (produce_barrier cnt rng) [0..<length vids] x = res_until (produce_at cnt) (drop 0 vids) x"
  proof (rule res_until_list [where I = "\<lambda>x. bs_vdt (snd x) = d"])
    show "produce_barrier cnt rng i y = produce_at cnt (vids ! i) y" if "i < length vids" "bs_vdt (snd y) = d" for i y
      using range_view_id [OF view that(1)] that(2) by (cases y) (simp add: produce_barrier_def produce_at_def)
    show "bs_vdt (snd y') = d" if "bs_vdt (snd y) = d" "produce_at cnt v y = Inr (r, y')" for v y r y'
      using that by (cases y; cases y') (auto simp: produce_at_def Let_def res_bind_eq_Inr split: if_splits)
  qed (use d in auto)
  then show ?thesis by simp
qed

text \<open>
  A task is skipped, with nothing changed, exactly when a barrier it uses is not mapped yet or one it waits for is not
  produced; otherwise it takes its variants off the counts of its barriers.
\<close>

definition task_blocked :: "sim_run \<Rightarrow> task_view \<Rightarrow> bool" where
  "task_blocked st t \<longleftrightarrow> blocked_waits st (tv_waits t) \<or> blocked_posts st (tv_posts t)"

lemma processSim_spec:
  assumes core: "sim_core nb N st" and views: "range_view nb (bs_vdt st) (fst dep) (tv_waits t)" "range_view nb (bs_vdt st) (snd dep) (tv_posts t)"
    and cnt: "1 \<le> tv_count t"
    and counts: "\<forall>v<nb. tv_count t * int (count_list (tv_waits t) (int v)) \<le> cons_count st v \<and>
      tv_count t * int (count_list (tv_posts t) (int v)) \<le> prod_count st v"
  shows "task_blocked st t \<Longrightarrow> processSim dep u (tv_count t) st = Inr (Skip, u, st)"
    "\<not> task_blocked st t \<Longrightarrow> \<exists>u' st'. processSim dep u (tv_count t) st = Inr (Success, u', st') \<and> sim_core nb N st' \<and> same_sim st st' \<and>
      same_user u u' \<and> (\<forall>v<nb. cons_count st' v = cons_count st v - tv_count t * int (count_list (tv_waits t) (int v)) \<and>
        prod_count st' v = prod_count st v - tv_count t * int (count_list (tv_posts t) (int v)) \<and> real_id st' v = real_id st v)"
proof -
  have len: "nat (snd (fst dep)) = length (tv_waits t)" "nat (snd (snd dep)) = length (tv_posts t)"
    using views by (auto simp: range_view_def)
  note loops = wait_loop [OF core views(1)] update_loop [OF core views(2)]
  show "processSim dep u (tv_count t) st = Inr (Skip, u, st)" if "task_blocked st t"
    using that loops by (cases "blocked_waits st (tv_waits t)") (simp_all add: processSim_def len task_blocked_def)
  assume free: "\<not> task_blocked st t"
  have waits: "\<forall>v\<in>set (tv_waits t). 0 \<le> v \<and> nat v < sm_bar st \<and> prod_count st (nat v) = 0"
  proof
    fix v assume v: "v \<in> set (tv_waits t)"
    have "0 \<le> prod_count st (nat v)" using core range_view_in(2) [OF views(1) v] by (simp add: sim_core_def)
    then show "0 \<le> v \<and> nat v < sm_bar st \<and> prod_count st (nat v) = 0"
      using free v range_view_in(1) [OF views(1) v] by (auto simp: task_blocked_def blocked_waits_def)
  qed
  have "\<forall>v<nb. tv_count t * int (count_list (tv_waits t) (int v)) \<le> cons_count st v" using counts by blast
  from consume_loop [OF core waits cnt this, of "u\<lparr>bu_startAfter := 0\<rparr>"] obtain u1 st1 where s1:
    "res_until (consume_at (tv_count t)) (tv_waits t) (u\<lparr>bu_startAfter := 0\<rparr>, st) = Inr (None, u1, st1)" "sim_core nb N st1"
    "same_sim st st1" "same_user (u\<lparr>bu_startAfter := 0\<rparr>) u1"
    "\<forall>v<nb. prod_count st1 v = prod_count st v \<and> cons_count st1 v = cons_count st v - tv_count t * int (count_list (tv_waits t) (int v)) \<and>
      real_id st1 v = real_id st v" by blast
  let ?u1 = "u1\<lparr>bu_cleanAfter := int (length (bs_barriers st1))\<rparr>"
  have "\<forall>v\<in>set (tv_posts t). 0 \<le> v \<and> nat v < sm_bar st1"
    using free range_view_in(1) [OF views(2)] by (auto simp: task_blocked_def blocked_posts_def same_simD(1) [OF s1(3)])
  moreover have "\<forall>v<nb. tv_count t * int (count_list (tv_posts t) (int v)) \<le> prod_count st1 v" using counts s1(5) by simp
  ultimately obtain u2 st2 where s2:
    "res_until (produce_at (tv_count t)) (tv_posts t) (?u1, st1) = Inr (None, u2, st2)" "sim_core nb N st2" "same_sim st1 st2" "same_user ?u1 u2"
    "\<forall>v<nb. cons_count st2 v = cons_count st1 v \<and> prod_count st2 v = prod_count st1 v - tv_count t * int (count_list (tv_posts t) (int v)) \<and>
      real_id st2 v = real_id st1 v" using produce_loop [OF s1(2) _ cnt, of "tv_posts t" ?u1] by blast
  have "processSim dep u (tv_count t) st = Inr (Success, u2, st2)"
    using free loops consume_until [OF views(1), of "(u\<lparr>bu_startAfter := 0\<rparr>, st)"] s1(1)
      produce_until [OF views(2), of "(?u1, st1)"] s2(1) same_simD(2) [OF s1(3)]
    by (simp add: processSim_def len task_blocked_def)
  moreover have "same_user u u2" using s1(4) s2(4) by (simp add: same_user_def)
  ultimately show "\<exists>u' st'. processSim dep u (tv_count t) st = Inr (Success, u', st') \<and> sim_core nb N st' \<and> same_sim st st' \<and>
      same_user u u' \<and> (\<forall>v<nb. cons_count st' v = cons_count st v - tv_count t * int (count_list (tv_waits t) (int v)) \<and>
        prod_count st' v = prod_count st v - tv_count t * int (count_list (tv_posts t) (int v)) \<and> real_id st' v = real_id st v)"
    using s2(2,5) s1(5) same_sim_trans [OF s1(3) s2(3)] by (intro exI [of _ u2] exI [of _ st2]) simp
qed

section \<open>The queues of tasks\<close>

text \<open>The positions of the tasks still to run, and what they contribute to a count of a barrier.\<close>

definition todo :: "(sim_queue \<Rightarrow> nat list) \<Rightarrow> sim_run \<Rightarrow> nat set" where
  "todo pos st = (\<Union>q\<in>set (sim_queues st). set (drop (queue_index q st) (pos q)))"

definition load :: "(task_view \<Rightarrow> int list) \<Rightarrow> (nat \<Rightarrow> task_view) \<Rightarrow> nat set \<Rightarrow> nat \<Rightarrow> int" where
  "load sel V T v = (\<Sum>t\<in>T. tv_count (V t) * int (count_list (sel (V t)) (int v)))"

definition no_consumer :: "(nat \<Rightarrow> task_view) \<Rightarrow> nat set" where
  "no_consumer V = {v. \<forall>t. int v \<notin> set (tv_waits (V t))}"

definition sim_inv :: "nat \<Rightarrow> (nat \<Rightarrow> task_view) \<Rightarrow> (sim_queue \<Rightarrow> nat list) \<Rightarrow> sim_run \<Rightarrow> bool" where
  "sim_inv nb V pos st \<longleftrightarrow> sim_static nb V pos st \<and> sim_core nb (no_consumer V) st \<and>
     (\<forall>q\<in>set (sim_queues st). queue_index q st \<le> length (pos q) \<and>
       (\<forall>k<queue_index q st. \<forall>v\<in>set (tv_waits (V (pos q ! k)) @ tv_posts (V (pos q ! k))). nat v < sm_bar st)) \<and>
     (\<forall>v<nb. cons_count st v = load tv_waits V (todo pos st) v \<and> prod_count st v = load tv_posts V (todo pos st) v)"

lemma finite_todo [simp]: "finite (todo pos st)"
  by (simp add: todo_def)

lemma load_remove:
  "finite T \<Longrightarrow> t \<in> T \<Longrightarrow> load sel V (T - {t}) v = load sel V T v - tv_count (V t) * int (count_list (sel (V t)) (int v))"
  by (simp add: load_def sum_diff1)

lemma queue_in: "DmaQueue e \<in> set (sim_queues st) \<longleftrightarrow> e < length (bs_dmaTasks st)" "DpuQueue \<in> set (sim_queues st)"
    "ActQueue \<in> set (sim_queues st)" "M2iQueue \<in> set (sim_queues st)"
  by (auto simp: sim_queues_def)

lemma set_queue_user_simps:
  assumes "q \<in> set (sim_queues st)" "q' \<in> set (sim_queues st)"
  shows "queue_users q' (set_queue_user q k u st) = (if q' = q then (queue_users q st)[k := u] else queue_users q' st)"
    "queue_index q' (set_queue_user q k u st) = queue_index q' st"
proof -
  show "queue_users q' (set_queue_user q k u st) = (if q' = q then (queue_users q st)[k := u] else queue_users q' st)"
    by (cases q; cases q') (use assms in \<open>simp_all add: queue_in\<close>)
  show "queue_index q' (set_queue_user q k u st) = queue_index q' st" by (cases q; cases q') simp_all
qed

lemma set_queue_user_frame:
  "sim_queues (set_queue_user q k u st) = sim_queues st \<and>
   bs_vdt (set_queue_user q k u st) = bs_vdt st \<and>
   bs_barriers (set_queue_user q k u st) = bs_barriers st \<and>
   sm_bar (set_queue_user q k u st) = sm_bar st \<and>
   sm_toVirtual (set_queue_user q k u st) = sm_toVirtual st \<and>
   sm_nextReal (set_queue_user q k u st) = sm_nextReal st \<and>
   sm_prevVid (set_queue_user q k u st) = sm_prevVid st \<and>
   bs_isDynamic (set_queue_user q k u st) = bs_isDynamic st \<and>
   bs_pidToVid (set_queue_user q k u st) = bs_pidToVid st \<and>
   length (sm_dma (set_queue_user q k u st)) = length (sm_dma st) \<and>
   length (bs_dmaTasks (set_queue_user q k u st)) = length (bs_dmaTasks st) \<and>
   bs_wlmPid (set_queue_user q k u st) = bs_wlmPid st \<and>
   bs_wlm (set_queue_user q k u st) = bs_wlm st"
  by (cases q) (simp_all add: sim_queues_def)

lemma set_queue_user_same: "q \<in> set (sim_queues st) \<Longrightarrow> set_queue_user q k (queue_users q st ! k) st = st"
  by (cases q) (simp_all add: queue_in)

lemma advance_queue_simps:
  assumes "q \<in> set (sim_queues st)" "q' \<in> set (sim_queues st)" "length (sm_dma st) = length (bs_dmaTasks st)"
  shows "queue_index q' (advance_queue q st) = (if q' = q then Suc (queue_index q st) else queue_index q' st)"
    "queue_users q' (advance_queue q st) = queue_users q' st"
proof -
  show "queue_index q' (advance_queue q st) = (if q' = q then Suc (queue_index q st) else queue_index q' st)"
    by (cases q; cases q') (use assms in \<open>simp_all add: queue_in\<close>)
  show "queue_users q' (advance_queue q st) = queue_users q' st" by (cases q; cases q') simp_all
qed

lemma advance_queue_frame:
  "sim_queues (advance_queue q st) = sim_queues st \<and>
   bs_vdt (advance_queue q st) = bs_vdt st \<and>
   bs_barriers (advance_queue q st) = bs_barriers st \<and>
   sm_bar (advance_queue q st) = sm_bar st \<and>
   sm_toVirtual (advance_queue q st) = sm_toVirtual st \<and>
   sm_nextReal (advance_queue q st) = sm_nextReal st \<and>
   sm_prevVid (advance_queue q st) = sm_prevVid st \<and>
   bs_isDynamic (advance_queue q st) = bs_isDynamic st \<and>
   bs_pidToVid (advance_queue q st) = bs_pidToVid st \<and>
   length (sm_dma (advance_queue q st)) = length (sm_dma st) \<and>
   bs_dmaTasks (advance_queue q st) = bs_dmaTasks st \<and>
   bs_wlmPid (advance_queue q st) = bs_wlmPid st \<and>
   bs_wlm (advance_queue q st) = bs_wlm st"
  by (cases q) (simp_all add: sim_queues_def)

lemma progressed_simps:
  "queue_index q (st\<lparr>sm_progressed := b\<rparr>) = queue_index q st" "queue_users q (st\<lparr>sm_progressed := b\<rparr>) = queue_users q st"
  "sim_queues (st\<lparr>sm_progressed := b\<rparr>) = sim_queues st" "sim_core nb (no_consumer V) (st\<lparr>sm_progressed := b\<rparr>) = sim_core nb (no_consumer V) st"
  by (cases q; simp add: sim_queues_def sim_core_def)+

text \<open>The first task of a queue leaves it when it is not blocked.\<close>

definition head_of :: "(sim_queue \<Rightarrow> nat list) \<Rightarrow> sim_queue \<Rightarrow> sim_run \<Rightarrow> nat" where
  "head_of pos q st = pos q ! queue_index q st"

lemma todo_head:
  assumes inv: "sim_inv nb V pos st" and q: "q \<in> set (sim_queues st)" "queue_index q st < length (pos q)"
    and same: "sim_queues st' = sim_queues st"
    and idx: "\<And>q'. q' \<in> set (sim_queues st) \<Longrightarrow> queue_index q' st' = (if q' = q then Suc (queue_index q st) else queue_index q' st)"
  shows "head_of pos q st \<in> todo pos st" "todo pos st' = todo pos st - {head_of pos q st}"
proof -
  let ?t = "head_of pos q st"
  have drop: "drop (queue_index q st) (pos q) = ?t # drop (Suc (queue_index q st)) (pos q)"
    using q(2) by (simp add: head_of_def Cons_nth_drop_Suc)
  then show "?t \<in> todo pos st" using q(1) by (auto simp: todo_def intro!: bexI [of _ q])
  have dist: "distinct (pos q)" and disj: "\<And>q'. q' \<in> set (sim_queues st) \<Longrightarrow> q' \<noteq> q \<Longrightarrow> set (pos q') \<inter> set (pos q) = {}"
    using inv q(1) by (auto simp: sim_inv_def sim_static_def)
  have "distinct (drop (queue_index q st) (pos q))" using dist by simp
  then have own: "?t \<notin> set (drop (Suc (queue_index q st)) (pos q))" by (simp add: drop)
  have others: "?t \<notin> set (drop (queue_index q' st) (pos q'))" if "q' \<in> set (sim_queues st)" "q' \<noteq> q" for q'
    using disj [OF that] q(2) set_drop_subset [of "queue_index q' st" "pos q'"] nth_mem [of "queue_index q st" "pos q"]
    by (auto simp: head_of_def)
  have eq: "set (drop (queue_index q' st') (pos q')) = set (drop (queue_index q' st) (pos q')) - {?t}"
    if "q' \<in> set (sim_queues st)" for q'
  proof (cases "q' = q")
    case True
    then show ?thesis using idx [OF q(1)] own drop by simp
  next
    case False
    then show ?thesis using idx [OF that] others [OF that False] by simp
  qed
  show "todo pos st' = todo pos st - {?t}" unfolding todo_def same using eq by auto
qed

lemma load_bound:
  assumes "\<And>t. t \<in> T \<Longrightarrow> 0 \<le> tv_count (V t)" "finite T" "t \<in> T"
  shows "tv_count (V t) * int (count_list (sel (V t)) (int v)) \<le> load sel V T v"
proof -
  have "0 \<le> load sel V (T - {t}) v" unfolding load_def using assms(1) by (intro sum_nonneg) simp
  then show ?thesis using load_remove [OF assms(2,3), of sel V v] by simp
qed

lemma todo_positive:
  assumes "sim_inv nb V pos st" "t \<in> todo pos st"
  shows "1 \<le> tv_count (V t)"
proof -
  obtain q where q: "q \<in> set (sim_queues st)" "t \<in> set (pos q)" using assms(2) by (auto simp: todo_def dest: in_set_dropD)
  then obtain k where "k < length (pos q)" "t = pos q ! k" by (auto simp: in_set_conv_nth)
  then have "user_view nb (bs_vdt st) (queue_users q st ! k) (V t)" using assms(1) q(1) by (simp add: sim_inv_def sim_static_def)
  then show ?thesis by (simp add: user_view_def)
qed

lemma process_task_spec:
  assumes inv: "sim_inv nb V pos st" and q: "q \<in> set (sim_queues st)" "queue_index q st < length (pos q)"
  defines "t \<equiv> head_of pos q st"
  shows "task_blocked st (V t) \<Longrightarrow> process_task q (queue_index q st) st = Inr (Some Skip, st)"
    "\<not> task_blocked st (V t) \<Longrightarrow> \<exists>st'. process_task q (queue_index q st) st = Inr (None, st') \<and> sim_inv nb V pos st' \<and>
      sm_progressed st' \<and> sm_bar st' = sm_bar st \<and> sim_queues st' = sim_queues st \<and> bs_wlmPid st' = bs_wlmPid st \<and>
      (\<forall>q'\<in>set (sim_queues st). queue_index q' st' = (if q' = q then Suc (queue_index q st) else queue_index q' st))"
proof -
  let ?k = "queue_index q st"
  let ?u = "queue_users q st ! ?k"
  have stat: "sim_static nb V pos st" and core: "sim_core nb (no_consumer V) st" using inv by (simp_all add: sim_inv_def)
  have "user_view nb (bs_vdt st) ?u (V t)" using stat q by (auto simp: sim_static_def t_def head_of_def)
  then obtain dep where u: "bu_count ?u = tv_count (V t)" "1 \<le> tv_count (V t)" "vd_dep (bs_vdt st) (bu_virtualDep ?u) = Inr dep"
    "range_view nb (bs_vdt st) (fst dep) (tv_waits (V t))" "range_view nb (bs_vdt st) (snd dep) (tv_posts (V t))"
    by (auto simp: user_view_def)
  have t: "t \<in> todo pos st" unfolding t_def
    using todo_head(1) [OF inv q, of "advance_queue q st"] advance_queue_simps(1) [OF q(1)] stat
    by (simp add: advance_queue_frame sim_static_def)
  have pos': "0 \<le> tv_count (V t')" if "t' \<in> todo pos st" for t' using todo_positive [OF inv that] by simp
  have counts: "\<forall>v<nb. tv_count (V t) * int (count_list (tv_waits (V t)) (int v)) \<le> cons_count st v \<and>
      tv_count (V t) * int (count_list (tv_posts (V t)) (int v)) \<le> prod_count st v"
    using inv load_bound [where T = "todo pos st" and V = V and t = t, OF pos' finite_todo t] by (simp add: sim_inv_def)
  note spec = processSim_spec [OF core u(4,5,2) counts, of ?u]
  show "process_task q ?k st = Inr (Some Skip, st)" if "task_blocked st (V t)"
    using spec(1) [OF that] u(1,3) set_queue_user_same [OF q(1)] by (simp add: process_task_def Let_def)
  assume free: "\<not> task_blocked st (V t)"
  from spec(2) [OF free] obtain u1 st1 where s1: "processSim dep ?u (tv_count (V t)) st = Inr (Success, u1, st1)" "sim_core nb (no_consumer V) st1"
    "same_sim st st1" "same_user ?u u1"
    "\<forall>v<nb. cons_count st1 v = cons_count st v - tv_count (V t) * int (count_list (tv_waits (V t)) (int v)) \<and>
        prod_count st1 v = prod_count st v - tv_count (V t) * int (count_list (tv_posts (V t)) (int v)) \<and> real_id st1 v = real_id st v" by blast
  note same = same_simD [OF s1(3)]
  let ?st2 = "set_queue_user q ?k u1 st1"
  let ?st' = "(advance_queue q ?st2)\<lparr>sm_progressed := True\<rparr>"
  have run: "process_task q ?k st = Inr (None, ?st')" using s1(1) u(1,3) by (simp add: process_task_def Let_def)
  have q1: "q \<in> set (sim_queues st1)" and q2: "q \<in> set (sim_queues ?st2)" using q(1) by (simp_all add: same(6) set_queue_user_frame)
  have dma: "length (sm_dma ?st2) = length (bs_dmaTasks ?st2)" using stat by (simp add: set_queue_user_frame same sim_static_def)
  have queues: "sim_queues ?st' = sim_queues st" by (simp add: progressed_simps advance_queue_frame set_queue_user_frame same)
  have idx: "queue_index q' ?st' = (if q' = q then Suc ?k else queue_index q' st)" if "q' \<in> set (sim_queues st)" for q'
  proof -
    have q': "q' \<in> set (sim_queues st1)" "q' \<in> set (sim_queues ?st2)" using that by (simp_all add: same(6) set_queue_user_frame)
    show ?thesis using advance_queue_simps(1) [OF q2 q'(2) dma] set_queue_user_simps(2) [OF q1 q'(1)] set_queue_user_simps(2) [OF q1 q1]
      by (simp add: progressed_simps same(5))
  qed
  have users: "queue_users q' ?st' = (if q' = q then (queue_users q st)[?k := u1] else queue_users q' st)" if "q' \<in> set (sim_queues st)" for q'
  proof -
    have q': "q' \<in> set (sim_queues st1)" "q' \<in> set (sim_queues ?st2)" using that by (simp_all add: same(6) set_queue_user_frame)
    show ?thesis using advance_queue_simps(2) [OF q2 q'(2) dma] set_queue_user_simps(1) [OF q1 q'(1)]
      by (simp add: progressed_simps same(4))
  qed
  have frame: "bs_vdt ?st' = bs_vdt st" "bs_barriers ?st' = bs_barriers st1" "length (sm_dma ?st') = length (sm_dma st)"
    "length (bs_dmaTasks ?st') = length (bs_dmaTasks st)" "sm_bar ?st' = sm_bar st" "bs_wlmPid ?st' = bs_wlmPid st"
    by (simp_all add: advance_queue_frame set_queue_user_frame same)
  have core': "sim_core nb (no_consumer V) ?st'"
    using s1(2) by (simp add: progressed_simps sim_core_def advance_queue_frame set_queue_user_frame)
  have view: "user_view nb (bs_vdt st) u1 (V t)" using \<open>user_view nb (bs_vdt st) ?u (V t)\<close> s1(4) by (simp add: user_view_def same_user_def)
  have stat': "sim_static nb V pos ?st'"
  proof -
    have "length (queue_users q' ?st') = length (pos q') \<and> distinct (pos q') \<and>
        (\<forall>k<length (pos q'). user_view nb (bs_vdt st) (queue_users q' ?st' ! k) (V (pos q' ! k)))"
      if "q' \<in> set (sim_queues st)" for q'
      using stat that view q(2) unfolding users [OF that] sim_static_def by (auto simp: nth_list_update t_def head_of_def)
    then show ?thesis using stat core' unfolding sim_static_def queues frame by (simp add: sim_core_def frame)
  qed
  have rest: "todo pos ?st' = todo pos st - {t}" unfolding t_def by (rule todo_head(2) [OF inv q queues idx])
  have "\<forall>v<nb. cons_count ?st' v = load tv_waits V (todo pos ?st') v \<and> prod_count ?st' v = load tv_posts V (todo pos ?st') v"
    unfolding frame rest using s1(5) inv load_remove [OF finite_todo t] by (simp add: sim_inv_def)
  moreover have "\<forall>q'\<in>set (sim_queues st). queue_index q' ?st' \<le> length (pos q') \<and>
      (\<forall>k<queue_index q' ?st'. \<forall>v\<in>set (tv_waits (V (pos q' ! k)) @ tv_posts (V (pos q' ! k))). nat v < sm_bar ?st')"
  proof (intro ballI conjI allI impI)
    fix q' assume q': "q' \<in> set (sim_queues st)"
    have old: "queue_index q' st \<le> length (pos q')"
      "\<And>k. k < queue_index q' st \<Longrightarrow> \<forall>v\<in>set (tv_waits (V (pos q' ! k)) @ tv_posts (V (pos q' ! k))). nat v < sm_bar st"
      using inv q' by (simp_all add: sim_inv_def)
    show "queue_index q' ?st' \<le> length (pos q')" using old(1) q(2) idx [OF q'] by simp
    fix k v assume k: "k < queue_index q' ?st'" and v: "v \<in> set (tv_waits (V (pos q' ! k)) @ tv_posts (V (pos q' ! k)))"
    show "nat v < sm_bar ?st'"
    proof (cases "q' = q \<and> k = ?k")
      case True
      then have "v \<in> set (tv_waits (V t) @ tv_posts (V t))" using v by (simp add: t_def head_of_def)
      then show ?thesis using free unfolding frame by (auto simp: task_blocked_def blocked_waits_def blocked_posts_def)
    next
      case False
      then have "k < queue_index q' st" using k unfolding idx [OF q'] by (auto split: if_splits)
      then show ?thesis using old(2) v unfolding frame by blast
    qed
  qed
  ultimately have "sim_inv nb V pos ?st'" using stat' core' unfolding sim_inv_def queues by blast
  then show "\<exists>st'. process_task q ?k st = Inr (None, st') \<and> sim_inv nb V pos st' \<and>
      sm_progressed st' \<and> sm_bar st' = sm_bar st \<and> sim_queues st' = sim_queues st \<and> bs_wlmPid st' = bs_wlmPid st \<and>
      (\<forall>q'\<in>set (sim_queues st). queue_index q' st' = (if q' = q then Suc ?k else queue_index q' st))"
    using run idx frame queues by (intro exI [of _ ?st']) simp
qed

section \<open>Steps of the simulation\<close>

text \<open>
  The simulation as a transition system: a barrier is mapped, or none of the free physical barriers may be reused for
  it; the first task of some queue runs, in any order; and the mark of progress is taken away for the next round.
\<close>

inductive sim_step :: "sim_run \<Rightarrow> sim_run \<Rightarrow> bool" where
  step_map: "sm_bar st < length (bs_barriers st) \<Longrightarrow> map_barrier (sm_bar st) st = Inr (r, st') \<Longrightarrow> sim_step st st'"
| step_task: "q \<in> set (sim_queues st) \<Longrightarrow> queue_index q st < length (queue_users q st) \<Longrightarrow>
    process_task q (queue_index q st) st = Inr (None, st') \<Longrightarrow> sim_step st st'"
| step_round: "sim_step st (st\<lparr>sm_progressed := False\<rparr>)"

inductive_cases sim_stepE: "sim_step st st'"

definition remaining :: "nat \<Rightarrow> (sim_queue \<Rightarrow> nat list) \<Rightarrow> sim_run \<Rightarrow> nat" where
  "remaining nb pos st = (nb - sm_bar st) + card (todo pos st)"

text \<open>Either nothing changed, or there was progress.\<close>

definition moved :: "nat \<Rightarrow> (sim_queue \<Rightarrow> nat list) \<Rightarrow> sim_run \<Rightarrow> sim_run \<Rightarrow> bool" where
  "moved nb pos st st' \<longleftrightarrow> st' = st \<or> sm_progressed st' \<and> remaining nb pos st' < remaining nb pos st"

lemma moved_trans: "moved nb pos s t \<Longrightarrow> moved nb pos t u \<Longrightarrow> moved nb pos s u"
  by (auto simp: moved_def)

text \<open>What a run of the queues keeps.\<close>

definition ran :: "nat \<Rightarrow> (nat \<Rightarrow> task_view) \<Rightarrow> (sim_queue \<Rightarrow> nat list) \<Rightarrow> sim_run \<Rightarrow> sim_run \<Rightarrow> bool" where
  "ran nb V pos st st' \<longleftrightarrow> sim_inv nb V pos st' \<and> moved nb pos st st' \<and> sim_step\<^sup>*\<^sup>* st st' \<and>
     sim_queues st' = sim_queues st \<and> bs_wlmPid st' = bs_wlmPid st"

lemma ran_refl: "sim_inv nb V pos st \<Longrightarrow> ran nb V pos st st"
  by (simp add: ran_def moved_def)

lemma ran_trans: "ran nb V pos s t \<Longrightarrow> ran nb V pos t u \<Longrightarrow> ran nb V pos s u"
  by (auto simp: ran_def intro: moved_trans rtranclp_trans)

definition settled :: "(nat \<Rightarrow> task_view) \<Rightarrow> (sim_queue \<Rightarrow> nat list) \<Rightarrow> sim_queue \<Rightarrow> sim_run \<Rightarrow> bool" where
  "settled V pos q st \<longleftrightarrow> queue_index q st = length (pos q) \<or> task_blocked st (V (head_of pos q st))"

lemma process_task_ran:
  assumes inv: "sim_inv nb V pos st" and q: "q \<in> set (sim_queues st)" "queue_index q st < length (pos q)"
    and free: "\<not> task_blocked st (V (head_of pos q st))"
  shows "\<exists>st'. process_task q (queue_index q st) st = Inr (None, st') \<and> ran nb V pos st st' \<and> st' \<noteq> st \<and> queue_index q st' = Suc (queue_index q st)"
proof -
  obtain st' where s: "process_task q (queue_index q st) st = Inr (None, st')" "sim_inv nb V pos st'" "sm_progressed st'"
    "sm_bar st' = sm_bar st" "sim_queues st' = sim_queues st" "bs_wlmPid st' = bs_wlmPid st"
    "\<forall>q'\<in>set (sim_queues st). queue_index q' st' = (if q' = q then Suc (queue_index q st) else queue_index q' st)"
    using process_task_spec(2) [OF inv q free] by blast
  have idx: "\<And>q'. q' \<in> set (sim_queues st) \<Longrightarrow> queue_index q' st' = (if q' = q then Suc (queue_index q st) else queue_index q' st)"
    using s(7) by blast
  have "card (todo pos st') < card (todo pos st)"
    using todo_head [OF inv q s(5) idx] by (metis card_Diff1_less finite_todo)
  then have "remaining nb pos st' < remaining nb pos st" by (simp add: remaining_def s(4))
  moreover have "length (queue_users q st) = length (pos q)" using inv q(1) by (simp add: sim_inv_def sim_static_def)
  then have "sim_step st st'" using q s(1) by (intro step_task) simp_all
  ultimately show ?thesis using s idx [OF q(1)] by (auto simp: ran_def moved_def)
qed

lemma run_queue_spec:
  "sim_inv nb V pos st \<Longrightarrow> q \<in> set (sim_queues st) \<Longrightarrow>
    \<exists>r st'. run_queue q st = Inr (r, st') \<and> r \<noteq> Some Fail \<and> ran nb V pos st st' \<and> (st' = st \<longrightarrow> settled V pos q st)"
proof (induction "length (pos q) - queue_index q st" arbitrary: st)
  case 0
  have idx: "queue_index q st = length (pos q)" "length (queue_users q st) = length (pos q)"
    using 0 by (auto simp: sim_inv_def sim_static_def)
  then show ?case using ran_refl [OF 0(2)] by (simp add: run_queue_def settled_def)
next
  case (Suc m)
  have len: "length (queue_users q st) = length (pos q)" and lt: "queue_index q st < length (pos q)"
    using Suc by (auto simp: sim_inv_def sim_static_def)
  have first: "run_queue q st = res_bind (process_task q (queue_index q st) st) (\<lambda>(r, st1). case r of
      None \<Rightarrow> res_until (process_task q) [Suc (queue_index q st)..<length (pos q)] st1 | Some _ \<Rightarrow> Inr (r, st1))"
    by (simp add: run_queue_def len upt_conv_Cons lt)
  show ?case
  proof (cases "task_blocked st (V (head_of pos q st))")
    case True
    then show ?thesis using first process_task_spec(1) [OF Suc.prems lt] ran_refl [OF Suc.prems(1)] by (simp add: settled_def)
  next
    case False
    obtain st1 where s1: "process_task q (queue_index q st) st = Inr (None, st1)" "ran nb V pos st st1" "st1 \<noteq> st"
      "queue_index q st1 = Suc (queue_index q st)" using process_task_ran [OF Suc.prems lt False] by blast
    have inv1: "sim_inv nb V pos st1" and q1: "q \<in> set (sim_queues st1)" using s1(2) Suc.prems(2) by (simp_all add: ran_def)
    have "m = length (pos q) - queue_index q st1" using Suc.hyps(2) s1(4) by simp
    from Suc.hyps(1) [OF this inv1 q1] obtain r st' where s2: "run_queue q st1 = Inr (r, st')" "r \<noteq> Some Fail" "ran nb V pos st1 st'" by blast
    have "length (queue_users q st1) = length (pos q)" using inv1 q1 by (simp add: sim_inv_def sim_static_def)
    then have "run_queue q st = Inr (r, st')" using first s1(1,4) s2(1) by (simp add: run_queue_def)
    moreover have "st' \<noteq> st"
    proof
      assume "st' = st"
      then have "remaining nb pos st \<le> remaining nb pos st1" using s2(3) by (auto simp: ran_def moved_def)
      then show False using s1(2,3) by (auto simp: ran_def moved_def)
    qed
    ultimately show ?thesis using s2(2) ran_trans [OF s1(2) s2(3)] by blast
  qed
qed

lemma moved_back: "moved nb pos s t \<Longrightarrow> moved nb pos t s \<Longrightarrow> t = s"
  by (auto simp: moved_def)

lemma run_queues_loop:
  "sim_inv nb V pos st \<Longrightarrow> set qs \<subseteq> set (sim_queues st) \<Longrightarrow>
    \<exists>st'. res_until (\<lambda>q st. map_sum id (\<lambda>(r, st). (if r = Some Fail then Some Fail else None, st)) (run_queue q st)) qs st = Inr (None, st') \<and>
      ran nb V pos st st' \<and> (st' = st \<longrightarrow> (\<forall>q\<in>set qs. settled V pos q st))"
proof (induction qs arbitrary: st)
  case Nil
  then show ?case using ran_refl by auto
next
  case (Cons q qs)
  obtain r st1 where s1: "run_queue q st = Inr (r, st1)" "r \<noteq> Some Fail" "ran nb V pos st st1" "st1 = st \<longrightarrow> settled V pos q st"
    using run_queue_spec [OF Cons.prems(1), of q] Cons.prems(2) by auto
  have "sim_inv nb V pos st1" "set qs \<subseteq> set (sim_queues st1)" using s1(3) Cons.prems(2) by (auto simp: ran_def)
  from Cons.IH [OF this] obtain st2 where s2:
    "res_until (\<lambda>q st. map_sum id (\<lambda>(r, st). (if r = Some Fail then Some Fail else None, st)) (run_queue q st)) qs st1 = Inr (None, st2)"
    "ran nb V pos st1 st2" "st2 = st1 \<longrightarrow> (\<forall>q\<in>set qs. settled V pos q st1)" by blast
  have "moved nb pos st st1" "moved nb pos st1 st2" using s1(3) s2(2) by (simp_all add: ran_def)
  then have "st2 = st \<longrightarrow> st1 = st" using moved_back by metis
  then have "st2 = st \<longrightarrow> (\<forall>q'\<in>set (q # qs). settled V pos q' st)" using s1(4) s2(3) by (metis set_ConsD)
  moreover have "map_sum id (\<lambda>(r, st). (if r = Some Fail then Some Fail else None, st)) (run_queue q st) = Inr (None, st1)"
    using s1(1,2) by simp
  ultimately show ?case using s2(1) ran_trans [OF s1(3) s2(2)] by (intro exI [of _ st2]) (simp only: res_until.simps res_bind_simps split_conv option.case)
qed

lemma run_queues_spec:
  assumes "sim_inv nb V pos st"
  shows "\<exists>st'. run_queues st = Inr (None, st') \<and> ran nb V pos st st' \<and> (st' = st \<longrightarrow> (\<forall>q\<in>set (sim_queues st). settled V pos q st))"
  using run_queues_loop [OF assms subset_refl] by (simp add: run_queues_def)

section \<open>Mapping\<close>

text \<open>What does not depend on the ring and the restrictions on reuse.\<close>

lemma ring_frame:
  "queue_index q (st\<lparr>sm_nextReal := x, bs_wlm := h\<rparr>) = queue_index q st" "queue_users q (st\<lparr>sm_nextReal := x, bs_wlm := h\<rparr>) = queue_users q st"
  "sim_queues (st\<lparr>sm_nextReal := x, bs_wlm := h\<rparr>) = sim_queues st"
  by (cases q; simp add: sim_queues_def)+

definition ring_of :: "nat \<Rightarrow> int set \<Rightarrow> int ring_buffer \<Rightarrow> bool" where
  "ring_of n S q \<longleftrightarrow> ring_ok q \<and> ring_capacity q = n \<and> distinct (ring_contents q) \<and> set (ring_contents q) = S"

lemma ring_of_core: "sim_core nb (no_consumer V) st \<Longrightarrow> ring_of (length (sm_toVirtual st)) (free_pids (sm_toVirtual st)) (sm_nextReal st)"
  by (simp add: sim_core_def ring_of_def)

lemma ring_of_take:
  assumes "ring_of n S q" "ring_take q = Inr (r, q')"
  shows "r \<in> S" "ring_of n (S - {r}) q'"
proof -
  have "ring_contents q \<noteq> []"
  proof
    assume "ring_contents q = []"
    then have "\<not> rb_size q > 0" by simp
    then show False using assms(2) by (auto simp: ring_take_def ring_pop_def res_bind_eq_Inr)
  qed
  then obtain x xs where xs: "ring_contents q = x # xs" by (cases "ring_contents q") auto
  have "ring_ok q" using assms(1) by (simp add: ring_of_def)
  then obtain q1 where "ring_take q = Inr (x, q1)" "ring_ok q1" "ring_contents q1 = xs" "ring_capacity q1 = ring_capacity q"
    using ring_take_spec [OF _ xs] by blast
  then show "r \<in> S" "ring_of n (S - {r}) q'" using assms xs by (auto simp: ring_of_def)
qed

lemma ring_of_push:
  assumes "ring_of n (S - {r}) q" "ring_push r q = Inr q'" "r \<in> S" "finite S" "card S \<le> n"
  shows "ring_of n S q'"
proof -
  have "length (ring_contents q) = card (S - {r})" using assms(1) distinct_card [of "ring_contents q"] by (simp add: ring_of_def)
  also have "\<dots> < n" using assms(3,4,5) card_Diff1_less [OF assms(4,3)] by simp
  finally have room: "length (ring_contents q) < ring_capacity q" using assms(1) by (simp add: ring_of_def)
  have "ring_ok q" using assms(1) by (simp add: ring_of_def)
  then obtain q1 where "ring_push r q = Inr q1" "ring_ok q1" "ring_contents q1 = ring_contents q @ [r]" "ring_capacity q1 = ring_capacity q"
    using rq.push_law [OF _ room] by blast
  moreover have "q' = q1" using calculation(1) assms(2) by simp
  moreover have "insert r (S - {r}) = S" using assms(3) by blast
  ultimately show ?thesis using assms(1) by (simp add: ring_of_def)
qed

lemma free_pids_card: "finite (free_pids toV)" "card (free_pids toV) \<le> length toV"
proof -
  have "free_pids toV = int ` {p. p < length toV \<and> toV ! p = -1}" by (auto simp: free_pids_def)
  moreover have "card {p. p < length toV \<and> toV ! p = -1} \<le> card {..<length toV}" by (rule card_mono) auto
  ultimately show "finite (free_pids toV)" "card (free_pids toV) \<le> length toV" by (simp_all add: card_image)
qed

lemma find_pid_spec:
  "ring_of n S (sm_nextReal st) \<Longrightarrow> finite S \<Longrightarrow> card S \<le> n \<Longrightarrow> find_pid k st = Inr (real, st') \<Longrightarrow>
    \<exists>q h. st' = st\<lparr>sm_nextReal := q, bs_wlm := h\<rparr> \<and> (case real of None \<Rightarrow> ring_of n S q | Some r \<Rightarrow> r \<in> S \<and> ring_of n (S - {r}) q)"
proof (induction k arbitrary: st)
  case 0
  then show ?case by (intro exI [of _ "sm_nextReal st"] exI [of _ "bs_wlm st"]) auto
next
  case (Suc k)
  obtain r q where q: "ring_take (sm_nextReal st) = Inr (r, q)" using Suc.prems(4) by (auto simp: res_bind_eq_Inr)
  note ring = ring_of_take [OF Suc.prems(1) q]
  obtain v where v: "int_at (sm_prevVid st) r = Inr v" using Suc.prems(4) q by (auto simp: res_bind_eq_Inr)
  show ?case
  proof (cases "v \<ge> 0")
    case False
    then have "st' = st\<lparr>sm_nextReal := q, bs_wlm := bs_wlm st\<rparr>" "real = Some r" using Suc.prems(4) q v by auto
    then show ?thesis using ring by (intro exI [of _ q] exI [of _ "bs_wlm st"]) simp
  next
    case True
    then obtain h ok h' where h: "bs_wlm st = Some h" "canBarrierReusePidFromBarrier (sm_bar st) (nat v) h = Inr (ok, h')"
      using Suc.prems(4) q v by (auto simp: res_bind_eq_Inr Let_def split: option.splits)
    show ?thesis
    proof (cases ok)
      case okay: True
      then have "st' = st\<lparr>sm_nextReal := q, bs_wlm := Some h'\<rparr>" "real = Some r" using Suc.prems(4) q v h True by auto
      then show ?thesis using ring by auto
    next
      case notok: False
      then obtain q1 where q1: "ring_push r q = Inr q1" "find_pid k (st\<lparr>bs_wlm := Some h', sm_nextReal := q1\<rparr>) = Inr (real, st')"
        using Suc.prems(4) q v h True by (auto simp: res_bind_eq_Inr)
      have "ring_of n S q1" by (rule ring_of_push [OF ring(2) q1(1) ring(1) Suc.prems(2,3)])
      from Suc.IH [OF _ Suc.prems(2,3) q1(2)] this obtain q2 h2 where "st' = st\<lparr>bs_wlm := Some h', sm_nextReal := q1\<rparr>\<lparr>sm_nextReal := q2, bs_wlm := h2\<rparr>"
        "case real of None \<Rightarrow> ring_of n S q2 | Some r \<Rightarrow> r \<in> S \<and> ring_of n (S - {r}) q2" by auto
      then show ?thesis by (intro exI [of _ q2] exI [of _ h2]) simp
    qed
  qed
qed

text \<open>The state after a barrier got the physical barrier \<^verbatim>\<open>p\<close>, and \<^verbatim>\<open>q\<close> is left in the ring.\<close>

definition mapped_run :: "nat \<Rightarrow> int ring_buffer \<Rightarrow> wlm_handler option \<Rightarrow> sim_run \<Rightarrow> sim_run" where
  "mapped_run p q h st = (let v = sm_bar st in
     st\<lparr>bs_barriers := (bs_barriers st)[v := (bs_barriers st ! v)\<lparr>bc_realId := int p\<rparr>], sm_toVirtual := (sm_toVirtual st)[p := int v],
       sm_prevVid := (sm_prevVid st)[p := int v], sm_nextReal := q, bs_wlm := h, sm_bar := Suc v, sm_progressed := True\<rparr>)"

lemma unmapped_consumed:
  assumes inv: "sim_inv nb V pos st" and bar: "sm_bar st < nb"
  shows "sm_bar st \<in> no_consumer V \<or> 0 < cons_count st (sm_bar st)"
proof (rule disjCI)
  let ?v = "sm_bar st"
  assume "\<not> 0 < cons_count st ?v"
  show "?v \<in> no_consumer V"
  proof (rule ccontr)
    assume "?v \<notin> no_consumer V"
    then obtain t where t: "int ?v \<in> set (tv_waits (V t))" by (auto simp: no_consumer_def)
    then have ne: "tv_waits (V t) \<noteq> []" by auto
    have "\<forall>t. t \<notin> (\<Union>q\<in>set (sim_queues st). set (pos q)) \<longrightarrow> tv_waits (V t) = []"
      using inv unfolding sim_inv_def sim_static_def by (elim conjE)
    then obtain q where q: "q \<in> set (sim_queues st)" "t \<in> set (pos q)" using ne by blast
    then obtain k where k: "k < length (pos q)" "t = pos q ! k" by (auto simp: in_set_conv_nth)
    have "\<not> k < queue_index q st"
    proof
      assume "k < queue_index q st"
      then have "\<forall>v\<in>set (tv_waits (V t) @ tv_posts (V t)). nat v < ?v" using inv q(1) k(2) by (simp add: sim_inv_def)
      from bspec [OF this, of "int ?v"] t show False by simp
    qed
    then have "t \<in> set (drop (queue_index q st) (pos q))" using k nth_mem [of "k - queue_index q st" "drop (queue_index q st) (pos q)"] by simp
    then have todo: "t \<in> todo pos st" using q(1) by (auto simp: todo_def)
    have "0 \<le> tv_count (V t')" if "t' \<in> todo pos st" for t' using todo_positive [OF inv that] by simp
    from load_bound [where T = "todo pos st" and V = V and t = t and sel = tv_waits and v = ?v, OF this finite_todo todo]
    have "tv_count (V t) * int (count_list (tv_waits (V t)) (int ?v)) \<le> cons_count st ?v" using inv bar by (simp add: sim_inv_def)
    moreover have "0 < tv_count (V t) * int (count_list (tv_waits (V t)) (int ?v))"
      using todo_positive [OF inv todo] t count_list_0_iff [of "tv_waits (V t)" "int ?v"] by (auto simp: zero_less_mult_iff)
    ultimately show False using \<open>\<not> 0 < cons_count st ?v\<close> by linarith
  qed
qed

lemma mapped_run_inv:
  assumes inv: "sim_inv nb V pos st" and bar: "sm_bar st < nb" and p: "int p \<in> free_pids (sm_toVirtual st)"
    and q: "ring_of (length (sm_toVirtual st)) (free_pids (sm_toVirtual st) - {int p}) q"
  shows "sim_inv nb V pos (mapped_run p q h st)" "todo pos (mapped_run p q h st) = todo pos st"
    "sim_queues (mapped_run p q h st) = sim_queues st"
proof -
  have core: "sim_core nb (no_consumer V) st" using inv by (simp add: sim_inv_def)
  have len: "length (bs_barriers st) = nb" using core by (simp add: sim_core_def)
  have p': "p < length (sm_toVirtual st)" "sm_toVirtual st ! p = -1" using p by (auto simp: free_pids_def)
  let ?v = "sm_bar st"
  let ?toV = "(sm_toVirtual st)[p := int ?v]"
  define B where "B = (bs_barriers st)[?v := (bs_barriers st ! ?v)\<lparr>bc_realId := int p\<rparr>]"
  have lenB: "length B = nb" using len by (simp add: B_def)
  have bars: "bc_producerCount (B ! w) = prod_count st w" "bc_consumerCount (B ! w) = cons_count st w"
    "bc_realId (B ! w) = (if w = ?v then int p else real_id st w)" for w
    using bar len unfolding B_def by (cases "w = ?v"; simp)+
  let ?st = "st\<lparr>bs_barriers := B, sm_toVirtual := ?toV, sm_prevVid := (sm_prevVid st)[p := int ?v], sm_nextReal := q, bs_wlm := h,
    sm_bar := Suc ?v, sm_progressed := True\<rparr>"
  have st: "mapped_run p q h st = ?st" by (simp add: mapped_run_def Let_def B_def)
  have queues: "sim_queues ?st = sim_queues st" and idx: "queue_index q' ?st = queue_index q' st" and users: "queue_users q' ?st = queue_users q' st" for q'
    by (simp add: sim_queues_def, (cases q'; simp)+)
  show "sim_queues (mapped_run p q h st) = sim_queues st" unfolding st by (rule queues)
  have todo: "todo pos ?st = todo pos st" unfolding todo_def queues idx ..
  then show "todo pos (mapped_run p q h st) = todo pos st" unfolding st .
  have free: "free_pids ?toV = free_pids (sm_toVirtual st) - {int p}"
    using p'(1) by (auto simp: free_pids_def nth_list_update split: if_splits)
  have "\<forall>w<Suc ?v. 0 \<le> bc_realId (B ! w) \<and> nat (bc_realId (B ! w)) < length ?toV \<and>
      (?toV ! nat (bc_realId (B ! w)) = int w \<or> prod_count st w = 0 \<and> cons_count st w = 0)"
  proof (intro allI impI)
    fix w assume w: "w < Suc ?v"
    show "0 \<le> bc_realId (B ! w) \<and> nat (bc_realId (B ! w)) < length ?toV \<and>
      (?toV ! nat (bc_realId (B ! w)) = int w \<or> prod_count st w = 0 \<and> cons_count st w = 0)"
    proof (cases "w = ?v")
      case False
      then have c: "0 \<le> real_id st w" "nat (real_id st w) < length (sm_toVirtual st)"
          "sm_toVirtual st ! nat (real_id st w) = int w \<or> prod_count st w = 0 \<and> cons_count st w = 0"
        using core w by (auto simp: sim_core_def)
      then show ?thesis using False p'(2) by (cases "nat (real_id st w) = p") (auto simp: bars)
    qed (use p'(1) in \<open>simp add: bars\<close>)
  qed
  moreover have "\<forall>i<length ?toV. ?toV ! i = -1 \<or> (\<exists>w<Suc ?v. ?toV ! i = int w \<and> bc_realId (B ! w) = int i)"
  proof (intro allI impI)
    fix i assume i: "i < length ?toV"
    show "?toV ! i = -1 \<or> (\<exists>w<Suc ?v. ?toV ! i = int w \<and> bc_realId (B ! w) = int i)"
    proof (cases "i = p")
      case False
      then consider "sm_toVirtual st ! i = -1" | w where "w < ?v" "sm_toVirtual st ! i = int w" "real_id st w = int i"
        using core i by (auto simp: sim_core_def)
      then show ?thesis using False by cases (auto simp: bars intro!: exI)
    qed (use p'(1) in \<open>auto simp: bars\<close>)
  qed
  moreover have "\<forall>i<length ?toV. \<forall>w. ?toV ! i = int w \<longrightarrow> w \<in> no_consumer V \<or> 0 < cons_count st w"
  proof (intro allI impI)
    fix i w assume i: "i < length ?toV" "?toV ! i = int w"
    show "w \<in> no_consumer V \<or> 0 < cons_count st w"
    proof (cases "i = p")
      case True
      then have "w = ?v" using i by simp
      then show ?thesis using unmapped_consumed [OF inv bar] by simp
    qed (use core i in \<open>simp add: sim_core_def\<close>)
  qed
  ultimately have "sim_core nb (no_consumer V) ?st"
    using core q free bar unfolding sim_core_def ring_of_def by (simp add: bars lenB)
  moreover have "sim_static nb V pos ?st" using inv lenB unfolding sim_inv_def sim_static_def queues users by simp
  moreover have "\<forall>q\<in>set (sim_queues st). queue_index q st \<le> length (pos q) \<and>
      (\<forall>k<queue_index q st. \<forall>v\<in>set (tv_waits (V (pos q ! k)) @ tv_posts (V (pos q ! k))). nat v < Suc ?v)"
    using inv unfolding sim_inv_def by (meson less_SucI)
  ultimately show "sim_inv nb V pos (mapped_run p q h st)" using inv unfolding st sim_inv_def queues idx todo by (simp add: bars)
qed

text \<open>Whatever the restrictions on the reuse, a barrier is mapped to a free physical barrier or stays unmapped.\<close>

lemma choose_pid_cases:
  assumes inv: "sim_inv nb V pos st" and bar: "sm_bar st < nb" and run: "choose_pid st = Inr (real, st')"
  shows "\<exists>q h. (case real of None \<Rightarrow> st' = st\<lparr>sm_nextReal := q, bs_wlm := h\<rparr> \<and> ring_of (length (sm_toVirtual st)) (free_pids (sm_toVirtual st)) q
    | Some x \<Rightarrow> x \<in> free_pids (sm_toVirtual st) \<and> ring_of (length (sm_toVirtual st)) (free_pids (sm_toVirtual st) - {x}) q \<and>
        st' = st\<lparr>sm_nextReal := q, bs_wlm := h, bs_barriers := (bs_barriers st)[sm_bar st := (bs_barriers st ! sm_bar st)\<lparr>bc_realId := x\<rparr>]\<rparr>)"
proof -
  let ?n = "length (sm_toVirtual st)" and ?S = "free_pids (sm_toVirtual st)"
  have core: "sim_core nb (no_consumer V) st" using inv by (simp add: sim_inv_def)
  have dyn: "bs_isDynamic st" and len: "length (bs_barriers st) = nb" using core by (simp_all add: sim_core_def)
  note ring = ring_of_core [OF core]
  show ?thesis
  proof (cases "bs_wlmPid st \<and> bs_wlm st \<noteq> None")
    case True
    then obtain st2 where f: "find_pid (rb_size (sm_nextReal st)) st = Inr (real, st2)"
      using run dyn by (auto simp: choose_pid_def res_bind_eq_Inr split: option.splits)
    from find_pid_spec [OF ring free_pids_card f] obtain q h where
      "st2 = st\<lparr>sm_nextReal := q, bs_wlm := h\<rparr>" "case real of None \<Rightarrow> ring_of ?n ?S q | Some r \<Rightarrow> r \<in> ?S \<and> ring_of ?n (?S - {r}) q" by blast
    then show ?thesis using run f dyn True bar len
      by (intro exI [of _ q] exI [of _ h]) (auto simp: choose_pid_def vec_at_def split: option.splits)
  next
    case False
    then obtain x q where t: "ring_take (sm_nextReal st) = Inr (x, q)" "real = Some x"
      "st' = st\<lparr>sm_nextReal := q, bs_barriers := (bs_barriers st)[sm_bar st := (bs_barriers st ! sm_bar st)\<lparr>bc_realId := x\<rparr>]\<rparr>"
      using run dyn by (auto simp: choose_pid_def res_bind_eq_Inr map_sum_eq_Inr)
    then show ?thesis using ring_of_take [OF ring t(1)] by (intro exI [of _ q] exI [of _ "bs_wlm st"]) simp
  qed
qed

lemma map_barrier_cases:
  assumes inv: "sim_inv nb V pos st" and bar: "sm_bar st < nb" and run: "map_barrier (sm_bar st) st = Inr (r, st')"
  shows "(\<exists>q h. r = Some () \<and> st' = st\<lparr>sm_nextReal := q, bs_wlm := h\<rparr> \<and> ring_of (length (sm_toVirtual st)) (free_pids (sm_toVirtual st)) q) \<or>
    (\<exists>p q h. r = None \<and> st' = mapped_run p q h st \<and> int p \<in> free_pids (sm_toVirtual st) \<and>
      ring_of (length (sm_toVirtual st)) (free_pids (sm_toVirtual st) - {int p}) q)"
proof -
  have core: "sim_core nb (no_consumer V) st" using inv by (simp add: sim_inv_def)
  have dyn: "bs_isDynamic st" "bs_pidToVid st = []" using core by (simp_all add: sim_core_def)
  show ?thesis
  proof (cases "ring_empty (sm_nextReal st)")
    case True
    then have "r = Some ()" "st' = st" using run dyn by (simp_all add: map_barrier_def hasBarriersToMap_def)
    then show ?thesis using ring_of_core [OF core] by (intro disjI1 exI [of _ "sm_nextReal st"] exI [of _ "bs_wlm st"]) simp
  next
    case False
    obtain real st1 where c: "choose_pid st = Inr (real, st1)" using run dyn False by (auto simp: map_barrier_def hasBarriersToMap_def res_bind_eq_Inr)
    from choose_pid_cases [OF inv bar c] obtain q h where qh: "case real of
        None \<Rightarrow> st1 = st\<lparr>sm_nextReal := q, bs_wlm := h\<rparr> \<and> ring_of (length (sm_toVirtual st)) (free_pids (sm_toVirtual st)) q
      | Some x \<Rightarrow> x \<in> free_pids (sm_toVirtual st) \<and> ring_of (length (sm_toVirtual st)) (free_pids (sm_toVirtual st) - {x}) q \<and>
          st1 = st\<lparr>sm_nextReal := q, bs_wlm := h, bs_barriers := (bs_barriers st)[sm_bar st := (bs_barriers st ! sm_bar st)\<lparr>bc_realId := x\<rparr>]\<rparr>"
      by blast
    show ?thesis
    proof (cases real)
      case None
      then have "r = Some ()" "st' = st1" using run c dyn False by (simp_all add: map_barrier_def hasBarriersToMap_def)
      then show ?thesis using qh None by (intro disjI1 exI [of _ q] exI [of _ h]) simp
    next
      case (Some x)
      then have x: "x \<in> free_pids (sm_toVirtual st)" "ring_of (length (sm_toVirtual st)) (free_pids (sm_toVirtual st) - {x}) q"
        and st1: "st1 = st\<lparr>sm_nextReal := q, bs_wlm := h, bs_barriers := (bs_barriers st)[sm_bar st := (bs_barriers st ! sm_bar st)\<lparr>bc_realId := x\<rparr>]\<rparr>"
        using qh by simp_all
      obtain p where p: "x = int p" using x(1) by (auto simp: free_pids_def)
      have "r = None \<and> st' = mapped_run p q h st"
        using run c dyn False Some unfolding st1 p
        by (auto simp: map_barrier_def hasBarriersToMap_def next_vid_def res_bind_eq_Inr mapped_run_def Let_def)
      then show ?thesis using x unfolding p by (intro disjI2 exI [of _ p] exI [of _ q] exI [of _ h]) simp
    qed
  qed
qed

lemma unmapped_inv:
  assumes inv: "sim_inv nb V pos st" and q: "ring_of (length (sm_toVirtual st)) (free_pids (sm_toVirtual st)) q"
  shows "sim_inv nb V pos (st\<lparr>sm_nextReal := q, bs_wlm := h\<rparr>)"
proof -
  have "sim_core nb (no_consumer V) st" using inv by (simp add: sim_inv_def)
  then have "sim_core nb (no_consumer V) (st\<lparr>sm_nextReal := q, bs_wlm := h\<rparr>)" using q by (simp add: sim_core_def ring_of_def)
  then show ?thesis using inv unfolding sim_inv_def sim_static_def todo_def ring_frame by simp
qed

lemma map_barrier_inv:
  assumes inv: "sim_inv nb V pos st" and bar: "sm_bar st < nb" and run: "map_barrier (sm_bar st) st = Inr (r, st')"
  shows "sim_inv nb V pos st'"
  using map_barrier_cases [OF assms] unmapped_inv [OF inv] mapped_run_inv(1) [OF inv bar] by blast

lemma map_barrier_spec:
  assumes inv: "sim_inv nb V pos st" and wlm: "\<not> bs_wlmPid st" and bar: "sm_bar st < nb"
  shows "ring_contents (sm_nextReal st) = [] \<Longrightarrow> map_barrier (sm_bar st) st = Inr (Some (), st)"
    "ring_contents (sm_nextReal st) \<noteq> [] \<Longrightarrow> \<exists>st'. map_barrier (sm_bar st) st = Inr (None, st') \<and> sim_inv nb V pos st' \<and>
      sm_bar st' = Suc (sm_bar st) \<and> sm_progressed st' \<and> sim_queues st' = sim_queues st \<and> bs_wlmPid st' = bs_wlmPid st \<and>
      todo pos st' = todo pos st"
proof -
  have core: "sim_core nb (no_consumer V) st" using inv by (simp add: sim_inv_def)
  have dyn: "bs_isDynamic st" "bs_pidToVid st = []" and len: "length (bs_barriers st) = nb"
    "length (sm_prevVid st) = length (sm_toVirtual st)" using core by (simp_all add: sim_core_def)
  show "map_barrier (sm_bar st) st = Inr (Some (), st)" if "ring_contents (sm_nextReal st) = []"
    using that dyn by (simp add: map_barrier_def hasBarriersToMap_def ring_empty_def)
  assume ne: "ring_contents (sm_nextReal st) \<noteq> []"
  then obtain r rs where ring: "ring_contents (sm_nextReal st) = r # rs" by (cases "ring_contents (sm_nextReal st)") auto
  have rok: "ring_ok (sm_nextReal st)" using core by (simp add: sim_core_def)
  obtain q where q: "ring_take (sm_nextReal st) = Inr (r, q)" using ring_take_spec [OF rok ring] by blast
  note taken = ring_of_take [OF ring_of_core [OF core] q]
  obtain p where p: "r = int p" "p < length (sm_toVirtual st)" using taken(1) by (auto simp: free_pids_def)
  have "\<not> ring_empty (sm_nextReal st)" using ne by (simp add: ring_empty_def)
  then have "map_barrier (sm_bar st) st = Inr (None, mapped_run p q (bs_wlm st) st)"
    using dyn wlm q p bar len
    by (simp add: map_barrier_def hasBarriersToMap_def choose_pid_def next_vid_def vec_at_def vec_set_def mapped_run_def Let_def)
  then show "\<exists>st'. map_barrier (sm_bar st) st = Inr (None, st') \<and> sim_inv nb V pos st' \<and>
      sm_bar st' = Suc (sm_bar st) \<and> sm_progressed st' \<and> sim_queues st' = sim_queues st \<and> bs_wlmPid st' = bs_wlmPid st \<and> todo pos st' = todo pos st"
    using mapped_run_inv [OF inv bar, of p q "bs_wlm st"] taken unfolding p(1)
    by (intro exI [of _ "mapped_run p q (bs_wlm st) st"]) (simp add: mapped_run_def Let_def)
qed

section \<open>Rounds\<close>

lemma map_barriers_spec:
  "sim_inv nb V pos st \<Longrightarrow> \<not> bs_wlmPid st \<Longrightarrow>
    \<exists>r st'. map_barriers st = Inr (r, st') \<and> ran nb V pos st st' \<and> todo pos st' = todo pos st \<and> sm_bar st \<le> sm_bar st' \<and>
      (sm_bar st' = nb \<or> ring_contents (sm_nextReal st') = [])"
proof (induction "nb - sm_bar st" arbitrary: st)
  case 0
  have "length (bs_barriers st) = nb" "sm_bar st = nb" using 0 by (auto simp: sim_inv_def sim_core_def)
  then show ?case using ran_refl [OF 0(2)] by (simp add: map_barriers_def)
next
  case (Suc m)
  have len: "length (bs_barriers st) = nb" and bar: "sm_bar st < nb" using Suc by (auto simp: sim_inv_def sim_core_def)
  have first: "map_barriers st = res_bind (map_barrier (sm_bar st) st) (\<lambda>(r, st1). case r of
      None \<Rightarrow> res_until map_barrier [Suc (sm_bar st)..<nb] st1 | Some _ \<Rightarrow> Inr (r, st1))"
    by (simp add: map_barriers_def len upt_conv_Cons bar)
  note spec = map_barrier_spec [OF Suc.prems bar]
  show ?case
  proof (cases "ring_contents (sm_nextReal st) = []")
    case True
    then show ?thesis using first spec(1) ran_refl [OF Suc.prems(1)] by simp
  next
    case False
    from spec(2) [OF this] obtain st1 where s1: "map_barrier (sm_bar st) st = Inr (None, st1)" "sim_inv nb V pos st1"
      "sm_bar st1 = Suc (sm_bar st)" "sm_progressed st1" "sim_queues st1 = sim_queues st" "bs_wlmPid st1 = bs_wlmPid st"
      "todo pos st1 = todo pos st" by blast
    have "sim_step st st1" using bar len s1(1) by (intro step_map) simp_all
    moreover have "remaining nb pos st1 < remaining nb pos st" using bar by (simp add: remaining_def s1(3,7))
    ultimately have ran1: "ran nb V pos st st1" using s1 by (auto simp: ran_def moved_def)
    have "m = nb - sm_bar st1" "\<not> bs_wlmPid st1" using Suc.hyps(2) s1(3,6) Suc.prems(2) by simp_all
    from Suc.hyps(1) [OF this(1) s1(2) this(2)] obtain r st' where s2: "map_barriers st1 = Inr (r, st')" "ran nb V pos st1 st'"
      "todo pos st' = todo pos st1" "sm_bar st1 \<le> sm_bar st'" "sm_bar st' = nb \<or> ring_contents (sm_nextReal st') = []" by blast
    have "length (bs_barriers st1) = nb" using s1(2) by (simp add: sim_inv_def sim_core_def)
    then have "map_barriers st = Inr (r, st')" using first s1(1,3) s2(1) by (simp add: map_barriers_def)
    then show ?thesis using s2 s1(3,7) ran_trans [OF ran1 s2(2)] by auto
  qed
qed

text \<open>
  Blocked: no barrier can be mapped, as all are or no physical one is free, and the first task of every queue waits
  for a barrier.
\<close>

definition stuck :: "nat \<Rightarrow> (nat \<Rightarrow> task_view) \<Rightarrow> (sim_queue \<Rightarrow> nat list) \<Rightarrow> sim_run \<Rightarrow> bool" where
  "stuck nb V pos st \<longleftrightarrow> \<not> sim_finished st \<and> (sm_bar st = nb \<or> free_pids (sm_toVirtual st) = {}) \<and>
     (\<forall>q\<in>set (sim_queues st). settled V pos q st)"

lemma sim_inv_round: "sim_inv nb V pos st \<Longrightarrow> sim_inv nb V pos (st\<lparr>sm_progressed := False\<rparr>)"
  unfolding sim_inv_def sim_static_def todo_def progressed_simps by simp

lemma settled_round: "settled V pos q (st\<lparr>sm_progressed := b\<rparr>) = settled V pos q st"
  unfolding settled_def head_of_def progressed_simps by (simp add: task_blocked_def blocked_waits_def blocked_posts_def)

lemma remaining_round: "remaining nb pos (st\<lparr>sm_progressed := b\<rparr>) = remaining nb pos st"
  unfolding remaining_def todo_def progressed_simps by simp

lemma finished_round: "sim_finished (st\<lparr>sm_progressed := b\<rparr>) = sim_finished st"
  by (simp add: sim_finished_def)

lemma check_blocked_ok:
  assumes "sim_core nb (no_consumer V) st"
  shows "check_blocked st = Inr ()"
proof -
  have step: "(let vid = sm_toVirtual st ! pid in if vid < 0 then Inr ()
     else res_bind (int_at (bs_barriers st) vid) (\<lambda>b.
       if bc_realId b \<noteq> int pid then Inl (Vpux_Throw ''Mismatch in barrier config'') else Inr ())) = Inr ()"
    if pid: "pid < length (sm_toVirtual st)" for pid
  proof -
    have len: "length (bs_barriers st) = nb" "sm_bar st \<le> nb" using assms by (simp_all add: sim_core_def)
    consider "sm_toVirtual st ! pid = -1" | v where "v < sm_bar st" "sm_toVirtual st ! pid = int v" "real_id st v = int pid"
      using assms pid by (auto simp: sim_core_def)
    then show ?thesis by cases (use len in \<open>simp_all add: vec_at_def\<close>)
  qed
  have "res_fold (\<lambda>pid _. let vid = sm_toVirtual st ! pid in if vid < 0 then Inr ()
     else res_bind (int_at (bs_barriers st) vid) (\<lambda>b.
       if bc_realId b \<noteq> int pid then Inl (Vpux_Throw ''Mismatch in barrier config'') else Inr ())) ps () = Inr ()"
    if "set ps \<subseteq> {..<length (sm_toVirtual st)}" for ps
    using that by (induction ps) (simp_all add: step)
  then show ?thesis unfolding check_blocked_def by (simp add: atLeast0LessThan)
qed

lemma sim_iteration_spec:
  assumes inv: "sim_inv nb V pos st" and wlm: "\<not> bs_wlmPid st" and busy: "\<not> sim_finished st"
  shows "(\<exists>st'. sim_iteration limit False st = Inr (None, st') \<and> sim_inv nb V pos st' \<and> sim_step\<^sup>*\<^sup>* st st' \<and> \<not> bs_wlmPid st' \<and>
      remaining nb pos st' < remaining nb pos st) \<or>
    (\<exists>st'. sim_iteration limit False st = Inr (Some False, st') \<and> sim_inv nb V pos st' \<and> sim_step\<^sup>*\<^sup>* st st' \<and> stuck nb V pos st')"
proof -
  let ?st0 = "st\<lparr>sm_progressed := False\<rparr>"
  have inv0: "sim_inv nb V pos ?st0" and wlm0: "\<not> bs_wlmPid ?st0" using sim_inv_round [OF inv] wlm by simp_all
  obtain r st1 where s1: "map_barriers ?st0 = Inr (r, st1)" "ran nb V pos ?st0 st1" "sm_bar st1 = nb \<or> ring_contents (sm_nextReal st1) = []"
    using map_barriers_spec [OF inv0 wlm0] by blast
  have inv1: "sim_inv nb V pos st1" using s1(2) by (simp add: ran_def)
  obtain st2 where s2: "run_queues st1 = Inr (None, st2)" "ran nb V pos st1 st2" "st2 = st1 \<longrightarrow> (\<forall>q\<in>set (sim_queues st1). settled V pos q st1)"
    using run_queues_spec [OF inv1] by blast
  have ran: "ran nb V pos ?st0 st2" by (rule ran_trans [OF s1(2) s2(2)])
  have inv2: "sim_inv nb V pos st2" and steps: "sim_step\<^sup>*\<^sup>* st st2" and wlm2: "\<not> bs_wlmPid st2"
    using ran wlm step_round [of st] by (auto simp: ran_def intro: converse_rtranclp_into_rtranclp)
  have iter: "sim_iteration limit False st = (if \<not> sm_progressed st2 then map_sum id (\<lambda>_. (Some False, st2)) (check_blocked st2) else Inr (None, st2))"
    using s1(1) s2(1) by (simp add: sim_iteration_def)
  show ?thesis
  proof (cases "sm_progressed st2")
    case True
    then have "st2 \<noteq> ?st0" by auto
    then have "remaining nb pos st2 < remaining nb pos st" using ran by (auto simp: ran_def moved_def remaining_round)
    then show ?thesis using iter True inv2 steps wlm2 by auto
  next
    case False
    then have same: "st2 = ?st0" using ran by (auto simp: ran_def moved_def)
    have "moved nb pos st1 ?st0" "moved nb pos ?st0 st1" using s1(2) s2(2) same by (simp_all add: ran_def)
    then have same1: "st1 = ?st0" using moved_back by metis
    have core: "sim_core nb (no_consumer V) st2" using inv2 by (simp add: sim_inv_def)
    have "set (ring_contents (sm_nextReal st2)) = free_pids (sm_toVirtual st2)" using core by (simp add: sim_core_def)
    moreover have "sm_bar st2 = nb \<or> ring_contents (sm_nextReal st2) = []" using s1(3) same same1 by simp
    ultimately have "sm_bar st2 = nb \<or> free_pids (sm_toVirtual st2) = {}" by (metis empty_set)
    moreover have "\<forall>q\<in>set (sim_queues st2). settled V pos q st2" using s2(3) same same1 by simp
    moreover have "\<not> sim_finished st2" using busy unfolding same by (simp add: finished_round)
    ultimately have "stuck nb V pos st2" by (simp add: stuck_def)
    then show ?thesis using iter False check_blocked_ok [OF core] inv2 steps by auto
  qed
qed

lemma sim_loop_spec:
  "sim_inv nb V pos st \<Longrightarrow> \<not> bs_wlmPid st \<Longrightarrow>
    \<exists>b st'. sim_loop limit False st = Some (Inr (b, st')) \<and> sim_inv nb V pos st' \<and> sim_step\<^sup>*\<^sup>* st st' \<and>
      (if b then sim_finished st' else stuck nb V pos st')"
proof (induction "remaining nb pos st" arbitrary: st rule: less_induct)
  case less
  show ?case
  proof (cases "sim_finished st")
    case True
    then have "sim_loop limit False st = Some (Inr (True, st))" by (simp add: sim_loop.simps)
    then show ?thesis using less.prems(1) True by (intro exI [of _ True] exI [of _ st]) simp
  next
    case False
    from sim_iteration_spec [OF less.prems False, of limit] show ?thesis
    proof (elim disjE exE conjE)
      fix st1 assume s: "sim_iteration limit False st = Inr (None, st1)" "sim_inv nb V pos st1" "sim_step\<^sup>*\<^sup>* st st1"
        "\<not> bs_wlmPid st1" "remaining nb pos st1 < remaining nb pos st"
      from less.hyps [OF s(5,2,4)] obtain b st' where l: "sim_loop limit False st1 = Some (Inr (b, st'))" "sim_inv nb V pos st'"
        "sim_step\<^sup>*\<^sup>* st1 st'" "if b then sim_finished st' else stuck nb V pos st'" by blast
      have "sim_loop limit False st = Some (Inr (b, st'))" using False s(1) l(1) by (simp add: sim_loop.simps [of _ _ st])
      then show ?thesis using l rtranclp_trans [OF s(3) l(3)] by blast
    next
      fix st1 assume s: "sim_iteration limit False st = Inr (Some False, st1)" "sim_inv nb V pos st1" "sim_step\<^sup>*\<^sup>* st st1" "stuck nb V pos st1"
      have "sim_loop limit False st = Some (Inr (False, st1))" using False s(1) by (simp add: sim_loop.simps [of _ _ st])
      then show ?thesis using s by (intro exI [of _ False] exI [of _ st1]) simp
    qed
  qed
qed

lemma sim_step_inv:
  assumes "sim_step st st'" "sim_inv nb V pos st"
  shows "sim_inv nb V pos st'"
  using assms(1)
proof (elim sim_stepE, goal_cases)
  case (1 r)
  have "length (bs_barriers st) = nb" using assms(2) by (simp add: sim_inv_def sim_core_def)
  then show ?thesis using map_barrier_inv [OF assms(2) _ 1(2)] 1(1) by simp
next
  case (2 q)
  have lt: "queue_index q st < length (pos q)" using 2 assms(2) by (simp add: sim_inv_def sim_static_def)
  have "\<not> task_blocked st (V (head_of pos q st))" using process_task_spec(1) [OF assms(2) 2(1) lt] 2(3) by auto
  from process_task_spec(2) [OF assms(2) 2(1) lt this] show ?thesis using 2(3) by auto
next
  case 3
  then show ?thesis using sim_inv_round [OF assms(2)] by simp
qed

lemma sim_steps_inv: "sim_step\<^sup>*\<^sup>* st st' \<Longrightarrow> sim_inv nb V pos st \<Longrightarrow> sim_inv nb V pos st'"
  by (induction rule: rtranclp_induct) (auto intro: sim_step_inv)

section \<open>Finishing and being blocked\<close>

lemma finished_counts:
  assumes inv: "sim_inv nb V pos st" and fin: "sim_finished st"
  shows "todo pos st = {}" "sm_bar st = nb" "v < nb \<Longrightarrow> prod_count st v = 0 \<and> cons_count st v = 0"
proof -
  have "drop (queue_index q st) (pos q) = []" if q: "q \<in> set (sim_queues st)" for q
  proof -
    have "length (queue_users q st) = length (pos q)" using inv q by (simp add: sim_inv_def sim_static_def)
    moreover have "\<forall>e<length (bs_dmaTasks st). length (bs_dmaTasks st ! e) \<le> sm_dma st ! e"
      using fin by (simp add: sim_finished_def list_all_iff not_less)
    then have "length (queue_users q st) \<le> queue_index q st" using fin q by (cases q) (auto simp: sim_finished_def queue_in)
    ultimately show ?thesis by simp
  qed
  then show todo: "todo pos st = {}" by (simp add: todo_def)
  show "sm_bar st = nb" using inv fin by (simp add: sim_inv_def sim_core_def sim_finished_def)
  show "prod_count st v = 0 \<and> cons_count st v = 0" if "v < nb" using inv todo that by (simp add: sim_inv_def load_def)
qed

lemma load_positive_task:
  assumes "0 < load sel V T v"
  shows "\<exists>t\<in>T. int v \<in> set (sel (V t))"
proof (rule ccontr)
  assume "\<not> (\<exists>t\<in>T. int v \<in> set (sel (V t)))"
  then have "load sel V T v = 0" unfolding load_def by (intro sum.neutral) (simp add: count_list_0_iff)
  then show False using assms by simp
qed

text \<open>
  Program order: the tasks that produce a barrier come before those that wait for it.  Enough physical barriers: when
  a task runs in program order, fewer barriers than there are physical ones that precede one of its barriers are still
  to be consumed, those without consumers included.
\<close>

definition in_order :: "(nat \<Rightarrow> task_view) \<Rightarrow> bool" where
  "in_order V \<longleftrightarrow> (\<forall>t u. \<forall>v\<in>set (tv_waits (V t)). v \<in> set (tv_posts (V u)) \<longrightarrow> u < t)"

definition pending_barriers :: "(nat \<Rightarrow> task_view) \<Rightarrow> nat \<Rightarrow> nat \<Rightarrow> nat set" where
  "pending_barriers V t v = {w. w < v \<and> (w \<in> no_consumer V \<or> (\<exists>u\<ge>t. int w \<in> set (tv_waits (V u))))}"

definition enough_barriers :: "nat \<Rightarrow> nat \<Rightarrow> (nat \<Rightarrow> task_view) \<Rightarrow> bool" where
  "enough_barriers n nb V \<longleftrightarrow>
     (\<forall>t. \<forall>v\<in>set (tv_waits (V t) @ tv_posts (V t)). card (pending_barriers V t (nat v)) < n) \<and>
     (\<forall>v<nb. card {w. w < v \<and> w \<in> no_consumer V} < n)"

lemma finite_pending [simp]: "finite (pending_barriers V t v)"
  by (rule finite_subset [of _ "{..<v}"]) (auto simp: pending_barriers_def)

lemma full_mapping:
  assumes core: "sim_core nb N st" and full: "free_pids (sm_toVirtual st) = {}" and S: "finite S"
    and live: "\<And>w. w < sm_bar st \<Longrightarrow> w \<in> N \<or> 0 < cons_count st w \<Longrightarrow> w \<in> S"
  shows "length (sm_toVirtual st) \<le> card S"
proof -
  let ?f = "\<lambda>p. nat (sm_toVirtual st ! p)"
  have entry: "\<exists>w<sm_bar st. sm_toVirtual st ! p = int w \<and> real_id st w = int p" if "p < length (sm_toVirtual st)" for p
  proof -
    have "sm_toVirtual st ! p \<noteq> -1" using full that by (auto simp: free_pids_def)
    then show ?thesis using core that by (auto simp: sim_core_def)
  qed
  have "inj_on ?f {..<length (sm_toVirtual st)}"
  proof (rule inj_onI)
    fix p q assume pq: "p \<in> {..<length (sm_toVirtual st)}" "q \<in> {..<length (sm_toVirtual st)}" "?f p = ?f q"
    obtain w w' where "sm_toVirtual st ! p = int w" "real_id st w = int p" "sm_toVirtual st ! q = int w'" "real_id st w' = int q"
      using entry pq(1,2) by (meson lessThan_iff)
    then show "p = q" using pq(3) by simp
  qed
  moreover have "?f ` {..<length (sm_toVirtual st)} \<subseteq> S"
  proof
    fix x assume "x \<in> ?f ` {..<length (sm_toVirtual st)}"
    then obtain p where p: "p < length (sm_toVirtual st)" "x = ?f p" by auto
    obtain w where w: "w < sm_bar st" "sm_toVirtual st ! p = int w" using entry [OF p(1)] by blast
    have "w \<in> N \<or> 0 < cons_count st w" using core p(1) w(2) by (simp add: sim_core_def)
    then show "x \<in> S" using live [OF w(1)] p(2) w(2) by simp
  qed
  ultimately show ?thesis using card_inj_on_le [OF _ _ S, of ?f "{..<length (sm_toVirtual st)}"] by simp
qed

lemma not_stuck:
  assumes inv: "sim_inv nb V pos st" and order: "in_order V" and enough: "enough_barriers (length (sm_toVirtual st)) nb V"
    and sorted: "\<And>q. q \<in> set (sim_queues st) \<Longrightarrow> sorted_wrt (<) (pos q)"
  shows "\<not> stuck nb V pos st"
proof
  assume stuck: "stuck nb V pos st"
  have core: "sim_core nb (no_consumer V) st" using inv by (simp add: sim_inv_def)
  have counts: "v < nb \<Longrightarrow> cons_count st v = load tv_waits V (todo pos st) v \<and> prod_count st v = load tv_posts V (todo pos st) v" for v
    using inv by (simp add: sim_inv_def)
  have bar: "sm_bar st \<le> nb" using core by (simp add: sim_core_def)
  show False
  proof (cases "todo pos st = {}")
    case True
    have idle: "\<not> queue_index q st < length (queue_users q st)" if q: "q \<in> set (sim_queues st)" for q
    proof -
      have "length (queue_users q st) = length (pos q)" using inv q by (simp add: sim_inv_def sim_static_def)
      moreover have "drop (queue_index q st) (pos q) = []" using True q by (auto simp: todo_def)
      ultimately show ?thesis by simp
    qed
    have "sm_bar st \<noteq> nb"
    proof
      assume "sm_bar st = nb"
      moreover have "\<forall>e<length (bs_dmaTasks st). \<not> sm_dma st ! e < length (bs_dmaTasks st ! e)"
        using idle [of "DmaQueue e" for e] by (simp add: queue_in)
      ultimately have "sim_finished st" using idle [of DpuQueue] idle [of ActQueue] idle [of M2iQueue] core
        by (simp add: sim_finished_def queue_in list_all_iff sim_core_def)
      then show False using stuck by (simp add: stuck_def)
    qed
    then have lt: "sm_bar st < nb" and full: "free_pids (sm_toVirtual st) = {}" using bar stuck by (auto simp: stuck_def)
    have "length (sm_toVirtual st) \<le> card {w. w < sm_bar st \<and> w \<in> no_consumer V}"
    proof (rule full_mapping [OF core full])
      show "w \<in> {w. w < sm_bar st \<and> w \<in> no_consumer V}" if "w < sm_bar st" "w \<in> no_consumer V \<or> 0 < cons_count st w" for w
        using that counts [of w] bar True by (simp add: load_def)
    qed simp
    then show False using enough lt by (auto simp: enough_barriers_def)
  next
    case False
    let ?t = "Min (todo pos st)"
    have t: "?t \<in> todo pos st" and least: "\<And>u. u \<in> todo pos st \<Longrightarrow> ?t \<le> u" using False by simp_all
    obtain q where q: "q \<in> set (sim_queues st)" "?t \<in> set (drop (queue_index q st) (pos q))" using t by (auto simp: todo_def)
    have ne: "queue_index q st < length (pos q)" using q(2) by (metis drop_eq_Nil2 empty_iff leI list.set(1))
    have drop: "drop (queue_index q st) (pos q) = head_of pos q st # drop (Suc (queue_index q st)) (pos q)"
      using ne by (simp add: head_of_def Cons_nth_drop_Suc)
    have "head_of pos q st \<in> todo pos st" using q(1) drop by (auto simp: todo_def intro!: bexI [of _ q])
    moreover have "head_of pos q st \<le> ?t" using sorted_wrt_drop [OF sorted [OF q(1)], of "queue_index q st"] q(2) unfolding drop by auto
    ultimately have head: "head_of pos q st = ?t" using least by (simp add: le_antisym)
    have "settled V pos q st" using stuck q(1) by (simp add: stuck_def)
    then have blocked: "task_blocked st (V ?t)" using ne head by (simp add: settled_def)
    have "\<exists>v\<in>set (tv_waits (V ?t) @ tv_posts (V ?t)). sm_bar st \<le> nat v"
    proof (cases "blocked_posts st (tv_posts (V ?t))")
      case False
      then obtain v where v: "v \<in> set (tv_waits (V ?t))" "sm_bar st \<le> nat v \<or> 0 < prod_count st (nat v)"
        using blocked by (auto simp: task_blocked_def blocked_waits_def)
      have vnb: "nat v < nb" "0 \<le> v"
      proof -
        have "\<forall>k<length (pos q). user_view nb (bs_vdt st) (queue_users q st ! k) (V (pos q ! k))"
          using inv q(1) by (simp add: sim_inv_def sim_static_def)
        then have "user_view nb (bs_vdt st) (queue_users q st ! queue_index q st) (V ?t)" using ne head by (auto simp: head_of_def)
        then show "nat v < nb" "0 \<le> v" using range_view_in v(1) by (auto simp: user_view_def)
      qed
      show ?thesis
      proof (cases "sm_bar st \<le> nat v")
        case False
        then have "0 < load tv_posts V (todo pos st) (nat v)" using v(2) counts [OF vnb(1)] by simp
        then obtain u where u: "u \<in> todo pos st" "v \<in> set (tv_posts (V u))" using load_positive_task vnb(2) by fastforce
        have "u < ?t" using order v(1) u(2) unfolding in_order_def by blast
        then show ?thesis using least [OF u(1)] by simp
      qed (use v(1) in auto)
    qed (auto simp: blocked_posts_def)
    then obtain v where v: "v \<in> set (tv_waits (V ?t) @ tv_posts (V ?t))" "sm_bar st \<le> nat v" by blast
    have "nat v < nb"
    proof -
      have "\<forall>k<length (pos q). user_view nb (bs_vdt st) (queue_users q st ! k) (V (pos q ! k))"
        using inv q(1) by (simp add: sim_inv_def sim_static_def)
      then have "user_view nb (bs_vdt st) (queue_users q st ! queue_index q st) (V ?t)" using ne head by (auto simp: head_of_def)
      then show ?thesis using range_view_in v(1) by (auto simp: user_view_def)
    qed
    then have full: "free_pids (sm_toVirtual st) = {}" using stuck v(2) by (auto simp: stuck_def)
    have "length (sm_toVirtual st) \<le> card (pending_barriers V ?t (nat v))"
    proof (rule full_mapping [OF core full finite_pending])
      fix w assume w: "w < sm_bar st" "w \<in> no_consumer V \<or> 0 < cons_count st w"
      have "w \<in> no_consumer V \<or> (\<exists>u\<ge>?t. int w \<in> set (tv_waits (V u)))"
      proof (cases "w \<in> no_consumer V")
        case False
        then have "0 < load tv_waits V (todo pos st) w" using w counts [of w] bar by simp
        then show ?thesis using load_positive_task least by blast
      qed simp
      then show "w \<in> pending_barriers V ?t (nat v)" using w(1) v(2) by (auto simp: pending_barriers_def)
    qed
    moreover have "card (pending_barriers V ?t (nat v)) < length (sm_toVirtual st)" using enough v(1) unfolding enough_barriers_def by blast
    ultimately show False by simp
  qed
qed

end
