(* ===== verification/Barrier_Parse.thy ===== *)
theory Barrier_Parse
  imports Barrier_Simulation
begin

text \<open>
  The simulator that is read from a function of virtual barriers: every task is on one queue, in program order, with
  the barriers the function gives it, and the counts of a barrier are the variants of the tasks that use it.
\<close>

section \<open>Functions that can be simulated\<close>

definition dma_id :: "task_op \<Rightarrow> int option" where
  "dma_id op = (if to_executorKind op \<noteq> DMA_NN then None
     else case to_inner op of DmaTask (Some p) c \<Rightarrow> Some (getDMAQueueIdEncoding p c) | _ \<Rightarrow> None)"

text \<open>The DMA queues in the order in which they are first used.\<close>

definition see_dma :: "task_op \<Rightarrow> int list \<Rightarrow> int list" where
  "see_dma op ids = (case dma_id op of None \<Rightarrow> ids | Some x \<Rightarrow> if x \<in> set ids then ids else ids @ [x])"

definition dma_ids :: "task_op list \<Rightarrow> int list" where
  "dma_ids ops = fold see_dma ops []"

definition dma_index :: "int list \<Rightarrow> int \<Rightarrow> nat" where
  "dma_index ids x = length (takeWhile (\<lambda>y. y \<noteq> x) ids)"

definition queue_of :: "int list \<Rightarrow> task_op \<Rightarrow> sim_queue" where
  "queue_of ids op = (case to_executorKind op of
       DPU \<Rightarrow> DpuQueue | SHAVE_ACT \<Rightarrow> ActQueue | M2I \<Rightarrow> M2iQueue
     | DMA_NN \<Rightarrow> DmaQueue (case dma_id op of None \<Rightarrow> 0 | Some x \<Rightarrow> dma_index ids x) | _ \<Rightarrow> DmaQueue 0)"

definition sim_slots :: "task_op \<Rightarrow> int" where
  "sim_slots op = (if to_executorKind op = DPU then (case getNumOfSlotsUsed op of Inl _ \<Rightarrow> 0 | Inr n \<Rightarrow> int n) else 1)"

definition vids_of :: "nat option list \<Rightarrow> int list" where
  "vids_of bars = map (\<lambda>b. case b of None \<Rightarrow> -1 | Some v \<Rightarrow> int v) bars"

definition func_view :: "task_op list \<Rightarrow> nat \<Rightarrow> task_view" where
  "func_view ops t = (if t < length ops
     then \<lparr>tv_count = sim_slots (ops ! t), tv_waits = vids_of (to_waitBarriers (ops ! t)), tv_posts = vids_of (to_updateBarriers (ops ! t))\<rparr>
     else \<lparr>tv_count = 1, tv_waits = [], tv_posts = []\<rparr>)"

definition func_pos :: "task_op list \<Rightarrow> sim_queue \<Rightarrow> nat list" where
  "func_pos ops q = filter (\<lambda>t. queue_of (dma_ids ops) (ops ! t) = q) [0..<length ops]"

text \<open>A task the simulator accepts: its operands are barriers of the function, and its executor has a queue.\<close>

definition operands_fit :: "nat \<Rightarrow> nat option list \<Rightarrow> bool" where
  "operands_fit nb bars \<longleftrightarrow> list_all (\<lambda>b. case b of None \<Rightarrow> False | Some v \<Rightarrow> v < nb) bars"

definition task_fits :: "nat \<Rightarrow> nat \<Rightarrow> task_op \<Rightarrow> bool" where
  "task_fits nb E op \<longleftrightarrow> operands_fit nb (to_waitBarriers op @ to_updateBarriers op) \<and>
     (case to_executorKind op of
        DMA_NN \<Rightarrow> dma_id op \<noteq> None
      | DPU \<Rightarrow> (case to_inner op of NceTask variants \<Rightarrow> to_perVariantBarriers op \<or> variants \<noteq> [] | _ \<Rightarrow> False)
      | SHAVE_ACT \<Rightarrow> True | M2I \<Rightarrow> True | UNKNOWN_EXECUTOR \<Rightarrow> 0 < E | _ \<Rightarrow> False)"

definition page_of :: "sim_item \<Rightarrow> nat option" where
  "page_of i = (case i of DeclareVirtualBarrier b \<Rightarrow> vb_page b | _ \<Rightarrow> None)"

text \<open>
  The function has virtual barriers only, with a page each or none at all, tasks that fit, and no more DMA queues than
  the platform.
\<close>

definition sim_func_ok :: "nat \<Rightarrow> sim_item list \<Rightarrow> bool" where
  "sim_func_ok E func \<longleftrightarrow> sim_barriers func \<noteq> [] \<and> length (sim_barriers func) < 2 ^ 32 \<and>
     list_all (\<lambda>i. case i of DeclareVirtualBarrier _ \<Rightarrow> True | _ \<Rightarrow> False) (sim_barriers func) \<and>
     (list_all (\<lambda>i. page_of i = None) (sim_barriers func) \<or> list_all (\<lambda>i. page_of i \<noteq> None) (sim_barriers func)) \<and>
     list_all (task_fits (length (sim_barriers func)) E) (sim_tasks func) \<and> length (dma_ids (sim_tasks func)) \<le> E"

lemma operands_fit_simps [simp]:
  "operands_fit nb []"
  "operands_fit nb (b # bars) \<longleftrightarrow> (case b of None \<Rightarrow> False | Some v \<Rightarrow> v < nb) \<and> operands_fit nb bars"
  "operands_fit nb (bars @ bars') \<longleftrightarrow> operands_fit nb bars \<and> operands_fit nb bars'"
  by (simp_all add: operands_fit_def)

section \<open>Reading the barriers\<close>

text \<open>What reading the barriers leaves alone.\<close>

definition barriers_read :: "nat \<Rightarrow> barrier_simulator \<Rightarrow> barrier_simulator \<Rightarrow> bool" where
  "barriers_read k s s' \<longleftrightarrow> bs_barriers s' = replicate k (new_config (-1)) \<and> (0 < k \<longrightarrow> bs_isDynamic s') \<and>
     bs_producerSlotCount s' = bs_producerSlotCount s \<and> bs_totalSlotCount s' = bs_totalSlotCount s \<and>
     bs_availableBarriers s' = bs_availableBarriers s \<and> bs_usedBarriers s' = bs_usedBarriers s \<and>
     bs_wlmPid s' = bs_wlmPid s \<and> bs_dmaTasks s' = bs_dmaTasks s \<and> bs_nceTasks s' = bs_nceTasks s \<and>
     bs_actTasks s' = bs_actTasks s \<and> bs_m2iTasks s' = bs_m2iTasks s \<and> bs_vdt s' = bs_vdt s \<and> bs_batches s' = bs_batches s \<and>
     bs_pidToVid s' = bs_pidToVid s \<and> bs_order s' = bs_order s \<and> bs_wlm s' = bs_wlm s \<and> bs_info s' = bs_info s"

lemma virtual_barriers_loop:
  "barriers_read k s0 s \<Longrightarrow> (0 < k \<longrightarrow> bs_wlmPage s = paged) \<Longrightarrow> (k = 0 \<longrightarrow> \<not> bs_wlmPage s) \<Longrightarrow>
    list_all (\<lambda>i. (\<exists>b. i = DeclareVirtualBarrier b) \<and> (page_of i \<noteq> None) = paged) bars \<Longrightarrow>
    \<exists>s'. res_fold parse_virtual_barrier (enumerate k bars) s = Inr s' \<and> barriers_read (k + length bars) s0 s'"
proof (induction bars arbitrary: k s)
  case (Cons i bars)
  obtain b where i: "i = DeclareVirtualBarrier b" "(vb_page b \<noteq> None) = paged" using Cons.prems(4) by (auto simp: page_of_def)
  have len: "length (bs_barriers s) = k" using Cons.prems(1) by (simp add: barriers_read_def)
  obtain s1 where s1: "parse_virtual_barrier (k, i) s = Inr s1" "barriers_read (Suc k) s0 s1" "bs_wlmPage s1 = paged"
  proof (cases "vb_page b")
    case None
    then have "\<not> bs_wlmPage s" using i(2) Cons.prems(2,3) by auto
    then show thesis using that Cons.prems(1) None i(2)
      by (auto simp: parse_virtual_barrier_def i(1) len barriers_read_def replicate_append_same Let_def)
  next
    case (Some p)
    then have "k = 0 \<or> bs_wlmPage s" using i(2) Cons.prems(2) by auto
    then show thesis using that Cons.prems(1) Some i(2)
      by (auto simp: parse_virtual_barrier_def i(1) len barriers_read_def replicate_append_same Let_def)
  qed
  then show ?case using Cons.IH [OF s1(2)] Cons.prems(4) by simp
qed simp

lemma configure_barriers_loop:
  "list_all (\<lambda>i. \<exists>b. i = DeclareVirtualBarrier b) bars \<Longrightarrow> res_fold parse_configure_barrier (enumerate k bars) s = Inr s"
  by (induction bars arbitrary: k) (auto simp: parse_configure_barrier_def)

lemma parseBarriers_spec:
  assumes ok: "sim_func_ok E func" and s: "bs_barriers s = []"
  shows "\<exists>s'. parseBarriers (enumerate 0 (sim_barriers func)) s = Inr s' \<and> barriers_read (length (sim_barriers func)) s s'"
proof -
  let ?bars = "sim_barriers func" and ?s = "s\<lparr>bs_isDynamic := False, bs_wlmPage := False\<rparr>"
  have virt: "list_all (\<lambda>i. \<exists>b. i = DeclareVirtualBarrier b) ?bars"
  proof -
    have "list_all (\<lambda>i. case i of DeclareVirtualBarrier _ \<Rightarrow> True | _ \<Rightarrow> False) ?bars" using ok unfolding sim_func_ok_def by blast
    then show ?thesis by (rule list.pred_mono_strong) (simp split: sim_item.splits)
  qed
  obtain paged where "list_all (\<lambda>i. (page_of i \<noteq> None) = paged) ?bars"
  proof -
    have "list_all (\<lambda>i. page_of i = None) ?bars \<or> list_all (\<lambda>i. page_of i \<noteq> None) ?bars" using ok unfolding sim_func_ok_def by blast
    then show thesis using that [of False] that [of True] by auto
  qed
  then have "list_all (\<lambda>i. (\<exists>b. i = DeclareVirtualBarrier b) \<and> (page_of i \<noteq> None) = paged) ?bars"
    using virt by (auto simp: list_all_iff)
  from virtual_barriers_loop [OF _ _ _ this, of 0 s ?s] s
  obtain s' where "res_fold parse_virtual_barrier (enumerate 0 ?bars) ?s = Inr s'" "barriers_read (length ?bars) s s'"
    by (auto simp: barriers_read_def)
  then show ?thesis using configure_barriers_loop [OF virt] by (intro exI [of _ s']) (simp add: parseBarriers_def)
qed

section \<open>Reading a task\<close>

text \<open>The tracker only grows.\<close>

definition vd_ext :: "virtual_deps \<Rightarrow> virtual_deps \<Rightarrow> bool" where
  "vd_ext d d' \<longleftrightarrow> (\<exists>xs ys. vd_ids d' = vd_ids d @ xs \<and> vd_deps d' = vd_deps d @ ys)"

definition vd_ok :: "virtual_deps \<Rightarrow> bool" where
  "vd_ok d \<longleftrightarrow> vd_deps d \<noteq> [] \<and> hd (vd_deps d) = ((0, 0), (0, 0))"

lemma range_view_ext: "range_view nb d rng vids \<Longrightarrow> vd_ext d d' \<Longrightarrow> range_view nb d' rng vids"
  by (auto simp: range_view_def vd_ext_def nth_append)

lemma user_view_ext:
  assumes "user_view nb d u t" "vd_ext d d'"
  shows "user_view nb d' u t"
proof -
  obtain dep where dep: "vd_dep d (bu_virtualDep u) = Inr dep" "range_view nb d (fst dep) (tv_waits t)" "range_view nb d (snd dep) (tv_posts t)"
    using assms(1) by (auto simp: user_view_def)
  have "vd_dep d' (bu_virtualDep u) = Inr dep"
    using dep(1) assms(2) by (auto simp: vd_dep_def int_at_def vd_ext_def nth_append split: if_splits)
  then show ?thesis using dep(2,3) assms range_view_ext unfolding user_view_def by blast
qed

lemma extract_ids_spec:
  assumes "list_all (\<lambda>b. \<exists>v. b = Some v) bars"
  shows "extract_ids bars ids = Inr ((int (length ids), int (length bars)), ids @ vids_of bars)"
proof -
  have "res_fold (\<lambda>bar (range, ids). map_sum id (\<lambda>vid. ((fst range, snd range + 1), ids @ [vid])) (getVirtualId bar)) bars ((a, b), ids) =
    Inr ((a, b + int (length bars)), ids @ vids_of bars)" for a b
    using assms by (induction bars arbitrary: b ids) (auto simp: getVirtualId_def vids_of_def)
  from this [of "int (length ids)" 0] show ?thesis by (simp add: extract_ids_def)
qed

lemma vids_of_range: "operands_fit nb bars \<Longrightarrow> set (vids_of bars) \<subseteq> {0..<int nb}"
  by (auto simp: vids_of_def operands_fit_def list_all_iff split: option.splits)

lemma vd_add_spec:
  assumes fits: "operands_fit nb (to_waitBarriers op @ to_updateBarriers op)" and d: "vd_ok d"
    and cnt: "1 \<le> cnt"
  shows "\<exists>i d'. vd_add op d = Inr (i, d') \<and> vd_ext d d' \<and> vd_ok d' \<and>
    user_view nb d' (new_user i cnt) \<lparr>tv_count = cnt, tv_waits = vids_of (to_waitBarriers op), tv_posts = vids_of (to_updateBarriers op)\<rparr>"
proof -
  let ?w = "to_waitBarriers op" and ?u = "to_updateBarriers op"
  let ?n = "int (length (vd_ids d))" and ?ids = "vd_ids d @ vids_of ?w @ vids_of ?u"
  let ?dep = "((?n, int (length ?w)), (?n + int (length ?w), int (length ?u)))"
  have w: "list_all (\<lambda>b. \<exists>v. b = Some v) ?w" and u: "list_all (\<lambda>b. \<exists>v. b = Some v) ?u"
    using fits by (auto simp: operands_fit_def list_all_iff split: option.splits)
  have in_w: "set (vids_of ?w) \<subseteq> {0..<int nb}" and in_u: "set (vids_of ?u) \<subseteq> {0..<int nb}"
    using vids_of_range fits by simp_all
  have len [simp]: "length (vids_of bs) = length bs" for bs by (simp add: vids_of_def)
  have add: "vd_add op d = Inr (if ?w \<noteq> [] \<or> ?u \<noteq> [] then vd_push ?dep (d\<lparr>vd_ids := ?ids\<rparr>) else (0, d\<lparr>vd_ids := ?ids\<rparr>))"
    by (auto simp: vd_add_def extract_ids_spec [OF w] extract_ids_spec [OF u])
  show ?thesis
  proof (cases "?w \<noteq> [] \<or> ?u \<noteq> []")
    case True
    let ?d = "d\<lparr>vd_ids := ?ids, vd_deps := vd_deps d @ [?dep]\<rparr>"
    have "vd_add op d = Inr (int (length (vd_deps d)), ?d)" using True by (simp add: add vd_push_def)
    moreover have "vd_ext d ?d" by (simp add: vd_ext_def)
    moreover have "vd_ok ?d" using d by (simp add: vd_ok_def)
    moreover have "vd_dep ?d (int (length (vd_deps d))) = Inr ?dep" by (simp add: vd_dep_def vec_at_def)
    moreover have "range_view nb ?d (fst ?dep) (vids_of ?w)" using in_w by (auto simp: range_view_def nth_append)
    moreover have "range_view nb ?d (snd ?dep) (vids_of ?u)" using in_u by (auto simp: range_view_def nth_append nat_add_distrib)
    ultimately show ?thesis using cnt by (auto simp: user_view_def new_user_def)
  next
    case False
    then have "vd_add op d = Inr (0, d)" by (simp add: add vids_of_def)
    moreover have "vd_dep d 0 = Inr ((0, 0), (0, 0))" using d by (cases "vd_deps d") (simp_all add: vd_dep_def int_at_def vec_at_def vd_ok_def)
    moreover have "vd_ext d d" by (simp add: vd_ext_def)
    ultimately show ?thesis using False cnt d by (auto simp: user_view_def new_user_def range_view_def vids_of_def)
  qed
qed

text \<open>Adding to a count of the barriers in a list of operands.\<close>

lemma add_count_spec:
  assumes "\<And>b. inc 0 b = b" "\<And>x y b. inc x (inc y b) = inc (y + x) b"
  shows "operands_fit (length (bs_barriers s)) bars \<Longrightarrow>
    \<exists>B. add_count inc cnt bars s = Inr (s\<lparr>bs_barriers := B\<rparr>) \<and> length B = length (bs_barriers s) \<and>
      (\<forall>v<length (bs_barriers s). B ! v = inc (cnt * int (count_list (vids_of bars) (int v))) (bs_barriers s ! v))"
proof (induction bars arbitrary: s)
  case Nil
  show ?case by (rule exI [of _ "bs_barriers s"]) (simp add: add_count_def vids_of_def assms)
next
  case (Cons bar bars)
  then obtain v where v: "bar = Some v" "v < length (bs_barriers s)" by (auto split: option.splits)
  define B1 where "B1 = (bs_barriers s)[v := inc cnt (bs_barriers s ! v)]"
  let ?s = "s\<lparr>bs_barriers := B1\<rparr>"
  have len: "length B1 = length (bs_barriers s)" by (simp add: B1_def)
  have step: "add_count inc cnt (bar # bars) s = add_count inc cnt bars ?s"
    using v by (simp add: add_count_def getVirtualId_def vec_at_def B1_def)
  have "operands_fit (length (bs_barriers ?s)) bars" using Cons.prems by (simp add: len)
  from Cons.IH [OF this] obtain B where B: "add_count inc cnt bars ?s = Inr (?s\<lparr>bs_barriers := B\<rparr>)" "length B = length (bs_barriers s)"
    "\<forall>w<length (bs_barriers s). B ! w = inc (cnt * int (count_list (vids_of bars) (int w))) (B1 ! w)" by (auto simp: len)
  have "B ! w = inc (cnt * int (count_list (vids_of (bar # bars)) (int w))) (bs_barriers s ! w)" if "w < length (bs_barriers s)" for w
  proof (cases "w = v")
    case True
    then show ?thesis using B(3) that v(1) by (simp add: B1_def vids_of_def assms(2) algebra_simps)
  next
    case False
    then show ?thesis using B(3) that v(1) by (simp add: B1_def vids_of_def)
  qed
  then show ?case using B(1,2) step by (intro exI [of _ B]) simp
qed

lemma updateBarrierConfigs_spec:
  assumes "operands_fit (length (bs_barriers s)) (to_waitBarriers op @ to_updateBarriers op)"
  shows "\<exists>B. updateBarrierConfigs op cnt s = Inr (s\<lparr>bs_barriers := B\<rparr>) \<and> length B = length (bs_barriers s) \<and>
    (\<forall>v<length (bs_barriers s). B ! v = (bs_barriers s ! v)\<lparr>
       bc_consumerCount := bc_consumerCount (bs_barriers s ! v) + cnt * int (count_list (vids_of (to_waitBarriers op)) (int v)),
       bc_producerCount := bc_producerCount (bs_barriers s ! v) + cnt * int (count_list (vids_of (to_updateBarriers op)) (int v))\<rparr>)"
proof -
  have w: "operands_fit (length (bs_barriers s)) (to_waitBarriers op)" and u: "operands_fit (length (bs_barriers s)) (to_updateBarriers op)"
    using assms by simp_all
  obtain B1 where B1: "add_count (\<lambda>c b. b\<lparr>bc_consumerCount := bc_consumerCount b + c\<rparr>) cnt (to_waitBarriers op) s = Inr (s\<lparr>bs_barriers := B1\<rparr>)"
    "length B1 = length (bs_barriers s)" "\<forall>v<length (bs_barriers s). B1 ! v = (bs_barriers s ! v)\<lparr>
       bc_consumerCount := bc_consumerCount (bs_barriers s ! v) + cnt * int (count_list (vids_of (to_waitBarriers op)) (int v))\<rparr>"
    using add_count_spec [OF _ _ w, of "\<lambda>c b. b\<lparr>bc_consumerCount := bc_consumerCount b + c\<rparr>" cnt] by auto
  have "operands_fit (length (bs_barriers (s\<lparr>bs_barriers := B1\<rparr>))) (to_updateBarriers op)" using u B1(2) by simp
  from add_count_spec [OF _ _ this, of "\<lambda>c b. b\<lparr>bc_producerCount := bc_producerCount b + c\<rparr>" cnt]
  obtain B where B: "add_count (\<lambda>c b. b\<lparr>bc_producerCount := bc_producerCount b + c\<rparr>) cnt (to_updateBarriers op) (s\<lparr>bs_barriers := B1\<rparr>) =
      Inr (s\<lparr>bs_barriers := B\<rparr>)" "length B = length (bs_barriers s)" "\<forall>v<length (bs_barriers s). B ! v = (B1 ! v)\<lparr>
       bc_producerCount := bc_producerCount (B1 ! v) + cnt * int (count_list (vids_of (to_updateBarriers op)) (int v))\<rparr>"
    using B1(2) by auto
  show ?thesis using B1 B by (intro exI [of _ B]) (simp add: updateBarrierConfigs_def)
qed

section \<open>The queues\<close>

lemma dma_ids_prefix: "\<exists>later. fold see_dma ops ids = ids @ later"
proof (induction ops arbitrary: ids)
  case (Cons op ops)
  have "\<exists>m. see_dma op ids = ids @ m" by (auto simp: see_dma_def split: option.splits)
  then obtain m where "see_dma op ids = ids @ m" by blast
  then show ?case using Cons.IH [of "see_dma op ids"] by auto
qed simp

lemma dma_ids_take: "\<exists>later. dma_ids ops = dma_ids (take k ops) @ later"
  using dma_ids_prefix [of "drop k ops" "fold see_dma (take k ops) []"] append_take_drop_id [of k ops]
  unfolding dma_ids_def by (metis comp_apply fold_append)

lemma dma_ids_Suc: "k < length ops \<Longrightarrow> dma_ids (take (Suc k) ops) = see_dma (ops ! k) (dma_ids (take k ops))"
  by (simp add: dma_ids_def take_Suc_conv_app_nth)

lemma dma_index_append: "x \<in> set ids \<Longrightarrow> dma_index (ids @ later) x = dma_index ids x"
  "x \<notin> set ids \<Longrightarrow> dma_index (ids @ x # later) x = length ids"
  unfolding dma_index_def by (induction ids) auto

lemma dma_index_less: "x \<in> set ids \<Longrightarrow> dma_index ids x < length ids"
  unfolding dma_index_def by (induction ids) auto

lemma map_of_dma: "map_of (zip ids [m..<m + length ids]) x = (if x \<in> set ids then Some (m + dma_index ids x) else None)"
proof (induction ids arbitrary: m)
  case (Cons y ids)
  have "[m..<m + length (y # ids)] = m # [Suc m..<Suc m + length ids]" by (subst upt_rec) simp
  then show ?case using Cons.IH [of "Suc m"] by (simp add: dma_index_def del: upt_Suc)
qed simp

definition dma_map :: "task_op list \<Rightarrow> nat \<Rightarrow> (int \<times> nat) list" where
  "dma_map ops k = zip (dma_ids (take k ops)) [0..<length (dma_ids (take k ops))]"

text \<open>The queue that the code finds or opens for a DMA is the one of its first use.\<close>

lemma dma_queue_found:
  assumes k: "k < length ops" and x: "dma_id (ops ! k) = Some x"
  shows "(case map_of (dma_map ops k) x of None \<Rightarrow> (length (dma_map ops k), dma_map ops k @ [(x, length (dma_map ops k))])
      | Some e \<Rightarrow> (e, dma_map ops k)) = (dma_index (dma_ids ops) x, dma_map ops (Suc k)) \<and> dma_index (dma_ids ops) x < length (dma_ids ops)"
proof -
  let ?ids = "dma_ids (take k ops)"
  have found: "map_of (dma_map ops k) x = (if x \<in> set ?ids then Some (dma_index ?ids x) else None)"
    using map_of_dma [of ?ids 0 x] by (simp add: dma_map_def)
  have ids: "dma_ids (take (Suc k) ops) = (if x \<in> set ?ids then ?ids else ?ids @ [x])" using dma_ids_Suc [OF k] x by (simp add: see_dma_def)
  obtain later where later: "dma_ids ops = dma_ids (take (Suc k) ops) @ later" using dma_ids_take by blast
  have "x \<in> set (dma_ids ops)" unfolding later ids by simp
  then have less: "dma_index (dma_ids ops) x < length (dma_ids ops)" by (rule dma_index_less)
  have len: "length (dma_map ops k) = length ?ids" by (simp add: dma_map_def)
  show ?thesis
  proof (cases "x \<in> set ?ids")
    case True
    then have "dma_map ops (Suc k) = dma_map ops k" using ids by (simp add: dma_map_def)
    then show ?thesis using found ids later less True by (simp add: dma_index_append)
  next
    case False
    then have "dma_map ops (Suc k) = dma_map ops k @ [(x, length ?ids)]" using ids by (simp add: dma_map_def)
    then show ?thesis using found ids later less len False by (simp add: dma_index_append)
  qed
qed

text \<open>A task joins the end of its queue.\<close>

fun push_user :: "sim_queue \<Rightarrow> barrier_user \<Rightarrow> barrier_simulator \<Rightarrow> barrier_simulator" where
  "push_user (DmaQueue e) u s = s\<lparr>bs_dmaTasks := (bs_dmaTasks s)[e := bs_dmaTasks s ! e @ [u]]\<rparr>"
| "push_user DpuQueue u s = s\<lparr>bs_nceTasks := bs_nceTasks s @ [u]\<rparr>"
| "push_user ActQueue u s = s\<lparr>bs_actTasks := bs_actTasks s @ [u]\<rparr>"
| "push_user M2iQueue u s = s\<lparr>bs_m2iTasks := bs_m2iTasks s @ [u]\<rparr>"

lemma queue_in_sim: "DmaQueue e \<in> set (sim_queues s) \<longleftrightarrow> e < length (bs_dmaTasks s)" "DpuQueue \<in> set (sim_queues s)"
    "ActQueue \<in> set (sim_queues s)" "M2iQueue \<in> set (sim_queues s)"
  by (auto simp: sim_queues_def)

lemma push_user_users:
  assumes "q \<in> set (sim_queues s)"
  shows "queue_users q' (push_user q u s) = (if q' = q then queue_users q s @ [u] else queue_users q' s)"
proof (cases q)
  case (DmaQueue e)
  then have "e < length (bs_dmaTasks s)" using assms by (simp add: queue_in_sim)
  then show ?thesis using DmaQueue by (cases q') simp_all
qed (cases q'; simp)+

lemma push_user_frame:
  "sim_queues (push_user q u s) = sim_queues s \<and> bs_vdt (push_user q u s) = bs_vdt s \<and> bs_barriers (push_user q u s) = bs_barriers s \<and>
   bs_isDynamic (push_user q u s) = bs_isDynamic s \<and> bs_wlmPid (push_user q u s) = bs_wlmPid s \<and> bs_pidToVid (push_user q u s) = bs_pidToVid s \<and>
   bs_availableBarriers (push_user q u s) = bs_availableBarriers s \<and> length (bs_dmaTasks (push_user q u s)) = length (bs_dmaTasks s)"
  by (cases q) (simp_all add: sim_queues_def)

lemma slots_positive: "task_fits nb E op \<Longrightarrow> 1 \<le> sim_slots op"
  by (auto simp: task_fits_def sim_slots_def getNumOfSlotsUsed_def Suc_le_eq split: inner_task.splits)

lemma parse_task_eq:
  assumes k: "k < length ops" and fits: "task_fits nb E (ops ! k)" and E: "length (dma_ids ops) \<le> E" "length (bs_dmaTasks s) = E"
    and add: "vd_add (ops ! k) (bs_vdt s) = Inr (i, d)"
  defines "q \<equiv> queue_of (dma_ids ops) (ops ! k)"
  shows "q \<in> set (sim_queues s)"
    "parse_task (ops ! k) (s, dma_map ops k) = map_sum id (\<lambda>s. (s, dma_map ops (Suc k)))
      (updateBarrierConfigs (ops ! k) (sim_slots (ops ! k)) (push_user q (new_user i (sim_slots (ops ! k))) (s\<lparr>bs_vdt := d\<rparr>)))"
proof -
  let ?op = "ops ! k"
  have same: "dma_map ops (Suc k) = dma_map ops k" if "dma_id ?op = None"
    using dma_ids_Suc [OF k] that by (simp add: dma_map_def see_dma_def)
  have "q \<in> set (sim_queues s) \<and> parse_task ?op (s, dma_map ops k) = map_sum id (\<lambda>s. (s, dma_map ops (Suc k)))
      (updateBarrierConfigs ?op (sim_slots ?op) (push_user q (new_user i (sim_slots ?op)) (s\<lparr>bs_vdt := d\<rparr>)))"
  proof (cases "to_executorKind ?op")
    case DMA_NN
    then obtain p c where x: "dma_id ?op = Some (getDMAQueueIdEncoding p c)" "to_inner ?op = DmaTask (Some p) c"
      using fits by (auto simp: task_fits_def dma_id_def split: inner_task.splits option.splits)
    note found = dma_queue_found [OF k x(1), THEN conjunct1] and less = dma_queue_found [OF k x(1), THEN conjunct2]
    have e: "dma_index (dma_ids ops) (getDMAQueueIdEncoding p c) < length (bs_dmaTasks s)" using less E by linarith
    show ?thesis using DMA_NN x e add
      by (simp add: parse_task_def q_def queue_of_def queue_in_sim sim_slots_def Let_def found)
  next
    case DPU
    then obtain variants where v: "to_inner ?op = NceTask variants" using fits by (auto simp: task_fits_def split: inner_task.splits)
    have "dma_id ?op = None" using DPU by (simp add: dma_id_def)
    then show ?thesis using DPU v add same
      by (simp add: parse_task_def q_def queue_of_def queue_in_sim sim_slots_def getNumOfSlotsUsed_def)
  next
    case UNKNOWN_EXECUTOR
    then have "0 < E" using fits by (simp add: task_fits_def)
    moreover have "dma_id ?op = None" using UNKNOWN_EXECUTOR by (simp add: dma_id_def)
    ultimately show ?thesis using UNKNOWN_EXECUTOR add same E(2)
      by (auto simp: parse_task_def q_def queue_of_def queue_in_sim sim_slots_def)
  qed (use fits add same in \<open>auto simp: parse_task_def q_def queue_of_def queue_in_sim sim_slots_def task_fits_def dma_id_def\<close>)
  then show "q \<in> set (sim_queues s)" "parse_task ?op (s, dma_map ops k) = map_sum id (\<lambda>s. (s, dma_map ops (Suc k)))
      (updateBarrierConfigs ?op (sim_slots ?op) (push_user q (new_user i (sim_slots ?op)) (s\<lparr>bs_vdt := d\<rparr>)))" by simp_all
qed

section \<open>The parsed simulator\<close>

text \<open>What is known when the first \<^verbatim>\<open>k\<close> tasks are read.\<close>

definition pos_upto :: "task_op list \<Rightarrow> nat \<Rightarrow> sim_queue \<Rightarrow> nat list" where
  "pos_upto ops k q = filter (\<lambda>t. queue_of (dma_ids ops) (ops ! t) = q) [0..<k]"

definition parsed :: "nat \<Rightarrow> nat \<Rightarrow> int \<Rightarrow> task_op list \<Rightarrow> nat \<Rightarrow> barrier_simulator \<Rightarrow> bool" where
  "parsed nb E avail ops k s \<longleftrightarrow> bs_isDynamic s \<and> \<not> bs_wlmPid s \<and> bs_pidToVid s = [] \<and> bs_availableBarriers s = avail \<and>
     length (bs_barriers s) = nb \<and> (\<forall>v<nb. bc_realId (bs_barriers s ! v) = -1 \<and>
        bc_consumerCount (bs_barriers s ! v) = load tv_waits (func_view ops) {..<k} v \<and>
        bc_producerCount (bs_barriers s ! v) = load tv_posts (func_view ops) {..<k} v) \<and>
     length (bs_dmaTasks s) = E \<and> vd_ok (bs_vdt s) \<and>
     (\<forall>q\<in>set (sim_queues s). list_all2 (\<lambda>u t. user_view nb (bs_vdt s) u (func_view ops t)) (queue_users q s) (pos_upto ops k q)) \<and>
     (\<forall>t<k. queue_of (dma_ids ops) (ops ! t) \<in> set (sim_queues s))"

lemma load_Suc: "load sel V {..<Suc k} v = load sel V {..<k} v + tv_count (V k) * int (count_list (sel (V k)) (int v))"
  by (simp add: load_def)

lemma parse_task_spec:
  assumes inv: "parsed nb E avail ops k s" and k: "k < length ops" and fits: "task_fits nb E (ops ! k)" and E: "length (dma_ids ops) \<le> E"
  shows "\<exists>s'. parse_task (ops ! k) (s, dma_map ops k) = Inr (s', dma_map ops (Suc k)) \<and> parsed nb E avail ops (Suc k) s'"
proof -
  let ?op = "ops ! k" and ?V = "func_view ops"
  let ?n = "sim_slots ?op"
  define q where "q = queue_of (dma_ids ops) ?op"
  have view: "?V k = \<lparr>tv_count = ?n, tv_waits = vids_of (to_waitBarriers ?op), tv_posts = vids_of (to_updateBarriers ?op)\<rparr>"
    using k by (simp add: func_view_def)
  have fit: "operands_fit nb (to_waitBarriers ?op @ to_updateBarriers ?op)" using fits by (simp add: task_fits_def)
  have ok: "vd_ok (bs_vdt s)" and len: "length (bs_barriers s) = nb" and dmas: "length (bs_dmaTasks s) = E" using inv by (simp_all add: parsed_def)
  obtain i d where add: "vd_add ?op (bs_vdt s) = Inr (i, d)" "vd_ext (bs_vdt s) d" "vd_ok d" "user_view nb d (new_user i ?n) (?V k)"
    using vd_add_spec [OF fit ok slots_positive [OF fits]] view by auto
  define s1 where "s1 = push_user q (new_user i ?n) (s\<lparr>bs_vdt := d\<rparr>)"
  note frame = push_user_frame [of q "new_user i ?n" "s\<lparr>bs_vdt := d\<rparr>"]
  have task: "parse_task ?op (s, dma_map ops k) = map_sum id (\<lambda>s. (s, dma_map ops (Suc k))) (updateBarrierConfigs ?op ?n s1)"
    and q: "q \<in> set (sim_queues s)"
    using parse_task_eq [OF k fits E dmas add(1)] by (simp_all add: s1_def q_def)
  have bars1: "bs_barriers s1 = bs_barriers s" using frame by (simp add: s1_def)
  obtain B where B: "updateBarrierConfigs ?op ?n s1 = Inr (s1\<lparr>bs_barriers := B\<rparr>)" "length B = nb"
    "\<forall>v<nb. B ! v = (bs_barriers s ! v)\<lparr>
       bc_consumerCount := bc_consumerCount (bs_barriers s ! v) + ?n * int (count_list (vids_of (to_waitBarriers ?op)) (int v)),
       bc_producerCount := bc_producerCount (bs_barriers s ! v) + ?n * int (count_list (vids_of (to_updateBarriers ?op)) (int v))\<rparr>"
    using updateBarrierConfigs_spec [of s1 ?op ?n] fit len bars1 by auto
  let ?s = "s1\<lparr>bs_barriers := B\<rparr>"
  have users: "queue_users q' ?s = (if q' = q then queue_users q s @ [new_user i ?n] else queue_users q' s)" for q'
  proof -
    have "q \<in> set (sim_queues (s\<lparr>bs_vdt := d\<rparr>))" using q by (simp add: sim_queues_def)
    from push_user_users [OF this, of q'] show ?thesis unfolding s1_def by (cases q'; cases q) simp_all
  qed
  have pos: "pos_upto ops (Suc k) q' = (if q' = q then pos_upto ops k q @ [k] else pos_upto ops k q')" for q'
    by (simp add: pos_upto_def q_def)
  have queues: "sim_queues ?s = sim_queues s" and vdt: "bs_vdt ?s = d" using frame by (simp_all add: s1_def sim_queues_def)
  have "list_all2 (\<lambda>u t. user_view nb (bs_vdt ?s) u (?V t)) (queue_users q' ?s) (pos_upto ops (Suc k) q')" if "q' \<in> set (sim_queues s)" for q'
  proof -
    have "list_all2 (\<lambda>u t. user_view nb (bs_vdt s) u (?V t)) (queue_users q' s) (pos_upto ops k q')" using inv that by (simp add: parsed_def)
    then have "list_all2 (\<lambda>u t. user_view nb d u (?V t)) (queue_users q' s) (pos_upto ops k q')"
      by (rule list_all2_mono) (use user_view_ext [OF _ add(2)] in blast)
    then show ?thesis using add(4) unfolding users pos vdt by (cases "q' = q") (auto intro: list_all2_appendI)
  qed
  moreover have "\<forall>v<nb. bc_realId (B ! v) = -1 \<and> bc_consumerCount (B ! v) = load tv_waits ?V {..<Suc k} v \<and>
      bc_producerCount (B ! v) = load tv_posts ?V {..<Suc k} v"
    using B(3) inv by (simp add: parsed_def load_Suc view)
  moreover have "\<forall>t<Suc k. queue_of (dma_ids ops) (ops ! t) \<in> set (sim_queues s)" using inv q by (simp add: parsed_def q_def less_Suc_eq)
  ultimately have "parsed nb E avail ops (Suc k) ?s"
    using inv frame B(2) add(3) unfolding parsed_def queues vdt by (simp add: s1_def)
  then show ?thesis using task B(1) by (intro exI [of _ ?s]) simp
qed

lemma parse_tasks_loop:
  assumes "list_all (task_fits nb E) ops" and E: "length (dma_ids ops) \<le> E"
  shows "parsed nb E avail ops k s \<Longrightarrow> k \<le> length ops \<Longrightarrow>
    \<exists>s'. res_fold parse_task (drop k ops) (s, dma_map ops k) = Inr (s', dma_map ops (length ops)) \<and> parsed nb E avail ops (length ops) s'"
proof (induction "length ops - k" arbitrary: k s)
  case (Suc m)
  then have k: "k < length ops" by simp
  have "task_fits nb E (ops ! k)" using assms(1) k by (simp add: list_all_length)
  from parse_task_spec [OF Suc.prems(1) k this E] obtain s1 where s1: "parse_task (ops ! k) (s, dma_map ops k) = Inr (s1, dma_map ops (Suc k))"
    "parsed nb E avail ops (Suc k) s1" by blast
  have "m = length ops - Suc k" "Suc k \<le> length ops" using Suc.hyps(2) k by simp_all
  from Suc.hyps(1) [OF this(1) s1(2) this(2)] show ?case using s1(1) k by (simp add: Cons_nth_drop_Suc [symmetric] del: drop_Suc_Cons)
qed simp

lemma new_simulator_spec:
  assumes ok: "sim_func_ok E func"
  shows "\<exists>s. new_simulator a b avail E func = Inr s \<and>
    parsed (length (sim_barriers func)) E avail (sim_tasks func) (length (sim_tasks func)) s"
proof -
  let ?nb = "length (sim_barriers func)" and ?ops = "sim_tasks func"
  define s0 where "s0 = \<lparr>bs_producerSlotCount = a, bs_totalSlotCount = b,
       bs_availableBarriers = avail, bs_usedBarriers = 0, bs_barriersMap = Map.empty, bs_barriers = [],
       bs_isDynamic = False, bs_wlmPid = False, bs_wlmPage = False, bs_dmaTasks = replicate E [], bs_nceTasks = [],
       bs_actTasks = [], bs_m2iTasks = [], bs_vdt = new_virtual_deps, bs_batches = [], bs_barrierVID = Map.empty,
       bs_pages = [], bs_pidToVid = [], bs_order = [], bs_wlm = None, bs_info = empty_barrier_info\<rparr>"
  have "bs_barriers s0 = []" by (simp add: s0_def)
  from parseBarriers_spec [OF ok this] obtain s1 where s1: "parseBarriers (enumerate 0 (sim_barriers func)) s0 = Inr s1"
    "barriers_read ?nb s0 s1" by blast
  have small: "?nb < 2 ^ 32" and some: "0 < ?nb" and fits: "list_all (task_fits ?nb E) ?ops" and ids: "length (dma_ids ?ops) \<le> E"
    using ok unfolding sim_func_ok_def by blast+
  have "parsed ?nb E avail ?ops 0 s1"
  proof -
    have "queue_users q s1 = []" if "q \<in> set (sim_queues s1)" for q
      using s1(2) that by (cases q) (auto simp: barriers_read_def s0_def sim_queues_def)
    then show ?thesis using s1(2) some unfolding parsed_def
      by (simp add: barriers_read_def s0_def new_config_def load_def vd_ok_def new_virtual_deps_def pos_upto_def)
  qed
  from parse_tasks_loop [OF fits ids this] obtain s where s: "res_fold parse_task ?ops (s1, []) = Inr (s, dma_map ?ops (length ?ops))"
    "parsed ?nb E avail ?ops (length ?ops) s" by (auto simp: dma_map_def dma_ids_def)
  have "assignVirtualIds func = Inr (enumerate 0 (sim_barriers func))" using small by (simp add: assignVirtualIds_def)
  then have "new_simulator a b avail E func = parseTasks ?ops s1" unfolding new_simulator_def s0_def [symmetric] using s1(1) by simp
  then show ?thesis using s by (intro exI [of _ s]) (simp add: parseTasks_def)
qed

end
