(* ===== verification/Barrier_Guarantees.thy ===== *)
theory Barrier_Guarantees
  imports Barrier_Parse
begin

text \<open>
  What the barrier simulator guarantees of a function that it has read: the simulation returns in every mode of the
  restrictions on reuse, a physical barrier has one live virtual barrier at most, a simulation that fails is blocked,
  and it succeeds when there are enough physical barriers.
\<close>

section \<open>The simulation with restrictions on reuse\<close>

lemma map_barrier_steps:
  assumes inv: "sim_inv nb V pos st" and bar: "sm_bar st < nb" and run: "map_barrier (sm_bar st) st = Inr (r, st')"
  shows "todo pos st' = todo pos st \<and> (if r = None then sm_bar st' = Suc (sm_bar st)
    else sm_bar st' = sm_bar st \<and> sm_progressed st' = sm_progressed st)"
  using map_barrier_cases [OF assms]
proof (elim disjE exE conjE)
  fix q h assume "r = Some ()" "st' = st\<lparr>sm_nextReal := q, bs_wlm := h\<rparr>"
  then show ?thesis unfolding todo_def by (simp add: ring_frame)
next
  fix p q h assume "r = None" "st' = mapped_run p q h st" "int p \<in> free_pids (sm_toVirtual st)"
    "ring_of (length (sm_toVirtual st)) (free_pids (sm_toVirtual st) - {int p}) q"
  then show ?thesis using mapped_run_inv(2) [OF inv bar] by (simp add: mapped_run_def Let_def)
qed

lemma map_barriers_steps:
  "sim_inv nb V pos st \<Longrightarrow> map_barriers st = Inr (r, st') \<Longrightarrow> sim_inv nb V pos st' \<and> sim_step\<^sup>*\<^sup>* st st' \<and>
    remaining nb pos st' \<le> remaining nb pos st \<and> (sm_progressed st' \<longrightarrow> sm_progressed st \<or> remaining nb pos st' < remaining nb pos st)"
proof (induction "nb - sm_bar st" arbitrary: st)
  case 0
  have "length (bs_barriers st) = nb" "sm_bar st = nb" using 0 by (auto simp: sim_inv_def sim_core_def)
  then show ?case using 0 by (simp add: map_barriers_def)
next
  case (Suc m)
  have len: "length (bs_barriers st) = nb" and bar: "sm_bar st < nb" using Suc by (auto simp: sim_inv_def sim_core_def)
  obtain r1 st1 where s1: "map_barrier (sm_bar st) st = Inr (r1, st1)"
    "(case r1 of None \<Rightarrow> res_until map_barrier [Suc (sm_bar st)..<nb] st1 | Some _ \<Rightarrow> Inr (r1, st1)) = Inr (r, st')"
    using Suc.prems(2) by (auto simp: map_barriers_def len upt_conv_Cons bar res_bind_eq_Inr)
  have step: "sim_step st st1" using bar len s1(1) by (intro step_map) simp_all
  note inv1 = map_barrier_inv [OF Suc.prems(1) bar s1(1)] and steps1 = map_barrier_steps [OF Suc.prems(1) bar s1(1)]
  show ?case
  proof (cases r1)
    case (Some u)
    then have "st' = st1" using s1(2) by simp
    then show ?thesis using step inv1 steps1 Some by (auto simp: remaining_def)
  next
    case None
    have less: "remaining nb pos st1 < remaining nb pos st" using steps1 None bar by (simp add: remaining_def)
    have "length (bs_barriers st1) = nb" using inv1 by (simp add: sim_inv_def sim_core_def)
    then have "map_barriers st1 = Inr (r, st')" using s1(2) None steps1 by (simp add: map_barriers_def)
    moreover have "m = nb - sm_bar st1" using Suc.hyps(2) steps1 None by simp
    ultimately have "sim_inv nb V pos st'" "sim_step\<^sup>*\<^sup>* st1 st'" "remaining nb pos st' \<le> remaining nb pos st1"
      using Suc.hyps(1) [OF _ inv1] by simp_all
    then show ?thesis using less step by (auto intro: converse_rtranclp_into_rtranclp)
  qed
qed

lemma sim_iteration_steps:
  assumes inv: "sim_inv nb V pos st" and run: "sim_iteration limit False st = Inr (r, st')"
  shows "sim_inv nb V pos st' \<and> sim_step\<^sup>*\<^sup>* st st' \<and> (r = None \<longrightarrow> remaining nb pos st' < remaining nb pos st) \<and> r \<noteq> Some True"
proof -
  let ?st0 = "st\<lparr>sm_progressed := False\<rparr>"
  obtain u st1 where s1: "map_barriers ?st0 = Inr (u, st1)"
    using run by (auto simp: sim_iteration_def res_bind_eq_Inr)
  note steps1 = map_barriers_steps [OF sim_inv_round [OF inv] s1]
  then have inv1: "sim_inv nb V pos st1" by blast
  obtain st2 where s2: "run_queues st1 = Inr (None, st2)" "ran nb V pos st1 st2" using run_queues_spec [OF inv1] by blast
  have "r = (if sm_progressed st2 then None else Some False) \<and> st' = st2"
    using run s1 s2(1) by (cases "check_blocked st2") (auto simp: sim_iteration_def split: if_splits)
  moreover have "sim_step\<^sup>*\<^sup>* st st2"
    using steps1 s2(2) step_round [of st] by (auto simp: ran_def intro: converse_rtranclp_into_rtranclp rtranclp_trans)
  moreover have "remaining nb pos st2 < remaining nb pos st" if "sm_progressed st2"
    using steps1 s2(2) that by (auto simp: ran_def moved_def remaining_round)
  ultimately show ?thesis using s2(2) by (auto simp: ran_def)
qed

lemma sim_loop_returns:
  "sim_inv nb V pos st \<Longrightarrow> \<exists>r. sim_loop limit False st = Some r \<and>
    (\<forall>b st'. r = Inr (b, st') \<longrightarrow> sim_inv nb V pos st' \<and> sim_step\<^sup>*\<^sup>* st st' \<and> (b \<longrightarrow> sim_finished st'))"
proof (induction "remaining nb pos st" arbitrary: st rule: less_induct)
  case less
  show ?case
  proof (cases "sim_finished st")
    case True
    then have "sim_loop limit False st = Some (Inr (True, st))" by (simp add: sim_loop.simps)
    then show ?thesis using less.prems True by simp
  next
    case False
    show ?thesis
    proof (cases "sim_iteration limit False st")
      case (Inl e)
      then show ?thesis using False by (simp add: sim_loop.simps [of _ _ st])
    next
      case (Inr x)
      obtain r st1 where x: "x = (r, st1)" by (cases x)
      note steps = sim_iteration_steps [OF less.prems Inr [unfolded x]]
      show ?thesis
      proof (cases r)
        case None
        then have small: "remaining nb pos st1 < remaining nb pos st" and inv1: "sim_inv nb V pos st1" using steps by simp_all
        have "sim_loop limit False st = sim_loop limit False st1" using False Inr x None by (simp add: sim_loop.simps [of _ _ st])
        moreover have "sim_step\<^sup>*\<^sup>* st st'" if "sim_step\<^sup>*\<^sup>* st1 st'" for st' using steps that by (blast intro: rtranclp_trans)
        ultimately show ?thesis using less.hyps [OF small inv1] by auto
      next
        case (Some b)
        then show ?thesis using False Inr x steps by (simp add: sim_loop.simps [of _ _ st])
      qed
    qed
  qed
qed

section \<open>The start\<close>

lemma func_pos_props:
  "distinct (func_pos ops q)" "sorted_wrt (<) (func_pos ops q)" "q \<noteq> q' \<Longrightarrow> set (func_pos ops q) \<inter> set (func_pos ops q') = {}"
  by (auto simp: func_pos_def sorted_wrt_filter)

lemma start_run_spec:
  assumes s: "parsed nb E avail ops (length ops) s"
  shows "\<exists>st. start_run n (s\<lparr>bs_wlm := h, bs_wlmPid := w\<rparr>) = Inr st \<and> sim_inv nb (func_view ops) (func_pos ops) st \<and>
    bs_wlmPid st = w \<and> length (sm_toVirtual st) = n"
proof -
  let ?s = "s\<lparr>bs_wlm := h, bs_wlmPid := w\<rparr>" and ?V = "func_view ops" and ?pos = "func_pos ops"
  have dyn: "bs_isDynamic s" using s by (simp add: parsed_def)
  note reset = ring_reset_spec [of "0::int" n empty_ring]
  have fold: "res_fold (\<lambda>p. ring_push (int p)) ps b = res_fold ring_push (map int ps) b" for ps and b :: "int ring_buffer"
    by (induction ps arbitrary: b) (auto intro!: arg_cong2 [of _ _ _ _ res_bind])
  have "length (ring_contents (ring_reset (0::int) n empty_ring)) + length (map int [0..<n]) \<le> ring_capacity (ring_reset (0::int) n empty_ring)"
    unfolding reset by simp
  from rq.push_all [OF reset(1) this]
  obtain b where b: "res_fold ring_push (map int [0..<n]) (ring_reset 0 n empty_ring) = Inr b" "ring_ok b"
    "ring_contents b = map int [0..<n]" "ring_capacity b = n" unfolding reset by auto
  define st where "st = barrier_simulator.extend ?s (sim_run.fields (replicate n (-1)) (replicate n (-1)) b 0
         (replicate (length (bs_dmaTasks s)) 0) 0 0 0 False)"
  have start: "start_run n ?s = Inr st" using b(1) dyn by (simp add: start_run_def fold st_def)
  have st: "bs_isDynamic st = bs_isDynamic s" "bs_pidToVid st = bs_pidToVid s" "bs_barriers st = bs_barriers s" "bs_wlmPid st = w"
    "sm_toVirtual st = replicate n (-1)" "sm_prevVid st = replicate n (-1)" "sm_nextReal st = b" "sm_bar st = 0"
    "sm_dma st = replicate (length (bs_dmaTasks s)) 0" "sm_dpu st = 0" "sm_act st = 0" "sm_m2i st = 0"
    "bs_dmaTasks st = bs_dmaTasks s" "bs_nceTasks st = bs_nceTasks s" "bs_actTasks st = bs_actTasks s" "bs_m2iTasks st = bs_m2iTasks s"
    "bs_vdt st = bs_vdt s"
    unfolding st_def by (simp_all add: barrier_simulator.defs sim_run.defs)
  have queues: "sim_queues st = sim_queues s" by (simp add: sim_queues_def st)
  have users: "queue_users q st = queue_users q s" for q by (cases q) (simp_all add: st)
  have index: "queue_index q st = 0" if "q \<in> set (sim_queues st)" for q
  proof (cases q)
    case (DmaQueue e)
    then show ?thesis using that by (simp add: st queue_in)
  qed (simp_all add: st)
  have pos: "pos_upto ops (length ops) = ?pos" by (rule ext) (simp add: pos_upto_def func_pos_def)
  have views: "list_all2 (\<lambda>u t. user_view nb (bs_vdt s) u (?V t)) (queue_users q s) (?pos q)" if "q \<in> set (sim_queues s)" for q
    using s that by (simp add: parsed_def pos)
  have all: "(\<Union>q\<in>set (sim_queues s). set (?pos q)) = {..<length ops}"
    using s by (auto simp: parsed_def func_pos_def)
  have todo: "todo ?pos st = {..<length ops}" using all index by (simp add: todo_def queues)
  have "sim_static nb ?V ?pos st"
    unfolding sim_static_def queues users
    using views func_pos_props all s by (auto simp: list_all2_conv_all_nth st parsed_def func_view_def)
  moreover have "sim_core nb (no_consumer ?V) st"
    using s b by (auto simp: sim_core_def parsed_def st free_pids_def load_def func_view_def sim_slots_def distinct_map sum_nonneg split: sum.splits)
  moreover have "\<forall>v<nb. cons_count st v = load tv_waits ?V (todo ?pos st) v \<and> prod_count st v = load tv_posts ?V (todo ?pos st) v"
    using s by (simp add: parsed_def todo st)
  ultimately have "sim_inv nb ?V ?pos st" using index by (simp add: sim_inv_def)
  then show ?thesis using start by (intro exI [of _ st]) (simp add: st)
qed

section \<open>The number of physical barriers\<close>

abbreviation pids :: "sim_run \<Rightarrow> nat" where "pids st \<equiv> length (sm_toVirtual st)"

lemma res_until_inv:
  "res_until f xs s = Inr (r, t) \<Longrightarrow> P s \<Longrightarrow> (\<And>x s r s'. P s \<Longrightarrow> f x s = Inr (r, s') \<Longrightarrow> P s') \<Longrightarrow> P t"
proof (induction xs arbitrary: s)
  case (Cons x xs)
  then obtain r1 s1 where s1: "f x s = Inr (r1, s1)" "(case r1 of None \<Rightarrow> res_until f xs s1 | Some _ \<Rightarrow> Inr (r1, s1)) = Inr (r, t)"
    by (auto simp: res_bind_eq_Inr)
  have "P s1" using Cons.prems(2,3) s1(1) by blast
  then show ?case using s1(2) Cons.IH [OF _ _ Cons.prems(3)] by (auto split: option.splits)
qed simp

lemma wait_check_same: "wait_check rng i st = Inr (r, st') \<Longrightarrow> st' = st" "update_check rng i st = Inr (r, st') \<Longrightarrow> st' = st"
  by (auto simp: wait_check_def update_check_def res_bind_eq_Inr)

lemma consume_pids: "consume_barrier cnt rng i (u, st) = Inr (r, u', st') \<Longrightarrow> pids st' = pids st"
  by (auto simp: consume_barrier_def res_bind_eq_Inr Let_def map_sum_eq_Inr split: if_splits)

lemma produce_pids: "produce_barrier cnt rng i (u, st) = Inr (r, u', st') \<Longrightarrow> pids st' = pids st"
  by (auto simp: produce_barrier_def res_bind_eq_Inr Let_def split: if_splits)

lemma processSim_pids:
  assumes "processSim dep u cnt st = Inr (r, u', st')"
  shows "pids st' = pids st"
proof -
  let ?W = "[0..<nat (snd (fst dep))]" and ?P = "[0..<nat (snd (snd dep))]"
  have wait: "st1 = st" if "res_until (wait_check (fst dep)) ?W st = Inr (x, st1)" for x st1
    using res_until_inv [OF that, of "\<lambda>s. s = st"] wait_check_same(1) by blast
  have update: "st1 = st" if "res_until (update_check (snd dep)) ?P st = Inr (x, st1)" for x st1
    using res_until_inv [OF that, of "\<lambda>s. s = st"] wait_check_same(2) by blast
  have consume: "pids st1 = pids s" if "res_until (consume_barrier cnt (fst dep)) ?W (w, s) = Inr (x, y, st1)" for w s x y st1
  proof -
    have "pids (snd z') = pids s" if "pids (snd z) = pids s" "consume_barrier cnt (fst dep) i z = Inr (x, z')" for i z x z'
      using consume_pids [of cnt "fst dep" i "fst z" "snd z" x "fst z'" "snd z'"] that by simp
    from res_until_inv [OF that, of "\<lambda>z. pids (snd z) = pids s", OF _ this] show ?thesis by simp
  qed
  have produce: "pids st1 = pids s" if "res_until (produce_barrier cnt (snd dep)) ?P (w, s) = Inr (x, y, st1)" for w s x y st1
  proof -
    have "pids (snd z') = pids s" if "pids (snd z) = pids s" "produce_barrier cnt (snd dep) i z = Inr (x, z')" for i z x z'
      using produce_pids [of cnt "snd dep" i "fst z" "snd z" x "fst z'" "snd z'"] that by simp
    from res_until_inv [OF that, of "\<lambda>z. pids (snd z) = pids s", OF _ this] show ?thesis by simp
  qed
  obtain x1 where x1: "res_until (wait_check (fst dep)) ?W st = Inr x1" and rest1: "(\<lambda>(r, st). case r of Some status \<Rightarrow> Inr (status, u, st) | None \<Rightarrow>
      res_bind (res_until (update_check (snd dep)) ?P st) (\<lambda>(r, st). case r of Some status \<Rightarrow> Inr (status, u, st) | None \<Rightarrow>
      res_bind (res_until (consume_barrier cnt (fst dep)) ?W (u\<lparr>bu_startAfter := 0\<rparr>, st)) (\<lambda>(r, user, st).
        case r of Some status \<Rightarrow> Inr (status, user, st) | None \<Rightarrow>
      res_bind (res_until (produce_barrier cnt (snd dep)) ?P (user\<lparr>bu_cleanAfter := int (length (bs_barriers st))\<rparr>, st))
        (\<lambda>(r, user, st). Inr (case r of Some status \<Rightarrow> status | None \<Rightarrow> Success, user, st))))) x1 = Inr (r, u', st')"
    using assms unfolding processSim_def Let_def by (rule res_bind_InrE)
  obtain r1 where x1_eq: "x1 = (r1, st)" using x1 wait by (cases x1) blast
  show ?thesis
  proof (cases r1)
    case None
    obtain x2 where x2: "res_until (update_check (snd dep)) ?P st = Inr x2" and rest2: "(\<lambda>(r, st). case r of Some status \<Rightarrow> Inr (status, u, st) | None \<Rightarrow>
      res_bind (res_until (consume_barrier cnt (fst dep)) ?W (u\<lparr>bu_startAfter := 0\<rparr>, st)) (\<lambda>(r, user, st).
        case r of Some status \<Rightarrow> Inr (status, user, st) | None \<Rightarrow>
      res_bind (res_until (produce_barrier cnt (snd dep)) ?P (user\<lparr>bu_cleanAfter := int (length (bs_barriers st))\<rparr>, st))
        (\<lambda>(r, user, st). Inr (case r of Some status \<Rightarrow> status | None \<Rightarrow> Success, user, st)))) x2 = Inr (r, u', st')"
      using rest1 unfolding x1_eq None prod.case option.case by (rule res_bind_InrE)
    obtain r2 where x2_eq: "x2 = (r2, st)" using x2 update by (cases x2) blast
    show ?thesis
    proof (cases r2)
      case r2: None
      obtain r3 u3 st3 where x3: "res_until (consume_barrier cnt (fst dep)) ?W (u\<lparr>bu_startAfter := 0\<rparr>, st) = Inr (r3, u3, st3)"
        and rest3: "(case r3 of Some status \<Rightarrow> Inr (status, u3, st3) | None \<Rightarrow>
          res_bind (res_until (produce_barrier cnt (snd dep)) ?P (u3\<lparr>bu_cleanAfter := int (length (bs_barriers st3))\<rparr>, st3))
            (\<lambda>(r, user, st). Inr (case r of Some status \<Rightarrow> status | None \<Rightarrow> Success, user, st))) = Inr (r, u', st')"
        using rest2 unfolding x2_eq r2 prod.case option.case by (auto elim!: res_bind_InrE)
      note c = consume [OF x3]
      show ?thesis
      proof (cases r3)
        case r3: None
        obtain r4 where "res_until (produce_barrier cnt (snd dep)) ?P (u3\<lparr>bu_cleanAfter := int (length (bs_barriers st3))\<rparr>, st3) = Inr (r4, u', st')"
          using rest3 unfolding r3 option.case by (auto elim!: res_bind_InrE)
        from produce [OF this] c show ?thesis by simp
      qed (use rest3 c in simp)
    qed (use rest2 x2_eq in simp)
  qed (use rest1 x1_eq in simp)
qed

lemma process_task_pids:
  assumes "process_task q k st = Inr (r, st')"
  shows "pids st' = pids st"
proof -
  obtain dep where "res_bind (processSim dep (queue_users q st ! k) (bu_count (queue_users q st ! k)) st) (\<lambda>(status, user, st).
      let st = set_queue_user q k user st in
      Inr (case status of Success \<Rightarrow> (None, (advance_queue q st)\<lparr>sm_progressed := True\<rparr>) | _ \<Rightarrow> (Some status, st))) = Inr (r, st')"
    using assms unfolding process_task_def Let_def by (rule res_bind_InrE)
  then obtain x where run: "processSim dep (queue_users q st ! k) (bu_count (queue_users q st ! k)) st = Inr x"
    and rest: "(\<lambda>(status, user, st). let st = set_queue_user q k user st in
      Inr (case status of Success \<Rightarrow> (None, (advance_queue q st)\<lparr>sm_progressed := True\<rparr>) | _ \<Rightarrow> (Some status, st))) x = (Inr (r, st') :: (sim_status option \<times> sim_run) res)"
    by (rule res_bind_InrE)
  obtain status u st1 where x: "x = (status, u, st1)" by (cases x)
  have st': "st' = (case status of Success \<Rightarrow> (advance_queue q (set_queue_user q k u st1))\<lparr>sm_progressed := True\<rparr> | _ \<Rightarrow> set_queue_user q k u st1)"
    using rest unfolding x by (cases status) (simp_all add: Let_def)
  show ?thesis using processSim_pids [OF run [unfolded x]] unfolding st'
    by (simp add: set_queue_user_frame advance_queue_frame split: sim_status.split)
qed

lemma sim_step_pids:
  assumes "sim_step st st'" "sim_inv nb V pos st"
  shows "pids st' = pids st"
  using assms(1)
proof (elim sim_stepE, goal_cases)
  case (1 r)
  have "length (bs_barriers st) = nb" using assms(2) by (simp add: sim_inv_def sim_core_def)
  then show ?thesis using map_barrier_cases [OF assms(2) _ 1(2)] 1(1) by (auto simp: mapped_run_def Let_def)
next
  case (2 q)
  from 2(3) show ?thesis by (rule process_task_pids)
qed simp

lemma sim_steps_pids: "sim_step\<^sup>*\<^sup>* st st' \<Longrightarrow> sim_inv nb V pos st \<Longrightarrow> pids st' = pids st"
proof (induction rule: rtranclp_induct)
  case (step st1 st2)
  then show ?case using sim_step_pids [OF step.hyps(2) sim_steps_inv [OF step.hyps(1) step.prems]] by simp
qed simp

text \<open>A mapped barrier has a physical one, and two with the same are not both live.\<close>

definition live :: "sim_run \<Rightarrow> nat \<Rightarrow> bool" where
  "live st v \<longleftrightarrow> prod_count st v \<noteq> 0 \<or> cons_count st v \<noteq> 0"

lemma mapped_pids:
  assumes "sim_inv nb V pos st"
  shows "v < sm_bar st \<Longrightarrow> 0 \<le> real_id st v \<and> real_id st v < int (pids st)"
    "v < sm_bar st \<Longrightarrow> w < sm_bar st \<Longrightarrow> v \<noteq> w \<Longrightarrow> real_id st v = real_id st w \<Longrightarrow> \<not> (live st v \<and> live st w)"
    "v < sm_bar st \<Longrightarrow> live st v \<Longrightarrow> real_id st v \<notin> set (ring_contents (sm_nextReal st))"
proof -
  have core: "sim_core nb (no_consumer V) st" using assms by (simp add: sim_inv_def)
  then have mapped: "0 \<le> real_id st v \<and> nat (real_id st v) < pids st \<and>
      (sm_toVirtual st ! nat (real_id st v) = int v \<or> prod_count st v = 0 \<and> cons_count st v = 0)" if "v < sm_bar st" for v
    using that unfolding sim_core_def by blast
  show "v < sm_bar st \<Longrightarrow> 0 \<le> real_id st v \<and> real_id st v < int (pids st)" using mapped [of v] nat_less_iff [of "real_id st v" "pids st"] by blast
  show "\<not> (live st v \<and> live st w)" if "v < sm_bar st" "w < sm_bar st" "v \<noteq> w" "real_id st v = real_id st w"
  proof
    assume "live st v \<and> live st w"
    then have "sm_toVirtual st ! nat (real_id st v) = int v" "sm_toVirtual st ! nat (real_id st w) = int w"
      using mapped [OF that(1)] mapped [OF that(2)] unfolding live_def by blast+
    then show False using that(3) unfolding that(4) by simp
  qed
  show "real_id st v \<notin> set (ring_contents (sm_nextReal st))" if v: "v < sm_bar st" "live st v"
  proof
    assume "real_id st v \<in> set (ring_contents (sm_nextReal st))"
    then obtain p where "real_id st v = int p" "sm_toVirtual st ! p = -1" using core by (auto simp: sim_core_def free_pids_def)
    then show False using mapped [OF v(1)] v(2) by (auto simp: live_def)
  qed
qed

section \<open>Properties\<close>

lemma simulate_run:
  fixes h :: "wlm_handler option" and w :: bool
  assumes s: "parsed nb E avail ops (length ops) s" and n: "0 \<le> n" "n \<le> avail"
  defines "s' \<equiv> s\<lparr>bs_wlm := h, bs_wlmPid := w\<rparr>"
  shows "\<exists>st. start_run (nat n) s' = Inr st \<and> sim_inv nb (func_view ops) (func_pos ops) st \<and> bs_wlmPid st = w \<and> pids st = nat n \<and>
    simulateBarriers (Some n) (Some False) s' = map_option (map_sum id (\<lambda>(b, st). (b, barrier_simulator.truncate st))) (sim_loop (nat n) False st)"
proof -
  obtain st where st: "start_run (nat n) s' = Inr st" "sim_inv nb (func_view ops) (func_pos ops) st" "bs_wlmPid st = w" "pids st = nat n"
    using start_run_spec [OF s] unfolding s'_def by blast
  have "bs_availableBarriers s' = avail" using s by (simp add: parsed_def s'_def)
  then have "simulateBarriers (Some n) (Some False) s' =
      map_option (map_sum id (\<lambda>(b, st). (b, barrier_simulator.truncate st))) (sim_loop (nat n) False st)"
    using n st(1) by (cases "sim_loop (nat n) False st"; cases "the (sim_loop (nat n) False st)") (auto simp: simulateBarriers_def)
  then show ?thesis using st by blast
qed

text \<open>
  A function with three barriers in a row: a DMA, an NCE task of two variants, a DMA on the same queue and a kernel
  each wait for the one before.
\<close>

definition sim_task :: "executor_kind \<Rightarrow> inner_task \<Rightarrow> nat list \<Rightarrow> nat list \<Rightarrow> sim_item" where
  "sim_task kind inner waits updates = SimTask \<lparr>to_executorKind = kind, to_inner = inner, to_perVariantBarriers = False,
     to_syncTask = False, to_waitBarriers = map Some waits, to_updateBarriers = map Some updates\<rparr>"

definition example_chain :: "sim_item list" where
  "example_chain = replicate 3 (DeclareVirtualBarrier \<lparr>vb_page = None, vb_isFinal = False, vb_useEmpty = False\<rparr>) @
     [sim_task DMA_NN (DmaTask (Some 0) None) [] [0], sim_task DPU (NceTask [None, None]) [0] [1],
      sim_task DMA_NN (DmaTask (Some 0) None) [1] [2], sim_task SHAVE_ACT OtherTask [2] []]"

lemma example_chain_parts: "length (sim_barriers example_chain) = 3" "length (sim_tasks example_chain) = 4"
  by (simp_all add: sim_tasks_def sim_barriers_def example_chain_def numeral_3_eq_3 sim_task_def)

lemma example_chain_ok: "sim_func_ok 2 example_chain"
  by (simp add: sim_func_ok_def example_chain_def sim_task_def sim_tasks_def sim_barriers_def page_of_def task_fits_def dma_id_def
      dma_ids_def see_dma_def numeral_3_eq_3)

lemma example_chain_views:
  "func_view (sim_tasks example_chain) t = (if t = 0 then \<lparr>tv_count = 1, tv_waits = [], tv_posts = [0]\<rparr>
     else if t = 1 then \<lparr>tv_count = 2, tv_waits = [0], tv_posts = [1]\<rparr> else if t = 2 then \<lparr>tv_count = 1, tv_waits = [1], tv_posts = [2]\<rparr>
     else if t = 3 then \<lparr>tv_count = 1, tv_waits = [2], tv_posts = []\<rparr> else \<lparr>tv_count = 1, tv_waits = [], tv_posts = []\<rparr>)"
proof -
  have "t = 0 \<or> t = 1 \<or> t = 2 \<or> t = 3 \<or> 4 \<le> t" by arith
  then show ?thesis
    by (elim disjE) (simp_all add: func_view_def example_chain_def sim_task_def sim_tasks_def vids_of_def sim_slots_def getNumOfSlotsUsed_def
      numeral_2_eq_2 numeral_3_eq_3)
qed

text \<open>
  C30. The simulator read from a function is well formed: every task has a queue the simulator
  runs, each queue has exactly its tasks, in the order of the function, each with its number of variants and the
  virtual ids of the barriers it waits for and updates, and the counts of every barrier are the sums of the variants
  of the tasks that consume and produce it.
\<close>

theorem new_simulator_well_formed:
  assumes "sim_func_ok E func"
  shows "\<exists>s. new_simulator maxCount maxSum avail E func = Inr s \<and> bs_isDynamic s \<and> length (bs_barriers s) = length (sim_barriers func) \<and>
    (\<forall>t<length (sim_tasks func). queue_of (dma_ids (sim_tasks func)) (sim_tasks func ! t) \<in> set (sim_queues s)) \<and>
    (\<forall>q\<in>set (sim_queues s). list_all2 (\<lambda>u t. user_view (length (sim_barriers func)) (bs_vdt s) u (func_view (sim_tasks func) t))
       (queue_users q s) (func_pos (sim_tasks func) q)) \<and>
    (\<forall>v<length (sim_barriers func). bc_realId (bs_barriers s ! v) = -1 \<and>
       bc_consumerCount (bs_barriers s ! v) = load tv_waits (func_view (sim_tasks func)) {..<length (sim_tasks func)} v \<and>
       bc_producerCount (bs_barriers s ! v) = load tv_posts (func_view (sim_tasks func)) {..<length (sim_tasks func)} v)"
proof -
  have "pos_upto ops (length ops) = func_pos ops" for ops by (rule ext) (simp add: pos_upto_def func_pos_def)
  then show ?thesis using new_simulator_spec [OF assms, of maxCount maxSum avail] unfolding parsed_def by auto
qed

theorem new_simulator_well_formed_witness:
  "\<exists>s. new_simulator 64 128 2 2 example_chain = Inr s \<and> bc_producerCount (bs_barriers s ! 1) = 2 \<and> bc_consumerCount (bs_barriers s ! 1) = 1"
proof -
  have load: "load tv_waits (func_view (sim_tasks example_chain)) {..<4} 1 = 1" "load tv_posts (func_view (sim_tasks example_chain)) {..<4} 1 = 2"
    by (simp_all add: load_def example_chain_views eval_nat_numeral)
  obtain s where s: "new_simulator 64 128 2 2 example_chain = Inr s" "\<forall>v<3.
       bc_consumerCount (bs_barriers s ! v) = load tv_waits (func_view (sim_tasks example_chain)) {..<4} v \<and>
       bc_producerCount (bs_barriers s ! v) = load tv_posts (func_view (sim_tasks example_chain)) {..<4} v"
    using new_simulator_well_formed [OF example_chain_ok, of 64 128 2] unfolding example_chain_parts by blast
  have "(1::nat) < 3" by simp
  then show ?thesis using s load by auto
qed

text \<open>
  C15. Without legalization and restrictions on reuse the simulation of a function always
  returns, without an error and by steps that map a barrier or run the first task of a queue.  It succeeds only with
  every barrier produced and consumed and a physical barrier within the limit, and fails only when it is blocked: not
  finished, with no barrier left to map or no physical barrier free, and the first task of every queue waiting for a
  barrier that is not mapped or not produced.
\<close>

theorem simulation_ends_unless_blocked:
  assumes "sim_func_ok E func" "0 \<le> n" "n \<le> avail"
  shows "\<exists>s st0 st b. new_simulator maxCount maxSum avail E func = Inr s \<and> start_run (nat n) s = Inr st0 \<and> sim_step\<^sup>*\<^sup>* st0 st \<and>
    simulateBarriers (Some n) (Some False) s = Some (Inr (b, barrier_simulator.truncate st)) \<and>
    (if b then sim_finished st \<and> (\<forall>v<length (sim_barriers func). prod_count st v = 0 \<and> cons_count st v = 0 \<and> real_id st v \<in> {0..<n})
     else stuck (length (sim_barriers func)) (func_view (sim_tasks func)) (func_pos (sim_tasks func)) st)"
proof -
  let ?nb = "length (sim_barriers func)" and ?ops = "sim_tasks func"
  obtain s where s: "new_simulator maxCount maxSum avail E func = Inr s" "parsed ?nb E avail ?ops (length ?ops) s"
    using new_simulator_spec [OF assms(1)] by blast
  have same: "s\<lparr>bs_wlm := bs_wlm s, bs_wlmPid := False\<rparr> = s" using s(2) by (simp add: parsed_def)
  obtain st0 where st0: "start_run (nat n) s = Inr st0" "sim_inv ?nb (func_view ?ops) (func_pos ?ops) st0" "\<not> bs_wlmPid st0" "pids st0 = nat n"
    "simulateBarriers (Some n) (Some False) s = map_option (map_sum id (\<lambda>(b, st). (b, barrier_simulator.truncate st))) (sim_loop (nat n) False st0)"
    using simulate_run [OF s(2) assms(2,3), where h = "bs_wlm s" and w = False] unfolding same by auto
  obtain b st where st: "sim_loop (nat n) False st0 = Some (Inr (b, st))" "sim_inv ?nb (func_view ?ops) (func_pos ?ops) st" "sim_step\<^sup>*\<^sup>* st0 st"
    "if b then sim_finished st else stuck ?nb (func_view ?ops) (func_pos ?ops) st" using sim_loop_spec [OF st0(2,3)] by blast
  have "prod_count st v = 0 \<and> cons_count st v = 0 \<and> real_id st v \<in> {0..<n}" if "sim_finished st" "v < ?nb" for v
    using finished_counts [OF st(2) that(1)] mapped_pids(1) [OF st(2), of v] sim_steps_pids [OF st(3) st0(2)] st0(4) that(2) assms(2) by simp
  then show ?thesis using s(1) st0(1,5) st by (intro exI [of _ s] exI [of _ st0] exI [of _ st] exI [of _ b]) auto
qed

theorem simulation_ends_unless_blocked_witness:
  "\<exists>s b s'. new_simulator 64 128 2 2 example_chain = Inr s \<and> simulateBarriers (Some 2) (Some False) s = Some (Inr (b, s'))"
  using simulation_ends_unless_blocked [OF example_chain_ok, of 2 2 64 128] by auto

text \<open>
  C14. Whatever restrictions on the reuse of physical barriers are configured, the
  simulation without legalization returns; when it succeeds every barrier is produced and consumed, and in every state
  it can reach, in whatever order the queues run, the mapped barriers have physical barriers within the limit, two
  barriers with the same physical barrier are never both still to be produced or consumed, and the physical barrier of
  such a barrier is not offered for reuse.
\<close>

theorem physical_barriers_are_exclusive:
  assumes "sim_func_ok E func" "0 \<le> n" "n \<le> avail"
    and s: "new_simulator maxCount maxSum avail E func = Inr s"
    and restricted: "s' = s\<lparr>bs_wlm := handler, bs_wlmPid := wlm\<rparr>"
  shows "\<exists>st0 r. start_run (nat n) s' = Inr st0 \<and> simulateBarriers (Some n) (Some False) s' = Some r \<and>
    (\<forall>s''. r = Inr (True, s'') \<longrightarrow> (\<forall>v<length (sim_barriers func).
       bc_producerCount (bs_barriers s'' ! v) = 0 \<and> bc_consumerCount (bs_barriers s'' ! v) = 0)) \<and>
    (\<forall>st v w. sim_step\<^sup>*\<^sup>* st0 st \<and> v < sm_bar st \<longrightarrow> 0 \<le> real_id st v \<and> real_id st v < n \<and>
       (live st v \<longrightarrow> real_id st v \<notin> set (ring_contents (sm_nextReal st))) \<and>
       (w < sm_bar st \<and> v \<noteq> w \<and> real_id st v = real_id st w \<longrightarrow> \<not> (live st v \<and> live st w)))"
proof -
  let ?nb = "length (sim_barriers func)" and ?ops = "sim_tasks func"
  let ?inv = "sim_inv ?nb (func_view ?ops) (func_pos ?ops)"
  have parsed: "parsed ?nb E avail ?ops (length ?ops) s" using new_simulator_spec [OF assms(1), of maxCount maxSum avail] s by auto
  obtain st0 where st0: "start_run (nat n) s' = Inr st0" "?inv st0" "pids st0 = nat n"
    "simulateBarriers (Some n) (Some False) s' = map_option (map_sum id (\<lambda>(b, st). (b, barrier_simulator.truncate st))) (sim_loop (nat n) False st0)"
    using simulate_run [OF parsed assms(2,3), where h = handler and w = wlm] unfolding restricted by blast
  obtain x where x: "sim_loop (nat n) False st0 = Some x" "\<forall>b st'. x = Inr (b, st') \<longrightarrow> ?inv st' \<and> sim_step\<^sup>*\<^sup>* st0 st' \<and> (b \<longrightarrow> sim_finished st')"
    using sim_loop_returns [OF st0(2)] by blast
  let ?r = "map_sum id (\<lambda>(b, st). (b, barrier_simulator.truncate st)) x"
  have ends: "bc_producerCount (bs_barriers s'' ! v) = 0 \<and> bc_consumerCount (bs_barriers s'' ! v) = 0" if r: "?r = Inr (True, s'')" "v < ?nb" for s'' v
  proof -
    obtain st where st: "x = Inr (True, st)" "s'' = barrier_simulator.truncate st" using r(1) by (cases x) auto
    have "?inv st" "sim_finished st" using x(2) [rule_format, OF st(1)] by simp_all
    from finished_counts(3) [OF this r(2)] show ?thesis unfolding st(2) by (simp add: barrier_simulator.defs)
  qed
  have "0 \<le> real_id st v \<and> real_id st v < n \<and> (live st v \<longrightarrow> real_id st v \<notin> set (ring_contents (sm_nextReal st))) \<and>
       (w < sm_bar st \<and> v \<noteq> w \<and> real_id st v = real_id st w \<longrightarrow> \<not> (live st v \<and> live st w))"
    if "sim_step\<^sup>*\<^sup>* st0 st" "v < sm_bar st" for st v w
  proof -
    have inv: "?inv st" and pids: "int (pids st) = n" using sim_steps_inv [OF that(1) st0(2)] sim_steps_pids [OF that(1) st0(2)] st0(3) assms(2) by simp_all
    show ?thesis using mapped_pids [OF inv] that(2) unfolding pids by blast
  qed
  then show ?thesis using st0(1,4) x(1) ends by (intro exI [of _ st0] exI [of _ ?r]) auto
qed

theorem physical_barriers_are_exclusive_witness:
  "\<exists>s st0 r. new_simulator 64 128 2 2 example_chain = Inr s \<and> start_run 2 (s\<lparr>bs_wlm := None, bs_wlmPid := True\<rparr>) = Inr st0 \<and>
    simulateBarriers (Some 2) (Some False) (s\<lparr>bs_wlm := None, bs_wlmPid := True\<rparr>) = Some r"
proof -
  obtain s where s: "new_simulator 64 128 2 2 example_chain = Inr s" using new_simulator_spec [OF example_chain_ok] by blast
  show ?thesis using physical_barriers_are_exclusive [OF example_chain_ok _ _ s refl, where n = 2 and handler = None and wlm = True] s by auto
qed

text \<open>
  C13. For a well-formed function and a limit within the physical barriers there are, the simulation without
  legalization succeeds, that is, the greedy assignment of physical barriers does not block, under three conditions,
  in the order of the function. Tasks come after the producers of the barriers they wait for. For every task and each
  of its barriers, the barriers before this one that have a consumer from the task on, together with those before it
  that no task consumes at all, are fewer than the physical barriers. And before any barrier there are fewer barriers
  that no task consumes than physical ones; such a barrier keeps its physical barrier for good.
\<close>

theorem enough_barriers_no_deadlock:
  assumes "sim_func_ok E func" "0 \<le> n" "n \<le> avail"
    and order: "in_order (func_view (sim_tasks func))"
    and enough: "enough_barriers (nat n) (length (sim_barriers func)) (func_view (sim_tasks func))"
  shows "\<exists>s s'. new_simulator maxCount maxSum avail E func = Inr s \<and> simulateBarriers (Some n) (Some False) s = Some (Inr (True, s'))"
proof -
  let ?nb = "length (sim_barriers func)" and ?ops = "sim_tasks func"
  obtain s where s: "new_simulator maxCount maxSum avail E func = Inr s" "parsed ?nb E avail ?ops (length ?ops) s"
    using new_simulator_spec [OF assms(1)] by blast
  have same: "s\<lparr>bs_wlm := bs_wlm s, bs_wlmPid := False\<rparr> = s" using s(2) by (simp add: parsed_def)
  obtain st0 where st0: "start_run (nat n) s = Inr st0" "sim_inv ?nb (func_view ?ops) (func_pos ?ops) st0" "\<not> bs_wlmPid st0" "pids st0 = nat n"
    "simulateBarriers (Some n) (Some False) s = map_option (map_sum id (\<lambda>(b, st). (b, barrier_simulator.truncate st))) (sim_loop (nat n) False st0)"
    using simulate_run [OF s(2) assms(2,3), where h = "bs_wlm s" and w = False] unfolding same by auto
  obtain b st where st: "sim_loop (nat n) False st0 = Some (Inr (b, st))" "sim_inv ?nb (func_view ?ops) (func_pos ?ops) st" "sim_step\<^sup>*\<^sup>* st0 st"
    "if b then sim_finished st else stuck ?nb (func_view ?ops) (func_pos ?ops) st" using sim_loop_spec [OF st0(2,3)] by blast
  have "pids st = nat n" using sim_steps_pids [OF st(3) st0(2)] st0(4) by simp
  then have "\<not> stuck ?nb (func_view ?ops) (func_pos ?ops) st" using not_stuck [OF st(2) order] enough func_pos_props(2) by simp
  then have b using st(4) by (simp split: if_splits)
  then show ?thesis using s(1) st0(5) st(1) by (intro exI conjI) simp_all
qed

lemma example_chain_order: "in_order (func_view (sim_tasks example_chain))"
  unfolding in_order_def example_chain_views by auto

lemma example_chain_enough: "enough_barriers 2 3 (func_view (sim_tasks example_chain))"
proof -
  let ?V = "func_view (sim_tasks example_chain)"
  have none: "no_consumer ?V \<subseteq> {3..}"
  proof
    fix v assume "v \<in> no_consumer ?V"
    then have "int v \<notin> set (tv_waits (?V 1))" "int v \<notin> set (tv_waits (?V 2))" "int v \<notin> set (tv_waits (?V 3))" by (auto simp: no_consumer_def)
    then have "v \<noteq> 0" "v \<noteq> 1" "v \<noteq> 2" by (auto simp: example_chain_views)
    then show "v \<in> {3..}" by simp
  qed
  have "pending_barriers ?V t (nat v) \<subseteq> {nat v - 1}" if "v \<in> set (tv_waits (?V t) @ tv_posts (?V t))" for t v
    using that none by (auto simp: pending_barriers_def example_chain_views split: if_splits)
  then have "card (pending_barriers ?V t (nat v)) < 2" if "v \<in> set (tv_waits (?V t) @ tv_posts (?V t))" for t v
    using that card_mono [of "{nat v - 1}" "pending_barriers ?V t (nat v)"] by fastforce
  moreover have "card {w. w < v \<and> w \<in> no_consumer ?V} < 2" if "v < 3" for v
  proof -
    have "{w. w < v \<and> w \<in> no_consumer ?V} = {}" using none that by auto
    then show ?thesis by (metis card.empty zero_less_numeral)
  qed
  ultimately show ?thesis by (simp add: enough_barriers_def)
qed

theorem enough_barriers_no_deadlock_witness:
  "\<exists>s s'. new_simulator 64 128 2 2 example_chain = Inr s \<and> simulateBarriers (Some 2) (Some False) s = Some (Inr (True, s'))"
  using enough_barriers_no_deadlock [OF example_chain_ok _ _ example_chain_order, of 2 2 64 128] example_chain_enough
  by (simp add: example_chain_parts)

end
