(* ===== verification/Barrier_Results.thy ===== *)
theory Barrier_Results
  imports Barrier_Simulator
begin

text \<open>
  What is done with the results of the simulation: the order of the barriers in the function, the links between uses
  of the same physical barrier, and the step of the legalization that takes physical barriers away again.
\<close>

section \<open>Order of the barriers\<close>

lemma move_after_eq:
  assumes "bar \<in> set A \<union> set B" "distinct (A @ ds @ p # B)"
  shows "move_after bar p (A @ ds @ p # B) = remove1 bar A @ ds @ p # bar # (if bar \<in> set A then B else remove1 bar B)"
proof -
  have "remove1 bar (A @ ds @ p # B) = remove1 bar A @ ds @ p # (if bar \<in> set A then B else remove1 bar B)"
    using assms by (auto simp: remove1_append remove1_idem)
  moreover have "takeWhile (\<lambda>b. b \<noteq> p) (remove1 bar A @ ds @ p # C) = remove1 bar A @ ds"
    "dropWhile (\<lambda>b. b \<noteq> p) (remove1 bar A @ ds @ p # C) = p # C" for C
    using assms(2) set_remove1_subset [of bar A] by (auto simp: takeWhile_append dropWhile_append)
  ultimately show ?thesis by (simp add: move_after_def)
qed

definition is_final :: "barrier_simulator \<Rightarrow> nat \<Rightarrow> bool" where
  "is_final s b \<longleftrightarrow> (case bs_barrierVID s b of None \<Rightarrow> False | Some x \<Rightarrow> vb_isFinal x)"

lemma is_final_known: "bs_barrierVID s b = Some x \<Longrightarrow> is_final s b = vb_isFinal x"
  by (simp add: is_final_def)

lemma place_barriers_loop:
  assumes known: "\<And>b. b \<in> set todo \<Longrightarrow> bs_barrierVID s b \<noteq> None"
    and ir: "distinct (A @ ds @ p # B)" "set A \<union> set B = set todo" "distinct todo"
    and final: "filter (is_final s) (ds @ [p]) = (case fb of None \<Rightarrow> [] | Some f \<Rightarrow> [f])" "length (filter (is_final s) (ds @ p # todo)) \<le> 1"
  shows "\<exists>q fb'. res_fold (place_barrier (bs_barrierVID s)) todo (A @ ds @ p # B, Some p, fb) = Inr (ds @ p # todo, q, fb') \<and>
    filter (is_final s) (ds @ p # todo) = (case fb' of None \<Rightarrow> [] | Some f \<Rightarrow> [f])"
  using assms
proof (induction todo arbitrary: A ds p B fb)
  case (Cons b todo)
  obtain x where x: "bs_barrierVID s b = Some x" using Cons.prems(1) [of b] by auto
  let ?A = "remove1 b A" and ?B = "if b \<in> set A then B else remove1 b B"
  have b: "b \<in> set A \<union> set B" using Cons.prems(3) by auto
  note moved = move_after_eq [OF b Cons.prems(2)]
  have dist: "distinct (?A @ (ds @ [p]) @ b # ?B)" using Cons.prems(2) b by (auto dest: in_set_remove1 notin_set_remove1)
  have "set ?A \<union> set ?B = (set A \<union> set B) - {b}"
  proof (cases "b \<in> set A")
    case True
    then have "b \<notin> set B" "distinct A" using Cons.prems(2) by auto
    then show ?thesis using True by (simp add: Un_Diff)
  next
    case False
    have "distinct B" using Cons.prems(2) by simp
    then show ?thesis using False by (simp add: Un_Diff remove1_idem)
  qed
  then have rest: "set ?A \<union> set ?B = set todo" using Cons.prems(3,4) by simp
  have step: "place_barrier (bs_barrierVID s) b (A @ ds @ p # B, Some p, fb) =
      (if \<not> vb_isFinal x then Inr (?A @ (ds @ [p]) @ b # ?B, Some b, fb)
       else if fb \<noteq> None then Inl (Vpux_Throw ''More then one final barrier'') else Inr (?A @ (ds @ [p]) @ b # ?B, Some b, Some b))"
    using x moved by (simp add: place_barrier_def)
  have known: "\<And>c. c \<in> set todo \<Longrightarrow> bs_barrierVID s c \<noteq> None" and dt: "distinct todo" using Cons.prems(1,4) by auto
  have len: "length (filter (is_final s) ((ds @ [p]) @ b # todo)) \<le> 1" using Cons.prems(6) by simp
  show ?case
  proof (cases "vb_isFinal x")
    case False
    then have "filter (is_final s) ((ds @ [p]) @ [b]) = (case fb of None \<Rightarrow> [] | Some f \<Rightarrow> [f])" using Cons.prems(5) is_final_known [OF x] by (simp split: if_splits)
    from Cons.IH [OF known dist rest dt this len] show ?thesis using step False by simp
  next
    case True
    then have "filter (is_final s) (ds @ p # b # todo) = filter (is_final s) (ds @ [p]) @ b # filter (is_final s) todo"
      using is_final_known [OF x] by simp
    then have none: "fb = None" using Cons.prems(5,6) by (cases fb) simp_all
    then have "filter (is_final s) ((ds @ [p]) @ [b]) = (case Some b of None \<Rightarrow> [] | Some f \<Rightarrow> [f])" using Cons.prems(5) is_final_known [OF x] True by (simp split: if_splits)
    from Cons.IH [OF known dist rest dt this len] show ?thesis using step True none by simp
  qed
qed auto

definition order_ready :: "barrier_simulator \<Rightarrow> nat list \<Rightarrow> bool" where
  "order_ready s ir \<longleftrightarrow> distinct (bs_order s) \<and> bs_order s \<noteq> [] \<and> distinct ir \<and> set ir = set (bs_order s) \<and>
     (\<forall>b\<in>set (bs_order s). bs_barrierVID s b \<noteq> None) \<and> length (filter (is_final s) (bs_order s)) \<le> 1"

lemma place_all_barriers:
  assumes "order_ready s ir"
  shows "\<exists>q fb. res_fold (place_barrier (bs_barrierVID s)) (bs_order s) (ir, None, None) = Inr (bs_order s, q, fb) \<and>
    filter (is_final s) (bs_order s) = (case fb of None \<Rightarrow> [] | Some f \<Rightarrow> [f])"
proof -
  note ready = assms [unfolded order_ready_def]
  obtain b bs where ord: "bs_order s = b # bs" using ready by (cases "bs_order s") auto
  obtain A B where ir: "ir = A @ [] @ b # B" using split_list [of b ir] ready ord by auto
  obtain x where x: "bs_barrierVID s b = Some x" using ready ord by auto
  let ?fb = "if vb_isFinal x then Some b else None"
  have first: "place_barrier (bs_barrierVID s) b (ir, None, None) = Inr (ir, Some b, ?fb)" using x by (simp add: place_barrier_def)
  have sets: "set A \<union> set B = set bs" using ready unfolding ir ord by auto
  have fb: "filter (is_final s) ([] @ [b]) = (case ?fb of None \<Rightarrow> [] | Some f \<Rightarrow> [f])" using is_final_known [OF x] by simp
  have "\<exists>q fb'. res_fold (place_barrier (bs_barrierVID s)) bs (A @ [] @ b # B, Some b, ?fb) = Inr ([] @ b # bs, q, fb') \<and>
      filter (is_final s) ([] @ b # bs) = (case fb' of None \<Rightarrow> [] | Some f \<Rightarrow> [f])"
    by (rule place_barriers_loop [OF _ _ sets _ fb]) (use ready ord ir in auto)
  then show ?thesis using first ir by (auto simp: ord)
qed

lemma final_moved_last:
  assumes "distinct xs" "xs \<noteq> []" "filter P xs = [f]"
  shows "(if last xs \<noteq> f then move_after f (last xs) xs else xs) = filter (\<lambda>x. \<not> P x) xs @ [f]"
proof -
  have only: "x \<in> set xs \<and> P x \<longleftrightarrow> x = f" for x using arg_cong [OF assms(3), of set] by auto
  have others: "filter (\<lambda>x. \<not> P x) xs = remove1 f xs"
  proof -
    have "filter (\<lambda>x. \<not> P x) xs = filter (\<lambda>x. f \<noteq> x) xs" by (rule filter_cong [OF refl]) (metis only)
    then show ?thesis by (simp add: distinct_remove1_removeAll [OF assms(1)] removeAll_filter_not_eq)
  qed
  obtain os l where os: "xs = os @ [l]" using assms(2) by (metis rev_exhaust)
  show ?thesis
  proof (cases "l = f")
    case True
    then have "remove1 f xs = os" using os assms(1) by (simp add: remove1_append)
    then show ?thesis using True os others by simp
  next
    case False
    have f: "f \<in> set os" using only [of f] False os by auto
    then have "move_after f l (os @ [] @ l # []) = remove1 f os @ [] @ l # f # []"
      using move_after_eq [of f os "[]" "[]" l] os assms(1) by simp
    moreover have "remove1 f xs = remove1 f os @ [l]" using f False os by (auto simp: remove1_append)
    ultimately show ?thesis using False os others by simp
  qed
qed

text \<open>
  C34. When the simulation programmed every barrier of the function once, and one at
  most is final, the barriers of the function are put in the order in which they were programmed, wherever they stood,
  except that the final one comes last.
\<close>

theorem barrier_order_follows_programming:
  assumes "order_ready s ir"
  shows "updateBarrierOrderInIr s ir = Inr (filter (\<lambda>b. \<not> is_final s b) (bs_order s) @ filter (is_final s) (bs_order s))"
proof -
  have ord: "distinct (bs_order s)" "bs_order s \<noteq> []" using assms by (simp_all add: order_ready_def)
  obtain q fb where loop: "res_fold (place_barrier (bs_barrierVID s)) (bs_order s) (ir, None, None) = Inr (bs_order s, q, fb)"
    and fin: "filter (is_final s) (bs_order s) = (case fb of None \<Rightarrow> [] | Some f \<Rightarrow> [f])" using place_all_barriers [OF assms] by blast
  have up: "updateBarrierOrderInIr s ir = Inr (case fb of None \<Rightarrow> bs_order s
      | Some f \<Rightarrow> if last (bs_order s) \<noteq> f then move_after f (last (bs_order s)) (bs_order s) else bs_order s)"
    using ord(2) loop by (simp add: updateBarrierOrderInIr_def)
  show ?thesis
  proof (cases fb)
    case None
    then have "filter (\<lambda>b. \<not> is_final s b) (bs_order s) = bs_order s" using fin by (auto simp: filter_empty_conv filter_id_conv)
    then show ?thesis using up None fin by simp
  next
    case (Some f)
    then show ?thesis using up fin final_moved_last [OF ord, of "is_final s" f] by simp
  qed
qed

definition example_order :: barrier_simulator where
  "example_order = \<lparr>bs_producerSlotCount = 64, bs_totalSlotCount = 128, bs_availableBarriers = 2, bs_usedBarriers = 0,
     bs_barriersMap = Map.empty, bs_barriers = [], bs_isDynamic = True, bs_wlmPid = False, bs_wlmPage = False, bs_dmaTasks = [],
     bs_nceTasks = [], bs_actTasks = [], bs_m2iTasks = [], bs_vdt = new_virtual_deps, bs_batches = [],
     bs_barrierVID = (\<lambda>v. Some \<lparr>vb_page = None, vb_isFinal = v = 2, vb_useEmpty = False\<rparr>),
     bs_pages = [], bs_pidToVid = [], bs_order = [1, 2, 0, 3], bs_wlm = None, bs_info = empty_barrier_info\<rparr>"

theorem barrier_order_follows_programming_witness:
  "updateBarrierOrderInIr example_order [0, 1, 2, 3] = Inr [1, 0, 3, 2]"
proof -
  have "order_ready example_order [0, 1, 2, 3]" by (auto simp: order_ready_def example_order_def is_final_def)
  from barrier_order_follows_programming [OF this] show ?thesis by (simp add: example_order_def is_final_def)
qed

section \<open>Links between uses of a physical barrier\<close>

definition next_same :: "barrier_config list \<Rightarrow> nat \<Rightarrow> int" where
  "next_same bars i = (case find (\<lambda>j. bc_realId (bars ! j) = bc_realId (bars ! i)) [Suc i..<length bars] of None \<Rightarrow> -1 | Some j \<Rightarrow> int j)"

lemma link_step:
  "fold (\<lambda>i s. s\<lparr>bs_barriers := (bs_barriers s)[i := (bs_barriers s ! i)\<lparr>bc_nextSameId := next_same (bs_barriers s) i\<rparr>]\<rparr>) [0..<k] s =
    s\<lparr>bs_barriers := map (\<lambda>i. if i < k then (bs_barriers s ! i)\<lparr>bc_nextSameId := next_same (bs_barriers s) i\<rparr> else bs_barriers s ! i)
      [0..<length (bs_barriers s)]\<rparr>" if "k \<le> length (bs_barriers s)"
  using that
proof (induction k)
  case 0
  then show ?case by (simp add: map_nth)
next
  case (Suc k)
  define B where "B = map (\<lambda>i. if i < k then (bs_barriers s ! i)\<lparr>bc_nextSameId := next_same (bs_barriers s) i\<rparr> else bs_barriers s ! i)
      [0..<length (bs_barriers s)]"
  have len: "length B = length (bs_barriers s)" by (simp add: B_def)
  have same: "bc_realId (B ! j) = bc_realId (bs_barriers s ! j)" if "j < length (bs_barriers s)" for j using that by (simp add: B_def)
  have "next_same B k = next_same (bs_barriers s) k"
    unfolding next_same_def len using Suc.prems by (intro arg_cong [of _ _ "case_option _ _"] find_cong) (auto simp: same)
  moreover have "B ! k = bs_barriers s ! k" using Suc.prems by (simp add: B_def)
  ultimately have "B[k := (B ! k)\<lparr>bc_nextSameId := next_same B k\<rparr>] =
      map (\<lambda>i. if i < Suc k then (bs_barriers s ! i)\<lparr>bc_nextSameId := next_same (bs_barriers s) i\<rparr> else bs_barriers s ! i) [0..<length (bs_barriers s)]"
    using Suc.prems by (intro nth_equalityI) (auto simp: B_def nth_list_update)
  then show ?case using Suc by (simp add: B_def)
qed

text \<open>
  Linking gives every barrier the first barrier behind it that has the same physical
  barrier, or minus one when there is none, and changes nothing else of the barriers.
\<close>

theorem linkNextIds_finds_next_use:
  assumes i: "i < length (bs_barriers s)"
  shows "length (bs_barriers (linkNextIds s)) = length (bs_barriers s) \<and>
    (\<exists>n. bs_barriers (linkNextIds s) ! i = (bs_barriers s ! i)\<lparr>bc_nextSameId := n\<rparr> \<and>
      (if n = -1 then \<forall>j<length (bs_barriers s). i < j \<longrightarrow> bc_realId (bs_barriers s ! j) \<noteq> bc_realId (bs_barriers s ! i)
       else \<exists>j<length (bs_barriers s). n = int j \<and> i < j \<and> bc_realId (bs_barriers s ! j) = bc_realId (bs_barriers s ! i) \<and>
         (\<forall>k. i < k \<and> k < j \<longrightarrow> bc_realId (bs_barriers s ! k) \<noteq> bc_realId (bs_barriers s ! i))))"
proof -
  let ?B = "bs_barriers s" and ?n = "next_same (bs_barriers s) i"
  have link: "bs_barriers (linkNextIds s) = map (\<lambda>i. (?B ! i)\<lparr>bc_nextSameId := next_same ?B i\<rparr>) [0..<length ?B]"
    using link_step [of "length ?B" s] by (simp add: linkNextIds_def next_same_def)
  have "if ?n = -1 then \<forall>j<length ?B. i < j \<longrightarrow> bc_realId (?B ! j) \<noteq> bc_realId (?B ! i)
       else \<exists>j<length ?B. ?n = int j \<and> i < j \<and> bc_realId (?B ! j) = bc_realId (?B ! i) \<and>
         (\<forall>k. i < k \<and> k < j \<longrightarrow> bc_realId (?B ! k) \<noteq> bc_realId (?B ! i))"
  proof (cases "find (\<lambda>j. bc_realId (?B ! j) = bc_realId (?B ! i)) [Suc i..<length ?B]")
    case None
    then have "?n = -1" by (simp add: next_same_def)
    moreover have "\<forall>j<length ?B. i < j \<longrightarrow> bc_realId (?B ! j) \<noteq> bc_realId (?B ! i)" using None by (auto simp: find_None_iff)
    ultimately show ?thesis by simp
  next
    case (Some j)
    then obtain m where m: "m < length [Suc i..<length ?B]" "j = [Suc i..<length ?B] ! m" "bc_realId (?B ! j) = bc_realId (?B ! i)"
      "\<forall>l<m. bc_realId (?B ! ([Suc i..<length ?B] ! l)) \<noteq> bc_realId (?B ! i)" unfolding find_Some_iff by blast
    have j: "j = Suc i + m" using m(1,2) by simp
    have least: "\<forall>k. i < k \<and> k < j \<longrightarrow> bc_realId (?B ! k) \<noteq> bc_realId (?B ! i)"
    proof (intro allI impI)
      fix k assume "i < k \<and> k < j"
      then have k: "k - Suc i < m" "Suc i + (k - Suc i) = k" using j by linarith+
      then have "[Suc i..<length ?B] ! (k - Suc i) = k" using m(1) by simp
      then show "bc_realId (?B ! k) \<noteq> bc_realId (?B ! i)" using m(4) [rule_format, OF k(1)] by simp
    qed
    have "i < j" "j < length ?B" using j m(1) by simp_all
    moreover have "?n = int j" using Some by (simp add: next_same_def)
    ultimately show ?thesis using m(3) least by auto
  qed
  moreover have "bs_barriers (linkNextIds s) ! i = (?B ! i)\<lparr>bc_nextSameId := ?n\<rparr>" using i by (simp add: link)
  ultimately show ?thesis by (intro conjI exI [of _ ?n]) (simp_all add: link)
qed

theorem linkNextIds_finds_next_use_witness:
  "map bc_nextSameId (bs_barriers (linkNextIds (example_order\<lparr>bs_barriers := map new_config [0, 1, 0]\<rparr>))) ! 0 = 2"
proof -
  let ?s = "example_order\<lparr>bs_barriers := map new_config [0, 1, 0]\<rparr>"
  have "0 < length (bs_barriers ?s)" by simp
  from linkNextIds_finds_next_use [OF this] show ?thesis
    by (auto simp: new_config_def nth_Cons' less_Suc_eq split: if_splits)
qed

section \<open>Taking physical barriers away\<close>

declare remove_free.simps [simp del]

lemma remove_free_spec:
  "\<exists>rs. remove_free limit toV removed = (toV', removed @ rs) \<and> length toV = length toV' + length rs" if "remove_free limit toV removed = (toV', r)"
  using that
proof (induction limit toV removed rule: remove_free.induct)
  case (1 limit toV removed)
  show ?case
  proof (cases "first_free 0 toV")
    case (Some i)
    show ?thesis
    proof (cases "length toV > limit")
      case True
      have i: "i < length toV" using first_free_bounds [OF Some] by simp
      have run: "remove_free limit toV removed = remove_free limit (take i toV @ drop (Suc i) toV) (removed @ [i])"
        using Some True by (simp add: remove_free.simps [of _ toV])
      from "1.IH" [OF Some True] "1.prems" obtain rs where
        "remove_free limit (take i toV @ drop (Suc i) toV) (removed @ [i]) = (toV', (removed @ [i]) @ rs)"
        "length (take i toV @ drop (Suc i) toV) = length toV' + length rs" unfolding run by blast
      then show ?thesis using run i by (intro exI [of _ "i # rs"]) simp
    next
      case False
      then have "remove_free limit toV removed = (toV, removed)" using Some by (simp add: remove_free.simps [of _ toV])
      then show ?thesis using "1.prems" by simp
    qed
  next
    case None
    then have "remove_free limit toV removed = (toV, removed)" by (simp add: remove_free.simps [of _ toV])
    then show ?thesis using "1.prems" by simp
  qed
qed

lemma first_free_append: "-1 \<notin> set xs \<Longrightarrow> first_free k (xs @ -1 # ys) = Some (k + length xs)"
  by (induction xs arbitrary: k) auto

lemma remap_keeps:
  assumes "remap_barriers limit st = Inr st'"
  shows "sm_toVirtual st' = sm_toVirtual st \<and> sm_prevVid st' = sm_prevVid st"
proof -
  obtain n where "res_fold (\<lambda>p (st, freeBarrierCount).
     let v = sm_toVirtual st ! p in
     if v \<noteq> -1 then
       res_bind (int_at (bs_barriers st) v) (\<lambda>b.
       Inr (st\<lparr>bs_barriers := (bs_barriers st)[nat v := b\<lparr>bc_realId := int (u64_sub p freeBarrierCount)\<rparr>]\<rparr>, freeBarrierCount))
     else Inr (st, if length (sm_toVirtual st) - freeBarrierCount > limit then Suc freeBarrierCount else freeBarrierCount))
     [0..<length (sm_toVirtual st)] (st, 0) = Inr (st', n)"
    using assms by (auto simp: remap_barriers_def map_sum_eq_Inr)
  from res_fold_inv [OF this, of "\<lambda>(t, _). sm_toVirtual t = sm_toVirtual st \<and> sm_prevVid t = sm_prevVid st"] show ?thesis
    by (fastforce simp: Let_def res_bind_eq_Inr split: if_splits)
qed

lemma erase_prev_vids:
  "res_fold (\<lambda>i st. if i \<ge> length (sm_prevVid st) then Inl (Vpux_Throw ''Incorrect index to remove'')
      else Inr (st\<lparr>sm_prevVid := take i (sm_prevVid st) @ drop (Suc i) (sm_prevVid st)\<rparr>)) ps st = Inr st' \<Longrightarrow>
    sm_toVirtual st' = sm_toVirtual st \<and> length (sm_prevVid st) = length (sm_prevVid st') + length ps"
proof (induction ps arbitrary: st)
  case (Cons p ps)
  let ?st = "st\<lparr>sm_prevVid := take p (sm_prevVid st) @ drop (Suc p) (sm_prevVid st)\<rparr>"
  have p: "p < length (sm_prevVid st)" using Cons.prems by (simp split: if_splits)
  then have "sm_toVirtual st' = sm_toVirtual st \<and> length (sm_prevVid st) - 1 = length (sm_prevVid st') + length ps"
    using Cons.IH [of ?st] Cons.prems by (simp split: if_splits)
  then show ?case using p by (auto simp del: One_nat_def)
qed simp

lemma shrink_parts:
  assumes "shrink_barriers limit st = Inr st'" "remove_free limit (sm_toVirtual st) [] = (toV, removed)"
  shows "sm_toVirtual st' = toV" "length (sm_prevVid st) = length (sm_prevVid st') + card (set removed)"
    "removed = [i] \<Longrightarrow> sm_prevVid st' = take i (sm_prevVid st) @ drop (Suc i) (sm_prevVid st)"
proof -
  obtain st1 st2 where s1: "remap_barriers limit st = Inr st1"
    and s2: "res_fold (\<lambda>i st. if i \<ge> length (sm_prevVid st) then Inl (Vpux_Throw ''Incorrect index to remove'')
         else Inr (st\<lparr>sm_prevVid := take i (sm_prevVid st) @ drop (Suc i) (sm_prevVid st)\<rparr>))
       (rev (sorted_list_of_set (set removed))) (st1\<lparr>sm_toVirtual := toV\<rparr>) = Inr st2"
    and s3: "updateNextReal st2 = Inr st'"
  proof -
    obtain st1 where s1: "remap_barriers limit st = Inr st1" using assms(1) unfolding shrink_barriers_def by (rule res_bind_InrE)
    have "res_bind (res_fold (\<lambda>i st. if i \<ge> length (sm_prevVid st) then Inl (Vpux_Throw ''Incorrect index to remove'')
         else Inr (st\<lparr>sm_prevVid := take i (sm_prevVid st) @ drop (Suc i) (sm_prevVid st)\<rparr>))
       (rev (sorted_list_of_set (set removed))) (st1\<lparr>sm_toVirtual := toV\<rparr>)) updateNextReal = Inr st'"
      using assms(1) by (simp add: shrink_barriers_def s1 remap_keeps [OF s1] assms(2))
    then show thesis using that s1 by (elim res_bind_InrE) blast
  qed
  have st': "sm_toVirtual st' = sm_toVirtual st2 \<and> sm_prevVid st' = sm_prevVid st2" using s3 by (auto simp: updateNextReal_def map_sum_eq_Inr)
  note keep = remap_keeps [OF s1] and erase = erase_prev_vids [OF s2]
  show "sm_toVirtual st' = toV" using st' erase by simp
  show "length (sm_prevVid st) = length (sm_prevVid st') + card (set removed)" using st' erase keep by simp
  show "sm_prevVid st' = take i (sm_prevVid st) @ drop (Suc i) (sm_prevVid st)" if "removed = [i]"
    using s2 st' keep unfolding that by (auto split: if_splits)
qed

text \<open>
  C36. When the legalization takes away free physical barriers, the previous barrier
  of each physical one stays at its index if one physical barrier goes.  If the first two free ones are neighbours and
  both go, the index of the second is recorded after the first is erased, so that both are recorded as one, and the
  list of previous barriers is left longer than the list of physical barriers: the entries behind no longer belong to
  the physical barriers at their index.
\<close>

theorem shrink_misaligns_previous_barriers:
  assumes toV: "sm_toVirtual st = xs @ -1 # ys" "-1 \<notin> set xs" and same: "length (sm_prevVid st) = length (sm_toVirtual st)"
    and run: "shrink_barriers limit st = Inr st'"
  shows "(length (sm_toVirtual st) = limit + 1 \<longrightarrow> sm_toVirtual st' = xs @ ys \<and>
      sm_prevVid st' = take (length xs) (sm_prevVid st) @ drop (Suc (length xs)) (sm_prevVid st)) \<and>
    (length (sm_toVirtual st) \<ge> limit + 2 \<and> ys \<noteq> [] \<and> hd ys = -1 \<longrightarrow> length (sm_toVirtual st') < length (sm_prevVid st'))"
proof (intro conjI impI)
  have first: "remove_free limit (xs @ -1 # zs) r = (if length (xs @ -1 # zs) > limit then remove_free limit (xs @ zs) (r @ [length xs])
      else (xs @ -1 # zs, r))" for zs r
    by (subst remove_free.simps) (simp add: first_free_append [OF toV(2), of 0])
  {
    assume len: "length (sm_toVirtual st) = limit + 1"
    have "remove_free limit (xs @ ys) [length xs] = (xs @ ys, [length xs])"
      using len toV(1) by (subst remove_free.simps) (simp split: option.split)
    then have "remove_free limit (sm_toVirtual st) [] = (xs @ ys, [length xs])" using first [of ys "[]"] len toV(1) by simp
    from shrink_parts [OF run this] show "sm_toVirtual st' = xs @ ys"
      "sm_prevVid st' = take (length xs) (sm_prevVid st) @ drop (Suc (length xs)) (sm_prevVid st)" by simp_all
  next
    assume many: "length (sm_toVirtual st) \<ge> limit + 2 \<and> ys \<noteq> [] \<and> hd ys = -1"
    then obtain zs where ys: "ys = -1 # zs" by (cases ys) auto
    have len: "length (xs @ -1 # zs) > limit" "length (xs @ -1 # -1 # zs) > limit" using many toV(1) ys by simp_all
    have start: "remove_free limit (sm_toVirtual st) [] = remove_free limit (xs @ zs) [length xs, length xs]"
      unfolding toV(1) ys using first [of "-1 # zs" "[]"] first [of zs "[length xs]"] len by simp
    obtain toV' removed where run': "remove_free limit (xs @ zs) [length xs, length xs] = (toV', removed)" by fastforce
    obtain rs where rs: "removed = length xs # length xs # rs" "length (xs @ zs) = length toV' + length rs"
      using remove_free_spec [OF run'] run' by auto
    note parts = shrink_parts [OF run, unfolded start, OF run']
    have "card (set removed) \<le> Suc (length rs)" unfolding rs(1) using card_length [of "length xs # rs"] by simp
    then show "length (sm_toVirtual st') < length (sm_prevVid st')" using parts(1,2) rs(2) same toV(1) ys by simp
  }
qed

definition example_shrink :: sim_run where
  "example_shrink = barrier_simulator.extend (example_order\<lparr>bs_barriers := [new_config 2, new_config 0, new_config 1, new_config 2]\<rparr>)
     (sim_run.fields [-1, -1, 3] [1, 2, 3] empty_ring 4 [] 0 0 0 True)"

theorem shrink_misaligns_previous_barriers_witness:
  "\<exists>st'. shrink_barriers 1 example_shrink = Inr st' \<and> length (sm_toVirtual st') < length (sm_prevVid st')"
proof -
  have upto: "[0..<3] = [0, 1, 2::nat]" by (simp add: upt_rec)
  have "remove_free 1 [-1, -1, 3] [] = ([3], [0, 0])" by (simp add: remove_free.simps)
  then have "shrink_barriers 1 example_shrink \<noteq> Inl e" for e
    by (simp add: shrink_barriers_def remap_barriers_def example_shrink_def example_order_def barrier_simulator.defs sim_run.defs upto
        int_at_def vec_at_def updateNextReal_def ring_reset_def ring_clear_def Let_def u64_sub_def U64_def numeral_2_eq_2)
  then obtain st' where st': "shrink_barriers 1 example_shrink = Inr st'" by (cases "shrink_barriers 1 example_shrink") auto
  have "sm_toVirtual example_shrink = [] @ -1 # [-1, 3]" "length (sm_prevVid example_shrink) = length (sm_toVirtual example_shrink)"
    by (simp_all add: example_shrink_def barrier_simulator.defs sim_run.defs)
  from shrink_misaligns_previous_barriers [OF this(1) _ this(2) st'] show ?thesis using st'
    by (simp add: example_shrink_def barrier_simulator.defs sim_run.defs)
qed

end
