(* ===== verification/Tiling.thy ===== *)
theory Tiling
  imports Prelude "HOL-Library.Signed_Division"
begin

text \<open>
  The division of the output of an operation into tiles, \<^verbatim>\<open>src/core/tiling.cpp\<close> and
  \<^verbatim>\<open>include/vpux/compiler/core/tiling.hpp\<close>.

  Sizes and offsets of type \<^verbatim>\<open>int64_t\<close> are integers, whose division truncates; none of the
  sums and products formed from the sizes of a tensor reaches the limits of the type.  Division by zero, which is
  undefined, is the error of a failed assertion.  Loops over a size run over its value modulo \<^verbatim>\<open>2^64\<close>.
\<close>

section \<open>Arithmetic on int64\<close>

definition s_div :: "int \<Rightarrow> int \<Rightarrow> int res" where
  "s_div a b = (if b = 0 then Inl Assertion_Failure else Inr (a sdiv b))"

definition s_divUp :: "int \<Rightarrow> int \<Rightarrow> int res" where
  "s_divUp a b = s_div (a + b - 1) b"

definition s_alignValUp :: "int \<Rightarrow> int \<Rightarrow> int res" where
  "s_alignValUp val align =
     (if align = 0 then Inl (Vpux_Throw ''Zero-alignment is not supported'')
      else map_sum id (\<lambda>q. q * align) (s_div (val + (if val \<ge> 0 then 1 else 0) * (align - 1)) align))"

definition to_size :: "int \<Rightarrow> nat" where
  "to_size n = nat (n mod 2 ^ 64)"

section \<open>Tiles\<close>

text \<open>A shape gives the size of each dimension; a dimension is its index.\<close>

type_synonym shape = "int list"

record tile_info =
  ti_shape :: shape
  ti_offsets :: shape
  ti_axis :: shape
  ti_isCompletedTile :: bool

definition new_tile :: "nat \<Rightarrow> tile_info" where
  "new_tile rank = \<lparr>ti_shape = replicate rank 0, ti_offsets = replicate rank 0, ti_axis = replicate rank 0, ti_isCompletedTile = False\<rparr>"

definition shape_tile :: "shape \<Rightarrow> tile_info" where
  "shape_tile sh = \<lparr>ti_shape = sh, ti_offsets = replicate (length sh) 0, ti_axis = replicate (length sh) 1, ti_isCompletedTile = False\<rparr>"

definition set_slice :: "nat \<Rightarrow> int \<Rightarrow> int \<Rightarrow> tile_info \<Rightarrow> tile_info res" where
  "set_slice d sz off t =
     res_bind (vec_set (ti_shape t) d sz) (\<lambda>sh. res_bind (vec_set (ti_offsets t) d off) (\<lambda>offs.
     Inr (t\<lparr>ti_shape := sh, ti_offsets := offs\<rparr>)))"

section \<open>Dividing one dimension\<close>

text \<open>The size of the first tiles, the size of the others, and how many are of the first kind.\<close>

definition divideTileSizeAndInterval :: "nat \<Rightarrow> shape \<Rightarrow> shape \<Rightarrow> int list \<Rightarrow> (int \<times> int \<times> nat) option res" where
  "divideTileSizeAndInterval dimension divisors sh alignment =
     res_bind (vec_at sh dimension) (\<lambda>shapeVal. res_bind (vec_at divisors dimension) (\<lambda>divisorVal.
     res_bind (vec_at alignment dimension) (\<lambda>alignmentVal.
     if shapeVal < divisorVal then Inr None
     else if alignmentVal > 1 then
       res_bind (s_divUp shapeVal divisorVal) (\<lambda>q. res_bind (s_alignValUp q alignmentVal) (\<lambda>tileSize.
       let remainderTileSize = shapeVal - tileSize * (divisorVal - 1) in
       if remainderTileSize \<le> 0 then Inr None else Inr (Some (tileSize, remainderTileSize, to_size (divisorVal - 1)))))
     else
       res_bind (s_div shapeVal divisorVal) (\<lambda>tileSize.
       let remainderTileSize = shapeVal smod divisorVal in
       Inr (Some (if remainderTileSize \<noteq> 0 then (tileSize + 1, tileSize, to_size remainderTileSize)
                  else (tileSize, remainderTileSize, to_size divisorVal)))))))"

section \<open>Dividing a shape\<close>

text \<open>The dimensions in the order in which they are unrolled.\<close>

definition dim_at :: "bool \<Rightarrow> nat \<Rightarrow> nat \<Rightarrow> nat res" where
  "dim_at unrollSpatialFirst rank i =
     (if unrollSpatialFirst then
        (let order = (if rank = 5 then [0, 1, 3, 4, 2] else [0, 2, 3, 1]) in
         if i < length order then Inr (order ! i) else Inl (Vpux_Throw ''DimsOrder does not have Dim at pos''))
      else Inr i)"

text \<open>
  The indices are those of the dimensions still to divide; the tile under construction is shared by all levels.  A
  failure leaves every loop.
\<close>

fun divideTiles ::
  "shape \<Rightarrow> shape \<Rightarrow> int list \<Rightarrow> bool \<Rightarrow> int list option \<Rightarrow> nat list \<Rightarrow> tile_info list \<times> tile_info \<Rightarrow> (tile_info list \<times> tile_info) option res" where
  "divideTiles divisors sh alignment unrollSpatialFirst customChannelSplit [] st = Inl Assertion_Failure"
| "divideTiles divisors sh alignment unrollSpatialFirst customChannelSplit (i # is) (dividedTiles, ongoingTile) =
     res_bind (dim_at unrollSpatialFirst (length sh) i) (\<lambda>dimension.
     res_bind (divideTileSizeAndInterval dimension divisors sh alignment) (\<lambda>r. case r of None \<Rightarrow> Inr None
       | Some (tileSize, remainderTileSize, tileSizeInterval) \<Rightarrow>
     map_sum id (map_option (\<lambda>(tiles, t, _). (tiles, t)))
       (res_fold (\<lambda>tileIndex r. case r of None \<Rightarrow> Inr None | Some (tiles, t, tileOffset) \<Rightarrow>
          let tileShape = (if tileIndex < tileSizeInterval then tileSize else remainderTileSize) in
          res_bind (case customChannelSplit of None \<Rightarrow> Inr tileShape
              | Some split \<Rightarrow> if dimension = 1 then vec_at split tileIndex else Inr tileShape) (\<lambda>tileShape.
          res_bind (set_slice dimension tileShape tileOffset t) (\<lambda>t.
          res_bind (vec_set (ti_axis t) dimension (divisors ! dimension)) (\<lambda>axis.
          let t = t\<lparr>ti_axis := axis\<rparr> in
          if is = [] then Inr (Some (tiles @ [t], t, tileOffset + tileShape))
          else map_sum id (map_option (\<lambda>(tiles, t). (tiles, t, tileOffset + tileShape)))
            (divideTiles divisors sh alignment unrollSpatialFirst customChannelSplit is (tiles, t))))))
        [0..<to_size (divisors ! dimension)] (Some (dividedTiles, ongoingTile, 0)))))"

definition fillDividedTiles ::
  "shape \<Rightarrow> shape \<Rightarrow> int list option \<Rightarrow> bool \<Rightarrow> int list option \<Rightarrow> tile_info list option res" where
  "fillDividedTiles divisors sh alignment unrollSpatialFirst customChannelSplit =
     map_sum id (map_option fst)
       (divideTiles divisors sh (case alignment of None \<Rightarrow> replicate (length sh) 1 | Some al \<Rightarrow> al) unrollSpatialFirst customChannelSplit
         [0..<length divisors] ([], (new_tile (length divisors))\<lparr>ti_isCompletedTile := True\<rparr>))"

section \<open>Special divisions\<close>

text \<open>Dividing rows or planes of an image in even sizes: the tiles of full size, their size, and what is left.\<close>

definition even_division :: "int \<Rightarrow> int \<Rightarrow> (int \<times> int \<times> int) res" where
  "even_division shapeVal divisorVal =
     res_bind (s_div shapeVal divisorVal) (\<lambda>tileSizeInit.
     let tileSize = tileSizeInit + tileSizeInit smod 2 in
     map_sum id (\<lambda>n. (n, tileSize, shapeVal smod tileSize)) (s_div shapeVal tileSize))"

definition yuv_rows :: "int \<Rightarrow> int \<Rightarrow> tile_info list \<times> tile_info \<Rightarrow> (tile_info list \<times> tile_info) res" where
  "yuv_rows shapeValH divisorH = (\<lambda>(tiles, t).
     res_bind (even_division shapeValH divisorH) (\<lambda>(n, tileSizeH, remainderTileSizeH).
     let t = t\<lparr>ti_shape := (ti_shape t)[2 := tileSizeH]\<rparr>;
         (tiles, t) = fold (\<lambda>j (tiles, t). let t = t\<lparr>ti_offsets := (ti_offsets t)[2 := tileSizeH * int j]\<rparr> in (tiles @ [t], t))
           [0..<nat n] (tiles, t)
     in Inr (if remainderTileSizeH \<noteq> 0
         then (let t = t\<lparr>ti_shape := (ti_shape t)[2 := remainderTileSizeH], ti_offsets := (ti_offsets t)[2 := tileSizeH * n]\<rparr> in (tiles @ [t], t))
         else (tiles, t))))"

definition divideTilesYuvToRgbOp :: "shape \<Rightarrow> shape \<Rightarrow> tile_info \<Rightarrow> tile_info list res" where
  "divideTilesYuvToRgbOp divisors sh ongoingTile =
     (if length divisors < 4 \<or> length sh < 4 \<or> length (ti_shape ongoingTile) < 4 then Inl Assertion_Failure
      else let t = ongoingTile\<lparr>ti_shape := (ti_shape ongoingTile)[0 := sh ! 0, 3 := sh ! 3],
               ti_axis := (ti_axis ongoingTile)[0 := divisors ! 0, 1 := divisors ! 1, 2 := divisors ! 2, 3 := divisors ! 3]\<rparr> in
        res_bind (even_division (sh ! 1) (divisors ! 1)) (\<lambda>(n, tileSizeC, remainderTileSizeC).
        let t = t\<lparr>ti_shape := (ti_shape t)[1 := tileSizeC]\<rparr> in
        res_bind (res_fold (\<lambda>i (tiles, t). yuv_rows (sh ! 2) (divisors ! 2)
            (tiles, t\<lparr>ti_offsets := (ti_offsets t)[1 := tileSizeC * int i]\<rparr>)) [0..<nat n] ([], t)) (\<lambda>(tiles, t).
        if remainderTileSizeC \<noteq> 0
        then map_sum id fst (yuv_rows (sh ! 2) (divisors ! 2) (tiles, t\<lparr>ti_shape := (ti_shape t)[1 := remainderTileSizeC],
          ti_offsets := (ti_offsets t)[1 := tileSizeC * n]\<rparr>))
        else Inr tiles)))"

definition fillDividedTilesYuvToRgbOp :: "shape \<Rightarrow> shape \<Rightarrow> tile_info list res" where
  "fillDividedTilesYuvToRgbOp divisors sh = divideTilesYuvToRgbOp divisors sh ((new_tile (length divisors))\<lparr>ti_isCompletedTile := True\<rparr>)"

text \<open>The alignment and the order of unrolling of the operation are arguments.\<close>

definition scale_tile :: "int \<Rightarrow> tile_info \<Rightarrow> tile_info" where
  "scale_tile m t = t\<lparr>ti_shape := (ti_shape t)[2 := ti_shape t ! 2 * m, 3 := ti_shape t ! 3 * m],
     ti_offsets := (ti_offsets t)[2 := ti_offsets t ! 2 * m, 3 := ti_offsets t ! 3 * m]\<rparr>"

definition fillDividedTilesDepthToSpaceOp :: "int \<Rightarrow> int list option \<Rightarrow> bool \<Rightarrow> shape \<Rightarrow> shape \<Rightarrow> tile_info list option res" where
  "fillDividedTilesDepthToSpaceOp blockSize alignment unrollSpatialFirst divisors sh =
     (if blockSize = 0 then Inl (Vpux_Throw ''Got DepthToSpace block_size=0'')
      else if length sh < 4 then Inl Assertion_Failure
      else if sh ! 2 smod blockSize \<noteq> 0 \<or> sh ! 3 smod blockSize \<noteq> 0 then Inr None
      else map_sum id (map_option (map (scale_tile blockSize)))
        (fillDividedTiles divisors (sh[2 := sh ! 2 sdiv blockSize, 3 := sh ! 3 sdiv blockSize]) alignment unrollSpatialFirst None))"

definition closestGreaterMultiplier :: "int \<Rightarrow> int \<Rightarrow> int res" where
  "closestGreaterMultiplier border denominator =
     (if denominator = 0 then Inr 0 else s_alignValUp (max border 0) (abs denominator))"

definition calculateAlignmentLCM :: "int list list \<Rightarrow> int list option option" where
  "calculateAlignmentLCM alignments =
     (case alignments of [] \<Rightarrow> Some None
      | al # _ \<Rightarrow> if list_ex (\<lambda>a. length a \<noteq> length al) alignments then None
          else Some (Some (map (\<lambda>dim. fold (\<lambda>a l. lcm l (a ! dim)) alignments 1) [0..<length al])))"

section \<open>Channels of depthwise convolutions\<close>

definition supportedChannelsDW :: "int list" where
  "supportedChannelsDW = [64, 32, 16]"

text \<open>The search adds supported sizes until the channels are used up, one per cluster at most.\<close>

function isSupportedChannelSizeWithMultiCluster :: "int \<Rightarrow> int \<Rightarrow> int \<Rightarrow> int \<Rightarrow> int \<Rightarrow> bool \<times> int" where
  "isSupportedChannelSizeWithMultiCluster channelSize numCluster assigned steps maxValid =
     (if assigned = channelSize then (True, maxValid)
      else if steps \<ge> numCluster \<or> assigned > channelSize then (False, maxValid)
      else let maxValid = max maxValid assigned;
               (b, maxValid) = isSupportedChannelSizeWithMultiCluster channelSize numCluster (assigned + 64) (steps + 1) maxValid
        in if b then (True, maxValid)
           else let (b, maxValid) = isSupportedChannelSizeWithMultiCluster channelSize numCluster (assigned + 32) (steps + 1) maxValid
        in if b then (True, maxValid)
           else isSupportedChannelSizeWithMultiCluster channelSize numCluster (assigned + 16) (steps + 1) maxValid)"
  by pat_completeness auto
termination
  by (relation "measure (\<lambda>(_, numCluster, _, steps, _). nat (numCluster - steps))") auto

text \<open>The number of clusters over the channels of the operation, for a number of channels, is an argument.\<close>

definition isSupportedChannelSizeForSEPDwConv :: "(int \<Rightarrow> int) \<Rightarrow> int \<Rightarrow> int \<Rightarrow> bool \<times> int" where
  "isSupportedChannelSizeForSEPDwConv clusters channelSize maxValid =
     (if clusters channelSize = 1
      then (let m = fold (\<lambda>v m. if v > m then v else m) (takeWhile (\<lambda>v. \<not> v > channelSize) supportedChannelsDW) 0 in (m = channelSize, m))
      else isSupportedChannelSizeWithMultiCluster channelSize (clusters channelSize) 0 0 maxValid)"

fun divideChannelForSEPDWConv :: "(int \<Rightarrow> int) \<Rightarrow> int \<Rightarrow> nat \<Rightarrow> int list res" where
  "divideChannelForSEPDWConv clusters channelSize 0 = Inl (Vpux_Throw ''Invalid channel divisor'')"
| "divideChannelForSEPDWConv clusters channelSize (Suc 0) = Inr [channelSize]"
| "divideChannelForSEPDWConv clusters channelSize (Suc (Suc n)) =
     res_bind (s_divUp channelSize (int (Suc (Suc n)))) (\<lambda>q. res_bind (s_alignValUp q 16) (\<lambda>alignedTileSize.
     let currentTileSize = (case find (\<lambda>v. \<not> v < alignedTileSize) (rev supportedChannelsDW) of
           Some v \<Rightarrow> v
         | None \<Rightarrow> let (b, validTileSize) = isSupportedChannelSizeForSEPDwConv clusters alignedTileSize 0
             in if b then alignedTileSize else validTileSize) in
     if currentTileSize \<le> 0 then Inr []
     else map_sum id (\<lambda>others. if others = [] then [] else currentTileSize # others)
       (divideChannelForSEPDWConv clusters (channelSize - currentTileSize) (Suc n))))"

definition fillDividedTilesSEPDWConv :: "(int \<Rightarrow> int) \<Rightarrow> shape \<Rightarrow> int list \<Rightarrow> bool \<Rightarrow> shape \<Rightarrow> shape \<Rightarrow> tile_info list option res" where
  "fillDividedTilesSEPDWConv clusters outputShape alignment unrollSpatialFirst divisors sh =
     res_bind (vec_at outputShape 1) (\<lambda>channels. res_bind (vec_at divisors 1) (\<lambda>divisorC.
     res_bind (divideChannelForSEPDWConv clusters channels (to_size divisorC)) (\<lambda>dividedChannels.
     if dividedChannels = [] then Inr None
     else fillDividedTiles divisors sh (Some alignment) unrollSpatialFirst (Some dividedChannels))))"

section \<open>Numbers of tiles\<close>

definition isSupportedAlignedDivision :: "int \<Rightarrow> int \<Rightarrow> int \<Rightarrow> bool res" where
  "isSupportedAlignedDivision dimSize tiles alignment =
     res_bind (s_divUp dimSize tiles) (\<lambda>base. res_bind (s_alignValUp base alignment) (\<lambda>alignedBase.
     Inr (dimSize - alignedBase * (tiles - 1) > 0)))"

definition isDimLeftToTile :: "shape \<Rightarrow> int list \<Rightarrow> nat \<Rightarrow> bool res" where
  "isDimLeftToTile curNumTiles maxNumTiles testTileDim =
     res_bind (vec_at curNumTiles testTileDim) (\<lambda>n. map_sum id (\<lambda>m. n < m) (vec_at maxNumTiles testTileDim))"

text \<open>The loops that skip the numbers of tiles that the alignment does not allow.\<close>

function plus_aligned :: "int \<Rightarrow> int \<Rightarrow> int \<Rightarrow> int \<Rightarrow> int res" where
  "plus_aligned dimSize alignment maxTiles n =
     res_bind (isSupportedAlignedDivision dimSize (n + 1) alignment) (\<lambda>ok.
     if \<not> ok \<and> n + 1 < maxTiles then plus_aligned dimSize alignment maxTiles (n + 1) else Inr (n + 1))"
  by pat_completeness auto
termination
  by (relation "measure (\<lambda>(_, _, maxTiles, n). nat (maxTiles - n))") auto

definition dimPlus :: "shape \<Rightarrow> nat \<Rightarrow> nat \<Rightarrow> int \<Rightarrow> shape \<Rightarrow> int list \<Rightarrow> shape res" where
  "dimPlus nTilesOnDim dimToTile dimToAlign dimAlignment outputShape maxNumTiles =
     res_bind (vec_at nTilesOnDim dimToTile) (\<lambda>n.
     if dimToTile = dimToAlign \<and> dimAlignment \<noteq> 1 then
       res_bind (vec_at outputShape dimToTile) (\<lambda>dimSize. res_bind (vec_at maxNumTiles dimToTile) (\<lambda>maxTiles.
       map_sum id (\<lambda>n. nTilesOnDim[dimToTile := n]) (plus_aligned dimSize dimAlignment maxTiles n)))
     else Inr (nTilesOnDim[dimToTile := n + 1]))"

function minus_aligned :: "int \<Rightarrow> int \<Rightarrow> int \<Rightarrow> int res" where
  "minus_aligned dimSize alignment n =
     (if \<not> n > 1 then Inr n
      else res_bind (isSupportedAlignedDivision dimSize n alignment) (\<lambda>ok.
        if \<not> ok then minus_aligned dimSize alignment (n - 1) else Inr n))"
  by pat_completeness auto
termination
  by (relation "measure (\<lambda>(_, _, n). nat n)") auto

definition dimMinus :: "shape \<Rightarrow> nat \<Rightarrow> nat \<Rightarrow> int \<Rightarrow> shape \<Rightarrow> shape res" where
  "dimMinus nTilesOnDim dimToTile dimToAlign dimAlignment outputShape =
     res_bind (vec_at nTilesOnDim dimToTile) (\<lambda>n.
     if dimToTile = dimToAlign \<and> dimAlignment \<noteq> 1 then
       (if \<not> n - 1 > 1 then Inr (nTilesOnDim[dimToTile := n - 1])
        else res_bind (vec_at outputShape dimToTile) (\<lambda>dimSize.
          map_sum id (\<lambda>n. nTilesOnDim[dimToTile := n]) (minus_aligned dimSize dimAlignment (n - 1))))
     else Inr (nTilesOnDim[dimToTile := n - 1]))"

function next_aligned :: "int \<Rightarrow> int \<Rightarrow> int \<Rightarrow> int \<Rightarrow> int option res" where
  "next_aligned dimSize alignment maxTiles n =
     (if \<not> n + 1 < maxTiles then Inr None
      else res_bind (isSupportedAlignedDivision dimSize (n + 1) alignment) (\<lambda>ok.
        if \<not> ok then next_aligned dimSize alignment maxTiles (n + 1) else Inr (Some (n + 1))))"
  by pat_completeness auto
termination
  by (relation "measure (\<lambda>(_, _, maxTiles, n). nat (maxTiles - n))") auto

definition getNextTiling :: "nat \<Rightarrow> nat \<Rightarrow> int \<Rightarrow> shape \<Rightarrow> int list \<Rightarrow> shape \<Rightarrow> shape option res" where
  "getNextTiling targetDim dimToAlign dimAlignment nTilesOnDim maxNumTiles outputShape =
     res_bind (isDimLeftToTile nTilesOnDim maxNumTiles targetDim) (\<lambda>left.
     if \<not> left then Inr None
     else if targetDim = dimToAlign \<and> dimAlignment \<noteq> 1 then
       res_bind (vec_at outputShape targetDim) (\<lambda>dimSize.
       map_sum id (map_option (\<lambda>n. nTilesOnDim[targetDim := n]))
         (next_aligned dimSize dimAlignment (maxNumTiles ! targetDim) (nTilesOnDim ! targetDim)))
     else Inr (Some (nTilesOnDim[targetDim := nTilesOnDim ! targetDim + 1])))"

definition getNonOneDim :: "shape \<Rightarrow> nat list" where
  "getNonOneDim sh = filter (\<lambda>i. sh ! i \<noteq> 1) [0..<length sh]"

definition getMaxNonOneDim :: "shape \<Rightarrow> nat option" where
  "getMaxNonOneDim sh =
     (let (maxNonOneDim, maxShape) = fold (\<lambda>i (d, m). if sh ! i \<noteq> 1 \<and> sh ! i > m then (i, sh ! i) else (d, m)) [0..<length sh] (0, 0)
      in if maxShape \<le> 1 then None else Some maxNonOneDim)"

definition transferTilingInfo :: "tile_info \<Rightarrow> tile_info \<Rightarrow> nat list \<Rightarrow> tile_info res" where
  "transferTilingInfo dst src dimsToTransfer = res_fold (\<lambda>d dst.
     res_bind (vec_at (ti_shape src) d) (\<lambda>s. res_bind (vec_at (ti_offsets src) d) (\<lambda>off. set_slice d s off dst))) dimsToTransfer dst"

end
