(* ===== verification/Tile_Division.thy ===== *)
theory Tile_Division
  imports Tiling
begin

text \<open>
  What \<^verbatim>\<open>fillDividedTiles\<close> returns: nothing when some dimension cannot be divided as asked,
  otherwise tiles that partition the shape.
\<close>

section \<open>The slices of one dimension\<close>

text \<open>Aligned slices may leave nothing for the last one; without alignment only a dimension shorter than the divisor fails.\<close>

definition tile_align :: "int \<Rightarrow> int \<Rightarrow> int \<Rightarrow> int" where
  "tile_align n k al = (let q = (n + k - 1) div k in (q + al - 1) div al * al)"

definition divisible :: "int \<Rightarrow> int \<Rightarrow> int \<Rightarrow> bool" where
  "divisible n k al \<longleftrightarrow> k \<le> n \<and> (al > 1 \<longrightarrow> tile_align n k al * (k - 1) < n)"

definition slice_size :: "int \<Rightarrow> int \<Rightarrow> int \<Rightarrow> nat \<Rightarrow> int" where
  "slice_size n k al i =
     (if al > 1 then (if int i < k - 1 then tile_align n k al else n - tile_align n k al * (k - 1))
      else (if int i < n mod k then n div k + 1 else n div k))"

definition slice_offset :: "int \<Rightarrow> int \<Rightarrow> int \<Rightarrow> nat \<Rightarrow> int" where
  "slice_offset n k al i = (if al > 1 then tile_align n k al * int i else n div k * int i + min (int i) (n mod k))"

lemma tile_align_pos: "0 < k \<Longrightarrow> k \<le> n \<Longrightarrow> 0 < al \<Longrightarrow> 0 < tile_align n k al"
proof -
  assume k: "0 < k" "k \<le> n" "0 < al"
  have "(n + k - 1) div k \<ge> 1" using k by (simp add: pos_imp_zdiv_pos_iff int_one_le_iff_zero_less)
  then have "((n + k - 1) div k + al - 1) div al \<ge> 1"
    using k by (simp add: pos_imp_zdiv_pos_iff int_one_le_iff_zero_less)
  then show ?thesis using k by (simp add: tile_align_def Let_def)
qed

lemma slice_offset_0 [simp]: "0 < k \<Longrightarrow> slice_offset n k al 0 = 0"
  by (simp add: slice_offset_def min_def)

lemma slice_offset_Suc:
  assumes "0 < k" "0 \<le> n" "int i < k - 1 \<or> al \<le> 1"
  shows "slice_offset n k al (Suc i) = slice_offset n k al i + slice_size n k al i"
  using assms by (auto simp: slice_offset_def slice_size_def algebra_simps min_def)

lemma slice_end:
  assumes "0 < k" "0 \<le> n" "int i < k"
  shows "slice_offset n k al i + slice_size n k al i = (if int i = k - 1 then n else slice_offset n k al (Suc i))"
proof (cases "int i = k - 1")
  case True
  show ?thesis
  proof (cases "al > 1")
    case al: True
    show ?thesis using True al by (simp add: slice_offset_def slice_size_def)
  next
    case False
    have "min (k - 1) (n mod k) = n mod k" using assms pos_mod_bound [of k n] by simp
    then have "n div k * (k - 1) + min (k - 1) (n mod k) + n div k = n"
      using mult_div_mod_eq [of k n] by (simp add: algebra_simps)
    moreover have "\<not> int i < n mod k" using True assms pos_mod_bound [of k n] by linarith
    ultimately show ?thesis using True False by (simp add: slice_offset_def slice_size_def)
  qed
next
  case False
  then show ?thesis using assms slice_offset_Suc [of k n i al] by simp
qed

lemma slice_size_pos:
  assumes "0 < k" "0 < n" "0 < al" "divisible n k al" "int i < k"
  shows "0 < slice_size n k al i"
proof (cases "al > 1")
  case True
  then show ?thesis using assms tile_align_pos [of k n al] by (simp add: slice_size_def divisible_def)
next
  case False
  have "0 < n div k" using assms by (simp add: divisible_def pos_imp_zdiv_pos_iff)
  then show ?thesis using False by (simp add: slice_size_def)
qed

lemma slice_offset_bounds:
  assumes "0 < k" "0 < n" "0 < al" "divisible n k al" "int i < k"
  shows "0 \<le> slice_offset n k al i" "slice_offset n k al i + slice_size n k al i \<le> n" "al dvd slice_offset n k al i"
proof -
  have ta: "0 < tile_align n k al" using assms tile_align_pos [of k n al] by (simp add: divisible_def)
  have q: "0 \<le> n div k" "0 \<le> n mod k" using assms by (simp_all add: pos_imp_zdiv_nonneg_iff)
  show "0 \<le> slice_offset n k al i" using ta q by (simp add: slice_offset_def)
  have "al dvd tile_align n k al" by (simp add: tile_align_def Let_def)
  then show "al dvd slice_offset n k al i" using assms(3) by (cases "al = 1") (auto simp: slice_offset_def)
  show "slice_offset n k al i + slice_size n k al i \<le> n"
  proof (cases "al > 1")
    case True
    show ?thesis
    proof (cases "int i = k - 1")
      case last: True
      then show ?thesis using True assms slice_end [of k n i al] by simp
    next
      case False
      then have "tile_align n k al * (int i + 1) \<le> tile_align n k al * (k - 1)"
        using ta assms by (intro mult_left_mono) auto
      then show ?thesis using True False assms by (auto simp: slice_offset_def slice_size_def divisible_def algebra_simps)
    qed
  next
    case False
    have "n div k * (int i + 1) \<le> n div k * k" using q assms by (intro mult_left_mono) auto
    then have "n div k * int i + n div k \<le> k * (n div k)" by (simp add: algebra_simps)
    then have "n div k * int i + n div k + n mod k \<le> n" using mult_div_mod_eq [of k n] by linarith
    then show ?thesis using False by (auto simp: slice_offset_def slice_size_def min_def)
  qed
qed

text \<open>The routine of the source in these terms.\<close>

lemma sdiv_pos: "0 \<le> a \<Longrightarrow> 0 < b \<Longrightarrow> a sdiv b = (a :: int) div b"
  by (cases "a = 0") (auto simp: signed_divide_int_def)

lemma smod_pos: "0 \<le> a \<Longrightarrow> 0 < b \<Longrightarrow> a smod b = (a :: int) mod b"
  by (cases "a = 0") (auto simp: signed_modulo_int_def)

lemma to_size_pos: "0 \<le> n \<Longrightarrow> n < 2 ^ 64 \<Longrightarrow> to_size n = nat n"
  by (simp add: to_size_def)

lemma s_divUp_pos: "0 < k \<Longrightarrow> 0 < n \<Longrightarrow> s_divUp n k = Inr ((n + k - 1) div k)"
  by (simp add: s_divUp_def s_div_def sdiv_pos)

lemma s_alignValUp_pos:
  assumes "0 < al" "0 \<le> q"
  shows "s_alignValUp q al = Inr ((q + al - 1) div al * al)"
  using assms by (simp add: s_alignValUp_def s_div_def sdiv_pos algebra_simps)

lemma divideTileSizeAndInterval_spec:
  assumes "d < length sh" "d < length divisors" "d < length alignment"
    and "0 < divisors ! d" "0 < sh ! d" "0 < alignment ! d" "divisors ! d < 2 ^ 64"
  shows "divisible (sh ! d) (divisors ! d) (alignment ! d) \<Longrightarrow>
      \<exists>a b n. divideTileSizeAndInterval d divisors sh alignment = Inr (Some (a, b, n)) \<and>
        (\<forall>i. int i < divisors ! d \<longrightarrow> (if i < n then a else b) = slice_size (sh ! d) (divisors ! d) (alignment ! d) i)"
    and "\<not> divisible (sh ! d) (divisors ! d) (alignment ! d) \<Longrightarrow> divideTileSizeAndInterval d divisors sh alignment = Inr None"
proof -
  let ?n = "sh ! d" and ?k = "divisors ! d" and ?al = "alignment ! d"
  have q: "0 \<le> (?n + ?k - 1) div ?k" using assms by (simp add: pos_imp_zdiv_nonneg_iff)
  have sd: "?n sdiv ?k = ?n div ?k" "?n smod ?k = ?n mod ?k"
    using assms by (simp_all add: sdiv_pos smod_pos)
  have r: "to_size (?n mod ?k) = nat (?n mod ?k)"
  proof -
    have "0 \<le> ?n mod ?k" "?n mod ?k < ?k" using assms by simp_all
    then show ?thesis using assms by (intro to_size_pos) linarith+
  qed
  show "divideTileSizeAndInterval d divisors sh alignment = Inr None" if "\<not> divisible ?n ?k ?al"
    using that assms q by (auto simp: divideTileSizeAndInterval_def divisible_def s_divUp_pos s_alignValUp_pos tile_align_def Let_def vec_at_in)
  show "\<exists>a b n. divideTileSizeAndInterval d divisors sh alignment = Inr (Some (a, b, n)) \<and>
        (\<forall>i. int i < ?k \<longrightarrow> (if i < n then a else b) = slice_size ?n ?k ?al i)" if dv: "divisible ?n ?k ?al"
  proof (cases "?al > 1")
    case True
    have "divideTileSizeAndInterval d divisors sh alignment =
      Inr (Some (tile_align ?n ?k ?al, ?n - tile_align ?n ?k ?al * (?k - 1), to_size (?k - 1)))"
      using True dv assms q
      by (simp add: divideTileSizeAndInterval_def divisible_def s_divUp_pos s_alignValUp_pos tile_align_def Let_def vec_at_in)
    moreover have "to_size (?k - 1) = nat (?k - 1)" using assms by (simp add: to_size_def)
    ultimately show ?thesis using True by (auto simp: slice_size_def)
  next
    case False
    show ?thesis
    proof (cases "?n mod ?k = 0")
      case m: True
      have "divideTileSizeAndInterval d divisors sh alignment = Inr (Some (?n div ?k, 0, to_size ?k))"
        using False dv assms m sd by (simp add: divideTileSizeAndInterval_def divisible_def s_div_def vec_at_in)
      moreover have "to_size ?k = nat ?k" using assms by (simp add: to_size_def)
      ultimately show ?thesis using False m by (auto simp: slice_size_def)
    next
      case m: False
      have "divideTileSizeAndInterval d divisors sh alignment = Inr (Some (?n div ?k + 1, ?n div ?k, nat (?n mod ?k)))"
        using False dv assms m sd r by (simp add: divideTileSizeAndInterval_def divisible_def s_div_def vec_at_in)
      then show ?thesis using False by (auto simp: slice_size_def)
    qed
  qed
qed

section \<open>Tiles of several dimensions\<close>

definition covers_dim :: "tile_info \<Rightarrow> int list \<Rightarrow> nat \<Rightarrow> bool" where
  "covers_dim u p d \<longleftrightarrow> ti_offsets u ! d \<le> p ! d \<and> p ! d < ti_offsets u ! d + ti_shape u ! d"

definition in_dim :: "shape \<Rightarrow> int list \<Rightarrow> nat \<Rightarrow> bool" where
  "in_dim sh p d \<longleftrightarrow> 0 \<le> p ! d \<and> p ! d < sh ! d"

definition tile_rank :: "nat \<Rightarrow> tile_info \<Rightarrow> bool" where
  "tile_rank n u \<longleftrightarrow> length (ti_shape u) = n \<and> length (ti_offsets u) = n \<and> length (ti_axis u) = n"

definition good_dim :: "shape \<Rightarrow> shape \<Rightarrow> int list \<Rightarrow> tile_info \<Rightarrow> nat \<Rightarrow> bool" where
  "good_dim divisors sh alignment u d \<longleftrightarrow> 0 < ti_shape u ! d \<and> 0 \<le> ti_offsets u ! d \<and>
     ti_offsets u ! d + ti_shape u ! d \<le> sh ! d \<and> alignment ! d dvd ti_offsets u ! d \<and> ti_axis u ! d = divisors ! d \<and>
     (divisors ! d = 1 \<longrightarrow> ti_offsets u ! d = 0)"

text \<open>Two tiles that differ at most in some dimensions.\<close>

definition agree :: "nat list \<Rightarrow> tile_info \<Rightarrow> tile_info \<Rightarrow> bool" where
  "agree ds t u \<longleftrightarrow> tile_rank (length (ti_shape t)) t \<and> tile_rank (length (ti_shape t)) u \<and>
     ti_isCompletedTile u = ti_isCompletedTile t \<and>
     (\<forall>d. d \<notin> set ds \<longrightarrow> ti_shape u ! d = ti_shape t ! d \<and> ti_offsets u ! d = ti_offsets t ! d \<and> ti_axis u ! d = ti_axis t ! d)"

lemma agree_refl: "tile_rank n t \<Longrightarrow> agree ds t t"
  by (simp add: agree_def tile_rank_def)

lemma agree_trans: "agree ds t u \<Longrightarrow> agree ds' u v \<Longrightarrow> set ds \<union> set ds' \<subseteq> set es \<Longrightarrow> agree es t v"
proof -
  assume a: "agree ds t u" "agree ds' u v" and sub: "set ds \<union> set ds' \<subseteq> set es"
  have "d \<notin> set ds \<and> d \<notin> set ds'" if "d \<notin> set es" for d using that sub by blast
  with a show ?thesis by (simp add: agree_def tile_rank_def)
qed

lemma agree_rank: "agree ds t u \<Longrightarrow> tile_rank n t \<longleftrightarrow> tile_rank n u"
  by (auto simp: agree_def tile_rank_def)

text \<open>The tiles made for some dimensions, from a tile under construction.\<close>

definition division :: "shape \<Rightarrow> shape \<Rightarrow> int list \<Rightarrow> nat list \<Rightarrow> tile_info \<Rightarrow> tile_info list \<Rightarrow> tile_info \<Rightarrow> bool" where
  "division divisors sh alignment ds t new t' \<longleftrightarrow> agree ds t t' \<and>
     (\<forall>u \<in> set new. agree ds t u \<and> (\<forall>d \<in> set ds. good_dim divisors sh alignment u d)) \<and>
     length new = prod_list (map (\<lambda>d. nat (divisors ! d)) ds) \<and>
     (\<forall>p. (\<forall>d \<in> set ds. in_dim sh p d) \<longrightarrow> length (filter (\<lambda>u. \<forall>d \<in> set ds. covers_dim u p d) new) = 1)"

lemma division_Nil: "tile_rank n t \<Longrightarrow> division divisors sh alignment [] t [t] t"
  by (auto simp: division_def agree_refl)

text \<open>One level: the loop over the slices of a dimension, around the levels below it.\<close>

type_synonym tile_state = "(tile_info list \<times> tile_info) option res"

definition tile_body ::
  "(tile_info list \<times> tile_info \<Rightarrow> tile_state) \<Rightarrow> nat \<Rightarrow> int \<Rightarrow> (nat \<Rightarrow> int) \<Rightarrow> nat \<Rightarrow> (tile_info list \<times> tile_info \<times> int) option \<Rightarrow> (tile_info list \<times> tile_info \<times> int) option res" where
  "tile_body inner d k sz i r = (case r of None \<Rightarrow> Inr None | Some (tiles, t, off) \<Rightarrow>
     res_bind (set_slice d (sz i) off t) (\<lambda>t. res_bind (vec_set (ti_axis t) d k) (\<lambda>axis.
       map_sum id (map_option (\<lambda>(tiles, t). (tiles, t, off + sz i))) (inner (tiles, t\<lparr>ti_axis := axis\<rparr>)))))"

definition tile_below :: "shape \<Rightarrow> shape \<Rightarrow> int list \<Rightarrow> bool \<Rightarrow> nat list \<Rightarrow> tile_info list \<times> tile_info \<Rightarrow> tile_state" where
  "tile_below divisors sh alignment usf is = (\<lambda>(tiles, t).
     if is = [] then Inr (Some (tiles @ [t], t)) else divideTiles divisors sh alignment usf None is (tiles, t))"

lemma divideTiles_level:
  assumes "dim_at usf (length sh) i = Inr d" and "divideTileSizeAndInterval d divisors sh alignment = Inr (Some (a, b, n))"
  shows "divideTiles divisors sh alignment usf None (i # is) (tiles, t) =
    map_sum id (map_option (\<lambda>(tiles, t, _). (tiles, t)))
      (res_fold (tile_body (tile_below divisors sh alignment usf is) d (divisors ! d) (\<lambda>i. if i < n then a else b))
        [0..<to_size (divisors ! d)] (Some (tiles, t, 0)))"
proof -
  have e: "tile_body (tile_below divisors sh alignment usf is) d (divisors ! d) (\<lambda>i. if i < n then a else b) =
    (\<lambda>tileIndex r. case r of None \<Rightarrow> Inr None | Some (tiles, t, tileOffset) \<Rightarrow>
          let tileShape = (if tileIndex < n then a else b) in
          res_bind (set_slice d tileShape tileOffset t) (\<lambda>t.
          res_bind (vec_set (ti_axis t) d (divisors ! d)) (\<lambda>axis.
          let t = t\<lparr>ti_axis := axis\<rparr> in
          if is = [] then Inr (Some (tiles @ [t], t, tileOffset + tileShape))
          else map_sum id (map_option (\<lambda>(tiles, t). (tiles, t, tileOffset + tileShape)))
            (divideTiles divisors sh alignment usf None is (tiles, t)))))"
    by (cases "is = []") (auto simp: fun_eq_iff tile_body_def tile_below_def Let_def split: option.splits)
  show ?thesis unfolding e by (simp add: assms)
qed

lemma tile_body_None: "res_fold (tile_body inner d k sz) is None = Inr None"
  by (induction "is") (simp_all add: tile_body_def)

lemma tile_body_Some:
  assumes "tile_rank m t" "d < m"
  shows "tile_body inner d k sz i (Some (tiles, t, off)) =
    map_sum id (map_option (\<lambda>(tiles, t). (tiles, t, off + sz i)))
      (inner (tiles, t\<lparr>ti_shape := (ti_shape t)[d := sz i], ti_offsets := (ti_offsets t)[d := off], ti_axis := (ti_axis t)[d := k]\<rparr>))"
  using assms by (simp add: tile_body_def set_slice_def vec_set_def tile_rank_def)

text \<open>What one more slice adds.\<close>

definition set_dim :: "nat \<Rightarrow> int \<Rightarrow> int \<Rightarrow> int \<Rightarrow> tile_info \<Rightarrow> tile_info" where
  "set_dim d sz off k t = t\<lparr>ti_shape := (ti_shape t)[d := sz], ti_offsets := (ti_offsets t)[d := off], ti_axis := (ti_axis t)[d := k]\<rparr>"

lemma set_dim_rank [simp]: "tile_rank n (set_dim d sz off k t) \<longleftrightarrow> tile_rank n t"
  by (simp add: set_dim_def tile_rank_def)

lemma agree_set_dim: "tile_rank n t \<Longrightarrow> agree (d # ds) t (set_dim d sz off k t)"
  by (auto simp: set_dim_def tile_rank_def agree_def)

lemma set_dim_at:
  assumes "tile_rank n t" "d < n" "agree ds (set_dim d sz off k t) u" "d \<notin> set ds"
  shows "ti_shape u ! d = sz" "ti_offsets u ! d = off" "ti_axis u ! d = k"
  using assms by (auto simp: set_dim_def tile_rank_def agree_def)

lemma division_slice:
  assumes div: "division divisors sh alignment ds (set_dim d sz off k t) new u'" and t: "tile_rank n t" "d < n" "d \<notin> set ds"
    and bounds: "0 < sz" "0 \<le> off" "off + sz \<le> sh ! d" "alignment ! d dvd off" "k = divisors ! d" "k = 1 \<longrightarrow> off = 0"
  shows "agree (d # ds) t u'"
    and "\<forall>u \<in> set new. agree (d # ds) t u \<and> (\<forall>e \<in> set (d # ds). good_dim divisors sh alignment u e)"
    and "\<forall>e \<in> set (d # ds). in_dim sh p e \<Longrightarrow>
      length (filter (\<lambda>u. \<forall>e \<in> set (d # ds). covers_dim u p e) new) = (if off \<le> p ! d \<and> p ! d < off + sz then 1 else 0)"
proof -
  let ?u = "set_dim d sz off k t"
  have a: "agree (d # ds) t ?u" using t(1) by (rule agree_set_dim)
  have ag: "agree (d # ds) t u" if "agree ds ?u u" for u using agree_trans [OF a that, of "d # ds"] by auto
  show "agree (d # ds) t u'" using div ag by (simp add: division_def)
  have new: "agree ds ?u u" "\<forall>e \<in> set ds. good_dim divisors sh alignment u e" if "u \<in> set new" for u
    using that div by (auto simp: division_def)
  have at: "ti_shape u ! d = sz" "ti_offsets u ! d = off" "ti_axis u ! d = k" if "u \<in> set new" for u
    using set_dim_at [OF t(1,2) new(1) t(3)] that by auto
  have "good_dim divisors sh alignment u d" if "u \<in> set new" for u
    using at [OF that] bounds by (simp add: good_dim_def)
  then show "\<forall>u \<in> set new. agree (d # ds) t u \<and> (\<forall>e \<in> set (d # ds). good_dim divisors sh alignment u e)"
    using new ag by auto
  assume p: "\<forall>e \<in> set (d # ds). in_dim sh p e"
  have "covers_dim u p d \<longleftrightarrow> off \<le> p ! d \<and> p ! d < off + sz" if "u \<in> set new" for u
    using at [OF that] by (simp add: covers_dim_def)
  then have "filter (\<lambda>u. \<forall>e \<in> set (d # ds). covers_dim u p e) new =
      (if off \<le> p ! d \<and> p ! d < off + sz then filter (\<lambda>u. \<forall>e \<in> set ds. covers_dim u p e) new else [])"
    by (auto simp: filter_empty_conv intro!: filter_cong)
  moreover have "length (filter (\<lambda>u. \<forall>e \<in> set ds. covers_dim u p e) new) = 1"
    using div p by (simp add: division_def)
  ultimately show "length (filter (\<lambda>u. \<forall>e \<in> set (d # ds). covers_dim u p e) new) = (if off \<le> p ! d \<and> p ! d < off + sz then 1 else 0)"
    by simp
qed

text \<open>The sizes of a divisible dimension.\<close>

definition dim_ok :: "shape \<Rightarrow> shape \<Rightarrow> int list \<Rightarrow> nat \<Rightarrow> bool" where
  "dim_ok divisors sh alignment d \<longleftrightarrow> 0 < divisors ! d \<and> 0 < sh ! d \<and> 0 < alignment ! d \<and> divisors ! d < 2 ^ 64"

lemma tile_loop:
  assumes t: "tile_rank n t" "d < n" "d \<notin> set ds"
    and inner: "\<And>tiles u. tile_rank n u \<Longrightarrow> \<exists>new u'. inner (tiles, u) = Inr (Some (tiles @ new, u')) \<and> division divisors sh alignment ds u new u'"
    and ok: "dim_ok divisors sh alignment d" "divisible (sh ! d) (divisors ! d) (alignment ! d)"
    and sz: "\<forall>i. int i < divisors ! d \<longrightarrow> sz i = slice_size (sh ! d) (divisors ! d) (alignment ! d) i"
    and m: "int m \<le> divisors ! d"
  shows "\<exists>acc t'. res_fold (tile_body inner d (divisors ! d) sz) [0..<m] (Some (tiles, t, 0)) =
        Inr (Some (tiles @ acc, t', if int m = divisors ! d then sh ! d else slice_offset (sh ! d) (divisors ! d) (alignment ! d) m)) \<and>
      agree (d # ds) t t' \<and>
      (\<forall>u \<in> set acc. agree (d # ds) t u \<and> (\<forall>e \<in> set (d # ds). good_dim divisors sh alignment u e)) \<and>
      length acc = m * prod_list (map (\<lambda>d. nat (divisors ! d)) ds) \<and>
      (\<forall>p. (\<forall>e \<in> set (d # ds). in_dim sh p e) \<longrightarrow>
        length (filter (\<lambda>u. \<forall>e \<in> set (d # ds). covers_dim u p e) acc) =
          (if p ! d < (if int m = divisors ! d then sh ! d else slice_offset (sh ! d) (divisors ! d) (alignment ! d) m) then 1 else 0))"
  using m
proof (induction m)
  case 0
  have "0 < divisors ! d" using ok(1) by (simp add: dim_ok_def)
  then show ?case using t by (auto simp: in_dim_def intro: agree_refl)
next
  case (Suc m)
  let ?off = "slice_offset (sh ! d) (divisors ! d) (alignment ! d)" and ?size = "slice_size (sh ! d) (divisors ! d) (alignment ! d)"
  have mk: "int m < divisors ! d" using Suc.prems by simp
  obtain acc t1 where fold1: "res_fold (tile_body inner d (divisors ! d) sz) [0..<m] (Some (tiles, t, 0)) = Inr (Some (tiles @ acc, t1, ?off m))"
    and a1: "agree (d # ds) t t1"
    and acc: "\<forall>u \<in> set acc. agree (d # ds) t u \<and> (\<forall>e \<in> set (d # ds). good_dim divisors sh alignment u e)"
    and len: "length acc = m * prod_list (map (\<lambda>d. nat (divisors ! d)) ds)"
    and count: "\<And>p. \<forall>e \<in> set (d # ds). in_dim sh p e \<Longrightarrow>
        length (filter (\<lambda>u. \<forall>e \<in> set (d # ds). covers_dim u p e) acc) = (if p ! d < ?off m then 1 else 0)"
    using Suc.IH mk by auto
  have r1: "tile_rank n t1" using agree_rank [OF a1] t by blast
  have pos: "0 < divisors ! d" "0 < sh ! d" "0 < alignment ! d" using ok(1) by (simp_all add: dim_ok_def)
  note b = slice_size_pos [OF pos ok(2) mk] slice_offset_bounds [OF pos ok(2) mk]
  obtain new u' where inner_eq: "inner (tiles @ acc, set_dim d (?size m) (?off m) (divisors ! d) t1) = Inr (Some ((tiles @ acc) @ new, u'))"
    and dv: "division divisors sh alignment ds (set_dim d (?size m) (?off m) (divisors ! d) t1) new u'"
    using inner [of "set_dim d (?size m) (?off m) (divisors ! d) t1" "tiles @ acc"] r1 by auto
  have "divisors ! d = 1 \<longrightarrow> ?off m = 0" using mk by (auto simp: slice_offset_def)
  note new = division_slice [OF dv r1 t(2,3) b refl this]
  have e: "?off m + ?size m = (if int (Suc m) = divisors ! d then sh ! d else ?off (Suc m))"
    using slice_end [OF pos(1) _ mk, of "sh ! d" "alignment ! d"] pos by auto
  have "res_fold (tile_body inner d (divisors ! d) sz) [0..<Suc m] (Some (tiles, t, 0)) =
      Inr (Some (tiles @ (acc @ new), u', ?off m + ?size m))"
    using inner_eq sz mk by (simp add: res_fold_append fold1 tile_body_Some [OF r1 t(2)] set_dim_def)
  moreover have "agree (d # ds) t u'" using agree_trans [OF a1 new(1), of "d # ds"] by simp
  moreover have "\<forall>u \<in> set (acc @ new). agree (d # ds) t u \<and> (\<forall>e \<in> set (d # ds). good_dim divisors sh alignment u e)"
    using acc new(2) agree_trans [OF a1] by (metis Un_iff Un_absorb set_append subset_refl)
  moreover have "length (acc @ new) = Suc m * prod_list (map (\<lambda>d. nat (divisors ! d)) ds)"
    using len dv by (simp add: division_def)
  moreover have "length (filter (\<lambda>u. \<forall>e \<in> set (d # ds). covers_dim u p e) (acc @ new)) = (if p ! d < ?off m + ?size m then 1 else 0)"
    if "\<forall>e \<in> set (d # ds). in_dim sh p e" for p
    using count [OF that] new(3) [OF that] b(1) by (simp split: if_splits)
  ultimately show ?case unfolding e by blast
qed

section \<open>The division of a shape\<close>

lemma divideTiles_spec:
  assumes "list_all2 (\<lambda>i d. dim_at usf (length sh) i = Inr d) is ds" and "is \<noteq> []" and "distinct ds" and "set ds \<subseteq> {..<n}"
    and "length sh = n" "length divisors = n" "length alignment = n" and "\<forall>d < n. dim_ok divisors sh alignment d"
    and "tile_rank n t"
  shows "if \<forall>d \<in> set ds. divisible (sh ! d) (divisors ! d) (alignment ! d)
    then \<exists>new t'. divideTiles divisors sh alignment usf None is (tiles, t) = Inr (Some (tiles @ new, t')) \<and>
      division divisors sh alignment ds t new t'
    else divideTiles divisors sh alignment usf None is (tiles, t) = Inr None"
  using assms
proof (induction "is" arbitrary: ds tiles t)
  case (Cons i "is")
  then obtain d ds' where ds: "ds = d # ds'" and d: "dim_at usf (length sh) i = Inr d"
    and "is": "list_all2 (\<lambda>i d. dim_at usf (length sh) i = Inr d) is ds'"
    by (auto simp: list_all2_Cons1)
  have dn: "d < n" "d \<notin> set ds'" "distinct ds'" "set ds' \<subseteq> {..<n}" using Cons.prems ds by auto
  have ok: "dim_ok divisors sh alignment d" using Cons.prems dn by simp
  then have pos: "0 < divisors ! d" "0 < sh ! d" "0 < alignment ! d" "divisors ! d < 2 ^ 64" by (simp_all add: dim_ok_def)
  have len: "d < length sh" "d < length divisors" "d < length alignment" using Cons.prems dn by simp_all
  note spec = divideTileSizeAndInterval_spec [OF len pos(1,2,3,4)]
  have size: "to_size (divisors ! d) = nat (divisors ! d)" using pos by (simp add: to_size_pos)
  let ?below = "tile_below divisors sh alignment usf is"
  have below: "if \<forall>d \<in> set ds'. divisible (sh ! d) (divisors ! d) (alignment ! d)
      then \<exists>new u'. ?below (tiles, u) = Inr (Some (tiles @ new, u')) \<and> division divisors sh alignment ds' u new u'
      else ?below (tiles, u) = Inr None" if "tile_rank n u" for tiles u
  proof (cases "is = []")
    case True
    then show ?thesis using "is" division_Nil [OF that] by (simp add: tile_below_def)
  next
    case False
    then show ?thesis using Cons.IH [OF "is" False dn(3,4) Cons.prems(5-8) that, of tiles] by (simp add: tile_below_def)
  qed
  show ?case
  proof (cases "divisible (sh ! d) (divisors ! d) (alignment ! d)")
    case False
    then show ?thesis using spec(2) d by (simp add: ds)
  next
    case dv: True
    obtain a b m where abm: "divideTileSizeAndInterval d divisors sh alignment = Inr (Some (a, b, m))"
      and sz: "\<forall>i. int i < divisors ! d \<longrightarrow> (if i < m then a else b) = slice_size (sh ! d) (divisors ! d) (alignment ! d) i"
      using spec(1) [OF dv] by blast
    note level = divideTiles_level [OF d abm, of "is" tiles t, unfolded size]
    show ?thesis
    proof (cases "\<forall>d \<in> set ds'. divisible (sh ! d) (divisors ! d) (alignment ! d)")
      case True
      then have inner: "\<And>tiles u. tile_rank n u \<Longrightarrow>
          \<exists>new u'. ?below (tiles, u) = Inr (Some (tiles @ new, u')) \<and> division divisors sh alignment ds' u new u'"
        using below by presburger
      have k: "int (nat (divisors ! d)) = divisors ! d" using pos by simp
      show ?thesis
        using tile_loop [where inner = ?below, OF Cons.prems(9) dn(1,2) inner ok dv sz, of "nat (divisors ! d)" tiles] pos True dv
        unfolding level by (auto simp: ds division_def in_dim_def)
    next
      case False
      obtain k where k: "nat (divisors ! d) = Suc k" using pos by (cases "nat (divisors ! d)") auto
      have "tile_body ?below d (divisors ! d) (\<lambda>i. if i < m then a else b) 0 (Some (tiles, t, 0)) = Inr None"
        using below [of "set_dim d (if 0 < m then a else b) 0 (divisors ! d) t" tiles] Cons.prems(9) False dn(1)
        by (simp add: tile_body_Some set_dim_def [symmetric])
      then show ?thesis using False unfolding level k
        by (simp add: ds upt_conv_Cons tile_body_None del: upt_Suc)
    qed
  qed
qed simp

lemma dim_at_order:
  assumes "usf \<longrightarrow> n = 4 \<or> n = 5"
  obtains ds where "list_all2 (\<lambda>i d. dim_at usf n i = Inr d) [0..<n] ds" "distinct ds" "set ds = {..<n}"
proof (cases usf)
  case True
  then consider "n = 4" | "n = 5" using assms by blast
  then show thesis
  proof cases
    case 1
    show thesis by (rule that [of "[0, 2, 3, 1]"]) (use True in \<open>auto simp: 1 dim_at_def upt_rec numeral_eq_Suc less_Suc_eq\<close>)
  next
    case 2
    show thesis by (rule that [of "[0, 1, 3, 4, 2]"]) (use True in \<open>auto simp: 2 dim_at_def upt_rec numeral_eq_Suc less_Suc_eq\<close>)
  qed
next
  case False
  show thesis by (rule that [of "[0..<n]"]) (use False in \<open>auto simp: dim_at_def list_all2_conv_all_nth\<close>)
qed

lemma length_filter_unique:
  assumes "length (filter Q xs) = 1"
  shows "\<exists>!i. i < length xs \<and> Q (xs ! i)"
proof -
  have "card {i. i < length xs \<and> Q (xs ! i)} = 1" using assms by (simp add: length_filter_conv_card)
  then obtain j where "{i. i < length xs \<and> Q (xs ! i)} = {j}" by (rule card_1_singletonE)
  note j = this
  have "i < length xs \<and> Q (xs ! i) \<longleftrightarrow> i = j" for i using arg_cong [OF j, of "\<lambda>S. i \<in> S"] by simp
  then show ?thesis by simp
qed

lemma prod_list_perm: "distinct ds \<Longrightarrow> set ds = {..<n} \<Longrightarrow> prod_list (map f ds) = (\<Prod>d<n. f d :: nat)"
  by (metis prod.distinct_set_conv_list)

definition tile_has :: "tile_info \<Rightarrow> int list \<Rightarrow> bool" where
  "tile_has u p \<longleftrightarrow> length p = length (ti_shape u) \<and> (\<forall>d < length p. covers_dim u p d)"

lemma fillDividedTiles_spec:
  assumes "0 < n" "length sh = n" "length divisors = n" "length al = n" "\<forall>d < n. dim_ok divisors sh al d"
    and "usf \<longrightarrow> n = 4 \<or> n = 5" and "al = (case alignment of None \<Rightarrow> replicate n 1 | Some a \<Rightarrow> a)"
  shows "if \<forall>d < n. divisible (sh ! d) (divisors ! d) (al ! d)
    then \<exists>tiles. fillDividedTiles divisors sh alignment usf None = Inr (Some tiles) \<and>
      length tiles = (\<Prod>d<n. nat (divisors ! d)) \<and>
      (\<forall>u \<in> set tiles. tile_rank n u \<and> ti_isCompletedTile u \<and> (\<forall>d < n. good_dim divisors sh al u d)) \<and>
      (\<forall>p. length p = n \<longrightarrow> (\<forall>d < n. in_dim sh p d) \<longrightarrow> (\<exists>!i. i < length tiles \<and> tile_has (tiles ! i) p))
    else fillDividedTiles divisors sh alignment usf None = Inr None"
proof -
  obtain ds where ds: "list_all2 (\<lambda>i d. dim_at usf n i = Inr d) [0..<n] ds" "distinct ds" "set ds = {..<n}"
    using dim_at_order [OF assms(6)] .
  let ?t = "(new_tile n)\<lparr>ti_isCompletedTile := True\<rparr>"
  have r: "tile_rank n ?t" by (simp add: tile_rank_def new_tile_def)
  have all: "(\<forall>d \<in> set ds. Q d) \<longleftrightarrow> (\<forall>d < n. Q d)" for Q using ds(3) by auto
  have fill: "fillDividedTiles divisors sh alignment usf None = map_sum id (map_option fst) (divideTiles divisors sh al usf None [0..<n] ([], ?t))"
    unfolding fillDividedTiles_def assms(7) assms(2) assms(3) ..
  have ne: "[0..<n] \<noteq> []" "set ds \<subseteq> {..<n}" using assms(1) ds(3) by simp_all
  note spec = divideTiles_spec [of usf sh "[0..<n]" ds n divisors al ?t "[]", unfolded assms(2), OF ds(1) ne(1) ds(2) ne(2) refl assms(3-5) r]
  show ?thesis
  proof (cases "\<forall>d < n. divisible (sh ! d) (divisors ! d) (al ! d)")
    case True
    then obtain tiles t' where run: "divideTiles divisors sh al usf None [0..<n] ([], ?t) = Inr (Some (tiles, t'))"
      and dv: "division divisors sh al ds ?t tiles t'"
      using spec [unfolded all, unfolded if_P [OF True]] by auto
    have ranks: "tile_rank n u \<and> ti_isCompletedTile u \<and> (\<forall>d < n. good_dim divisors sh al u d)" if u: "u \<in> set tiles" for u
    proof -
      have a: "agree ds ?t u" and g: "\<forall>d < n. good_dim divisors sh al u d" using dv u by (simp_all add: division_def all)
      then show ?thesis using agree_rank [OF a] r by (auto simp: agree_def)
    qed
    have "\<exists>!i. i < length tiles \<and> tile_has (tiles ! i) p" if p: "length p = n" "\<forall>d < n. in_dim sh p d" for p
    proof -
      have "length (filter (\<lambda>u. \<forall>d < n. covers_dim u p d) tiles) = 1" using dv p by (simp add: division_def all)
      moreover have "filter (\<lambda>u. \<forall>d < n. covers_dim u p d) tiles = filter (\<lambda>u. tile_has u p) tiles"
        using ranks p by (auto simp: tile_has_def tile_rank_def intro!: filter_cong)
      ultimately show ?thesis by (intro length_filter_unique) simp
    qed
    moreover have "length tiles = (\<Prod>d<n. nat (divisors ! d))" using dv ds by (simp add: division_def prod_list_perm)
    ultimately show ?thesis unfolding fill run if_P [OF True] using ranks by (intro exI [of _ tiles] conjI) simp_all
  next
    case False
    have "divideTiles divisors sh al usf None [0..<n] ([], ?t) = Inr None"
      using spec [unfolded all, unfolded if_not_P [OF False]] .
    then show ?thesis unfolding fill if_not_P [OF False] by simp
  qed
qed

section \<open>Tiles partition the shape\<close>

text \<open>
  C4. For positive sizes, divisors and alignments, and any order of unrolling, the division of
  a shape fails just when some dimension is shorter than its divisor or aligned slices leave nothing for its last slice.
  Otherwise it returns as many tiles as the product of the divisors; every tile is not empty, lies within the shape,
  starts at a multiple of the alignment in each dimension and records the divisors, and every point of the shape lies in
  exactly one tile.
\<close>

theorem fillDividedTiles_partitions:
  assumes "0 < n" "length sh = n" "length divisors = n" "length al = n"
    and "\<forall>d < n. 0 < divisors ! d \<and> divisors ! d < 2 ^ 64 \<and> 0 < sh ! d \<and> 0 < al ! d"
    and "unrollSpatialFirst \<longrightarrow> n = 4 \<or> n = 5" and "al = (case alignment of None \<Rightarrow> replicate n 1 | Some a \<Rightarrow> a)"
  shows "(fillDividedTiles divisors sh alignment unrollSpatialFirst None = Inr None \<and>
       (\<exists>d < n. sh ! d < divisors ! d \<or>
          al ! d > 1 \<and> sh ! d \<le> tile_align (sh ! d) (divisors ! d) (al ! d) * (divisors ! d - 1))) \<or>
    (\<exists>tiles. fillDividedTiles divisors sh alignment unrollSpatialFirst None = Inr (Some tiles) \<and>
       (\<forall>d < n. divisors ! d \<le> sh ! d \<and>
          (al ! d > 1 \<longrightarrow> tile_align (sh ! d) (divisors ! d) (al ! d) * (divisors ! d - 1) < sh ! d)) \<and>
       length tiles = (\<Prod>d<n. nat (divisors ! d)) \<and>
       (\<forall>u \<in> set tiles. ti_axis u = divisors \<and> length (ti_shape u) = n \<and> length (ti_offsets u) = n \<and>
          (\<forall>d < n. 0 < ti_shape u ! d \<and> 0 \<le> ti_offsets u ! d \<and> ti_offsets u ! d + ti_shape u ! d \<le> sh ! d \<and>
             al ! d dvd ti_offsets u ! d)) \<and>
       (\<forall>p. length p = n \<longrightarrow> (\<forall>d < n. 0 \<le> p ! d \<and> p ! d < sh ! d) \<longrightarrow> (\<exists>!i. i < length tiles \<and> tile_has (tiles ! i) p)))"
proof -
  have ok: "\<forall>d < n. dim_ok divisors sh al d" using assms(5) by (simp add: dim_ok_def)
  note spec = fillDividedTiles_spec [OF assms(1-4) ok assms(6,7)]
  show ?thesis
  proof (cases "\<forall>d < n. divisible (sh ! d) (divisors ! d) (al ! d)")
    case True
    then obtain tiles where t: "fillDividedTiles divisors sh alignment unrollSpatialFirst None = Inr (Some tiles)"
      "length tiles = (\<Prod>d<n. nat (divisors ! d))"
      "\<forall>u \<in> set tiles. tile_rank n u \<and> ti_isCompletedTile u \<and> (\<forall>d < n. good_dim divisors sh al u d)"
      "\<forall>p. length p = n \<longrightarrow> (\<forall>d < n. in_dim sh p d) \<longrightarrow> (\<exists>!i. i < length tiles \<and> tile_has (tiles ! i) p)"
      using spec by auto
    have "ti_axis u = divisors" if "u \<in> set tiles" for u
      using t(3) that assms(3) by (intro nth_equalityI) (auto simp: tile_rank_def good_dim_def)
    then show ?thesis using t True
      by (intro disjI2 exI [of _ tiles] conjI) (auto simp: divisible_def tile_rank_def good_dim_def in_dim_def)
  next
    case False
    then obtain d where "d < n" "\<not> divisible (sh ! d) (divisors ! d) (al ! d)" by blast
    then have "\<exists>d < n. sh ! d < divisors ! d \<or> al ! d > 1 \<and> sh ! d \<le> tile_align (sh ! d) (divisors ! d) (al ! d) * (divisors ! d - 1)"
      by (intro exI [of _ d]) (auto simp: divisible_def)
    moreover have "fillDividedTiles divisors sh alignment unrollSpatialFirst None = Inr None" using spec False by (simp only: if_False)
    ultimately show ?thesis by blast
  qed
qed

theorem fillDividedTiles_partitions_witness:
  "(\<exists>tiles. fillDividedTiles [1, 2, 3, 1] [1, 33, 17, 5] (Some [1, 16, 1, 1]) True None = Inr (Some tiles) \<and> length tiles = 6) \<and>
   fillDividedTiles [1, 3, 1, 1] [1, 33, 17, 5] (Some [1, 32, 1, 1]) False None = Inr None"
proof
  have all4: "(\<forall>d < (4 :: nat). Q d) \<longleftrightarrow> Q 0 \<and> Q 1 \<and> Q 2 \<and> Q 3" for Q
    by (auto simp: numeral_eq_Suc less_Suc_eq)
  have p: "(\<Prod>d<(4 :: nat). nat ([1, 2, 3, 1 :: int] ! d)) = 6" by (simp add: numeral_eq_Suc lessThan_Suc)
  show "\<exists>tiles. fillDividedTiles [1, 2, 3, 1] [1, 33, 17, 5] (Some [1, 16, 1, 1]) True None = Inr (Some tiles) \<and> length tiles = 6"
    using fillDividedTiles_partitions [of 4 "[1, 33, 17, 5]" "[1, 2, 3, 1]" "[1, 16, 1, 1]" True "Some [1, 16, 1, 1]"]
    by (auto simp: all4 p numeral_eq_Suc less_Suc_eq tile_align_def)
  show "fillDividedTiles [1, 3, 1, 1] [1, 33, 17, 5] (Some [1, 32, 1, 1]) False None = Inr None"
    using fillDividedTiles_partitions [of 4 "[1, 33, 17, 5]" "[1, 3, 1, 1]" "[1, 32, 1, 1]" False "Some [1, 32, 1, 1]"]
    by (auto simp: all4 tile_align_def)
qed

end
