(* ===== verification/Tile_Inference.thy ===== *)
theory Tile_Inference
  imports Tiling
begin

text \<open>
  The inputs that a tile of the output of an operation needs, \<^verbatim>\<open>src/core/tiling.cpp\<close>: the part
  of each input tensor and the padding that is left for it.  Padding fields are \<^verbatim>\<open>int32_t\<close>; no value
  assigned to them exceeds the padding of the whole operation, which has the same type.
\<close>

section \<open>Ranges and padding\<close>

record dim_range =
  dr_begin :: int
  dr_end :: int

definition mk_range :: "int \<Rightarrow> int \<Rightarrow> dim_range" where
  "mk_range b e = \<lparr>dr_begin = b, dr_end = e\<rparr>"

definition new_range :: "int \<Rightarrow> int \<Rightarrow> dim_range res" where
  "new_range b e = (if \<not> e \<ge> b then Inl (Vpux_Throw ''Got wrong dimension range'') else Inr (mk_range b e))"

definition range_length :: "dim_range \<Rightarrow> int" where
  "range_length r = dr_end r - dr_begin r"

definition range_intersects :: "dim_range \<Rightarrow> dim_range \<Rightarrow> bool" where
  "range_intersects r r' \<longleftrightarrow> dr_begin r < dr_end r' \<and> dr_begin r' < dr_end r"

definition range_contains :: "dim_range \<Rightarrow> dim_range \<Rightarrow> bool" where
  "range_contains r r' \<longleftrightarrow> dr_begin r \<le> dr_begin r' \<and> dr_end r \<ge> dr_end r'"

definition range_asROI :: "dim_range \<Rightarrow> dim_range \<Rightarrow> dim_range res" where
  "range_asROI r r' = (if \<not> range_contains r r' then Inl (Vpux_Throw ''DimRange is not contained'')
     else new_range (dr_begin r' - dr_begin r) (dr_end r' - dr_begin r))"

record pad_info =
  pi_left :: int
  pi_right :: int
  pi_top :: int
  pi_bottom :: int
  pi_front :: int
  pi_back :: int
  pi_is5D :: bool

definition pad_info_4d :: "int \<Rightarrow> int \<Rightarrow> int \<Rightarrow> int \<Rightarrow> pad_info" where
  "pad_info_4d padLeft padRight padTop padBottom = \<lparr>pi_left = padLeft, pi_right = padRight, pi_top = padTop, pi_bottom = padBottom,
     pi_front = 0, pi_back = 0, pi_is5D = False\<rparr>"

definition pad_info_5d :: "int \<Rightarrow> int \<Rightarrow> int \<Rightarrow> int \<Rightarrow> int \<Rightarrow> int \<Rightarrow> pad_info" where
  "pad_info_5d padLeft padRight padTop padBottom padFront padBack = \<lparr>pi_left = padLeft, pi_right = padRight, pi_top = padTop, pi_bottom = padBottom,
     pi_front = padFront, pi_back = padBack, pi_is5D = True\<rparr>"

definition pad_enabled :: "pad_info \<Rightarrow> bool" where
  "pad_enabled p \<longleftrightarrow> pi_left p \<noteq> 0 \<or> pi_right p \<noteq> 0 \<or> pi_top p \<noteq> 0 \<or> pi_bottom p \<noteq> 0 \<or>
     pi_is5D p \<and> (pi_front p \<noteq> 0 \<or> pi_back p \<noteq> 0)"

section \<open>One dimension\<close>

text \<open>The range of the input that a range of the output needs, and the padding before and after it.\<close>

definition inputForOutputDim :: "dim_range \<Rightarrow> int \<Rightarrow> int \<Rightarrow> dim_range \<Rightarrow> int \<Rightarrow> int \<Rightarrow> (dim_range \<times> int \<times> int) res" where
  "inputForOutputDim out_range kernelSize stride initialInputRange padBefore padAfter =
     (if \<not> range_length out_range > 0 then Inl (Vpux_Throw ''Wrong output tile'')
      else if \<not> range_length initialInputRange > 0 then Inl (Vpux_Throw ''Wrong initial input range'')
      else if \<not> kernelSize > 0 then Inl (Vpux_Throw ''Wrong kernel'')
      else if \<not> stride > 0 then Inl (Vpux_Throw ''Wrong stride'')
      else if \<not> padBefore \<ge> 0 then Inl (Vpux_Throw ''Wrong padBefore'')
      else if \<not> padAfter \<ge> 0 then Inl (Vpux_Throw ''Wrong padAfter'')
      else
        let b = dr_begin out_range * stride - padBefore in
        if b < dr_begin initialInputRange \<and> \<not> dr_begin initialInputRange - b \<le> padBefore
        then Inl (Vpux_Throw ''Input tile and padBefore does not match to initial range'')
        else let (b, before) = (if b < dr_begin initialInputRange
                 then (dr_begin initialInputRange, min (dr_begin initialInputRange - b) padBefore) else (b, 0)) in
        if \<not> b < dr_end initialInputRange then Inl (Vpux_Throw ''Input tile does not match to initial range'')
        else let e = (dr_end out_range - 1) * stride + kernelSize - padBefore in
        if e > dr_end initialInputRange \<and> \<not> e - dr_end initialInputRange \<le> padAfter
        then Inl (Vpux_Throw ''Input tile and padAfter does not match to initial range'')
        else let (e, after) = (if e > dr_end initialInputRange
                 then (dr_end initialInputRange, min (e - dr_end initialInputRange) padAfter) else (e, 0)) in
        if \<not> e > dr_begin initialInputRange then Inl (Vpux_Throw ''Input tile does not match to initial range'')
        else if \<not> e - b > 0 then Inl (Vpux_Throw ''Input tile does not match to initial range'')
        else Inr (mk_range b e, before, after))"

text \<open>The size of the output for a window of the input.\<close>

definition spatialOutputForInputWindowSize :: "int \<times> int \<Rightarrow> int list \<Rightarrow> int list \<Rightarrow> pad_info \<Rightarrow> (int \<times> int) option res" where
  "spatialOutputForInputWindowSize inputHW kernelSize strides pads =
     (if length kernelSize \<noteq> 2 then Inl (Vpux_Throw ''Expected kernel size to be 2'')
      else if length strides \<noteq> 2 then Inl (Vpux_Throw ''Expected strides size to be 2'')
      else if pi_top pads < 0 \<or> pi_bottom pads < 0 \<or> pi_left pads < 0 \<or> pi_right pads < 0 then Inl (Vpux_Throw ''Invalid pads'')
      else res_bind (s_div (fst inputHW - kernelSize ! 0 + pi_top pads + pi_bottom pads) (strides ! 0)) (\<lambda>h.
        res_bind (s_div (snd inputHW - kernelSize ! 1 + pi_left pads + pi_right pads) (strides ! 1)) (\<lambda>w.
        Inr (if h + 1 \<le> 0 \<or> w + 1 \<le> 0 then None else Some (h + 1, w + 1)))))"

definition backInferPadsTile :: "tile_info \<Rightarrow> shape \<Rightarrow> pad_info \<Rightarrow> int list \<Rightarrow> int list \<Rightarrow> pad_info res" where
  "backInferPadsTile outputTile inShape origPads kernelSize strides =
     res_bind (res_fold (\<lambda>ind pads.
       res_bind (vec_at (ti_shape outputTile) (ind + 2)) (\<lambda>outSize. res_bind (vec_at (ti_offsets outputTile) (ind + 2)) (\<lambda>outOffset.
       res_bind (vec_at inShape (ind + 2)) (\<lambda>inSize. res_bind (new_range 0 inSize) (\<lambda>inputRange.
       res_bind (new_range outOffset (outOffset + outSize)) (\<lambda>tileRange.
       res_bind (vec_at kernelSize ind) (\<lambda>k. res_bind (vec_at strides ind) (\<lambda>s.
       map_sum id (\<lambda>(_, before, after). pads @ [(before, after)])
         (inputForOutputDim tileRange k s inputRange ([pi_top origPads, pi_left origPads] ! ind) ([pi_bottom origPads, pi_right origPads] ! ind))))))))))
       [0, 1] [])
     (\<lambda>pads. Inr (pad_info_4d (fst (pads ! 1)) (snd (pads ! 1)) (fst (pads ! 0)) (snd (pads ! 0))))"

section \<open>Planes\<close>

record plane_tile =
  pt_width :: dim_range
  pt_height :: dim_range
  pt_depth :: dim_range
  pt_is5D :: bool

definition plane_area :: "plane_tile \<Rightarrow> int" where
  "plane_area p = (if pt_is5D p then range_length (pt_width p) * range_length (pt_height p) * range_length (pt_depth p)
     else range_length (pt_width p) * range_length (pt_height p))"

definition plane_contains :: "plane_tile \<Rightarrow> plane_tile \<Rightarrow> bool res" where
  "plane_contains p p' =
     (if pt_is5D p \<noteq> pt_is5D p' then Inl (Vpux_Throw ''Cannot compare 4D and 5D tiles'')
      else Inr (range_contains (pt_width p) (pt_width p') \<and> range_contains (pt_height p) (pt_height p') \<and>
        (pt_is5D p \<longrightarrow> range_contains (pt_depth p) (pt_depth p'))))"

definition plane_asROI :: "plane_tile \<Rightarrow> plane_tile \<Rightarrow> plane_tile res" where
  "plane_asROI p p' =
     (if pt_is5D p \<noteq> pt_is5D p' then Inl (Vpux_Throw ''Cannot compute ROI between 4D and 5D tiles'')
      else res_bind (range_asROI (pt_width p) (pt_width p')) (\<lambda>w. res_bind (range_asROI (pt_height p) (pt_height p')) (\<lambda>h.
        if pt_is5D p then map_sum id (\<lambda>d. \<lparr>pt_width = w, pt_height = h, pt_depth = d, pt_is5D = True\<rparr>) (range_asROI (pt_depth p) (pt_depth p'))
        else Inr \<lparr>pt_width = w, pt_height = h, pt_depth = mk_range 0 0, pt_is5D = False\<rparr>)))"

text \<open>
  The layouts of activations: the indices of height and width, and of depth when there is one.  The dimensions are
  those of \<^verbatim>\<open>Dims4D\<close>, \<^verbatim>\<open>Dims5D\<close> and \<^verbatim>\<open>DimsGroups5D\<close> in
  \<^verbatim>\<open>src/core/layers.cpp\<close>.
\<close>

record act_dims =
  ad_H :: nat
  ad_W :: nat
  ad_D :: "nat option"

definition Dims4D :: act_dims where "Dims4D = \<lparr>ad_H = 2, ad_W = 3, ad_D = None\<rparr>"
definition Dims5D :: act_dims where "Dims5D = \<lparr>ad_H = 3, ad_W = 4, ad_D = Some 2\<rparr>"
definition DimsGroups5D :: act_dims where "DimsGroups5D = \<lparr>ad_H = 3, ad_W = 4, ad_D = None\<rparr>"

definition input_dim :: "dim_range \<Rightarrow> int \<Rightarrow> int \<Rightarrow> shape \<Rightarrow> nat \<Rightarrow> int \<Rightarrow> int \<Rightarrow> (dim_range \<times> int \<times> int) res" where
  "input_dim out_range kernelSize stride initialInputDims d padBefore padAfter =
     res_bind (vec_at initialInputDims d) (\<lambda>n. res_bind (new_range 0 n) (\<lambda>r. inputForOutputDim out_range kernelSize stride r padBefore padAfter))"

definition inputForOutputTile ::
  "act_dims \<Rightarrow> plane_tile \<Rightarrow> int \<Rightarrow> int \<Rightarrow> int \<Rightarrow> int \<Rightarrow> shape \<Rightarrow> pad_info \<Rightarrow> (int \<times> int) option \<Rightarrow> (plane_tile \<times> pad_info) res" where
  "inputForOutputTile dims out_tile kernelX kernelY strideX strideY initialInputDims initialPad depth =
     (let (hd, wd) = (if pt_is5D out_tile then (ad_H Dims5D, ad_W Dims5D) else (ad_H dims, ad_W dims)) in
      res_bind (input_dim (pt_height out_tile) kernelY strideY initialInputDims hd (pi_top initialPad) (pi_bottom initialPad)) (\<lambda>(h, top, bottom).
      res_bind (input_dim (pt_width out_tile) kernelX strideX initialInputDims wd (pi_left initialPad) (pi_right initialPad)) (\<lambda>(w, left, right).
      if pt_is5D out_tile then
        (case depth of None \<Rightarrow> Inl (Vpux_Throw ''Missing kernelD/strideD for 5D'')
         | Some (kernelD, strideD) \<Rightarrow>
             res_bind (input_dim (pt_depth out_tile) kernelD strideD initialInputDims 2 (pi_front initialPad) (pi_back initialPad)) (\<lambda>(d, front, back).
             Inr (\<lparr>pt_width = w, pt_height = h, pt_depth = d, pt_is5D = True\<rparr>, pad_info_5d left right top bottom front back)))
      else Inr (\<lparr>pt_width = w, pt_height = h, pt_depth = mk_range 0 0, pt_is5D = False\<rparr>, pad_info_4d left right top bottom))))"

definition restorePlanarShapeForInputTile :: "act_dims \<Rightarrow> tile_info \<Rightarrow> shape \<Rightarrow> nat \<Rightarrow> tile_info res" where
  "restorePlanarShapeForInputTile dims inputTile origInputShape planarDim =
     (if planarDim \<noteq> ad_H dims \<and> planarDim \<noteq> ad_W dims \<and> Some planarDim \<noteq> ad_D dims then Inl (Vpux_Throw ''Invalid planar dim'')
      else res_bind (vec_at (ti_shape inputTile) planarDim) (\<lambda>n. res_bind (vec_at origInputShape planarDim) (\<lambda>orig.
        if n > orig then Inl (Vpux_Throw ''Invalid back inferring size'')
        else Inr (inputTile\<lparr>ti_shape := (ti_shape inputTile)[planarDim := orig]\<rparr>))))"

text \<open>A dimension that is not tiled keeps its whole size.\<close>

definition restore_untiled :: "act_dims \<Rightarrow> tile_info \<Rightarrow> shape \<Rightarrow> nat \<Rightarrow> tile_info \<Rightarrow> tile_info res" where
  "restore_untiled dims outputTile origInputShape d inputTile =
     (if \<not> ti_isCompletedTile outputTile then Inr inputTile
      else res_bind (vec_at (ti_axis outputTile) d) (\<lambda>n.
        if n = 1 then restorePlanarShapeForInputTile dims inputTile origInputShape d else Inr inputTile))"

section \<open>Operations\<close>

record tiling_info =
  tg_tiles :: "tile_info list"
  tg_pads :: "pad_info option"

text \<open>The part of a tile along a dimension, and copying it to another tile.\<close>

definition tile_range :: "tile_info \<Rightarrow> nat \<Rightarrow> dim_range res" where
  "tile_range t d = res_bind (vec_at (ti_offsets t) d) (\<lambda>off. map_sum id (\<lambda>n. mk_range off (off + n)) (vec_at (ti_shape t) d))"

definition copy_slice :: "tile_info \<Rightarrow> nat \<Rightarrow> nat \<Rightarrow> tile_info \<Rightarrow> tile_info res" where
  "copy_slice src ds dd dst = res_bind (vec_at (ti_shape src) ds) (\<lambda>n. res_bind (vec_at (ti_offsets src) ds) (\<lambda>off. set_slice dd n off dst))"

definition put_range :: "nat \<Rightarrow> dim_range \<Rightarrow> tile_info \<Rightarrow> tile_info res" where
  "put_range d r t = set_slice d (range_length r) (dr_begin r) t"

definition output_plane :: "act_dims \<Rightarrow> tile_info \<Rightarrow> plane_tile res" where
  "output_plane dims outputTile =
     res_bind (tile_range outputTile (ad_H dims)) (\<lambda>h. res_bind (tile_range outputTile (ad_W dims)) (\<lambda>w.
     case ad_D dims of None \<Rightarrow> Inr \<lparr>pt_width = w, pt_height = h, pt_depth = mk_range 0 0, pt_is5D = False\<rparr>
     | Some d \<Rightarrow> map_sum id (\<lambda>d. \<lparr>pt_width = w, pt_height = h, pt_depth = d, pt_is5D = True\<rparr>) (tile_range outputTile d)))"

definition backInferConvTile :: "tile_info \<Rightarrow> shape \<Rightarrow> shape \<Rightarrow> shape \<Rightarrow> int list \<Rightarrow> pad_info \<Rightarrow> tiling_info res" where
  "backInferConvTile outputTile origInputShape origFilterShape origBiasShape strides origPadding =
     res_bind (output_plane Dims4D outputTile) (\<lambda>out_plane.
     res_bind (vec_at strides 0) (\<lambda>strideY. res_bind (vec_at strides 1) (\<lambda>strideX.
     res_bind (vec_at origFilterShape 3) (\<lambda>kernelX. res_bind (vec_at origFilterShape 2) (\<lambda>kernelY.
     res_bind (inputForOutputTile Dims4D out_plane kernelX kernelY strideX strideY origInputShape origPadding None) (\<lambda>(inputPlane, inputPad).
     res_bind (copy_slice outputTile 0 0 (shape_tile origInputShape)) (\<lambda>inputTile.
     res_bind (put_range 2 (pt_height inputPlane) (inputTile\<lparr>ti_axis := ti_axis outputTile\<rparr>)) (\<lambda>inputTile.
     res_bind (put_range 3 (pt_width inputPlane) inputTile) (\<lambda>inputTile.
     res_bind (restore_untiled Dims4D outputTile origInputShape 2 inputTile) (\<lambda>inputTile.
     res_bind (restore_untiled Dims4D outputTile origInputShape 3 inputTile) (\<lambda>inputTile.
     res_bind (copy_slice outputTile 1 0 (shape_tile origFilterShape)) (\<lambda>filterTile.
     if origBiasShape \<noteq> [] then
       map_sum id (\<lambda>biasTile. \<lparr>tg_tiles = [inputTile, filterTile, biasTile], tg_pads = Some inputPad\<rparr>)
         (copy_slice outputTile 1 1 (shape_tile origBiasShape))
     else Inr \<lparr>tg_tiles = [inputTile, filterTile], tg_pads = Some inputPad\<rparr>))))))))))))"

definition backInferGroupConvTile :: "tile_info \<Rightarrow> shape \<Rightarrow> shape \<Rightarrow> shape \<Rightarrow> int list \<Rightarrow> pad_info \<Rightarrow> int \<Rightarrow> tiling_info res" where
  "backInferGroupConvTile outputTile origInputShape origFilterShape origBiasShape strides origPadding groups =
     res_bind (backInferConvTile outputTile origInputShape origFilterShape origBiasShape strides origPadding) (\<lambda>r.
     res_bind (s_div (origFilterShape ! 0) groups) (\<lambda>numOutChannelsPerGroup.
     res_bind (s_div (ti_offsets outputTile ! 1) numOutChannelsPerGroup) (\<lambda>startGroupForTile.
     res_bind (s_divUp (ti_shape outputTile ! 1) numOutChannelsPerGroup) (\<lambda>numGroupsForTile.
     res_bind (set_slice 1 (numGroupsForTile * origFilterShape ! 1) (startGroupForTile * origFilterShape ! 1) (tg_tiles r ! 0)) (\<lambda>inputTile.
     Inr (r\<lparr>tg_tiles := (tg_tiles r)[0 := inputTile]\<rparr>))))))"

definition backInferMatMulTile :: "tile_info \<Rightarrow> shape \<Rightarrow> shape \<Rightarrow> int list \<Rightarrow> pad_info \<Rightarrow> tiling_info res" where
  "backInferMatMulTile outputTile origInputShape origFilterShape strides origPadding =
     res_bind (output_plane DimsGroups5D outputTile) (\<lambda>out_plane.
     res_bind (vec_at strides 0) (\<lambda>strideY. res_bind (vec_at strides 1) (\<lambda>strideX.
     res_bind (vec_at origFilterShape 4) (\<lambda>kernelX. res_bind (vec_at origFilterShape 3) (\<lambda>kernelY.
     res_bind (inputForOutputTile DimsGroups5D out_plane kernelX kernelY strideX strideY origInputShape origPadding None) (\<lambda>(inputPlane, inputPad).
     res_bind (copy_slice outputTile 1 1 (shape_tile origInputShape)) (\<lambda>inputTile.
     res_bind (put_range 3 (pt_height inputPlane) (inputTile\<lparr>ti_axis := ti_axis outputTile\<rparr>)) (\<lambda>inputTile.
     res_bind (put_range 4 (pt_width inputPlane) inputTile) (\<lambda>inputTile.
     res_bind (copy_slice outputTile 0 0 inputTile) (\<lambda>inputTile.
     res_bind (restore_untiled DimsGroups5D outputTile origInputShape 3 inputTile) (\<lambda>inputTile.
     res_bind (restore_untiled DimsGroups5D outputTile origInputShape 4 inputTile) (\<lambda>inputTile.
     res_bind (copy_slice outputTile 2 1 (shape_tile origFilterShape)) (\<lambda>filterTile.
     res_bind (copy_slice outputTile 0 0 filterTile) (\<lambda>filterTile.
     Inr \<lparr>tg_tiles = [inputTile, filterTile], tg_pads = Some inputPad\<rparr>))))))))))))))"

definition backInfer5DPoolTile :: "tile_info \<Rightarrow> shape \<Rightarrow> int list \<Rightarrow> int list \<Rightarrow> pad_info \<Rightarrow> tiling_info res" where
  "backInfer5DPoolTile outputTile origInputShape kernel_size strides origPadding =
     res_bind (output_plane Dims5D outputTile) (\<lambda>out_plane.
     res_bind (vec_at kernel_size 1) (\<lambda>kernelY. res_bind (vec_at kernel_size 2) (\<lambda>kernelX. res_bind (vec_at kernel_size 0) (\<lambda>kernelD.
     res_bind (vec_at strides 1) (\<lambda>strideY. res_bind (vec_at strides 2) (\<lambda>strideX. res_bind (vec_at strides 0) (\<lambda>strideD.
     res_bind (inputForOutputTile Dims5D out_plane kernelX kernelY strideX strideY origInputShape origPadding (Some (kernelD, strideD)))
       (\<lambda>(inputPlane, inputPad).
     res_bind (copy_slice outputTile 0 0 (shape_tile origInputShape)) (\<lambda>inputTile.
     res_bind (copy_slice outputTile 1 1 inputTile) (\<lambda>inputTile.
     res_bind (put_range 3 (pt_height inputPlane) inputTile) (\<lambda>inputTile.
     res_bind (put_range 4 (pt_width inputPlane) inputTile) (\<lambda>inputTile.
     res_bind (put_range 2 (pt_depth inputPlane) inputTile) (\<lambda>inputTile.
     res_bind (restore_untiled Dims5D outputTile origInputShape 3 inputTile) (\<lambda>inputTile.
     res_bind (restore_untiled Dims5D outputTile origInputShape 4 inputTile) (\<lambda>inputTile.
     res_bind (restore_untiled Dims5D outputTile origInputShape 2 inputTile) (\<lambda>inputTile.
     Inr \<lparr>tg_tiles = [inputTile], tg_pads = Some inputPad\<rparr>))))))))))))))))"

definition backInferPoolTile :: "tile_info \<Rightarrow> shape \<Rightarrow> int list \<Rightarrow> int list \<Rightarrow> pad_info \<Rightarrow> tiling_info res" where
  "backInferPoolTile outputTile origInputShape kernel_size strides origPadding =
     (if length origInputShape = 5 then backInfer5DPoolTile outputTile origInputShape kernel_size strides origPadding
      else
     res_bind (output_plane Dims4D outputTile) (\<lambda>out_plane.
     res_bind (vec_at kernel_size 0) (\<lambda>kernelY. res_bind (vec_at kernel_size 1) (\<lambda>kernelX.
     res_bind (vec_at strides 0) (\<lambda>strideY. res_bind (vec_at strides 1) (\<lambda>strideX.
     res_bind (inputForOutputTile Dims4D out_plane kernelX kernelY strideX strideY origInputShape origPadding None) (\<lambda>(inputPlane, inputPad).
     res_bind (copy_slice outputTile 0 0 (shape_tile origInputShape)) (\<lambda>inputTile.
     res_bind (copy_slice outputTile 1 1 inputTile) (\<lambda>inputTile.
     res_bind (put_range 2 (pt_height inputPlane) inputTile) (\<lambda>inputTile.
     res_bind (put_range 3 (pt_width inputPlane) inputTile) (\<lambda>inputTile.
     res_bind (restore_untiled Dims4D outputTile origInputShape 2 inputTile) (\<lambda>inputTile.
     res_bind (restore_untiled Dims4D outputTile origInputShape 3 inputTile) (\<lambda>inputTile.
     Inr \<lparr>tg_tiles = [inputTile], tg_pads = Some inputPad\<rparr>)))))))))))))"

definition backInferDepthToSpaceTile :: "tile_info \<Rightarrow> shape \<Rightarrow> int \<Rightarrow> int \<Rightarrow> tiling_info res" where
  "backInferDepthToSpaceTile outputTile origInputShape blockSize outChPadding =
     (if blockSize = 0 then Inl (Vpux_Throw ''BlockSize is zero and used as a divisor'')
      else if length origInputShape \<noteq> 4 then Inl (Vpux_Throw ''Unsupported shape rank'')
      else if length (ti_shape outputTile) < 4 \<or> length (ti_offsets outputTile) < 4 then Inl Assertion_Failure
      else let sh = ti_shape outputTile; off = ti_offsets outputTile in
        Inr \<lparr>tg_tiles = [(shape_tile origInputShape)\<lparr>
            ti_shape := [sh ! 0, (sh ! 1 - outChPadding) * (blockSize * blockSize), sh ! 2 sdiv blockSize, sh ! 3 sdiv blockSize],
            ti_offsets := [off ! 0, off ! 1 * (blockSize * blockSize), off ! 2 sdiv blockSize, off ! 3 sdiv blockSize]\<rparr>], tg_pads = None\<rparr>)"

end
