(* ===== verification/Tile_Convolution.thy ===== *)
theory Tile_Convolution
  imports Tile_Division Tile_Inference
begin

text \<open>
  The tiles of the inputs are the right ones: an operation that reads a window of its input for every point of its output
  computes on the tiles what it computes on the whole tensors.
\<close>

section \<open>One dimension\<close>

text \<open>
  The part \<^verbatim>\<open>b, len\<close> of an input of size \<^verbatim>\<open>I\<close>, with padding \<^verbatim>\<open>before\<close>, holds what
  the outputs \<^verbatim>\<open>a, \<dots>, a + n - 1\<close> read: positions in the part are those of the input, and fall into the
  part just when they fall into the input.
\<close>

definition dim_serves :: "int \<Rightarrow> int \<Rightarrow> int \<Rightarrow> int \<Rightarrow> int \<Rightarrow> int \<Rightarrow> int \<Rightarrow> int \<Rightarrow> int \<Rightarrow> bool" where
  "dim_serves a n K S I P b len before \<longleftrightarrow> 0 \<le> b \<and> 0 < len \<and> b + len \<le> I \<and>
     (\<forall>q j. 0 \<le> q \<and> q < n \<and> 0 \<le> j \<and> j < K \<longrightarrow>
       b + (q * S - before + j) = (a + q) * S - P + j \<and>
       (0 \<le> q * S - before + j \<and> q * S - before + j < len \<longleftrightarrow> 0 \<le> (a + q) * S - P + j \<and> (a + q) * S - P + j < I))"

text \<open>The output of a window that fits.\<close>

definition dim_fits :: "int \<Rightarrow> int \<Rightarrow> int \<Rightarrow> int \<Rightarrow> int \<Rightarrow> bool" where
  "dim_fits K S I P Q \<longleftrightarrow> 0 < S \<and> 0 < I \<and> 0 \<le> P \<and> P < K \<and> 0 \<le> Q \<and> Q < K \<and> K \<le> I + P + Q"

lemma mk_range_sel [simp]: "dr_begin (mk_range b e) = b" "dr_end (mk_range b e) = e"
  by (simp_all add: mk_range_def)

lemma inputForOutputDim_run:
  assumes "0 < n" "0 < I" "0 < K" "0 < S" "0 \<le> P" "0 \<le> Q" "0 \<le> a * S" "a * S - P < I" "(a + n - 1) * S + K - P \<le> I + Q"
    "0 < (a + n - 1) * S + K - P" "a * S - P < (a + n - 1) * S + K - P"
  shows "inputForOutputDim (mk_range a (a + n)) K S (mk_range 0 I) P Q =
    Inr (mk_range (max (a * S - P) 0) (min ((a + n - 1) * S + K - P) I), max (- (a * S - P)) 0, max ((a + n - 1) * S + K - P - I) 0)"
proof -
  define X Y where "X = a * S" and "Y = (a + n - 1) * S"
  note xy = assms [folded X_def Y_def]
  consider "X - P < 0" "I < Y + K - P" | "X - P < 0" "Y + K - P \<le> I" | "0 \<le> X - P" "I < Y + K - P" | "0 \<le> X - P" "Y + K - P \<le> I"
    by linarith
  then show ?thesis
    unfolding inputForOutputDim_def Let_def range_length_def mk_range_sel X_def [symmetric] Y_def [symmetric]
    by cases (use xy in simp_all)
qed

lemma inputForOutputDim_spec:
  assumes fit: "dim_fits K S I P Q" and tile: "0 \<le> a" "0 < n" "a + n \<le> (I - K + P + Q) div S + 1"
  obtains b e before after where "inputForOutputDim (mk_range a (a + n)) K S (mk_range 0 I) P Q = Inr (mk_range b e, before, after)"
    "0 \<le> b" "b < e" "e \<le> I" "0 \<le> before" "before \<le> P" "0 \<le> after" "after \<le> Q"
    "b - before = a * S - P" "e + after = (a + n - 1) * S + K - P" "0 < before \<Longrightarrow> b = 0" "0 < after \<Longrightarrow> e = I"
proof -
  let ?b = "a * S - P" and ?e = "(a + n - 1) * S + K - P"
  have f: "0 < S" "0 < I" "0 \<le> P" "P < K" "0 \<le> Q" "Q < K" "K \<le> I + P + Q" using fit by (simp_all add: dim_fits_def)
  have "(a + n - 1) * S \<le> (I - K + P + Q) div S * S" using f tile by (intro mult_right_mono) auto
  also have "\<dots> \<le> I - K + P + Q" using f by (simp add: minus_mod_eq_div_mult [symmetric])
  finally have e: "?e \<le> I + Q" by simp
  have aS: "0 \<le> a * S" "a * S \<le> (a + n - 1) * S" using f tile by (auto intro: mult_right_mono)
  have le: "?b < ?e" "?b < I" "0 < ?e" using aS e f by linarith+
  have run: "inputForOutputDim (mk_range a (a + n)) K S (mk_range 0 I) P Q =
      Inr (mk_range (max ?b 0) (min ?e I), max (- ?b) 0, max (?e - I) 0)"
    by (rule inputForOutputDim_run) (use f tile le e aS in linarith)+
  show thesis
    by (rule that [OF run]) (use f le e aS in linarith)+
qed

lemma inputForOutputDim_serves:
  assumes fit: "dim_fits K S I P Q" and tile: "0 \<le> a" "0 < n" "a + n \<le> (I - K + P + Q) div S + 1"
  obtains b e before after where "inputForOutputDim (mk_range a (a + n)) K S (mk_range 0 I) P Q = Inr (mk_range b e, before, after)"
    "dim_serves a n K S I P b (e - b) before" "a = 0 \<Longrightarrow> b = 0 \<and> dim_serves a n K S I P 0 I before"
proof -
  obtain b e before after where r: "inputForOutputDim (mk_range a (a + n)) K S (mk_range 0 I) P Q = Inr (mk_range b e, before, after)"
    and x: "0 \<le> b" "b < e" "e \<le> I" "0 \<le> before" "before \<le> P" "0 \<le> after" "after \<le> Q"
    "b - before = a * S - P" "e + after = (a + n - 1) * S + K - P" "0 < before \<Longrightarrow> b = 0" "0 < after \<Longrightarrow> e = I"
    using inputForOutputDim_spec [OF assms] by metis
  have f: "0 < S" "0 \<le> P" using fit by (simp_all add: dim_fits_def)
  have pos: "b + (q * S - before + j) = (a + q) * S - P + j" for q j using x(8) by (simp add: algebra_simps)
  have upper: "(a + q) * S - P + j < e + after" if "q < n" "j < K" for q j
  proof -
    have "(a + q) * S \<le> (a + n - 1) * S" using that f by (intro mult_right_mono) auto
    then show ?thesis using that x(9) by linarith
  qed
  have lower: "0 \<le> q * S" if "0 \<le> q" for q using that f by simp
  have main: "dim_serves a n K S I P b (e - b) before"
    unfolding dim_serves_def
  proof (intro conjI allI impI)
    fix q j
    assume q: "0 \<le> q \<and> q < n \<and> 0 \<le> j \<and> j < K"
    show "b + (q * S - before + j) = (a + q) * S - P + j" by (rule pos)
    show "(0 \<le> q * S - before + j \<and> q * S - before + j < e - b) = (0 \<le> (a + q) * S - P + j \<and> (a + q) * S - P + j < I)"
      using pos [of q j] upper [of q j] lower [of q] q x by (cases "0 < before"; cases "0 < after") auto
  qed (use x in auto)
  have "b = 0 \<and> dim_serves a n K S I P 0 I before" if a: "a = 0"
  proof -
    have b: "b = 0" using a x f by (cases "0 < before") auto
    have "q * S - before + j = (a + q) * S - P + j" for q j using pos [of q j] b by simp
    then show ?thesis using b fit by (simp add: dim_serves_def dim_fits_def)
  qed
  then show thesis using that r main by blast
qed

section \<open>What an operation reads\<close>

text \<open>
  The value that a point of the output of a sliding window reads at a place of the window, nothing in the padding, and
  the convolution of the values read.  Tensors are functions of the batch, the channel, the row and the column.
\<close>

type_synonym 'a tensor = "int \<Rightarrow> int \<Rightarrow> int \<Rightarrow> int \<Rightarrow> 'a"

definition tap :: "shape \<Rightarrow> int list \<Rightarrow> pad_info \<Rightarrow> 'a tensor \<Rightarrow> int \<Rightarrow> int \<Rightarrow> int \<Rightarrow> int \<Rightarrow> int \<Rightarrow> int \<Rightarrow> 'a option" where
  "tap sh strides pads x n c oh ow ky kx =
     (let h = oh * strides ! 0 - pi_top pads + ky; w = ow * strides ! 1 - pi_left pads + kx in
      if (0 \<le> h \<and> h < sh ! 2) \<and> (0 \<le> w \<and> w < sh ! 3) then Some (x n c h w) else None)"

definition conv :: "shape \<Rightarrow> shape \<Rightarrow> int list \<Rightarrow> pad_info \<Rightarrow> 'a tensor \<Rightarrow> 'a tensor \<Rightarrow> 'a :: semiring_0 tensor" where
  "conv sh fsh strides pads x f = (\<lambda>n oc oh ow.
     \<Sum>ic \<in> {0..<fsh ! 1}. \<Sum>ky \<in> {0..<fsh ! 2}. \<Sum>kx \<in> {0..<fsh ! 3}.
       (case tap sh strides pads x n ic oh ow ky kx of None \<Rightarrow> 0 | Some v \<Rightarrow> v * f oc ic ky kx))"

text \<open>The part of a tensor that a tile describes.\<close>

definition part :: "tile_info \<Rightarrow> 'a tensor \<Rightarrow> 'a tensor" where
  "part u x = (\<lambda>n c h w. x (n + ti_offsets u ! 0) (c + ti_offsets u ! 1) (h + ti_offsets u ! 2) (w + ti_offsets u ! 3))"

lemma tap_part:
  assumes "dim_serves a2 n2 K2 (strides ! 0) (sh ! 2) (pi_top pads) (ti_offsets v ! 2) (ti_shape v ! 2) (pi_top pads')"
    and "dim_serves a3 n3 K3 (strides ! 1) (sh ! 3) (pi_left pads) (ti_offsets v ! 3) (ti_shape v ! 3) (pi_left pads')"
    and "0 \<le> oh" "oh < n2" "0 \<le> ow" "ow < n3" "0 \<le> ky" "ky < K2" "0 \<le> kx" "kx < K3"
  shows "tap (ti_shape v) strides pads' (part v x) n c oh ow ky kx =
    tap sh strides pads x (n + ti_offsets v ! 0) (c + ti_offsets v ! 1) (a2 + oh) (a3 + ow) ky kx"
proof -
  let ?h = "oh * strides ! 0 - pi_top pads' + ky" and ?w = "ow * strides ! 1 - pi_left pads' + kx"
  let ?H = "(a2 + oh) * strides ! 0 - pi_top pads + ky" and ?W = "(a3 + ow) * strides ! 1 - pi_left pads + kx"
  have h: "ti_offsets v ! 2 + ?h = ?H" "0 \<le> ?h \<and> ?h < ti_shape v ! 2 \<longleftrightarrow> 0 \<le> ?H \<and> ?H < sh ! 2"
    using assms(1,3,4,7,8) unfolding dim_serves_def by blast+
  have w: "ti_offsets v ! 3 + ?w = ?W" "0 \<le> ?w \<and> ?w < ti_shape v ! 3 \<longleftrightarrow> 0 \<le> ?W \<and> ?W < sh ! 3"
    using assms(2,5,6,9,10) unfolding dim_serves_def by blast+
  show ?thesis unfolding tap_def Let_def h(2) w(2) part_def h(1) [symmetric] w(1) [symmetric] by (simp add: add.commute)
qed

section \<open>Convolutions\<close>

lemma length_4E:
  assumes "length xs = 4"
  obtains a b c d where "xs = [a, b, c, d]"
  using assms by (auto simp: length_Suc_conv numeral_eq_Suc)

lemma length_2E:
  assumes "length xs = 2"
  obtains a b where "xs = [a, b]"
  using assms by (auto simp: length_Suc_conv numeral_eq_Suc)

text \<open>The size of a dimension of the input tile after restoring dimensions that are not tiled.\<close>

definition kept :: "tile_info \<Rightarrow> nat \<Rightarrow> int \<Rightarrow> int \<Rightarrow> int" where
  "kept u d len I = (if ti_isCompletedTile u \<and> ti_axis u ! d = 1 then I else len)"

text \<open>A tile of an output of a sliding window over an input.\<close>

definition window_tile :: "tile_info \<Rightarrow> shape \<Rightarrow> int \<Rightarrow> int \<Rightarrow> int list \<Rightarrow> pad_info \<Rightarrow> bool" where
  "window_tile u insh ky kx strides pads \<longleftrightarrow> tile_rank 4 u \<and> length insh = 4 \<and> length strides = 2 \<and>
     dim_fits ky (strides ! 0) (insh ! 2) (pi_top pads) (pi_bottom pads) \<and>
     dim_fits kx (strides ! 1) (insh ! 3) (pi_left pads) (pi_right pads) \<and>
     0 \<le> ti_offsets u ! 2 \<and> 0 < ti_shape u ! 2 \<and>
     ti_offsets u ! 2 + ti_shape u ! 2 \<le> (insh ! 2 - ky + pi_top pads + pi_bottom pads) div strides ! 0 + 1 \<and>
     0 \<le> ti_offsets u ! 3 \<and> 0 < ti_shape u ! 3 \<and>
     ti_offsets u ! 3 + ti_shape u ! 3 \<le> (insh ! 3 - kx + pi_left pads + pi_right pads) div strides ! 1 + 1 \<and>
     (\<forall>d \<in> {2, 3}. ti_isCompletedTile u \<and> ti_axis u ! d = 1 \<longrightarrow> ti_offsets u ! d = 0)"

lemma window_tile_planes:
  assumes "window_tile u insh ky kx strides pads"
  obtains b2 e2 b3 e3 pads' where
    "output_plane Dims4D u = Inr \<lparr>pt_width = mk_range (ti_offsets u ! 3) (ti_offsets u ! 3 + ti_shape u ! 3),
       pt_height = mk_range (ti_offsets u ! 2) (ti_offsets u ! 2 + ti_shape u ! 2), pt_depth = mk_range 0 0, pt_is5D = False\<rparr>"
    "inputForOutputTile Dims4D \<lparr>pt_width = mk_range (ti_offsets u ! 3) (ti_offsets u ! 3 + ti_shape u ! 3),
       pt_height = mk_range (ti_offsets u ! 2) (ti_offsets u ! 2 + ti_shape u ! 2), pt_depth = mk_range 0 0, pt_is5D = False\<rparr>
       kx ky (strides ! 1) (strides ! 0) insh pads None =
       Inr (\<lparr>pt_width = mk_range b3 e3, pt_height = mk_range b2 e2, pt_depth = mk_range 0 0, pt_is5D = False\<rparr>, pads')"
    "dim_serves (ti_offsets u ! 2) (ti_shape u ! 2) ky (strides ! 0) (insh ! 2) (pi_top pads) b2 (e2 - b2) (pi_top pads')"
    "dim_serves (ti_offsets u ! 3) (ti_shape u ! 3) kx (strides ! 1) (insh ! 3) (pi_left pads) b3 (e3 - b3) (pi_left pads')"
    "dim_serves (ti_offsets u ! 2) (ti_shape u ! 2) ky (strides ! 0) (insh ! 2) (pi_top pads) b2 (kept u 2 (e2 - b2) (insh ! 2)) (pi_top pads')"
    "dim_serves (ti_offsets u ! 3) (ti_shape u ! 3) kx (strides ! 1) (insh ! 3) (pi_left pads) b3 (kept u 3 (e3 - b3) (insh ! 3)) (pi_left pads')"
proof -
  note w = assms [unfolded window_tile_def]
  obtain b2 e2 top bottom where h: "inputForOutputDim (mk_range (ti_offsets u ! 2) (ti_offsets u ! 2 + ti_shape u ! 2)) ky (strides ! 0)
      (mk_range 0 (insh ! 2)) (pi_top pads) (pi_bottom pads) = Inr (mk_range b2 e2, top, bottom)"
    "dim_serves (ti_offsets u ! 2) (ti_shape u ! 2) ky (strides ! 0) (insh ! 2) (pi_top pads) b2 (e2 - b2) top"
    "ti_offsets u ! 2 = 0 \<Longrightarrow> b2 = 0 \<and> dim_serves (ti_offsets u ! 2) (ti_shape u ! 2) ky (strides ! 0) (insh ! 2) (pi_top pads) 0 (insh ! 2) top"
    using inputForOutputDim_serves w by metis
  obtain b3 e3 left right where v: "inputForOutputDim (mk_range (ti_offsets u ! 3) (ti_offsets u ! 3 + ti_shape u ! 3)) kx (strides ! 1)
      (mk_range 0 (insh ! 3)) (pi_left pads) (pi_right pads) = Inr (mk_range b3 e3, left, right)"
    "dim_serves (ti_offsets u ! 3) (ti_shape u ! 3) kx (strides ! 1) (insh ! 3) (pi_left pads) b3 (e3 - b3) left"
    "ti_offsets u ! 3 = 0 \<Longrightarrow> b3 = 0 \<and> dim_serves (ti_offsets u ! 3) (ti_shape u ! 3) kx (strides ! 1) (insh ! 3) (pi_left pads) 0 (insh ! 3) left"
    using inputForOutputDim_serves w by metis
  show thesis
  proof (rule that [of b3 e3 b2 e2 "pad_info_4d left right top bottom"])
  qed (use w h v in \<open>auto simp: output_plane_def tile_range_def vec_at_in tile_rank_def Dims4D_def inputForOutputTile_def input_dim_def
      new_range_def dim_fits_def pad_info_4d_def kept_def\<close>)
qed

lemma dim_serves_len: "dim_serves a n K S I P b len before \<Longrightarrow> 0 \<le> b \<and> 0 < len \<and> b + len \<le> I"
  by (simp add: dim_serves_def)

text \<open>Putting back the size of a dimension that is not tiled.\<close>

lemma restore_untiled_kept:
  assumes "d = 2 \<or> d = 3" "ti_shape u \<noteq> [] \<Longrightarrow> d < length (ti_axis u)" "d < length sh" "d < length (ti_shape t)" "ti_shape t ! d \<le> sh ! d"
    and "ti_shape u \<noteq> []"
  shows "restore_untiled Dims4D u sh d t = Inr (t\<lparr>ti_shape := (ti_shape t)[d := kept u d (ti_shape t ! d) (sh ! d)]\<rparr>)"
  using assms by (auto simp: restore_untiled_def restorePlanarShapeForInputTile_def vec_at_in kept_def Dims4D_def)

lemma put_range_in: "d < length (ti_shape t) \<Longrightarrow> d < length (ti_offsets t) \<Longrightarrow>
    put_range d (mk_range b e) t = Inr (t\<lparr>ti_shape := (ti_shape t)[d := e - b], ti_offsets := (ti_offsets t)[d := b]\<rparr>)"
  by (simp add: put_range_def set_slice_def vec_set_def range_length_def)

lemma copy_slice_in: "i < length (ti_shape s) \<Longrightarrow> i < length (ti_offsets s) \<Longrightarrow> d < length (ti_shape t) \<Longrightarrow> d < length (ti_offsets t) \<Longrightarrow>
    copy_slice s i d t = Inr (t\<lparr>ti_shape := (ti_shape t)[d := ti_shape s ! i], ti_offsets := (ti_offsets t)[d := ti_offsets s ! i]\<rparr>)"
  by (simp add: copy_slice_def set_slice_def vec_set_def vec_at_in)

lemma backInferConvTile_spec:
  assumes w: "window_tile u insh (fsh ! 2) (fsh ! 3) strides pads" and "length fsh = 4" "bsh = [] \<or> 2 \<le> length bsh"
  obtains v g others pads' where "backInferConvTile u insh fsh bsh strides pads = Inr \<lparr>tg_tiles = v # g # others, tg_pads = Some pads'\<rparr>"
    "ti_shape g = [ti_shape u ! 1, fsh ! 1, fsh ! 2, fsh ! 3]" "ti_offsets g = [ti_offsets u ! 1, 0, 0, 0]"
    "ti_offsets v ! 0 = ti_offsets u ! 0" "ti_offsets v ! 1 = 0" "ti_shape v ! 1 = insh ! 1"
    "dim_serves (ti_offsets u ! 2) (ti_shape u ! 2) (fsh ! 2) (strides ! 0) (insh ! 2) (pi_top pads) (ti_offsets v ! 2) (ti_shape v ! 2) (pi_top pads')"
    "dim_serves (ti_offsets u ! 3) (ti_shape u ! 3) (fsh ! 3) (strides ! 1) (insh ! 3) (pi_left pads) (ti_offsets v ! 3) (ti_shape v ! 3) (pi_left pads')"
proof -
  from window_tile_planes [OF w]
  obtain b2 e2 b3 e3 pads' where p:
    "output_plane Dims4D u = Inr \<lparr>pt_width = mk_range (ti_offsets u ! 3) (ti_offsets u ! 3 + ti_shape u ! 3),
       pt_height = mk_range (ti_offsets u ! 2) (ti_offsets u ! 2 + ti_shape u ! 2), pt_depth = mk_range 0 0, pt_is5D = False\<rparr>"
    "inputForOutputTile Dims4D \<lparr>pt_width = mk_range (ti_offsets u ! 3) (ti_offsets u ! 3 + ti_shape u ! 3),
       pt_height = mk_range (ti_offsets u ! 2) (ti_offsets u ! 2 + ti_shape u ! 2), pt_depth = mk_range 0 0, pt_is5D = False\<rparr>
       (fsh ! 3) (fsh ! 2) (strides ! 1) (strides ! 0) insh pads None =
       Inr (\<lparr>pt_width = mk_range b3 e3, pt_height = mk_range b2 e2, pt_depth = mk_range 0 0, pt_is5D = False\<rparr>, pads')"
    and serves:
    "dim_serves (ti_offsets u ! 2) (ti_shape u ! 2) (fsh ! 2) (strides ! 0) (insh ! 2) (pi_top pads) b2 (e2 - b2) (pi_top pads')"
    "dim_serves (ti_offsets u ! 3) (ti_shape u ! 3) (fsh ! 3) (strides ! 1) (insh ! 3) (pi_left pads) b3 (e3 - b3) (pi_left pads')"
    "dim_serves (ti_offsets u ! 2) (ti_shape u ! 2) (fsh ! 2) (strides ! 0) (insh ! 2) (pi_top pads) b2 (kept u 2 (e2 - b2) (insh ! 2)) (pi_top pads')"
    "dim_serves (ti_offsets u ! 3) (ti_shape u ! 3) (fsh ! 3) (strides ! 1) (insh ! 3) (pi_left pads) b3 (kept u 3 (e3 - b3) (insh ! 3)) (pi_left pads')" .
  have len: "length (ti_shape u) = 4" "length (ti_offsets u) = 4" "length (ti_axis u) = 4" "length insh = 4" "length strides = 2"
    using w by (simp_all add: window_tile_def tile_rank_def)
  obtain i0 i1 i2 i3 where i: "insh = [i0, i1, i2, i3]" using len(4) by (rule length_4E)
  obtain f0 f1 f2 f3 where f: "fsh = [f0, f1, f2, f3]" using assms(2) by (rule length_4E)
  have le: "e2 - b2 \<le> i2" "e3 - b3 \<le> i3" using dim_serves_len [OF serves(1)] dim_serves_len [OF serves(2)] by (simp_all add: i)
  define v where "v = \<lparr>ti_shape = [ti_shape u ! 0, i1, kept u 2 (e2 - b2) i2, kept u 3 (e3 - b3) i3],
    ti_offsets = [ti_offsets u ! 0, 0, b2, b3], ti_axis = ti_axis u, ti_isCompletedTile = False\<rparr>"
  define g where "g = \<lparr>ti_shape = [ti_shape u ! 1, f1, f2, f3], ti_offsets = [ti_offsets u ! 1, 0, 0, 0], ti_axis = [1, 1, 1, 1], ti_isCompletedTile = False\<rparr>"
  have rep: "replicate 4 x = [x, x, x, x]" for x :: int by (simp add: numeral_eq_Suc)
  have ne: "ti_shape u \<noteq> []" using len by auto
  have "\<exists>rest. backInferConvTile u insh fsh bsh strides pads = Inr \<lparr>tg_tiles = v # g # rest, tg_pads = Some pads'\<rparr>"
    using p len le ne assms(3)
    by (cases "bsh = []") (simp_all add: backInferConvTile_def copy_slice_in put_range_in restore_untiled_kept vec_at_in shape_tile_def i f rep v_def g_def)
  then obtain rest where r: "backInferConvTile u insh fsh bsh strides pads = Inr \<lparr>tg_tiles = v # g # rest, tg_pads = Some pads'\<rparr>" ..
  show thesis
    by (rule that [OF r]) (use serves in \<open>simp_all add: v_def g_def i f\<close>)
qed

lemma backInferPoolTile_spec:
  assumes w: "window_tile u insh (ks ! 0) (ks ! 1) strides pads" and "length ks = 2"
  obtains v pads' where "backInferPoolTile u insh ks strides pads = Inr \<lparr>tg_tiles = [v], tg_pads = Some pads'\<rparr>"
    "ti_offsets v ! 0 = ti_offsets u ! 0" "ti_offsets v ! 1 = ti_offsets u ! 1"
    "dim_serves (ti_offsets u ! 2) (ti_shape u ! 2) (ks ! 0) (strides ! 0) (insh ! 2) (pi_top pads) (ti_offsets v ! 2) (ti_shape v ! 2) (pi_top pads')"
    "dim_serves (ti_offsets u ! 3) (ti_shape u ! 3) (ks ! 1) (strides ! 1) (insh ! 3) (pi_left pads) (ti_offsets v ! 3) (ti_shape v ! 3) (pi_left pads')"
proof -
  from window_tile_planes [OF w]
  obtain b2 e2 b3 e3 pads' where p:
    "output_plane Dims4D u = Inr \<lparr>pt_width = mk_range (ti_offsets u ! 3) (ti_offsets u ! 3 + ti_shape u ! 3),
       pt_height = mk_range (ti_offsets u ! 2) (ti_offsets u ! 2 + ti_shape u ! 2), pt_depth = mk_range 0 0, pt_is5D = False\<rparr>"
    "inputForOutputTile Dims4D \<lparr>pt_width = mk_range (ti_offsets u ! 3) (ti_offsets u ! 3 + ti_shape u ! 3),
       pt_height = mk_range (ti_offsets u ! 2) (ti_offsets u ! 2 + ti_shape u ! 2), pt_depth = mk_range 0 0, pt_is5D = False\<rparr>
       (ks ! 1) (ks ! 0) (strides ! 1) (strides ! 0) insh pads None =
       Inr (\<lparr>pt_width = mk_range b3 e3, pt_height = mk_range b2 e2, pt_depth = mk_range 0 0, pt_is5D = False\<rparr>, pads')"
    and serves:
    "dim_serves (ti_offsets u ! 2) (ti_shape u ! 2) (ks ! 0) (strides ! 0) (insh ! 2) (pi_top pads) b2 (e2 - b2) (pi_top pads')"
    "dim_serves (ti_offsets u ! 3) (ti_shape u ! 3) (ks ! 1) (strides ! 1) (insh ! 3) (pi_left pads) b3 (e3 - b3) (pi_left pads')"
    "dim_serves (ti_offsets u ! 2) (ti_shape u ! 2) (ks ! 0) (strides ! 0) (insh ! 2) (pi_top pads) b2 (kept u 2 (e2 - b2) (insh ! 2)) (pi_top pads')"
    "dim_serves (ti_offsets u ! 3) (ti_shape u ! 3) (ks ! 1) (strides ! 1) (insh ! 3) (pi_left pads) b3 (kept u 3 (e3 - b3) (insh ! 3)) (pi_left pads')" .
  have len: "length (ti_shape u) = 4" "length (ti_offsets u) = 4" "length (ti_axis u) = 4" "length insh = 4" "length strides = 2"
    using w by (simp_all add: window_tile_def tile_rank_def)
  obtain i0 i1 i2 i3 where i: "insh = [i0, i1, i2, i3]" using len(4) by (rule length_4E)
  obtain k0 k1 where k: "ks = [k0, k1]" using assms(2) by (rule length_2E)
  have le: "e2 - b2 \<le> i2" "e3 - b3 \<le> i3" using dim_serves_len [OF serves(1)] dim_serves_len [OF serves(2)] by (simp_all add: i)
  define v where "v = \<lparr>ti_shape = [ti_shape u ! 0, ti_shape u ! 1, kept u 2 (e2 - b2) i2, kept u 3 (e3 - b3) i3],
    ti_offsets = [ti_offsets u ! 0, ti_offsets u ! 1, b2, b3], ti_axis = [1, 1, 1, 1], ti_isCompletedTile = False\<rparr>"
  have rep: "replicate 4 x = [x, x, x, x]" for x :: int by (simp add: numeral_eq_Suc)
  have ne: "ti_shape u \<noteq> []" using len by auto
  have r: "backInferPoolTile u insh ks strides pads = Inr \<lparr>tg_tiles = [v], tg_pads = Some pads'\<rparr>"
    using p len le ne by (simp add: backInferPoolTile_def copy_slice_in put_range_in restore_untiled_kept vec_at_in shape_tile_def i k rep v_def)
  show thesis by (rule that [OF r]) (use serves in \<open>simp_all add: v_def i k\<close>)
qed

text \<open>On the tiles of its operands a convolution computes the tile of its result.\<close>

lemma conv_part:
  assumes "dim_serves a2 n2 (fsh ! 2) (strides ! 0) (sh ! 2) (pi_top pads) (ti_offsets v ! 2) (ti_shape v ! 2) (pi_top pads')"
    and "dim_serves a3 n3 (fsh ! 3) (strides ! 1) (sh ! 3) (pi_left pads) (ti_offsets v ! 3) (ti_shape v ! 3) (pi_left pads')"
    and "ti_offsets v ! 1 = 0" "ti_shape g = [m, fsh ! 1, fsh ! 2, fsh ! 3]" "ti_offsets g = [c0, 0, 0, 0]"
    and "0 \<le> oh" "oh < n2" "0 \<le> ow" "ow < n3"
  shows "conv (ti_shape v) (ti_shape g) strides pads' (part v x) (part g f) n oc oh ow =
    conv sh fsh strides pads x f (n + ti_offsets v ! 0) (oc + c0) (a2 + oh) (a3 + ow)"
proof -
  have f: "part g f oc ic ky kx = f (oc + c0) ic ky kx" for ic ky kx using assms(5) by (simp add: part_def)
  have t: "tap (ti_shape v) strides pads' (part v x) n ic oh ow ky kx = tap sh strides pads x (n + ti_offsets v ! 0) ic (a2 + oh) (a3 + ow) ky kx"
    if "0 \<le> ky" "ky < fsh ! 2" "0 \<le> kx" "kx < fsh ! 3" for ic ky kx
    using tap_part [OF assms(1,2,6-9) that, of x n ic] assms(3) by simp
  show ?thesis unfolding conv_def f using assms(4) by (intro sum.cong refl) (auto simp: t)
qed

section \<open>Tiles of the output\<close>

lemma all_less_4: "(\<forall>d < (4 :: nat). Q d) \<longleftrightarrow> Q 0 \<and> Q 1 \<and> Q 2 \<and> Q 3"
  by (auto simp: numeral_eq_Suc less_Suc_eq)

text \<open>The tiles of an output whose size the inference of window sizes gives.\<close>

definition window_ok :: "shape \<Rightarrow> int \<Rightarrow> int \<Rightarrow> int list \<Rightarrow> pad_info \<Rightarrow> bool" where
  "window_ok insh ky kx strides pads \<longleftrightarrow> length insh = 4 \<and> length strides = 2 \<and>
     dim_fits ky (strides ! 0) (insh ! 2) (pi_top pads) (pi_bottom pads) \<and>
     dim_fits kx (strides ! 1) (insh ! 3) (pi_left pads) (pi_right pads)"

definition division_ok :: "shape \<Rightarrow> shape \<Rightarrow> int list \<Rightarrow> bool" where
  "division_ok divisors sh al \<longleftrightarrow> length sh = 4 \<and> length divisors = 4 \<and> length al = 4 \<and> (\<forall>d < 4. dim_ok divisors sh al d)"

lemma spatialOutput_size:
  assumes "window_ok insh ky kx strides pads"
    and "spatialOutputForInputWindowSize (insh ! 2, insh ! 3) [ky, kx] strides pads = Inr (Some (OH, OW))"
  shows "OH = (insh ! 2 - ky + pi_top pads + pi_bottom pads) div strides ! 0 + 1"
    and "OW = (insh ! 3 - kx + pi_left pads + pi_right pads) div strides ! 1 + 1"
  using assms by (auto simp: window_ok_def dim_fits_def spatialOutputForInputWindowSize_def s_div_def sdiv_pos split: if_splits)

lemma tiles_are_windows:
  assumes "window_ok insh ky kx strides pads"
    and "spatialOutputForInputWindowSize (insh ! 2, insh ! 3) [ky, kx] strides pads = Inr (Some (OH, OW))"
    and "division_ok divisors [N, C, OH, OW] (case alignment of None \<Rightarrow> replicate 4 1 | Some al \<Rightarrow> al)"
    and "fillDividedTiles divisors [N, C, OH, OW] alignment usf None = Inr (Some tiles)" and "u \<in> set tiles"
  shows "window_tile u insh ky kx strides pads"
proof -
  let ?al = "case alignment of None \<Rightarrow> replicate 4 1 | Some al \<Rightarrow> al"
  have "tile_rank 4 u \<and> (\<forall>d < 4. good_dim divisors [N, C, OH, OW] ?al u d)"
    using fillDividedTiles_spec [of 4 "[N, C, OH, OW]" divisors ?al usf alignment] assms(3-5) by (auto simp: division_ok_def split: if_splits)
  then have u: "tile_rank 4 u" and g: "good_dim divisors [N, C, OH, OW] ?al u 2" "good_dim divisors [N, C, OH, OW] ?al u 3"
    by (auto simp: all_less_4)
  show ?thesis using u g assms(1) spatialOutput_size [OF assms(1,2)]
    by (auto simp: window_tile_def window_ok_def good_dim_def)
qed

text \<open>
  C1. Let a convolution have paddings shorter than its kernel, a kernel that fits into the padded input, and
  the output size that the inference for window sizes gives.  For every tile into which its output is
  divided, with any alignment and any order of unrolling, the inference of the inputs succeeds; the part of the input it
  asks for lies within the input; and the convolution of that part with the part of the filter, under the inferred padding, is the
  tile of the convolution of the whole tensors, for all contents of the tensors over any semiring.
\<close>

theorem tiled_convolution:
  fixes x f :: "'a :: semiring_0 tensor"
  assumes "window_ok insh (fsh ! 2) (fsh ! 3) strides pads" "length fsh = 4" "bsh = [] \<or> length bsh = 4"
    and "spatialOutputForInputWindowSize (insh ! 2, insh ! 3) [fsh ! 2, fsh ! 3] strides pads = Inr (Some (OH, OW))"
    and "division_ok divisors [N, fsh ! 0, OH, OW] (case alignment of None \<Rightarrow> replicate 4 1 | Some al \<Rightarrow> al)"
    and "fillDividedTiles divisors [N, fsh ! 0, OH, OW] alignment unrollSpatialFirst None = Inr (Some tiles)" and "u \<in> set tiles"
  shows "\<exists>inputTile filterTile others pads'.
    backInferConvTile u insh fsh bsh strides pads = Inr \<lparr>tg_tiles = inputTile # filterTile # others, tg_pads = Some pads'\<rparr> \<and>
    (\<forall>d \<in> {2, 3}. 0 \<le> ti_offsets inputTile ! d \<and> 0 < ti_shape inputTile ! d \<and> ti_offsets inputTile ! d + ti_shape inputTile ! d \<le> insh ! d) \<and>
    (\<forall>n oc oh ow. 0 \<le> oh \<and> oh < ti_shape u ! 2 \<and> 0 \<le> ow \<and> ow < ti_shape u ! 3 \<longrightarrow>
      conv (ti_shape inputTile) (ti_shape filterTile) strides pads' (part inputTile x) (part filterTile f) n oc oh ow =
      part u (conv insh fsh strides pads x f) n oc oh ow)"
proof -
  have b: "bsh = [] \<or> 2 \<le> length bsh" using assms(3) by auto
  have w: "window_tile u insh (fsh ! 2) (fsh ! 3) strides pads" by (rule tiles_are_windows [OF assms(1,4-7)])
  obtain v g others pads' where r: "backInferConvTile u insh fsh bsh strides pads = Inr \<lparr>tg_tiles = v # g # others, tg_pads = Some pads'\<rparr>"
    and g: "ti_shape g = [ti_shape u ! 1, fsh ! 1, fsh ! 2, fsh ! 3]" "ti_offsets g = [ti_offsets u ! 1, 0, 0, 0]"
    and v: "ti_offsets v ! 0 = ti_offsets u ! 0" "ti_offsets v ! 1 = 0"
    and s2: "dim_serves (ti_offsets u ! 2) (ti_shape u ! 2) (fsh ! 2) (strides ! 0) (insh ! 2) (pi_top pads) (ti_offsets v ! 2) (ti_shape v ! 2) (pi_top pads')"
    and s3: "dim_serves (ti_offsets u ! 3) (ti_shape u ! 3) (fsh ! 3) (strides ! 1) (insh ! 3) (pi_left pads) (ti_offsets v ! 3) (ti_shape v ! 3) (pi_left pads')"
    using backInferConvTile_spec [OF w assms(2) b] .
  have inside: "\<forall>d \<in> {2, 3}. 0 \<le> ti_offsets v ! d \<and> 0 < ti_shape v ! d \<and> ti_offsets v ! d + ti_shape v ! d \<le> insh ! d"
    using dim_serves_len [OF s2] dim_serves_len [OF s3] by simp
  have same: "conv (ti_shape v) (ti_shape g) strides pads' (part v x) (part g f) n oc oh ow = part u (conv insh fsh strides pads x f) n oc oh ow"
    if "0 \<le> oh \<and> oh < ti_shape u ! 2 \<and> 0 \<le> ow \<and> ow < ti_shape u ! 3" for n oc oh ow
    using conv_part [OF s2 s3 v(2) g, of oh ow x f n oc] that v(1) unfolding part_def [of u] by (simp only: add.commute)
  show ?thesis using r inside same by blast
qed

text \<open>
  C32. Let the paddings and sizes of a pooling be as for the convolution.  For every tile of the output of a pooling the inference of the
  input succeeds, and every point of the tile reads through its window on the input tile the very values it
  reads on the whole input, in the same places, so that any function of the values read gives the same result.
\<close>

theorem tiled_pooling:
  fixes x :: "'a tensor"
  assumes "window_ok insh (kernel_size ! 0) (kernel_size ! 1) strides pads" "length kernel_size = 2"
    and "spatialOutputForInputWindowSize (insh ! 2, insh ! 3) kernel_size strides pads = Inr (Some (OH, OW))"
    and "division_ok divisors [N, C, OH, OW] (case alignment of None \<Rightarrow> replicate 4 1 | Some al \<Rightarrow> al)"
    and "fillDividedTiles divisors [N, C, OH, OW] alignment unrollSpatialFirst None = Inr (Some tiles)" and "u \<in> set tiles"
  shows "\<exists>inputTile pads'. backInferPoolTile u insh kernel_size strides pads = Inr \<lparr>tg_tiles = [inputTile], tg_pads = Some pads'\<rparr> \<and>
    (\<forall>n c oh ow ky kx. 0 \<le> oh \<and> oh < ti_shape u ! 2 \<and> 0 \<le> ow \<and> ow < ti_shape u ! 3 \<and>
      0 \<le> ky \<and> ky < kernel_size ! 0 \<and> 0 \<le> kx \<and> kx < kernel_size ! 1 \<longrightarrow>
      tap (ti_shape inputTile) strides pads' (part inputTile x) n c oh ow ky kx =
      part u (\<lambda>n c oh ow. tap insh strides pads x n c oh ow ky kx) n c oh ow)"
proof -
  have k: "kernel_size = [kernel_size ! 0, kernel_size ! 1]" using assms(2) by (auto elim: length_2E)
  have w: "window_tile u insh (kernel_size ! 0) (kernel_size ! 1) strides pads"
    by (rule tiles_are_windows [OF assms(1) _ assms(4-6)]) (use assms(3) k in simp)
  obtain v pads' where r: "backInferPoolTile u insh kernel_size strides pads = Inr \<lparr>tg_tiles = [v], tg_pads = Some pads'\<rparr>"
    and v: "ti_offsets v ! 0 = ti_offsets u ! 0" "ti_offsets v ! 1 = ti_offsets u ! 1"
    and s2: "dim_serves (ti_offsets u ! 2) (ti_shape u ! 2) (kernel_size ! 0) (strides ! 0) (insh ! 2) (pi_top pads) (ti_offsets v ! 2) (ti_shape v ! 2) (pi_top pads')"
    and s3: "dim_serves (ti_offsets u ! 3) (ti_shape u ! 3) (kernel_size ! 1) (strides ! 1) (insh ! 3) (pi_left pads) (ti_offsets v ! 3) (ti_shape v ! 3) (pi_left pads')"
    using backInferPoolTile_spec [OF w assms(2)] by blast
  have "tap (ti_shape v) strides pads' (part v x) n c oh ow ky kx = part u (\<lambda>n c oh ow. tap insh strides pads x n c oh ow ky kx) n c oh ow"
    if "0 \<le> oh \<and> oh < ti_shape u ! 2 \<and> 0 \<le> ow \<and> ow < ti_shape u ! 3 \<and> 0 \<le> ky \<and> ky < kernel_size ! 0 \<and> 0 \<le> kx \<and> kx < kernel_size ! 1"
    for n c oh ow ky kx
    using tap_part [OF s2 s3, of oh ow ky kx x n c] that v unfolding part_def [of u] by (simp only: add.commute)
  with r show ?thesis by blast
qed

section \<open>An example\<close>

text \<open>An output of four rows and columns in two tiles; the second tile.\<close>

definition second_tile :: tile_info where
  "second_tile = \<lparr>ti_shape = [1, 1, 2, 4], ti_offsets = [0, 0, 2, 0], ti_axis = [1, 1, 2, 1], ti_isCompletedTile = True\<rparr>"

definition example_tiles :: "tile_info list" where
  "example_tiles = [\<lparr>ti_shape = [1, 1, 2, 4], ti_offsets = [0, 0, 0, 0], ti_axis = [1, 1, 2, 1], ti_isCompletedTile = True\<rparr>, second_tile]"

lemma example_division: "fillDividedTiles [1, 1, 2, 1] [1, 1, 4, 4] None False None = Inr (Some example_tiles)"
  by code_simp

lemma example_window: "spatialOutputForInputWindowSize (4, 4) [3, 3] [1, 1] (pad_info_4d 1 1 1 1) = Inr (Some (4, 4))"
  by code_simp

lemma example_ok:
  "window_ok [1, 1, 4, 4] 3 3 [1, 1] (pad_info_4d 1 1 1 1)" "division_ok [1, 1, 2, 1] [1, 1, 4, 4] [1, 1, 1, 1]"
  by (simp_all add: window_ok_def dim_fits_def pad_info_4d_def division_ok_def all_less_4 dim_ok_def)

theorem tiled_convolution_witness:
  "\<exists>v g others pads'. backInferConvTile second_tile [1, 1, 4, 4] [1, 1, 3, 3] [] [1, 1] (pad_info_4d 1 1 1 1) =
      Inr \<lparr>tg_tiles = v # g # others, tg_pads = Some pads'\<rparr> \<and>
    conv (ti_shape v) (ti_shape g) [1, 1] pads' (part v (\<lambda>n c h w. h * 4 + w)) (part g (\<lambda>oc ic ky kx. ky - kx)) 0 0 1 2 =
    part second_tile (conv [1, 1, 4, 4] [1, 1, 3, 3] [1, 1] (pad_info_4d 1 1 1 1) (\<lambda>n c h w. h * 4 + w) (\<lambda>oc ic ky kx. ky - kx)) 0 0 1 2"
proof -
  have rep: "replicate 4 x = [x, x, x, x]" for x :: int by (simp add: numeral_eq_Suc)
  have "second_tile \<in> set example_tiles" by (simp add: example_tiles_def)
  then obtain v g others pads' where "backInferConvTile second_tile [1, 1, 4, 4] [1, 1, 3, 3] [] [1, 1] (pad_info_4d 1 1 1 1) =
      Inr \<lparr>tg_tiles = v # g # others, tg_pads = Some pads'\<rparr>"
    and "\<forall>n oc oh ow. 0 \<le> oh \<and> oh < ti_shape second_tile ! 2 \<and> 0 \<le> ow \<and> ow < ti_shape second_tile ! 3 \<longrightarrow>
      conv (ti_shape v) (ti_shape g) [1, 1] pads' (part v (\<lambda>n c h w. h * 4 + w)) (part g (\<lambda>oc ic ky kx. ky - kx)) n oc oh ow =
      part second_tile (conv [1, 1, 4, 4] [1, 1, 3, 3] [1, 1] (pad_info_4d 1 1 1 1) (\<lambda>n c h w. h * 4 + w) (\<lambda>oc ic ky kx. ky - kx)) n oc oh ow"
    using tiled_convolution [of "[1, 1, 4, 4]" "[1, 1, 3, 3]" "[1, 1]" "pad_info_4d 1 1 1 1" "[]" 4 4 "[1, 1, 2, 1]" 1 None False example_tiles
        second_tile "\<lambda>n c h w. h * 4 + w" "\<lambda>oc ic ky kx. ky - kx"] example_division example_window example_ok
    by (auto simp: rep)
  then show ?thesis by (auto simp: second_tile_def)
qed

theorem tiled_pooling_witness:
  "\<exists>v pads'. backInferPoolTile second_tile [1, 1, 4, 4] [3, 3] [1, 1] (pad_info_4d 1 1 1 1) = Inr \<lparr>tg_tiles = [v], tg_pads = Some pads'\<rparr> \<and>
    tap (ti_shape v) [1, 1] pads' (part v (\<lambda>n c h w. h * 4 + w)) 0 0 1 2 2 0 = None"
proof -
  have rep: "replicate 4 x = [x, x, x, x]" for x :: int by (simp add: numeral_eq_Suc)
  have "second_tile \<in> set example_tiles" by (simp add: example_tiles_def)
  then obtain v pads' where r: "backInferPoolTile second_tile [1, 1, 4, 4] [3, 3] [1, 1] (pad_info_4d 1 1 1 1) = Inr \<lparr>tg_tiles = [v], tg_pads = Some pads'\<rparr>"
    and same: "\<forall>n c oh ow ky kx. 0 \<le> oh \<and> oh < ti_shape second_tile ! 2 \<and> 0 \<le> ow \<and> ow < ti_shape second_tile ! 3 \<and>
      0 \<le> ky \<and> ky < 3 \<and> 0 \<le> kx \<and> kx < 3 \<longrightarrow>
      tap (ti_shape v) [1, 1] pads' (part v (\<lambda>n c h w. h * 4 + w)) n c oh ow ky kx =
      part second_tile (\<lambda>n c oh ow. tap [1, 1, 4, 4] [1, 1] (pad_info_4d 1 1 1 1) (\<lambda>n c h w. h * 4 + w) n c oh ow ky kx) n c oh ow"
    using tiled_pooling [of "[1, 1, 4, 4]" "[3, 3]" "[1, 1]" "pad_info_4d 1 1 1 1" 4 4 "[1, 1, 2, 1]" 1 1 None False example_tiles
        second_tile "\<lambda>n c h w. h * 4 + w"] example_division example_window example_ok
    by (auto simp: rep)
  have "tap (ti_shape v) [1, 1] pads' (part v (\<lambda>n c h w. h * 4 + w)) 0 0 1 2 2 0 = None"
    using same [rule_format, of 1 2 2 0 0 0] by (simp add: second_tile_def part_def tap_def pad_info_4d_def)
  with r show ?thesis by blast
qed

end
