(* ===== verification/Dims_Order.thy ===== *)
theory Dims_Order
  imports Prelude
begin

text \<open>
  The order in which the dimensions of a tensor lie in memory, \<^verbatim>\<open>src/core/attributes/dims_order.cpp\<close> and
  \<^verbatim>\<open>include/vpux/compiler/core/attributes/dims_order.hpp\<close>.

  An order is a code of 64 bits with a digit of 4 bits for every dimension, one more than its index, from major to
  minor; the inverted code has the digits the other way round.  A shift by 4 bits is a division by 16 or a
  multiplication modulo \<^verbatim>\<open>2^64\<close>, and setting the lowest digit, which is free then, an addition.
\<close>

section \<open>Codes\<close>

definition MAX_NUM_DIMS :: nat where
  "MAX_NUM_DIMS = 15"

record dims_order =
  do_code :: nat
  do_inverted :: nat

text \<open>The loops over the digits of a code, from the lowest to the first zero, 15 at most.\<close>

fun code_digits :: "nat \<Rightarrow> nat \<Rightarrow> nat list" where
  "code_digits 0 code = []"
| "code_digits (Suc n) code = (let digit = code mod 16 in if digit = 0 then [] else digit # code_digits n (code div 16))"

definition push_digit :: "nat \<Rightarrow> nat \<Rightarrow> nat" where
  "push_digit d code = u64_mul code 16 + d"

definition mk_order :: "nat \<Rightarrow> dims_order" where
  "mk_order code = \<lparr>do_code = code, do_inverted = fold push_digit (code_digits MAX_NUM_DIMS code) 0\<rparr>"

definition numDims :: "dims_order \<Rightarrow> nat" where
  "numDims order = length (code_digits MAX_NUM_DIMS (do_code order))"

definition hasDim :: "dims_order \<Rightarrow> nat \<Rightarrow> bool" where
  "hasDim order d \<longleftrightarrow> d + 1 \<in> set (code_digits MAX_NUM_DIMS (do_code order))"

fun digit_pos :: "nat \<Rightarrow> nat list \<Rightarrow> nat option" where
  "digit_pos d [] = None"
| "digit_pos d (x # xs) = (if x = d then Some 0 else map_option Suc (digit_pos d xs))"

definition dimPos :: "dims_order \<Rightarrow> nat \<Rightarrow> nat res" where
  "dimPos order d = (case digit_pos (d + 1) (code_digits MAX_NUM_DIMS (do_inverted order)) of
     None \<Rightarrow> Inl (Vpux_Throw ''Dim is not available in layout'') | Some i \<Rightarrow> Inr i)"

text \<open>A shift by the width of the type or more is undefined.\<close>

definition dimAt :: "dims_order \<Rightarrow> nat \<Rightarrow> nat res" where
  "dimAt order pos =
     (if pos \<ge> 16 then Inl Assertion_Failure
      else let curDigit = do_inverted order div 16 ^ pos mod 16 in
        if curDigit > 0 then Inr (curDigit - 1) else Inl (Vpux_Throw ''DimsOrder does not have Dim at pos''))"

definition toPermutation :: "dims_order \<Rightarrow> nat list" where
  "toPermutation order = map (\<lambda>d. d - 1) (code_digits MAX_NUM_DIMS (do_inverted order))"

section \<open>Construction\<close>

text \<open>The first loop of the check notes which digits were used and how many there are.\<close>

fun validate_digits :: "nat \<Rightarrow> nat \<Rightarrow> bool list \<times> nat \<Rightarrow> (bool list \<times> nat) res" where
  "validate_digits 0 code st = Inr st"
| "validate_digits (Suc n) code (dimUsed, count) =
     (if code mod 16 = 0 then Inr (dimUsed, count)
      else if dimUsed ! (code mod 16 - 1) then Inl (Vpux_Throw ''Dimension was used twice in DimsOrder code'')
      else validate_digits n (code div 16) (dimUsed[code mod 16 - 1 := True], count + 1))"

fun validate_range :: "bool list \<Rightarrow> nat \<Rightarrow> nat list \<Rightarrow> unit res" where
  "validate_range dimUsed count [] = Inr ()"
| "validate_range dimUsed count (dimInd # is) =
     (if \<not> dimUsed ! dimInd then Inr ()
      else if \<not> dimInd < count then Inl (Vpux_Throw ''Dimension in DimsOrder code is out of range'')
      else validate_range dimUsed count is)"

definition validateCode :: "nat \<Rightarrow> unit res" where
  "validateCode code =
     res_bind (validate_digits MAX_NUM_DIMS code (replicate MAX_NUM_DIMS False, 0)) (\<lambda>(dimUsed, count).
     res_bind (validate_range dimUsed count [0..<MAX_NUM_DIMS]) (\<lambda>_.
     if \<forall>i \<in> {count..<MAX_NUM_DIMS}. code div 16 ^ i mod 16 = 0 then Inr ()
     else Inl (Vpux_Throw ''DimsOrder code is not contiguous'')))"

definition fromCode :: "nat \<Rightarrow> dims_order res" where
  "fromCode code = res_bind (validateCode code) (\<lambda>_. Inr (mk_order code))"

definition validateNumDims :: "nat \<Rightarrow> unit res" where
  "validateNumDims n = (if n \<le> MAX_NUM_DIMS then Inr () else Inl (Vpux_Throw ''Number of Dims in DimsOrder exceeds maximal supported value''))"

definition getCodeFromNumDims :: "nat \<Rightarrow> nat res" where
  "getCodeFromNumDims n = res_bind (validateNumDims n) (\<lambda>_. Inr (fold (\<lambda>i code. code + (n - i) * 16 ^ i) [0..<n] 0))"

definition fromNumDims :: "nat \<Rightarrow> dims_order res" where
  "fromNumDims n = map_sum id mk_order (getCodeFromNumDims n)"

text \<open>A dimension has an index below the maximal number, which its constructor checks.\<close>

fun validate_perm :: "nat \<Rightarrow> nat list \<Rightarrow> bool list \<Rightarrow> unit res" where
  "validate_perm n [] dimUsed = Inr ()"
| "validate_perm n (d # ds) dimUsed =
     (if \<not> d \<le> 15 then Inl (Vpux_Throw ''Dim is too large to be used in DimsOrder permutation'')
      else if \<not> d < n then Inl (Vpux_Throw ''Dim is out of DimsOrder permutation range'')
      else if \<not> d < length dimUsed then Inl Assertion_Failure
      else if dimUsed ! d then Inl (Vpux_Throw ''Dim was used twice in DimsOrder permutation'')
      else validate_perm n ds (dimUsed[d := True]))"

definition validatePermutation :: "nat list \<Rightarrow> unit res" where
  "validatePermutation perm = validate_perm (length perm) perm (replicate MAX_NUM_DIMS False)"

definition getCodeFromPermutation :: "nat list \<Rightarrow> nat res" where
  "getCodeFromPermutation perm = res_bind (validatePermutation perm) (\<lambda>_. Inr (fold (\<lambda>d. push_digit (d + 1)) perm 0))"

definition fromPermutation :: "nat list \<Rightarrow> dims_order res" where
  "fromPermutation perm = map_sum id mk_order (getCodeFromPermutation perm)"

definition isIdentity :: "dims_order \<Rightarrow> bool res" where
  "isIdentity order = map_sum id (\<lambda>o'. do_code order = do_code o') (fromNumDims (numDims order))"

text \<open>An affine map is the list of the positions of its results; one that is no permutation is rejected.\<close>

definition fromAffineMap :: "nat list \<Rightarrow> dims_order res" where
  "fromAffineMap map' =
     (if \<not> (distinct map' \<and> (\<forall>d \<in> set map'. d < length map')) then Inl (Vpux_Throw ''Cannot get DimsOrder from non-permutation AffineMap'')
      else fromPermutation map')"

section \<open>Values in memory order and in logical order\<close>

fun collect_at :: "'a list \<Rightarrow> nat list \<Rightarrow> 'a list res" where
  "collect_at values [] = Inr []"
| "collect_at values (d # ds) = res_bind (vec_at values d) (\<lambda>v. map_sum id ((#) v) (collect_at values ds))"

definition toMemoryOrder :: "dims_order \<Rightarrow> 'a list \<Rightarrow> 'a list res" where
  "toMemoryOrder order values =
     (if length values \<noteq> numDims order then Inl (Vpux_Throw ''DimValues are not compatible with DimsOrder'')
      else collect_at values (toPermutation order))"

fun positions :: "dims_order \<Rightarrow> nat list \<Rightarrow> nat list res" where
  "positions order [] = Inr []"
| "positions order (d # ds) = res_bind (dimPos order d) (\<lambda>i. map_sum id ((#) i) (positions order ds))"

definition toLogicalOrder :: "dims_order \<Rightarrow> 'a list \<Rightarrow> 'a list res" where
  "toLogicalOrder order values =
     (if length values \<noteq> numDims order then Inl (Vpux_Throw ''DimValues are not compatible with DimsOrder'')
      else res_bind (positions order [0..<length values]) (collect_at values))"

definition isCompatibleLayout :: "dims_order \<Rightarrow> int list \<Rightarrow> bool" where
  "isCompatibleLayout order logicalStrides \<longleftrightarrow> length logicalStrides = numDims order \<and>
     (let p = toPermutation order in length p \<le> 1 \<or> (\<forall>i < length p - 1. \<not> logicalStrides ! (p ! i) < logicalStrides ! (p ! (i + 1))))"

text \<open>Searches for a dimension, from the major or from the minor end.\<close>

fun find_dim :: "('a \<Rightarrow> bool) \<Rightarrow> 'a list \<Rightarrow> dims_order \<Rightarrow> nat list \<Rightarrow> nat option res" where
  "find_dim Q sh order [] = Inr None"
| "find_dim Q sh order (i # is) =
     res_bind (dimAt order i) (\<lambda>d. res_bind (vec_at sh d) (\<lambda>n. if Q n then Inr (Some d) else find_dim Q sh order is))"

definition getHighestNonTrivialDim :: "int list \<Rightarrow> dims_order \<Rightarrow> nat option res" where
  "getHighestNonTrivialDim sh order = find_dim (\<lambda>n. n \<noteq> 1) sh order [0..<numDims order]"

definition getInnermostNonTrivialDim :: "int list \<Rightarrow> dims_order \<Rightarrow> nat option res" where
  "getInnermostNonTrivialDim sh order = find_dim (\<lambda>n. n \<noteq> 1) sh order (rev [0..<numDims order])"

definition getInnermostDynamicDim :: "int list \<Rightarrow> dims_order \<Rightarrow> nat option res" where
  "getInnermostDynamicDim sh order = find_dim (\<lambda>n. n = - (2 ^ 63)) sh order (rev [0..<numDims order])"

section \<open>Codes and lists of digits\<close>

definition enc :: "nat list \<Rightarrow> nat" where
  "enc ds = foldl (\<lambda>c d. c * 16 + d) 0 ds"

definition digits_ok :: "nat list \<Rightarrow> bool" where
  "digits_ok ds \<longleftrightarrow> length ds \<le> 15 \<and> (\<forall>d \<in> set ds. 0 < d \<and> d < 16)"

lemma enc_simps [simp]: "enc [] = 0" "enc (ds @ [d]) = enc ds * 16 + d"
  by (simp_all add: enc_def)

lemma digits_ok_snoc [simp]: "digits_ok (ds @ [d]) \<longleftrightarrow> length ds < 15 \<and> digits_ok ds \<and> 0 < d \<and> d < 16"
  by (auto simp: digits_ok_def)

lemma digits_ok_rev [simp]: "digits_ok (rev ds) = digits_ok ds"
  by (simp add: digits_ok_def)

lemma code_digits_enc: "digits_ok ds \<Longrightarrow> length ds \<le> n \<Longrightarrow> code_digits n (enc ds) = rev ds"
proof (induction ds arbitrary: n rule: rev_induct)
  case Nil
  then show ?case by (cases n) simp_all
next
  case (snoc d ds)
  then obtain m where "n = Suc m" by (cases n) auto
  with snoc show ?case by simp
qed

lemma enc_less: "digits_ok ds \<Longrightarrow> enc ds < 16 ^ length ds"
  by (induction ds rule: rev_induct) auto

lemma push_digits: "digits_ok ds \<Longrightarrow> fold push_digit ds 0 = enc ds"
proof (induction ds rule: rev_induct)
  case (snoc d ds)
  then have "enc ds < 16 ^ length ds" "length ds \<le> 14" by (auto intro: enc_less)
  then have "enc ds < 16 ^ 14" by (meson less_le_trans numeral_One one_le_numeral power_increasing)
  then have "enc ds * 16 < U64" by (simp add: U64_def)
  with snoc show ?case by (simp add: push_digit_def u64_mul_eq)
qed simp

lemma enc_digit: "digits_ok ds \<Longrightarrow> enc (rev ds) div 16 ^ i mod 16 = (if i < length ds then ds ! i else 0)"
proof (induction ds arbitrary: i)
  case (Cons d ds)
  then have d: "digits_ok ds" "0 < d" "d < 16" using digits_ok_rev [of "d # ds"] digits_ok_rev [of ds] by (simp_all del: digits_ok_rev)
  show ?case
  proof (cases i)
    case 0
    then show ?thesis using d by simp
  next
    case (Suc j)
    have "(enc (rev ds) * 16 + d) div (16 * 16 ^ j) = enc (rev ds) div 16 ^ j"
      using d by (simp add: div_mult2_eq)
    then show ?thesis using Cons.IH [OF d(1), of j] Suc by simp
  qed
qed simp

lemma enc_zero_above: "digits_ok ds \<Longrightarrow> length ds \<le> i \<Longrightarrow> enc ds div 16 ^ i mod 16 = 0"
  using enc_digit [of "rev ds" i] by simp

text \<open>The order with given digits.\<close>

lemma mk_order_enc: "digits_ok ds \<Longrightarrow> mk_order (enc ds) = \<lparr>do_code = enc ds, do_inverted = enc (rev ds)\<rparr>"
  by (simp add: mk_order_def MAX_NUM_DIMS_def code_digits_enc digits_ok_def push_digits [unfolded digits_ok_def])

lemma order_digits:
  assumes "digits_ok ds"
  shows "numDims (mk_order (enc ds)) = length ds" and "toPermutation (mk_order (enc ds)) = map (\<lambda>d. d - 1) ds"
    and "i < length ds \<Longrightarrow> dimAt (mk_order (enc ds)) i = Inr (ds ! i - 1)"
proof -
  have len: "length ds \<le> 15" and pos: "\<forall>d \<in> set ds. 0 < d" using assms by (simp_all add: digits_ok_def)
  have rev: "code_digits 15 (enc (rev ds)) = ds" using assms code_digits_enc [of "rev ds" 15] len by simp
  show "numDims (mk_order (enc ds)) = length ds"
    using assms len by (simp add: numDims_def mk_order_enc MAX_NUM_DIMS_def code_digits_enc)
  show "toPermutation (mk_order (enc ds)) = map (\<lambda>d. d - 1) ds"
    using assms rev by (simp add: toPermutation_def mk_order_enc MAX_NUM_DIMS_def)
  show "dimAt (mk_order (enc ds)) i = Inr (ds ! i - 1)" if "i < length ds"
    using that len pos by (simp add: dimAt_def mk_order_enc [OF assms] enc_digit [OF assms])
qed

lemma digit_pos_nth: "distinct ds \<Longrightarrow> i < length ds \<Longrightarrow> digit_pos (ds ! i) ds = Some i"
  by (induction ds arbitrary: i) (auto simp: nth_Cons split: nat.splits)

lemma order_dimPos:
  assumes "digits_ok ds" "distinct ds" "i < length ds"
  shows "dimPos (mk_order (enc ds)) (ds ! i - 1) = Inr i"
proof -
  have "code_digits 15 (enc (rev ds)) = ds" using assms code_digits_enc [of "rev ds" 15] by (simp add: digits_ok_def)
  moreover have "0 < ds ! i" using assms by (simp add: digits_ok_def)
  ultimately show ?thesis using assms by (simp add: dimPos_def mk_order_enc MAX_NUM_DIMS_def digit_pos_nth)
qed

section \<open>Checks of codes and permutations\<close>

lemma validate_digits_distinct:
  "digits_ok ds \<Longrightarrow> distinct ds \<Longrightarrow> length ds \<le> n \<Longrightarrow> length used = 15 \<Longrightarrow> \<forall>d \<in> set ds. \<not> used ! (d - 1) \<Longrightarrow>
    \<exists>used'. validate_digits n (enc ds) (used, c) = Inr (used', c + length ds) \<and> length used' = 15 \<and>
      (\<forall>i < 15. used' ! i \<longleftrightarrow> used ! i \<or> Suc i \<in> set ds)"
proof (induction ds arbitrary: n used c rule: rev_induct)
  case Nil
  then show ?case by (cases n) auto
next
  case (snoc d ds)
  then obtain m where m: "n = Suc m" by (cases n) auto
  have d: "0 < d" "d < 16" "digits_ok ds" "d \<notin> set ds" using snoc.prems by simp_all
  have "\<forall>e \<in> set ds. \<not> used[d - 1 := True] ! (e - 1)"
  proof
    fix e assume e: "e \<in> set ds"
    then have "0 < e" "e \<noteq> d" using d by (auto simp: digits_ok_def)
    then have "e - 1 \<noteq> d - 1" using d by simp
    then show "\<not> used[d - 1 := True] ! (e - 1)" using snoc.prems e by simp
  qed
  then obtain used' where u: "validate_digits m (enc ds) (used[d - 1 := True], c + 1) = Inr (used', c + 1 + length ds)"
    "length used' = 15" "\<forall>i < 15. used' ! i \<longleftrightarrow> used[d - 1 := True] ! i \<or> Suc i \<in> set ds"
    using snoc.IH [of m "used[d - 1 := True]" "c + 1"] snoc.prems m d by auto
  have "validate_digits n (enc (ds @ [d])) (used, c) = Inr (used', c + length (ds @ [d]))"
    using u(1) snoc.prems d by (simp add: m)
  moreover have "used' ! i \<longleftrightarrow> used ! i \<or> Suc i \<in> set (ds @ [d])" if "i < 15" for i
    using u(3) that snoc.prems d by (cases "i = d - 1") auto
  ultimately show ?case using u(2) by blast
qed

text \<open>The second loop never finds anything: as many dimensions are used as there are digits.\<close>

lemma validate_range_passes:
  assumes "\<forall>i < 15. used ! i \<longrightarrow> Suc i \<in> set ds" "\<forall>i < j. used ! i" "length ds = count" "distinct ds"
  shows "validate_range used count [j..<15] = Inr ()"
proof (cases "j \<le> 15")
  case True
  then show ?thesis using assms(2)
  proof (induction j rule: inc_induct)
    case (step j)
    show ?case
    proof (cases "used ! j")
      case u: True
      have "Suc ` {..j} \<subseteq> set ds"
      proof
        fix k assume "k \<in> Suc ` {..j}"
        then obtain i where i: "k = Suc i" "i \<le> j" by auto
        then have "used ! i" using u step.prems by (cases "i = j") auto
        then show "k \<in> set ds" using assms(1) i step.hyps by auto
      qed
      then have "card (Suc ` {..j}) \<le> card (set ds)" by (intro card_mono) simp_all
      moreover have "card (Suc ` {..j}) = Suc j" by (simp add: card_image)
      moreover have "card (set ds) = count" using assms(3,4) distinct_card by fastforce
      ultimately have "j < count" by simp
      moreover have "\<forall>i < Suc j. used ! i" using u step.prems by (auto simp: less_Suc_eq)
      ultimately show ?thesis using u step.IH step.hyps by (simp add: upt_conv_Cons)
    next
      case False
      then show ?thesis using step.hyps by (simp add: upt_conv_Cons)
    qed
  qed simp
qed simp

lemma validateCode_distinct:
  assumes "digits_ok ds" "distinct ds"
  shows "validateCode (enc ds) = Inr ()"
proof -
  have len: "length ds \<le> 15" using assms by (simp add: digits_ok_def)
  have "\<forall>d \<in> set ds. \<not> replicate 15 False ! (d - 1)" using assms by (auto simp: digits_ok_def)
  then obtain used where u: "validate_digits 15 (enc ds) (replicate 15 False, 0) = Inr (used, length ds)"
    "\<forall>i < 15. used ! i \<longleftrightarrow> Suc i \<in> set ds"
    using validate_digits_distinct [OF assms len, of "replicate 15 False" 0] by auto
  have "validate_range used (length ds) [0..<15] = Inr ()"
    by (rule validate_range_passes [where ds = ds]) (use u(2) assms in auto)
  then show ?thesis using u(1) enc_zero_above [OF assms(1)] by (simp add: validateCode_def MAX_NUM_DIMS_def)
qed

lemma validate_perm_ok:
  "distinct ds \<Longrightarrow> \<forall>d \<in> set ds. d < n \<and> d < length used \<and> \<not> used ! d \<Longrightarrow> length used = 15 \<Longrightarrow> validate_perm n ds used = Inr ()"
proof (induction ds arbitrary: used)
  case (Cons a ds)
  then have "\<forall>d \<in> set ds. d < n \<and> d < length (used[a := True]) \<and> \<not> used[a := True] ! d" by (auto simp: nth_list_update)
  then have "validate_perm n ds (used[a := True]) = Inr ()" using Cons by simp
  then show ?case using Cons.prems by simp
qed simp

lemma validate_perm_out: "\<exists>d \<in> set ds. \<not> d < n \<Longrightarrow> \<exists>e. validate_perm n ds used = Inl e"
  by (induction ds arbitrary: used) auto

lemma fold_push_perm: "fold (\<lambda>d. push_digit (Suc d)) perm c = fold push_digit (map Suc perm) c"
  by (induction perm arbitrary: c) simp_all

lemma perm_digits: "length perm \<le> 15 \<Longrightarrow> \<forall>d \<in> set perm. d < 15 \<Longrightarrow> digits_ok (map Suc perm)"
  by (auto simp: digits_ok_def)

lemma fromPermutation_eq:
  assumes "distinct perm" "\<forall>d \<in> set perm. d < length perm" "length perm \<le> 15"
  shows "fromPermutation perm = Inr (mk_order (enc (map Suc perm)))"
proof -
  have lt: "\<forall>d \<in> set perm. d < 15" using assms by auto
  have "validate_perm (length perm) perm (replicate 15 False) = Inr ()"
    by (rule validate_perm_ok) (use assms lt in auto)
  then show ?thesis using push_digits [OF perm_digits [OF assms(3) lt]]
    by (simp add: fromPermutation_def getCodeFromPermutation_def validatePermutation_def MAX_NUM_DIMS_def fold_push_perm)
qed

section \<open>Round trips\<close>

lemma collect_at_map: "\<forall>d \<in> set ds. d < length values \<Longrightarrow> collect_at values ds = Inr (map ((!) values) ds)"
  by (induction ds) (simp_all add: vec_at_in)

lemma positions_map: "(\<And>d. d \<in> set ds \<Longrightarrow> dimPos order d = Inr (f d)) \<Longrightarrow> positions order ds = Inr (map f ds)"
  by (induction ds) simp_all

lemma order_of_perm:
  assumes "distinct perm" "\<forall>d \<in> set perm. d < 15" "length perm \<le> 15"
  shows "numDims (mk_order (enc (map Suc perm))) = length perm" and "toPermutation (mk_order (enc (map Suc perm))) = perm"
    and "i < length perm \<Longrightarrow> dimAt (mk_order (enc (map Suc perm))) i = Inr (perm ! i)"
    and "i < length perm \<Longrightarrow> dimPos (mk_order (enc (map Suc perm))) (perm ! i) = Inr i"
proof -
  have ok: "digits_ok (map Suc perm)" using assms by (intro perm_digits)
  note o = order_digits [OF ok]
  have id: "map (\<lambda>d. d - 1) (map Suc perm) = perm" by (simp add: comp_def)
  show "numDims (mk_order (enc (map Suc perm))) = length perm" using o(1) by simp
  show "toPermutation (mk_order (enc (map Suc perm))) = perm" using o(2) by (simp only: id)
  show "dimAt (mk_order (enc (map Suc perm))) i = Inr (perm ! i)" if "i < length perm" using o(3) [of i] that by simp
  show "dimPos (mk_order (enc (map Suc perm))) (perm ! i) = Inr i" if "i < length perm"
    using order_dimPos [OF ok, of i] that assms by (simp add: distinct_map)
qed

text \<open>
  C33. Every permutation of up to 15 dimensions makes an order whose code passes the check of codes and gives the same
  order again.  The order has as many dimensions as the permutation and gives it back; the dimension at a position and the
  position of a dimension are inverse to each other; and values brought into memory order and then back into logical order
  are the values.
\<close>

theorem dims_order_roundtrip:
  fixes vals :: "'a list"
  assumes "distinct perm" "set perm = {..<length perm}" "length perm \<le> 15" "length vals = length perm"
  shows "\<exists>order memValues. fromPermutation perm = Inr order \<and> fromCode (do_code order) = Inr order \<and>
    toPermutation order = perm \<and> numDims order = length perm \<and>
    (\<forall>i < length perm. dimAt order i = Inr (perm ! i) \<and> dimPos order (perm ! i) = Inr i) \<and>
    toMemoryOrder order vals = Inr memValues \<and> memValues = map ((!) vals) perm \<and> toLogicalOrder order memValues = Inr vals"
proof -
  let ?order = "mk_order (enc (map Suc perm))"
  have lt: "\<forall>d \<in> set perm. d < length perm" using assms by simp
  have lt15: "\<forall>d \<in> set perm. d < 15" using assms by auto
  note o = order_of_perm [OF assms(1) lt15 assms(3)]
  have dig: "digits_ok (map Suc perm)" "distinct (map Suc perm)"
    using perm_digits [OF assms(3) lt15] assms(1) by (simp_all add: distinct_map)
  have code: "fromCode (do_code ?order) = Inr ?order"
    using validateCode_distinct [OF dig] by (simp add: fromCode_def mk_order_enc [OF dig(1)])
  define f where "f = (\<lambda>d. SOME i. i < length perm \<and> perm ! i = d)"
  have f: "f d < length perm \<and> perm ! f d = d" if "d < length perm" for d
  proof -
    have "d \<in> set perm" using that assms(2) by simp
    then obtain i where "i < length perm \<and> perm ! i = d" by (auto simp: in_set_conv_nth)
    then show ?thesis unfolding f_def by (rule someI)
  qed
  have pos: "positions ?order [0..<length perm] = Inr (map f [0..<length perm])"
  proof (rule positions_map)
    fix d assume "d \<in> set [0..<length perm]"
    then have "f d < length perm \<and> perm ! f d = d" using f by simp
    then show "dimPos ?order d = Inr (f d)" using o(4) [of "f d"] by simp
  qed
  have mem: "toMemoryOrder ?order vals = Inr (map ((!) vals) perm)"
    using o(1,2) assms lt by (simp add: toMemoryOrder_def collect_at_map)
  have "map ((!) (map ((!) vals) perm)) (map f [0..<length perm]) = vals"
    using f assms by (intro nth_equalityI) simp_all
  then have "toLogicalOrder ?order (map ((!) vals) perm) = Inr vals"
    using o(1) pos f by (simp add: toLogicalOrder_def collect_at_map)
  note logical = this
  show ?thesis
    by (intro exI [of _ ?order] exI [of _ "map ((!) vals) perm"] conjI allI impI fromPermutation_eq [OF assms(1) lt assms(3)] code o logical mem refl)
qed

theorem dims_order_roundtrip_witness:
  "\<exists>order. fromPermutation [0, 2, 3, 1] = Inr order \<and> do_code order = 0x1342 \<and> dimPos order 1 = Inr 3 \<and>
    toMemoryOrder order ''NCHW'' = Inr ''NHWC'' \<and> toLogicalOrder order ''NHWC'' = Inr ''NCHW''"
proof -
  have p: "distinct [0, 2, 3, 1 :: nat]" "set [0, 2, 3, 1 :: nat] = {..<length [0, 2, 3, 1 :: nat]}" "length [0, 2, 3, 1 :: nat] \<le> 15"
    "length ''NCHW'' = length [0, 2, 3, 1 :: nat]"
    by (auto simp: numeral_eq_Suc)
  obtain order mem where o: "fromPermutation [0, 2, 3, 1] = Inr order"
    "\<forall>i < length [0, 2, 3, 1 :: nat]. dimAt order i = Inr ([0, 2, 3, 1] ! i) \<and> dimPos order ([0, 2, 3, 1] ! i) = Inr i"
    "toMemoryOrder order ''NCHW'' = Inr mem" "mem = map ((!) ''NCHW'') [0, 2, 3, 1]" "toLogicalOrder order mem = Inr ''NCHW''"
    using dims_order_roundtrip [OF p] by (elim exE conjE) (rule that)
  have "(3 :: nat) < length [0, 2, 3, 1 :: nat]" by simp
  with o(2) have "dimPos order ([0, 2, 3, 1] ! 3) = Inr 3" by blast
  then have "dimPos order 1 = Inr 3" by simp
  moreover have "mem = ''NHWC''" using o(4) by simp
  moreover have "order = mk_order (enc [1, 3, 4, 2])" using o(1) fromPermutation_eq [of "[0, 2, 3, 1]"] by (simp add: numeral_eq_Suc)
  then have "do_code order = 0x1342" by (simp add: mk_order_def enc_def)
  ultimately show ?thesis using o(1,3,5) by blast
qed

text \<open>
  C39. The check of codes should refuse digits that are not a permutation of the dimensions from 0 on, but its second loop
  ends at the first dimension that is not used, so that it never reports one: every list of distinct dimensions makes a code
  that passes, while the same list is refused as a permutation when some dimension lies beyond its length.
\<close>

theorem code_check_misses_gaps:
  assumes "distinct dims" "\<forall>d \<in> set dims. d < 15" "d \<in> set dims" "length dims \<le> d"
  shows "\<exists>code order. fromCode code = Inr order \<and> toPermutation order = dims \<and> (\<exists>e. fromPermutation dims = Inl e)"
proof -
  have "card (set dims) \<le> card {..<15 :: nat}" using assms(2) by (intro card_mono) auto
  then have len: "length dims \<le> 15" using assms(1) distinct_card [of dims] by simp
  have dig: "digits_ok (map Suc dims)" "distinct (map Suc dims)"
    using perm_digits [OF len assms(2)] assms(1) by (simp_all add: distinct_map)
  have "fromCode (enc (map Suc dims)) = Inr (mk_order (enc (map Suc dims)))"
    using validateCode_distinct [OF dig] by (simp add: fromCode_def)
  moreover have "\<exists>e. fromPermutation dims = Inl e"
  proof -
    have "\<exists>d \<in> set dims. \<not> d < length dims" using assms(3,4) by (auto simp: not_less)
    then obtain e where "validate_perm (length dims) dims (replicate 15 False) = Inl e" using validate_perm_out by blast
    then show ?thesis by (simp add: fromPermutation_def getCodeFromPermutation_def validatePermutation_def MAX_NUM_DIMS_def)
  qed
  ultimately show ?thesis using order_of_perm(2) [OF assms(1,2) len] by blast
qed

theorem code_check_misses_gaps_witness:
  "\<exists>code order. fromCode code = Inr order \<and> toPermutation order = [0, 2] \<and> (\<exists>e. fromPermutation [0, 2] = Inl e)"
  using code_check_misses_gaps [of "[0, 2]" 2] by simp

end
