(* ===== verification/Mem_Layout.thy ===== *)
theory Mem_Layout
  imports Numeric Tile_Division Dims_Order
begin

text \<open>
  Positions in memory: linear indices and coordinates (\<^verbatim>\<open>src/core/attributes/shape.cpp\<close>), the enumeration of a
  shape (\<^verbatim>\<open>src/utils/subspaces.cpp\<close>) and requirements on strides
  (\<^verbatim>\<open>src/core/attributes/stride_reqs.cpp\<close>).  Shapes, coordinates and strides are lists from major to minor; strides
  and element sizes count bits.  Loops that run from the minor end are recursions over the reversed list.
\<close>

section \<open>Linear indices\<close>

text \<open>A product of 64-bit integers wraps around.\<close>

definition wrap64 :: "int \<Rightarrow> int" where
  "wrap64 n = (n + 2 ^ 63) mod 2 ^ 64 - 2 ^ 63"

definition calcTotalShapeSize :: "int list \<Rightarrow> int res" where
  "calcTotalShapeSize sh = res_fold (\<lambda>d acc.
     if \<not> d \<ge> 0 then Inl (Vpux_Throw ''Cannot compute total shape size on dynamic shape'')
     else let mult = wrap64 (acc * d) in
       if \<not> mult \<ge> 0 then Inl (Vpux_Throw ''integer overflow in element count computation'') else Inr mult) sh 1"

fun split_index :: "int list \<Rightarrow> int \<Rightarrow> (int list \<times> int) res" where
  "split_index [] t = Inr ([], t)"
| "split_index (mdSize # ns) t =
     (if mdSize = 0 then Inl Assertion_Failure
      else let r = t smod mdSize; t' = (t - r) sdiv mdSize in
        if \<not> t' \<ge> 0 then Inl (Vpux_Throw ''Memory index 1D is not compatible with memory shape'')
        else map_sum id (\<lambda>(rs, t). (r # rs, t)) (split_index ns t'))"

definition getMemIndexND :: "int \<Rightarrow> int list \<Rightarrow> int list res" where
  "getMemIndexND memIndex1D memShape = res_bind (split_index (rev memShape) memIndex1D) (\<lambda>(rs, t).
     if t \<noteq> 0 then Inl (Vpux_Throw ''Memory index 1D is not compatible with memory shape'') else Inr (rev rs))"

fun join_index :: "int list \<Rightarrow> int list \<Rightarrow> int \<Rightarrow> int \<Rightarrow> int res" where
  "join_index (mdSize # ns) (mdInd # is) memIndex1D tempSize =
     (if \<not> mdInd < mdSize then Inl (Vpux_Throw ''Memory index ND is not compatible with memory shape'')
      else join_index ns is (memIndex1D + mdInd * tempSize) (tempSize * mdSize))"
| "join_index _ _ memIndex1D tempSize = Inr memIndex1D"

definition getMemIndex1D :: "int list \<Rightarrow> int list \<Rightarrow> int res" where
  "getMemIndex1D memIndexND memShape =
     (if length memIndexND \<noteq> length memShape then Inl (Vpux_Throw ''Memory index ND is not compatible with memory shape'')
      else join_index (rev memShape) (rev memIndexND) 0 1)"

section \<open>Enumeration of a shape\<close>

fun coord_loop :: "int list \<Rightarrow> int \<Rightarrow> int list res" where
  "coord_loop [] n = Inr []"
| "coord_loop (dimVal # ds) n =
     (if dimVal = 0 then Inl Assertion_Failure
      else let nUp = n sdiv dimVal in map_sum id ((#) (n - nUp * dimVal)) (coord_loop ds nUp))"

definition getCoord :: "int list \<Rightarrow> int \<Rightarrow> int list res" where
  "getCoord dims numSections = map_sum id rev (coord_loop (rev dims) numSections)"

definition getOffset :: "int list \<Rightarrow> int list \<Rightarrow> bool list \<Rightarrow> int res" where
  "getOffset subspaceCoord strides broadcast =
     (if length subspaceCoord \<noteq> length strides then Inl (Vpux_Throw ''Mismatch between shape and strides'')
      else if broadcast \<noteq> [] \<and> length subspaceCoord \<noteq> length broadcast then Inl (Vpux_Throw ''Mismatch between shape and broadcast'')
      else Inr (fold (\<lambda>d offset. if broadcast = [] \<or> \<not> broadcast ! d then offset + subspaceCoord ! d * strides ! d else offset)
        (rev [0..<length subspaceCoord]) 0))"

text \<open>Incrementing skips some dimensions; the triples are the index, the coordinate and the size.\<close>

fun inc_loop :: "(nat \<Rightarrow> bool) \<Rightarrow> (nat \<times> int \<times> int) list \<Rightarrow> int list" where
  "inc_loop skip [] = []"
| "inc_loop skip ((d, coord, n) # xs) =
     (if skip d then coord # inc_loop skip xs
      else if coord < n - 1 then (coord + 1) # map (\<lambda>(_, c, _). c) xs
      else 0 # inc_loop skip xs)"

definition increment_skipping :: "(nat \<Rightarrow> bool) \<Rightarrow> int list \<Rightarrow> int list \<Rightarrow> int list res" where
  "increment_skipping skip coord dims =
     (if length dims < length coord then Inl Assertion_Failure
      else Inr (rev (inc_loop skip (rev (map (\<lambda>d. (d, coord ! d, dims ! d)) [0..<length coord])))))"

definition increment1Coord :: "int list \<Rightarrow> int list \<Rightarrow> int list res" where
  "increment1Coord coord dims = increment_skipping (\<lambda>_. False) coord dims"

definition incrementLine :: "int list \<Rightarrow> int list \<Rightarrow> nat \<Rightarrow> int list res" where
  "incrementLine coord dims axis = increment_skipping (\<lambda>d. d = axis) coord dims"

definition incrementPlane :: "int list \<Rightarrow> int list \<Rightarrow> nat \<Rightarrow> nat \<Rightarrow> int list res" where
  "incrementPlane coord dims axis0 axis1 = increment_skipping (\<lambda>d. d = axis0 \<or> d = axis1) coord dims"

fun add_loop :: "(int \<times> int) list \<Rightarrow> int \<Rightarrow> int list res" where
  "add_loop [] inc = Inr []"
| "add_loop ((coord, n) # xs) inc =
     (if n = 0 then Inl Assertion_Failure
      else let inc = inc + coord; c = inc smod n; inc = (inc - c) sdiv n in map_sum id ((#) c) (add_loop xs inc))"

definition incrementNCoord :: "int list \<Rightarrow> int list \<Rightarrow> int \<Rightarrow> int list res" where
  "incrementNCoord coord dims inc =
     (if length dims < length coord then Inl Assertion_Failure
      else map_sum id rev (add_loop (rev (zip coord dims)) inc))"

definition getTotalLines :: "int list \<Rightarrow> nat \<Rightarrow> int res" where
  "getTotalLines dims axis = res_bind (vec_at dims axis) (\<lambda>n.
     if n \<noteq> 0 then map_sum id (\<lambda>count. count sdiv n) (calcTotalShapeSize dims) else Inr 0)"

definition getTotalPlanes :: "int list \<Rightarrow> nat \<Rightarrow> nat \<Rightarrow> int res" where
  "getTotalPlanes dims axis0 axis1 = res_bind (vec_at dims axis0) (\<lambda>n0. res_bind (vec_at dims axis1) (\<lambda>n1.
     if n0 * n1 \<noteq> 0 then map_sum id (\<lambda>count. count sdiv (n0 * n1)) (calcTotalShapeSize dims) else Inr 0))"

fun sizes_loop :: "int list \<Rightarrow> int \<Rightarrow> int list" where
  "sizes_loop [] count = []"
| "sizes_loop (n # ns) count = count # sizes_loop ns (count * n)"

definition getSizes :: "int list \<Rightarrow> int list" where
  "getSizes subspaceDims = rev (sizes_loop (rev subspaceDims) 1)"

section \<open>Requirements on strides\<close>

datatype stride_req_kind = Compact | Aligned | Fixed

record stride_req =
  sr_memDim :: nat
  sr_kind :: stride_req_kind
  sr_extraValue :: int

definition verifyAttrs :: "stride_req_kind \<Rightarrow> int \<Rightarrow> unit res" where
  "verifyAttrs kind extraValue =
     (if kind = Compact then
        (if extraValue \<noteq> 0 then Inl (Vpux_Throw ''Got non zero extraValue for DimStrideReq'') else Inr ())
      else if \<not> extraValue > 0 then Inl (Vpux_Throw ''Got negative or zero extraValue in DimStrideReq'')
      else if kind = Aligned \<and> \<not> isPowerOfTwo (nat extraValue) then Inl (Vpux_Throw ''Alignment value is not a power-of-two in DimStrideReq'')
      else Inr ())"

definition new_req :: "nat \<Rightarrow> stride_req_kind \<Rightarrow> int \<Rightarrow> stride_req res" where
  "new_req d kind extraValue = res_bind (verifyAttrs kind extraValue) (\<lambda>_.
     Inr \<lparr>sr_memDim = d, sr_kind = kind, sr_extraValue = extraValue\<rparr>)"

definition req_for :: "stride_req list \<Rightarrow> nat \<Rightarrow> stride_req option" where
  "req_for reqs d = find (\<lambda>r. sr_memDim r = d) reqs"

definition hasReqFor :: "stride_req list \<Rightarrow> nat \<Rightarrow> bool" where
  "hasReqFor reqs d \<longleftrightarrow> req_for reqs d \<noteq> None"

definition add_req :: "stride_req \<Rightarrow> stride_req list \<Rightarrow> stride_req list res" where
  "add_req r reqs = (if hasReqFor reqs (sr_memDim r) then Inl Assertion_Failure else Inr (reqs @ [r]))"

definition remove_req :: "nat \<Rightarrow> stride_req list \<Rightarrow> stride_req list" where
  "remove_req d reqs = filter (\<lambda>r. sr_memDim r \<noteq> d) reqs"

definition simple_reqs :: "nat \<Rightarrow> stride_req list res" where
  "simple_reqs n = res_bind (new_req (if n \<noteq> 0 then n - 1 else 0) Compact 0) (\<lambda>r. add_req r [])"

definition compact_reqs :: "nat \<Rightarrow> stride_req list res" where
  "compact_reqs n = res_bind (validateNumDims n) (\<lambda>_.
     res_fold (\<lambda>d reqs. res_bind (new_req d Compact 0) (\<lambda>r. add_req r reqs)) [0..<n] [])"

definition fixed_reqs :: "int list \<Rightarrow> stride_req list res" where
  "fixed_reqs strides = res_fold (\<lambda>d reqs. res_bind (new_req d Fixed (strides ! d)) (\<lambda>r. add_req r reqs)) [0..<length strides] []"

definition applyStrideReq :: "int \<Rightarrow> stride_req \<Rightarrow> int res" where
  "applyStrideReq baseStride r = (case sr_kind r of Compact \<Rightarrow> Inr baseStride
     | Aligned \<Rightarrow> s_alignValUp baseStride (sr_extraValue r) | Fixed \<Rightarrow> Inr (sr_extraValue r))"

text \<open>The strides of the dimensions from an index on.\<close>

fun strides_from :: "stride_req list \<Rightarrow> int \<Rightarrow> nat \<Rightarrow> int list \<Rightarrow> int list res" where
  "strides_from reqs elemSize d [] = Inr []"
| "strides_from reqs elemSize d (n # ns) =
     res_bind (strides_from reqs elemSize (d + 1) ns) (\<lambda>ss.
     let base = (if ns = [] then elemSize else hd ss * hd ns) in
     res_bind (case req_for reqs d of None \<Rightarrow> Inr base | Some r \<Rightarrow> applyStrideReq base r) (\<lambda>s. Inr (s # ss)))"

definition calcStrides :: "stride_req list \<Rightarrow> int \<Rightarrow> int list \<Rightarrow> int list res" where
  "calcStrides reqs elemSize memShape =
     (if \<exists>n \<in> set memShape. n < 0 then Inl Assertion_Failure else strides_from reqs elemSize 0 memShape)"

definition check_bound :: "int \<Rightarrow> int list \<Rightarrow> int list \<Rightarrow> nat \<Rightarrow> bool" where
  "check_bound elemSize memStrides memShape d \<longleftrightarrow>
     (if d = length memShape - 1 then \<not> memStrides ! d < elemSize
      else \<not> (memStrides ! d \<noteq> 0 \<and> memStrides ! d < memStrides ! (d + 1) * (memShape ! (d + 1) - 1) + elemSize) \<and>
        \<not> (memStrides ! d = 0 \<and> memStrides ! d < memStrides ! (d + 1) * memShape ! (d + 1)))"

definition check_req :: "int \<Rightarrow> int list \<Rightarrow> int list \<Rightarrow> nat \<Rightarrow> stride_req \<Rightarrow> bool" where
  "check_req elemSize memStrides memShape d r = (case sr_kind r of
     Fixed \<Rightarrow> memStrides ! d = sr_extraValue r
   | Aligned \<Rightarrow> memStrides ! d smod sr_extraValue r = 0
   | Compact \<Rightarrow> memStrides ! d = (if d = length memShape - 1 then elemSize else memStrides ! (d + 1) * memShape ! (d + 1)))"

definition checkStrides :: "stride_req list \<Rightarrow> int list \<Rightarrow> int \<Rightarrow> int list \<Rightarrow> bool res" where
  "checkStrides reqs memStrides elemSize memShape =
     (if (\<exists>n \<in> set memShape. n < 0) \<or> (\<exists>s \<in> set memStrides. s < 0) \<or> length memStrides \<noteq> length memShape then Inl Assertion_Failure
      else Inr (\<forall>d \<in> {0..<length memShape}. check_bound elemSize memStrides memShape d \<and>
        (case req_for reqs d of None \<Rightarrow> True | Some r \<Rightarrow> check_req elemSize memStrides memShape d r)))"

text \<open>Joining adds the requirements of both; the second loop meets those again that the first one has merged.\<close>

definition merge_req :: "stride_req \<Rightarrow> stride_req \<Rightarrow> stride_req list \<Rightarrow> stride_req list res" where
  "merge_req cur other merged =
     (if sr_kind cur = Fixed \<and> sr_kind other = Fixed \<and> sr_extraValue cur \<noteq> sr_extraValue other
      then Inl (Vpux_Throw ''StrideReqs::join : got fixed strides with different values at MemDim'')
      else add_req (if sr_kind other = Fixed then other else cur) merged)"

definition join_reqs :: "stride_req list \<Rightarrow> stride_req list \<Rightarrow> int \<Rightarrow> int list \<Rightarrow> stride_req list res" where
  "join_reqs reqs others elemSize memShape =
     res_bind (res_fold (\<lambda>cur merged. case req_for others (sr_memDim cur) of
         Some other \<Rightarrow> merge_req cur other merged | None \<Rightarrow> add_req cur merged) reqs []) (\<lambda>merged.
     res_bind (res_fold (\<lambda>other merged. case req_for reqs (sr_memDim other) of
         Some cur \<Rightarrow> merge_req cur other merged | None \<Rightarrow> add_req other merged) others merged) (\<lambda>merged.
     res_bind (calcStrides merged elemSize memShape) (\<lambda>mergedStrides.
     res_bind (checkStrides reqs mergedStrides elemSize memShape) (\<lambda>ok.
     if \<not> ok then Inl (Vpux_Throw ''StrideReqs::join : mergedStrides does not satisfy original StrideReqs'')
     else res_bind (checkStrides others mergedStrides elemSize memShape) (\<lambda>ok.
     if \<not> ok then Inl (Vpux_Throw ''StrideReqs::join : mergedStrides does not satisfy original StrideReqs'')
     else Inr merged)))))"

section \<open>Digits of an index\<close>

text \<open>Both from the minor end: the digits of a number in a mixed radix, and the number of some digits.\<close>

fun dig :: "int list \<Rightarrow> int \<Rightarrow> int list" where
  "dig [] t = []"
| "dig (n # ns) t = t mod n # dig ns (t div n)"

fun lin :: "int list \<Rightarrow> int list \<Rightarrow> int" where
  "lin (n # ns) (c # cs) = c + n * lin ns cs"
| "lin _ _ = 0"

lemma length_dig [simp]: "length (dig ns t) = length ns"
  by (induction ns t rule: dig.induct) simp_all

lemma prod_pos: "\<forall>n \<in> set ns. 0 < n \<Longrightarrow> 0 < prod_list (ns :: int list)"
  by (induction ns) simp_all

lemma lin_dig: "\<forall>n \<in> set ns. 0 < n \<Longrightarrow> lin ns (dig ns t) = t mod prod_list ns"
proof (induction ns t rule: dig.induct)
  case (2 n ns t)
  then show ?case by (simp add: mod_mult2_eq' algebra_simps zmod_zmult2_eq prod_pos less_imp_le)
qed simp

lemma dig_bounds: "\<forall>n \<in> set ns. 0 < n \<Longrightarrow> i < length ns \<Longrightarrow> 0 \<le> dig ns t ! i \<and> dig ns t ! i < ns ! i"
  by (induction ns t arbitrary: i rule: dig.induct) (auto simp: nth_Cons split: nat.splits)

lemma sdiv_mult: "0 \<le> q \<Longrightarrow> 0 < n \<Longrightarrow> n * q sdiv n = (q :: int)"
  by (simp add: sdiv_pos)

lemma div_mod_unique: "0 \<le> r \<Longrightarrow> r < n \<Longrightarrow> (r + n * q) div n = (q :: int) \<and> (r + n * q) mod n = r"
  by simp

lemma split_index_dig:
  "\<forall>n \<in> set ns. 0 < n \<Longrightarrow> 0 \<le> t \<Longrightarrow> split_index ns t = Inr (dig ns t, t div prod_list ns)"
proof (induction ns t rule: dig.induct)
  case (2 n ns t)
  have "t - t mod n = n * (t div n)" by (simp add: minus_mod_eq_mult_div)
  then have "(t - t mod n) sdiv n = t div n" using 2 sdiv_mult [of "t div n" n] by (simp add: pos_imp_zdiv_nonneg_iff)
  with 2 show ?case by (simp add: smod_pos Let_def pos_imp_zdiv_nonneg_iff zdiv_zmult2_eq prod_pos less_imp_le)
qed simp

lemma coord_loop_dig: "\<forall>n \<in> set ns. 0 < n \<Longrightarrow> 0 \<le> t \<Longrightarrow> coord_loop ns t = Inr (dig ns t)"
  by (induction ns t rule: dig.induct)
    (simp_all add: sdiv_pos Let_def pos_imp_zdiv_nonneg_iff minus_div_mult_eq_mod)

lemma join_index_lin:
  "length is = length ns \<Longrightarrow> \<forall>i < length ns. is ! i < ns ! i \<Longrightarrow> join_index ns is m t = Inr (m + t * lin ns is)"
proof (induction ns "is" m t rule: join_index.induct)
  case (1 n ns i "is" m t)
  have "i < n" "\<forall>j < length ns. is ! j < ns ! j" using 1(3) by (auto simp: nth_Cons split: nat.splits)
  with 1 show ?case by (simp add: algebra_simps)
qed simp_all

text \<open>Incrementing adds to the number.\<close>

lemma inc_loop_dig:
  "\<forall>n \<in> set ns. 0 < n \<Longrightarrow> length js = length ns \<Longrightarrow>
    inc_loop (\<lambda>_. False) (zip js (zip (dig ns t) ns)) = dig ns (t + 1)"
proof (induction ns t arbitrary: js rule: dig.induct)
  case (2 n ns t)
  then obtain j js' where js: "js = j # js'" by (cases js) auto
  have n: "0 < n" using 2 by simp
  show ?case
  proof (cases "t mod n < n - 1")
    case True
    have "(t + 1) mod n = t mod n + 1" "(t + 1) div n = t div n"
      using div_mod_unique [of "t mod n + 1" n "t div n"] True n by (simp_all add: add.commute add.left_commute)
    moreover have "map (\<lambda>(_, c, _). c) (zip js' (zip (dig ns (t div n)) ns)) = dig ns (t div n)"
      using 2 js by (intro nth_equalityI) simp_all
    ultimately show ?thesis using True js by simp
  next
    case False
    then have e: "t mod n = n - 1" using n pos_mod_bound [of n t] by linarith
    have "t + 1 = n * (t div n + 1)" using mult_div_mod_eq [of n t] e by (simp add: algebra_simps)
    then have "(t + 1) mod n = 0" "(t + 1) div n = t div n + 1" using n by simp_all
    then show ?thesis using False js 2 by simp
  qed
qed simp

lemma add_loop_dig:
  "\<forall>n \<in> set ns. 0 < n \<Longrightarrow> 0 \<le> k \<Longrightarrow> add_loop (zip (dig ns t) ns) k = Inr (dig ns (t + k))"
proof (induction ns t arbitrary: k rule: dig.induct)
  case (2 n ns t)
  have n: "0 < n" using 2 by simp
  have c: "(k + t mod n) smod n = (t + k) mod n" using n 2 by (simp add: smod_pos add.commute mod_simps)
  have "k + t mod n - (t + k) mod n = n * ((t + k) div n - t div n)"
    using mult_div_mod_eq [of n t] mult_div_mod_eq [of n "t + k"] by (simp add: algebra_simps)
  moreover have pos: "0 \<le> (t + k) div n - t div n" using n 2 by (simp add: zdiv_mono1)
  ultimately have d: "(k + t mod n - (t + k) mod n) sdiv n = (t + k) div n - t div n" using sdiv_mult n by metis
  then show ?case using 2 n c d pos by (simp add: Let_def)
qed simp

lemma dig_lin: "length cs = length ns \<Longrightarrow> \<forall>i < length ns. 0 \<le> cs ! i \<and> cs ! i < ns ! i \<Longrightarrow> dig ns (lin ns cs) = cs"
proof (induction ns cs rule: lin.induct)
  case (1 n ns c cs)
  then have c: "0 \<le> c" "c < n" and cs: "\<forall>i < length ns. 0 \<le> cs ! i \<and> cs ! i < ns ! i"
    by (auto simp: nth_Cons split: nat.splits)
  then show ?case using 1 div_mod_unique [OF c, of "lin ns cs"] by simp
qed simp_all

lemma lin_bounds:
  "length cs = length ns \<Longrightarrow> \<forall>i < length ns. 0 \<le> cs ! i \<and> cs ! i < ns ! i \<Longrightarrow> 0 \<le> lin ns cs \<and> lin ns cs < prod_list ns"
proof (induction ns cs rule: lin.induct)
  case (1 n ns c cs)
  then have c: "0 \<le> c" "c < n" and cs: "\<forall>i < length ns. 0 \<le> cs ! i \<and> cs ! i < ns ! i"
    by (auto simp: nth_Cons split: nat.splits)
  then have l: "0 \<le> lin ns cs" "lin ns cs + 1 \<le> prod_list ns" using 1 by auto
  have "n * (lin ns cs + 1) \<le> n * prod_list ns" using l c by (intro mult_left_mono) auto
  then show ?case using c l by (simp add: algebra_simps)
qed simp_all

text \<open>The coordinates of an index.\<close>

definition coord_of :: "int list \<Rightarrow> int \<Rightarrow> int list" where
  "coord_of sh i = rev (dig (rev sh) i)"

lemma coord_of_facts:
  assumes "\<forall>n \<in> set sh. 0 < n" "0 \<le> i"
  shows "getCoord sh i = Inr (coord_of sh i)"
    and "i < prod_list sh \<Longrightarrow> getMemIndexND i sh = Inr (coord_of sh i)"
    and "length (coord_of sh i) = length sh"
    and "d < length sh \<Longrightarrow> 0 \<le> coord_of sh i ! d \<and> coord_of sh i ! d < sh ! d"
    and "getMemIndex1D (coord_of sh i) sh = Inr (i mod prod_list sh)"
    and "increment1Coord (coord_of sh i) sh = Inr (coord_of sh (i + 1))"
    and "0 \<le> k \<Longrightarrow> incrementNCoord (coord_of sh i) sh k = Inr (coord_of sh (i + k))"
proof -
  have pos: "\<forall>n \<in> set (rev sh). 0 < n" using assms by simp
  have prod: "prod_list (rev sh) = prod_list sh" by (simp add: prod_list.rev)
  show "getCoord sh i = Inr (coord_of sh i)" using assms(2) by (simp add: getCoord_def coord_loop_dig [OF pos] coord_of_def)
  show "getMemIndexND i sh = Inr (coord_of sh i)" if "i < prod_list sh"
    using that assms(2) prod by (simp add: getMemIndexND_def split_index_dig [OF pos] coord_of_def)
  show len: "length (coord_of sh i) = length sh" by (simp add: coord_of_def)
  show b: "0 \<le> coord_of sh i ! d \<and> coord_of sh i ! d < sh ! d" if "d < length sh" for d
    using dig_bounds [OF pos, of "length sh - Suc d" i] that by (simp add: coord_of_def rev_nth)
  have "join_index (rev sh) (rev (coord_of sh i)) 0 1 = Inr (0 + 1 * lin (rev sh) (rev (coord_of sh i)))"
    by (rule join_index_lin) (use dig_bounds [OF pos] in \<open>simp_all add: coord_of_def\<close>)
  then show "getMemIndex1D (coord_of sh i) sh = Inr (i mod prod_list sh)"
    by (simp add: getMemIndex1D_def len) (simp add: coord_of_def lin_dig [OF pos] prod)
  have zip1: "rev (map (\<lambda>d. (d, coord_of sh i ! d, sh ! d)) [0..<length sh]) = zip (rev [0..<length sh]) (zip (dig (rev sh) i) (rev sh))"
    using len by (intro nth_equalityI) (simp_all add: rev_nth coord_of_def)
  show "increment1Coord (coord_of sh i) sh = Inr (coord_of sh (i + 1))"
    using inc_loop_dig [OF pos, of "rev [0..<length sh]" i]
    by (simp add: increment1Coord_def increment_skipping_def len zip1) (simp add: coord_of_def)
  have "rev (zip (coord_of sh i) sh) = zip (dig (rev sh) i) (rev sh)"
    using zip_rev [of "coord_of sh i" sh] len by (simp add: coord_of_def)
  then show "incrementNCoord (coord_of sh i) sh k = Inr (coord_of sh (i + k))" if "0 \<le> k"
    using add_loop_dig [OF pos that] by (simp add: incrementNCoord_def len) (simp add: coord_of_def)
qed

text \<open>
  C22. For a shape of positive sizes, the coordinates of a linear index below the number of elements lie in the shape and lead
  back to the index; the coordinates of sections agree with them; conversely coordinates in the shape are those of their linear index; and
  incrementing coordinates by one or by any number gives the coordinates of the index that much further on.
\<close>

theorem memory_index_roundtrip:
  assumes "\<forall>n \<in> set sh. 0 < n" "0 \<le> i" "i < prod_list sh" "0 \<le> k"
    and "length idx = length sh" "\<forall>d < length sh. 0 \<le> idx ! d \<and> idx ! d < sh ! d"
  shows "(\<exists>coord. getMemIndexND i sh = Inr coord \<and> getCoord sh i = Inr coord \<and>
      length coord = length sh \<and> (\<forall>d < length sh. 0 \<le> coord ! d \<and> coord ! d < sh ! d) \<and> getMemIndex1D coord sh = Inr i \<and>
      increment1Coord coord sh = getCoord sh (i + 1) \<and> incrementNCoord coord sh k = getCoord sh (i + k)) \<and>
    (\<exists>j. getMemIndex1D idx sh = Inr j \<and> 0 \<le> j \<and> j < prod_list sh \<and> getMemIndexND j sh = Inr idx)"
proof (intro conjI)
  note c = coord_of_facts [OF assms(1,2)]
  have next1: "getCoord sh (i + 1) = Inr (coord_of sh (i + 1))" "getCoord sh (i + k) = Inr (coord_of sh (i + k))"
    using coord_of_facts(1) [OF assms(1)] assms(2,4) by simp_all
  show "\<exists>coord. getMemIndexND i sh = Inr coord \<and> getCoord sh i = Inr coord \<and>
      length coord = length sh \<and> (\<forall>d < length sh. 0 \<le> coord ! d \<and> coord ! d < sh ! d) \<and> getMemIndex1D coord sh = Inr i \<and>
      increment1Coord coord sh = getCoord sh (i + 1) \<and> incrementNCoord coord sh k = getCoord sh (i + k)"
    using c(1,3,4,6) c(2) [OF assms(3)] c(5) c(7) [OF assms(4)] next1 assms(2,3)
    by (intro exI [of _ "coord_of sh i"] conjI allI impI) simp_all
  let ?j = "lin (rev sh) (rev idx)"
  have b: "\<forall>d < length (rev sh). 0 \<le> rev idx ! d \<and> rev idx ! d < rev sh ! d" using assms(5,6) by (simp add: rev_nth)
  have len: "length (rev idx) = length (rev sh)" using assms(5) by simp
  have "join_index (rev sh) (rev idx) 0 1 = Inr (0 + 1 * ?j)" by (rule join_index_lin [OF len]) (use b in simp)
  then have one: "getMemIndex1D idx sh = Inr ?j" using assms(5) by (simp add: getMemIndex1D_def)
  have j: "0 \<le> ?j" "?j < prod_list sh" using lin_bounds [OF len b] by (simp_all add: prod_list.rev)
  have "coord_of sh ?j = idx" using dig_lin [OF len b] by (simp add: coord_of_def)
  then have "getMemIndexND ?j sh = Inr idx" using coord_of_facts(2) [OF assms(1) j] by simp
  with one j show "\<exists>j. getMemIndex1D idx sh = Inr j \<and> 0 \<le> j \<and> j < prod_list sh \<and> getMemIndexND j sh = Inr idx" by blast
qed

theorem memory_index_roundtrip_witness:
  "(\<exists>coord. getMemIndexND 7 [2, 3, 4] = Inr coord \<and> getMemIndex1D coord [2, 3, 4] = Inr 7 \<and>
      increment1Coord coord [2, 3, 4] = getCoord [2, 3, 4] 8) \<and>
   (\<exists>j. getMemIndex1D [1, 2, 3] [2, 3, 4] = Inr j \<and> getMemIndexND j [2, 3, 4] = Inr [1, 2, 3])"
proof -
  have b: "\<forall>d < length [2, 3, 4 :: int]. 0 \<le> [1, 2, 3 :: int] ! d \<and> [1, 2, 3] ! d < [2, 3, 4 :: int] ! d"
    by (auto simp: nth_Cons split: nat.splits)
  have p: "\<forall>n \<in> set [2, 3, 4 :: int]. 0 < n" "(0 :: int) \<le> 7" "7 < prod_list [2, 3, 4 :: int]" "(0 :: int) \<le> 5"
    "length [1, 2, 3 :: int] = length [2, 3, 4 :: int]"
    by simp_all
  have "\<exists>coord. getMemIndexND 7 [2, 3, 4] = Inr coord \<and> getMemIndex1D coord [2, 3, 4] = Inr 7 \<and>
      increment1Coord coord [2, 3, 4] = getCoord [2, 3, 4] (7 + 1)"
    using memory_index_roundtrip [OF p b] by blast
  moreover have "\<exists>j. getMemIndex1D [1, 2, 3] [2, 3, 4] = Inr j \<and> getMemIndexND j [2, 3, 4] = Inr [1, 2, 3]"
    using memory_index_roundtrip [OF p b] by blast
  ultimately show ?thesis by simp
qed

section \<open>Strides that meet the requirements\<close>

text \<open>What a calculated stride satisfies, with the dimensions counted from \<^verbatim>\<open>d\<close>.\<close>

definition stride_base :: "int \<Rightarrow> int list \<Rightarrow> int list \<Rightarrow> nat \<Rightarrow> int" where
  "stride_base elemSize ns ss i = (if i = length ns - 1 then elemSize else ss ! (i + 1) * ns ! (i + 1))"

definition stride_fits :: "stride_req list \<Rightarrow> int \<Rightarrow> nat \<Rightarrow> int list \<Rightarrow> int list \<Rightarrow> nat \<Rightarrow> bool" where
  "stride_fits reqs elemSize d ns ss i \<longleftrightarrow> elemSize \<le> ss ! i \<and> stride_base elemSize ns ss i \<le> ss ! i \<and>
     (case req_for reqs (d + i) of None \<Rightarrow> True
      | Some r \<Rightarrow> sr_kind r = Compact \<and> ss ! i = stride_base elemSize ns ss i \<or> sr_kind r = Aligned \<and> sr_extraValue r dvd ss ! i)"

definition align_reqs :: "stride_req list \<Rightarrow> bool" where
  "align_reqs reqs \<longleftrightarrow> (\<forall>r \<in> set reqs. sr_kind r \<noteq> Fixed \<and> (sr_kind r = Aligned \<longrightarrow> 0 < sr_extraValue r))"

lemma req_for_in: "req_for reqs d = Some r \<Longrightarrow> r \<in> set reqs \<and> sr_memDim r = d"
  by (auto simp: req_for_def find_Some_iff)

lemma applyStrideReq_fits:
  assumes "align_reqs reqs" "req_for reqs d = Some r" "0 < base"
  obtains s where "applyStrideReq base r = Inr s" "base \<le> s"
    "sr_kind r = Compact \<and> s = base \<or> sr_kind r = Aligned \<and> sr_extraValue r dvd s"
proof (cases "sr_kind r")
  case Compact
  then show thesis using that by (simp add: applyStrideReq_def)
next
  case Aligned
  let ?a = "sr_extraValue r"
  have a: "0 < ?a" using assms Aligned req_for_in [OF assms(2)] by (simp add: align_reqs_def)
  have "base + ?a - 1 - (base + ?a - 1) mod ?a = (base + ?a - 1) div ?a * ?a" by (simp add: minus_mod_eq_div_mult)
  then have "base \<le> (base + ?a - 1) div ?a * ?a" using pos_mod_bound [OF a, of "base + ?a - 1"] by linarith
  then show thesis using Aligned assms(3) a s_alignValUp_pos [OF a, of base]
    by (intro that [of "(base + ?a - 1) div ?a * ?a"]) (simp_all add: applyStrideReq_def)
next
  case Fixed
  then show thesis using assms(1) req_for_in [OF assms(2)] by (simp add: align_reqs_def)
qed

lemma strides_from_fits:
  assumes "align_reqs reqs" "0 < elemSize" "\<forall>n \<in> set ns. 0 < n"
  shows "\<exists>ss. strides_from reqs elemSize d ns = Inr ss \<and> length ss = length ns \<and> (\<forall>i < length ns. stride_fits reqs elemSize d ns ss i)"
  using assms(3)
proof (induction ns arbitrary: d)
  case (Cons n ns)
  then obtain ss where ss: "strides_from reqs elemSize (d + 1) ns = Inr ss" "length ss = length ns"
    "\<forall>i < length ns. stride_fits reqs elemSize (d + 1) ns ss i" using Cons.IH [of "d + 1"] by (elim exE conjE meta_impE) auto
  define base where "base = (if ns = [] then elemSize else hd ss * hd ns)"
  have low: "elemSize \<le> base"
  proof (cases ns)
    case (Cons m ms)
    then have "elemSize \<le> ss ! 0" "0 < m" using ss(3) \<open>\<forall>n \<in> set (n # ns). 0 < n\<close> by (auto simp: stride_fits_def)
    then have "elemSize * 1 \<le> ss ! 0 * m" using assms(2) by (intro mult_mono) auto
    then show ?thesis using Cons ss(2) by (cases ss) (simp_all add: base_def)
  qed (simp add: base_def)
  have "\<exists>s. (case req_for reqs d of None \<Rightarrow> Inr base | Some r \<Rightarrow> applyStrideReq base r) = (Inr s :: int res) \<and> base \<le> s \<and>
      (case req_for reqs d of None \<Rightarrow> True
       | Some r \<Rightarrow> sr_kind r = Compact \<and> s = base \<or> sr_kind r = Aligned \<and> sr_extraValue r dvd s)"
  proof (cases "req_for reqs d")
    case (Some r)
    have "0 < base" using low assms(2) by linarith
    from applyStrideReq_fits [OF assms(1) Some this] obtain s where "applyStrideReq base r = Inr s" "base \<le> s"
      "sr_kind r = Compact \<and> s = base \<or> sr_kind r = Aligned \<and> sr_extraValue r dvd s" .
    then show ?thesis using Some by simp
  qed simp
  then obtain s where s: "(case req_for reqs d of None \<Rightarrow> Inr base | Some r \<Rightarrow> applyStrideReq base r) = (Inr s :: int res)" "base \<le> s"
    "case req_for reqs d of None \<Rightarrow> True | Some r \<Rightarrow> sr_kind r = Compact \<and> s = base \<or> sr_kind r = Aligned \<and> sr_extraValue r dvd s"
    by blast
  have run: "strides_from reqs elemSize d (n # ns) = Inr (s # ss)" unfolding strides_from.simps ss(1) res_bind_simps Let_def base_def [symmetric] s(1) ..
  have b0: "stride_base elemSize (n # ns) (s # ss) 0 = base" using ss(2) by (cases ns; cases ss) (simp_all add: stride_base_def base_def)
  have bS: "stride_base elemSize (n # ns) (s # ss) (Suc i) = stride_base elemSize ns ss i" if "i < length ns" for i
    using that by (auto simp: stride_base_def)
  have "stride_fits reqs elemSize d (n # ns) (s # ss) i" if "i < length (n # ns)" for i
  proof (cases i)
    case 0
    have "elemSize \<le> s" using low s(2) by linarith
    then show ?thesis using s(2,3) unfolding stride_fits_def 0 b0 by (simp split: option.splits)
  next
    case (Suc j)
    then have j: "j < length ns" using that by simp
    then have "stride_fits reqs elemSize (d + 1) ns ss j" using ss(3) by blast
    then show ?thesis unfolding stride_fits_def Suc bS [OF j] nth_Cons_Suc by simp
  qed
  then show ?case using run ss(2) by auto
qed simp

lemma calculated_strides_pass_check:
  assumes "align_reqs reqs" "0 < elemSize" "\<forall>n \<in> set memShape. 0 < n"
  shows "\<exists>ss. calcStrides reqs elemSize memShape = Inr ss \<and> length ss = length memShape \<and> checkStrides reqs ss elemSize memShape = Inr True"
proof -
  obtain ss where ss: "strides_from reqs elemSize 0 memShape = Inr ss" "length ss = length memShape"
    "\<forall>i < length memShape. stride_fits reqs elemSize 0 memShape ss i"
    using strides_from_fits [OF assms, of 0] by blast
  have run: "calcStrides reqs elemSize memShape = Inr ss" using ss(1) assms(3) by (auto simp: calcStrides_def)
  have pos: "0 < ss ! i" if "i < length memShape" for i using ss(3) that assms(2) by (force simp: stride_fits_def)
  have low: "elemSize \<le> ss ! i" if "i < length memShape" for i using ss(3) that by (simp add: stride_fits_def)
  have bound: "check_bound elemSize ss memShape i" if i: "i < length memShape" for i
  proof (cases "i = length memShape - 1")
    case True
    then show ?thesis using low [OF i] by (simp add: check_bound_def)
  next
    case False
    then have j: "i + 1 < length memShape" using i by simp
    have "stride_fits reqs elemSize 0 memShape ss i" using ss(3) i by blast
    then have "ss ! (i + 1) * memShape ! (i + 1) \<le> ss ! i" using False by (simp add: stride_fits_def stride_base_def)
    moreover have "elemSize \<le> ss ! (i + 1)" using ss(3) j by (simp add: stride_fits_def)
    ultimately have "\<not> ss ! i < ss ! (i + 1) * (memShape ! (i + 1) - 1) + elemSize" by (simp add: algebra_simps)
    then show ?thesis using False pos [OF i] by (simp add: check_bound_def)
  qed
  have req: "check_req elemSize ss memShape i r" if i: "i < length memShape" and r: "req_for reqs i = Some r" for i r
  proof -
    have f: "sr_kind r = Compact \<and> ss ! i = stride_base elemSize memShape ss i \<or> sr_kind r = Aligned \<and> sr_extraValue r dvd ss ! i"
      using ss(3) i r by (auto simp: stride_fits_def)
    have "0 < sr_extraValue r" if "sr_kind r = Aligned" using that assms(1) req_for_in [OF r] by (simp add: align_reqs_def)
    then show ?thesis using f pos [OF i] by (auto simp: check_req_def stride_base_def smod_pos split: stride_req_kind.split)
  qed
  have "\<not> (\<exists>s \<in> set ss. s < 0)" using pos ss(2) by (auto simp: in_set_conv_nth) (metis less_asym)
  moreover have "\<not> (\<exists>n \<in> set memShape. n < 0)" using assms(3) by (auto simp: less_asym)
  moreover have "\<forall>i \<in> {0..<length memShape}. check_bound elemSize ss memShape i \<and>
      (case req_for reqs i of None \<Rightarrow> True | Some r \<Rightarrow> check_req elemSize ss memShape i r)"
    using bound req by (auto split: option.split)
  ultimately have "checkStrides reqs ss elemSize memShape = Inr True" using ss(2) by (simp add: checkStrides_def)
  with run ss(2) show ?thesis by blast
qed

section \<open>Joining requirements\<close>

lemma add_req_has: "add_req r m = Inr m' \<Longrightarrow> hasReqFor m' (sr_memDim r) \<and> (\<forall>d. hasReqFor m d \<longrightarrow> hasReqFor m' d)"
  by (auto simp: add_req_def hasReqFor_def req_for_def find_None_iff split: if_splits)

lemma join_adds_all:
  assumes "\<And>r m m'. f r m = Inr m' \<Longrightarrow> hasReqFor m' (sr_memDim r) \<and> (\<forall>d. hasReqFor m d \<longrightarrow> hasReqFor m' d)"
  shows "res_fold f rs m = Inr m' \<Longrightarrow> (\<forall>r \<in> set rs. hasReqFor m' (sr_memDim r)) \<and> (\<forall>d. hasReqFor m d \<longrightarrow> hasReqFor m' d)"
proof (induction rs arbitrary: m)
  case (Cons r rs)
  then obtain m1 where "f r m = Inr m1" "res_fold f rs m1 = Inr m'" by (auto simp: res_bind_eq_Inr)
  with Cons.IH assms show ?case by auto
qed simp

text \<open>
  C37. Joining two lists of requirements fails whenever they have a dimension in common: the first loop merges the two
  requirements of the dimension, and the second loop merges them once more and adds the result to a list that has it.
\<close>

theorem join_of_common_requirement_fails:
  assumes "cur \<in> set reqs" "other \<in> set others" "sr_memDim other = sr_memDim cur"
  shows "\<exists>e. join_reqs reqs others elemSize memShape = Inl e"
proof -
  let ?f = "\<lambda>cur merged. case req_for others (sr_memDim cur) of Some other \<Rightarrow> merge_req cur other merged | None \<Rightarrow> add_req cur merged"
  let ?g = "\<lambda>other merged. case req_for reqs (sr_memDim other) of Some cur \<Rightarrow> merge_req cur other merged | None \<Rightarrow> add_req other merged"
  have merge: "hasReqFor m' (sr_memDim c) \<and> (\<forall>d. hasReqFor m d \<longrightarrow> hasReqFor m' d)"
    if "merge_req c t m = Inr m'" "sr_memDim t = sr_memDim c" for c t m m'
    using that add_req_has [of c m m'] add_req_has [of t m m'] by (auto simp: merge_req_def split: if_splits)
  have f: "hasReqFor m' (sr_memDim r) \<and> (\<forall>d. hasReqFor m d \<longrightarrow> hasReqFor m' d)" if "?f r m = Inr m'" for r m m'
    using that add_req_has [of r m m'] merge [of r _ m m'] req_for_in by (fastforce split: option.splits)
  have g: "\<exists>e. ?g other m = Inl e" if m: "hasReqFor m (sr_memDim cur)" for m
  proof -
    obtain c where c: "req_for reqs (sr_memDim other) = Some c"
      using assms(1,3) by (cases "req_for reqs (sr_memDim other)") (auto simp: req_for_def find_None_iff)
    then have "sr_memDim c = sr_memDim cur" using req_for_in assms(3) by metis
    then show ?thesis using c m assms(3) by (auto simp: merge_req_def add_req_def)
  qed
  have g': "\<forall>d. hasReqFor m d \<longrightarrow> hasReqFor m' d" if "?g r m = Inr m'" for r m m'
    using that add_req_has [of r m m'] merge [of _ r m m'] req_for_in by (fastforce split: option.splits)
  have fails: "\<exists>e. res_fold ?g ts m = Inl e" if "other \<in> set ts" "hasReqFor m (sr_memDim cur)" for ts m
    using that
  proof (induction ts arbitrary: m)
    case (Cons t ts)
    show ?case
    proof (cases "t = other")
      case True
      then show ?thesis using g [OF Cons.prems(2)] by auto
    next
      case False
      then show ?thesis using Cons g' [of t m] by (cases "?g t m") auto
    qed
  qed simp
  show ?thesis
  proof (cases "res_fold ?f reqs []")
    case (Inr merged)
    then have "hasReqFor merged (sr_memDim cur)" using join_adds_all [of ?f, OF f Inr] assms(1) by blast
    from fails [OF assms(2) this] obtain e where "res_fold ?g others merged = Inl e" by blast
    then show ?thesis using Inr by (simp add: join_reqs_def)
  qed (simp add: join_reqs_def)
qed

theorem join_of_common_requirement_fails_witness:
  "\<exists>e. join_reqs [\<lparr>sr_memDim = 0, sr_kind = Compact, sr_extraValue = 0\<rparr>] [\<lparr>sr_memDim = 0, sr_kind = Compact, sr_extraValue = 0\<rparr>] 8 [4] = Inl e"
  by (rule join_of_common_requirement_fails) simp_all

end
