(* ===== verification/Permute.thy ===== *)
theory Permute
  imports Mem_Layout
begin

text \<open>
  Permutations of tensors in memory, \<^verbatim>\<open>src/utils/permute_utils.cpp\<close> and
  \<^verbatim>\<open>include/vpux/compiler/utils/permute_utils.hpp\<close>.  An affine map is the list of the positions of its results.
\<close>

section \<open>Trivial permutations\<close>

text \<open>The input dimensions, in the order of the output, that are not of size one.\<close>

definition nontrivial_perm :: "int list \<Rightarrow> nat list \<Rightarrow> nat list res" where
  "nontrivial_perm inShape memPerm =
     res_bind (fromAffineMap memPerm) (\<lambda>perm.
     if length inShape \<noteq> numDims perm then Inl (Vpux_Throw ''Permutation is not compatible with shape'')
     else res_fold (\<lambda>ind ds. res_bind (dimAt perm ind) (\<lambda>inDim. res_bind (vec_at inShape inDim) (\<lambda>n.
       Inr (if n = 1 then ds else ds @ [inDim])))) [0..<length inShape] [])"

definition isTrivialPermute :: "int list \<Rightarrow> nat list \<Rightarrow> bool res" where
  "isTrivialPermute inShape memPerm = map_sum id (\<lambda>ds. list_all (\<lambda>i. \<not> ds ! i < ds ! (i - 1)) [1..<length ds]) (nontrivial_perm inShape memPerm)"

definition getPermutateDims :: "int list \<Rightarrow> nat list \<Rightarrow> nat list res" where
  "getPermutateDims inShape memPerm = map_sum id (\<lambda>ds. if list_ex (\<lambda>i. ds ! i > ds ! (i - 1)) [1..<length ds] then [] else ds)
     (nontrivial_perm inShape memPerm)"

definition isTrivialReorder :: "dims_order \<Rightarrow> dims_order \<Rightarrow> int list \<Rightarrow> bool res" where
  "isTrivialReorder inOrder outOrder sh =
     (let inPerm = toPermutation inOrder; outPerm = toPermutation outOrder in
      if list_all (\<lambda>d. d < length sh) (inPerm @ outPerm)
      then Inr (filter (\<lambda>d. sh ! d \<noteq> 1) inPerm = filter (\<lambda>d. sh ! d \<noteq> 1) outPerm) else Inl Assertion_Failure)"

section \<open>Combining orders\<close>

text \<open>The result has as many places as the input order has dimensions, all zero to begin with.\<close>

definition getPermutationFromOrders :: "dims_order \<Rightarrow> dims_order \<Rightarrow> nat list res" where
  "getPermutationFromOrders inOrder outOrder =
     (let outPerm = toPermutation outOrder in
      res_fold (\<lambda>i memPerm. res_bind (dimPos inOrder (outPerm ! i)) (vec_set memPerm i)) [0..<length outPerm]
        (replicate (length (toPermutation inOrder)) 0))"

fun dims_at :: "dims_order \<Rightarrow> nat list \<Rightarrow> nat list res" where
  "dims_at order [] = Inr []"
| "dims_at order (d # ds) = res_bind (dimAt order d) (\<lambda>x. map_sum id ((#) x) (dims_at order ds))"

definition applyPermutation :: "dims_order \<Rightarrow> dims_order \<Rightarrow> dims_order res" where
  "applyPermutation srcOrder dstOrder = res_bind (dims_at srcOrder (toPermutation dstOrder)) fromPermutation"

definition moveD0ToTheFront :: "dims_order \<Rightarrow> dims_order res" where
  "moveD0ToTheFront inOrder = fromPermutation (0 # filter (\<lambda>d. d \<noteq> 0) (toPermutation inOrder))"

definition applyPerm :: "'a list \<Rightarrow> nat list \<Rightarrow> 'a list res" where
  "applyPerm memShape memPerm =
     res_bind (fromAffineMap memPerm) (\<lambda>perm.
     if length memShape \<noteq> numDims perm then Inl (Vpux_Throw ''Permutation is not compatible with shape'')
     else res_fold (\<lambda>ind out. res_bind (dimAt perm ind) (\<lambda>inDim. map_sum id (\<lambda>x. out @ [x]) (vec_at memShape inDim))) [0..<length memShape] [])"

definition inferDimAfterPermutation :: "nat \<Rightarrow> dims_order \<Rightarrow> dims_order \<Rightarrow> nat list \<Rightarrow> nat res" where
  "inferDimAfterPermutation d srcOrder dstOrder perm =
     res_bind (dimPos srcOrder d) (\<lambda>srcMemDim. res_bind (fromAffineMap perm) (\<lambda>order.
     res_bind (dimPos order srcMemDim) (\<lambda>dstDimPos. dimAt dstOrder dstDimPos)))"

section \<open>Merging dimensions\<close>

text \<open>Each entry becomes its rank among the entries, equal ones the rank of the first.\<close>

definition normalizePermutation :: "nat list \<Rightarrow> nat list" where
  "normalizePermutation vec = map (\<lambda>v. length (filter (\<lambda>w. w < v) vec)) vec"

text \<open>The inner loop takes in dimensions that follow each other while the rank is not yet below the one wanted.\<close>

fun merge_run :: "nat list \<Rightarrow> int list \<Rightarrow> int \<Rightarrow> nat \<Rightarrow> int \<Rightarrow> int \<Rightarrow> nat list \<times> int \<times> int" where
  "merge_run [] shapeVec rank prev dimSize remainingRank = ([], dimSize, remainingRank)"
| "merge_run (p # ps) shapeVec rank prev dimSize remainingRank =
     (if prev + 1 = p \<and> \<not> remainingRank < rank
      then merge_run ps shapeVec rank p (dimSize * shapeVec ! p) (remainingRank - 1)
      else (p # ps, dimSize, remainingRank))"

lemma merge_run_shorter: "merge_run ps sh rank prev ds rr = (qs, ds', rr') \<Longrightarrow> length qs \<le> length ps"
  by (induction ps sh rank prev ds rr rule: merge_run.induct) (auto split: if_splits)

function merge_runs :: "nat list \<Rightarrow> int list \<Rightarrow> int \<Rightarrow> int \<Rightarrow> (nat \<times> int) list" where
  "merge_runs [] shapeVec rank remainingRank = []"
| "merge_runs (p # ps) shapeVec rank remainingRank =
     (case merge_run ps shapeVec rank p (shapeVec ! p) remainingRank of (qs, dimSize, remainingRank') \<Rightarrow>
        (p, dimSize) # merge_runs qs shapeVec rank remainingRank')"
  by pat_completeness auto
termination
  by (relation "measure (\<lambda>(ps, _). length ps)") (auto dest!: sym [of "(_, _, _)"] dest: merge_run_shorter)

definition getMergedPermutationAndShape :: "int list \<Rightarrow> nat list \<Rightarrow> int \<Rightarrow> (nat list \<times> int list) res" where
  "getMergedPermutationAndShape memShape permutation rank =
     res_bind (fromAffineMap permutation) (\<lambda>order.
     let origPermVec = toPermutation order in
     if \<not> list_all (\<lambda>d. d < length memShape) origPermVec then Inl Assertion_Failure
     else let permVec = normalizePermutation (filter (\<lambda>d. memShape ! d \<noteq> 1) origPermVec);
              shapeVec = filter (\<lambda>n. n \<noteq> 1) memShape
     in if int (length shapeVec) < rank then Inr (permVec, shapeVec)
     else if \<not> list_all (\<lambda>d. d < length shapeVec) permVec then Inl Assertion_Failure
     else let merged = merge_runs permVec shapeVec rank (int (length permVec)) in
       Inr (normalizePermutation (map fst merged), map snd (sort_key fst merged)))"

definition extendPermutationAndShape :: "nat list \<Rightarrow> int list \<Rightarrow> nat \<Rightarrow> (nat list \<times> int list) res" where
  "extendPermutationAndShape permutation sh targetRank =
     (if targetRank = 4 \<and> length sh = 2 then Inr ([0, 3, 2, 1], [1, sh ! 0, 1, sh ! 1])
      else if int targetRank - int (length permutation) > 0 then
        (let padSize = targetRank - length permutation in
         if length sh < length permutation then Inl Assertion_Failure
         else Inr (map (\<lambda>i. if i < padSize then i else permutation ! (i - padSize) + padSize) [0..<targetRank],
                   map (\<lambda>i. if i < padSize then 1 else sh ! (i - padSize)) [0..<targetRank]))
      else Inr (permutation, sh))"

section \<open>Casting one order to another\<close>

text \<open>Both shapes have the same sizes, whatever their order; then each output size takes the first input dimension of that size not yet taken.\<close>

fun same_sizes :: "int list \<Rightarrow> int list \<Rightarrow> bool" where
  "same_sizes [] outs = True"
| "same_sizes (n # ns) outs = (n \<in> set outs \<and> same_sizes ns (remove1 n outs))"

definition match_dims :: "int list \<Rightarrow> int list \<Rightarrow> nat list" where
  "match_dims inMemShape outMemShape = fold (\<lambda>n perm.
     case find (\<lambda>i. inMemShape ! i = n \<and> i \<notin> set perm) [0..<length inMemShape] of None \<Rightarrow> perm | Some i \<Rightarrow> perm @ [i]) outMemShape []"

definition tryToFindPermutationForPermuteCast :: "int list \<Rightarrow> dims_order \<Rightarrow> int list \<Rightarrow> nat list option res" where
  "tryToFindPermutationForPermuteCast inMemShape outOrder outShape =
     res_bind (toMemoryOrder outOrder outShape) (\<lambda>outMemShape.
     if length inMemShape \<noteq> length outMemShape \<or> \<not> same_sizes inMemShape outMemShape then Inr None
     else let permutation = match_dims inMemShape outMemShape in
       if length permutation \<noteq> length inMemShape then Inr None
       else res_bind (isTrivialPermute inMemShape permutation) (\<lambda>trivial.
         if \<not> trivial then Inr None
         else res_bind (applyPerm inMemShape permutation) (\<lambda>permuted.
           Inr (if permuted \<noteq> outMemShape then None else Some permutation))))"

section \<open>Permutations that move nothing\<close>

definition is_perm :: "nat list \<Rightarrow> bool" where
  "is_perm perm \<longleftrightarrow> distinct perm \<and> set perm = {..<length perm} \<and> length perm \<le> 15"

lemma fromAffineMap_perm:
  assumes "is_perm perm"
  shows "fromAffineMap perm = Inr (mk_order (enc (map Suc perm)))" and "numDims (mk_order (enc (map Suc perm))) = length perm"
    and "i < length perm \<Longrightarrow> dimAt (mk_order (enc (map Suc perm))) i = Inr (perm ! i)"
proof -
  have p: "distinct perm" "\<forall>d \<in> set perm. d < length perm" "length perm \<le> 15" "\<forall>d \<in> set perm. d < 15"
    using assms by (auto simp: is_perm_def)
  show "fromAffineMap perm = Inr (mk_order (enc (map Suc perm)))" using p fromPermutation_eq [OF p(1-3)] by (simp add: fromAffineMap_def)
  show "numDims (mk_order (enc (map Suc perm))) = length perm" by (rule order_of_perm(1) [OF p(1,4,3)])
  show "i < length perm \<Longrightarrow> dimAt (mk_order (enc (map Suc perm))) i = Inr (perm ! i)" by (rule order_of_perm(3) [OF p(1,4,3)])
qed

lemma nontrivial_perm_filter:
  assumes "is_perm perm" "length perm = length sh"
  shows "nontrivial_perm sh perm = Inr (filter (\<lambda>d. sh ! d \<noteq> 1) perm)"
proof -
  note f = fromAffineMap_perm [OF assms(1)]
  have lt: "perm ! i < length sh" if "i < length sh" for i using assms that nth_mem [of i perm] by (auto simp: is_perm_def)
  have "res_fold (\<lambda>ind ds. res_bind (dimAt (mk_order (enc (map Suc perm))) ind) (\<lambda>inDim. res_bind (vec_at sh inDim) (\<lambda>n.
       Inr (if n = 1 then ds else ds @ [inDim])))) [0..<k] [] = Inr (filter (\<lambda>d. sh ! d \<noteq> 1) (take k perm))" if "k \<le> length sh" for k
    using that
  proof (induction k)
    case (Suc k)
    then show ?case using f(3) [of k] lt [of k] assms(2) by (simp add: res_fold_append vec_at_in take_Suc_conv_app_nth)
  qed simp
  from this [of "length sh"] show ?thesis using f(1,2) assms(2) by (simp add: nontrivial_perm_def)
qed

lemma applyPerm_map:
  assumes "is_perm perm" "length perm = length xs"
  shows "applyPerm xs perm = Inr (map ((!) xs) perm)"
proof -
  note f = fromAffineMap_perm [OF assms(1)]
  have lt: "perm ! i < length xs" if "i < length xs" for i using assms that nth_mem [of i perm] by (auto simp: is_perm_def)
  have "res_fold (\<lambda>ind out. res_bind (dimAt (mk_order (enc (map Suc perm))) ind) (\<lambda>inDim. map_sum id (\<lambda>x. out @ [x]) (vec_at xs inDim))) [0..<k] []
      = Inr (map ((!) xs) (take k perm))" if "k \<le> length xs" for k
    using that
  proof (induction k)
    case (Suc k)
    then show ?case using f(3) [of k] lt [of k] assms(2) by (simp add: res_fold_append vec_at_in take_Suc_conv_app_nth)
  qed simp
  from this [of "length xs"] show ?thesis using f(1,2) assms(2) by (simp add: applyPerm_def)
qed

text \<open>The linear index, from the major end, with the dimensions in a given order.\<close>

definition place :: "int list \<Rightarrow> int list \<Rightarrow> nat list \<Rightarrow> int" where
  "place sh idx ds = foldl (\<lambda>a d. a * sh ! d + idx ! d) 0 ds"

lemma place_simps [simp]: "place sh idx [] = 0" "place sh idx (ds @ [d]) = place sh idx ds * sh ! d + idx ! d"
  by (simp_all add: place_def)

lemma lin_place: "lin (rev (map ((!) sh) ds)) (rev (map ((!) idx) ds)) = place sh idx ds"
  by (induction ds rule: rev_induct) (simp_all add: algebra_simps)

lemma index_place:
  assumes "\<forall>d \<in> set ds. idx ! d < sh ! d"
  shows "getMemIndex1D (map ((!) idx) ds) (map ((!) sh) ds) = Inr (place sh idx ds)"
proof -
  have "join_index (rev (map ((!) sh) ds)) (rev (map ((!) idx) ds)) 0 1 =
      Inr (0 + 1 * lin (rev (map ((!) sh) ds)) (rev (map ((!) idx) ds)))"
    by (rule join_index_lin) (use assms in \<open>auto simp: rev_nth\<close>)
  then show ?thesis by (simp add: getMemIndex1D_def lin_place)
qed

lemma place_filter:
  "\<forall>d \<in> set ds. sh ! d = 1 \<longrightarrow> idx ! d = 0 \<Longrightarrow> place sh idx ds = place sh idx (filter (\<lambda>d. sh ! d \<noteq> 1) ds)"
  by (induction ds rule: rev_induct) simp_all

text \<open>The place of a unit vector is the stride of its dimension.\<close>

definition unit_at :: "nat \<Rightarrow> nat \<Rightarrow> int list" where
  "unit_at n x = (replicate n 0)[x := 1]"

lemma place_zero: "\<forall>d \<in> set ds. idx ! d = 0 \<Longrightarrow> place sh idx ds = 0"
  by (induction ds rule: rev_induct) simp_all

lemma place_unit:
  assumes "distinct (xs @ x # ys)" "\<forall>d \<in> set (xs @ x # ys). d < n"
  shows "place sh (unit_at n x) (xs @ x # ys) = prod_list (map ((!) sh) ys)"
  using assms
proof (induction ys rule: rev_induct)
  case Nil
  then have "place sh (unit_at n x) xs = 0" by (intro place_zero) (auto simp: unit_at_def nth_list_update)
  then show ?case using Nil by (simp add: unit_at_def)
next
  case (snoc y ys)
  have "unit_at n x ! y = 0" using snoc.prems by (auto simp: unit_at_def nth_list_update)
  moreover have "place sh (unit_at n x) (xs @ x # ys) = prod_list (map ((!) sh) ys)" using snoc by simp
  ultimately show ?case using place_simps(2) [of sh "unit_at n x" "xs @ x # ys" y] by simp
qed

lemma prod_list_pos: "\<forall>d \<in> set ds. 0 < sh ! d \<Longrightarrow> 0 < prod_list (map ((!) sh) ds :: int list)"
  by (rule prod_pos) simp

text \<open>Of two dimensions larger than one, the earlier one has the larger stride.\<close>

lemma strides_decrease:
  assumes "distinct (xs @ a # ys @ b # zs)" "\<forall>d \<in> set (xs @ a # ys @ b # zs). d < n \<and> 0 < sh ! d" "1 < sh ! b"
  shows "place sh (unit_at n b) (xs @ a # ys @ b # zs) < place sh (unit_at n a) (xs @ a # ys @ b # zs)"
proof -
  have "place sh (unit_at n b) ((xs @ a # ys) @ b # zs) = prod_list (map ((!) sh) zs)"
    by (rule place_unit) (use assms in auto)
  then have pb: "place sh (unit_at n b) (xs @ a # ys @ b # zs) = prod_list (map ((!) sh) zs)" by simp
  have pa: "place sh (unit_at n a) (xs @ a # (ys @ b # zs)) = prod_list (map ((!) sh) (ys @ b # zs))"
    by (rule place_unit) (use assms in auto)
  have pos: "0 < prod_list (map ((!) sh) zs)" "0 < prod_list (map ((!) sh) ys)" using assms by (auto intro!: prod_list_pos)
  have "prod_list (map ((!) sh) zs) < sh ! b * prod_list (map ((!) sh) zs)" using pos assms(3) by simp
  also have "\<dots> \<le> prod_list (map ((!) sh) ys) * (sh ! b * prod_list (map ((!) sh) zs))"
    using mult_right_mono [of 1 "prod_list (map ((!) sh) ys)" "sh ! b * prod_list (map ((!) sh) zs)"] pos assms(3)
      mult_pos_pos [of "sh ! b" "prod_list (map ((!) sh) zs)"] by simp
  finally show ?thesis unfolding pb pa by simp
qed

text \<open>The index of permuted coordinates in the permuted shape is the place with the dimensions in the order of the permutation.\<close>

lemma permuted_index:
  assumes "is_perm perm" "length perm = length sh" "length idx = length sh" "\<forall>d < length sh. idx ! d < sh ! d"
  shows "getMemIndex1D idx sh = Inr (place sh idx [0..<length sh])"
    and "getMemIndex1D (map ((!) idx) perm) (map ((!) sh) perm) = Inr (place sh idx perm)"
proof -
  have "getMemIndex1D (map ((!) idx) [0..<length idx]) (map ((!) sh) [0..<length sh]) = Inr (place sh idx [0..<length sh])"
    unfolding assms(3) by (rule index_place) (use assms in simp)
  then show "getMemIndex1D idx sh = Inr (place sh idx [0..<length sh])" by (simp only: map_nth)
  show "getMemIndex1D (map ((!) idx) perm) (map ((!) sh) perm) = Inr (place sh idx perm)"
    by (rule index_place) (use assms in \<open>auto simp: is_perm_def\<close>)
qed

lemma unsorted_pair: "\<not> sorted ds \<Longrightarrow> \<exists>xs p ys q zs. ds = xs @ p # ys @ q # zs \<and> q < (p :: nat)"
proof (induction ds)
  case (Cons x ds)
  show ?case
  proof (cases "sorted ds")
    case True
    then obtain y where "y \<in> set ds" "y < x" using Cons.prems by (auto simp: not_le)
    then obtain ys zs where "ds = ys @ y # zs" by (meson split_list)
    with \<open>y < x\<close> have "x # ds = [] @ x # ys @ y # zs \<and> y < x" by simp
    then show ?thesis by blast
  next
    case False
    with Cons.IH obtain xs p ys q zs where "ds = xs @ p # ys @ q # zs" "q < p" by blast
    then have "x # ds = (x # xs) @ p # ys @ q # zs \<and> q < p" by simp
    then show ?thesis by blast
  qed
qed simp

lemma upt_pair: "q < p \<Longrightarrow> p < n \<Longrightarrow> [0..<n] = [0..<q] @ q # [Suc q..<p] @ p # [Suc p..<n]"
  by (rule sorted_distinct_set_unique) (auto simp: sorted_append)

lemma isTrivialPermute_sorted:
  assumes "is_perm perm" "length perm = length sh"
  shows "isTrivialPermute sh perm = Inr (sorted (filter (\<lambda>d. sh ! d \<noteq> 1) perm))"
proof -
  have "list_all (\<lambda>i. \<not> ds ! i < ds ! (i - 1)) [1..<length ds] \<longleftrightarrow> sorted ds" for ds :: "nat list"
  proof -
    have "sorted ds \<longleftrightarrow> (\<forall>i. Suc i < length ds \<longrightarrow> \<not> ds ! Suc i < ds ! i)" by (simp add: sorted_iff_nth_Suc not_less)
    also have "\<dots> \<longleftrightarrow> (\<forall>i \<in> {1..<length ds}. \<not> ds ! i < ds ! (i - 1))"
    proof (intro iffI ballI allI impI)
      fix i assume "\<forall>i. Suc i < length ds \<longrightarrow> \<not> ds ! Suc i < ds ! i" "i \<in> {1..<length ds}"
      then show "\<not> ds ! i < ds ! (i - 1)" by (cases i) auto
    next
      fix i assume "\<forall>i \<in> {1..<length ds}. \<not> ds ! i < ds ! (i - 1)" "Suc i < length ds"
      then show "\<not> ds ! Suc i < ds ! i" by (auto dest!: bspec [of _ _ "Suc i"])
    qed
    finally show ?thesis by (simp only: list_all_iff set_upt)
  qed
  then show ?thesis using nontrivial_perm_filter [OF assms] by (simp add: isTrivialPermute_def)
qed

lemma unit_place_filter:
  "set ds \<subseteq> {..<n} \<Longrightarrow> x < n \<Longrightarrow> sh ! x \<noteq> 1 \<Longrightarrow> place sh (unit_at n x) ds = place sh (unit_at n x) (filter (\<lambda>d. sh ! d \<noteq> 1) ds)"
  by (rule place_filter) (auto simp: unit_at_def nth_list_update)

lemma set_upt_eq: "set [0..<n] = {..<n}"
  by auto

text \<open>An inversion among the dimensions larger than one moves a unit vector.\<close>

lemma inversion_moves:
  assumes "is_perm perm" "length perm = length sh" "\<forall>n \<in> set sh. 0 < n" "\<not> sorted (filter (\<lambda>d. sh ! d \<noteq> 1) perm)"
  obtains x where "x < length sh" "1 < sh ! x" "place sh (unit_at (length sh) x) perm \<noteq> place sh (unit_at (length sh) x) [0..<length sh]"
proof -
  let ?n = "length sh" and ?P = "\<lambda>d. sh ! d \<noteq> 1"
  have perm: "distinct perm" "set perm = {..<?n}" using assms(1,2) by (auto simp: is_perm_def)
  from unsorted_pair [OF assms(4)] obtain xs p ys q zs where f: "filter ?P perm = xs @ p # ys @ q # zs" and "q < p" by blast
  have in_f: "d < ?n \<and> 0 < sh ! d \<and> ?P d" if "d \<in> set (xs @ p # ys @ q # zs)" for d
    using that assms(3) perm(2) unfolding f [symmetric] by auto
  have pq: "p < ?n" "q < ?n" "1 < sh ! p" "1 < sh ! q" using in_f [of p] in_f [of q] by auto
  have g: "filter ?P [0..<?n] = filter ?P [0..<q] @ q # filter ?P [Suc q..<p] @ p # filter ?P [Suc p..<?n]" (is "_ = ?g")
    unfolding upt_pair [OF \<open>q < p\<close> pq(1)] using pq by simp
  have units: "place sh (unit_at ?n x) ds = place sh (unit_at ?n x) (filter ?P ds)" if "x < ?n" "1 < sh ! x" "set ds = {..<?n}" for x ds
    using that by (intro unit_place_filter equalityD1) simp_all
  have "distinct ?g" unfolding g [symmetric] by (rule distinct_filter [OF distinct_upt])
  moreover have "\<forall>d \<in> set ?g. d < ?n \<and> 0 < sh ! d" unfolding g [symmetric] using assms(3) by simp
  ultimately have "place sh (unit_at ?n p) ?g < place sh (unit_at ?n q) ?g" using pq(3) by (rule strides_decrease)
  then have natural: "place sh (unit_at ?n p) [0..<?n] < place sh (unit_at ?n q) [0..<?n]"
    unfolding g [symmetric]
    by (simp only: units [OF pq(1,3) set_upt_eq] units [OF pq(2,4) set_upt_eq])
  have "distinct (xs @ p # ys @ q # zs)" unfolding f [symmetric] using perm(1) by (rule distinct_filter)
  moreover have "\<forall>d \<in> set (xs @ p # ys @ q # zs). d < ?n \<and> 0 < sh ! d" using in_f by blast
  ultimately have "place sh (unit_at ?n q) (xs @ p # ys @ q # zs) < place sh (unit_at ?n p) (xs @ p # ys @ q # zs)"
    using pq(4) by (rule strides_decrease)
  then have permuted: "place sh (unit_at ?n q) perm < place sh (unit_at ?n p) perm"
    unfolding f [symmetric]
    by (simp only: units [OF pq(1,3) perm(2)] units [OF pq(2,4) perm(2)])
  show thesis
  proof (cases "place sh (unit_at ?n p) perm = place sh (unit_at ?n p) [0..<?n]")
    case True
    with natural permuted show thesis using that [of q] pq by simp
  qed (use that [of p] pq in simp)
qed

text \<open>
  C23. A permutation of a shape of positive sizes is found trivial exactly when it moves nothing in memory: every
  element has the same linear index before and after, in the shape and in the permuted shape.
\<close>

theorem trivial_permute_keeps_memory:
  assumes "is_perm perm" "length perm = length sh" "\<forall>n \<in> set sh. 0 < n"
  shows "isTrivialPermute sh perm = Inr True \<longleftrightarrow>
    (\<forall>idx. length idx = length sh \<and> (\<forall>d < length sh. 0 \<le> idx ! d \<and> idx ! d < sh ! d) \<longrightarrow>
      (\<exists>psh pidx j. applyPerm sh perm = Inr psh \<and> applyPerm idx perm = Inr pidx \<and>
        getMemIndex1D idx sh = Inr j \<and> getMemIndex1D pidx psh = Inr j))"
proof
  let ?P = "\<lambda>d. sh ! d \<noteq> 1"
  have perm: "distinct perm" "set perm = {..<length sh}" using assms(1,2) by (auto simp: is_perm_def)
  assume "isTrivialPermute sh perm = Inr True"
  then have "sorted (filter ?P perm)" using isTrivialPermute_sorted [OF assms(1,2)] by simp
  moreover have "sorted (filter ?P [0..<length sh])" by (rule sorted_wrt_filter) simp
  ultimately have same: "filter ?P perm = filter ?P [0..<length sh]"
    using perm by (intro sorted_distinct_set_unique) auto
  show "\<forall>idx. length idx = length sh \<and> (\<forall>d < length sh. 0 \<le> idx ! d \<and> idx ! d < sh ! d) \<longrightarrow>
      (\<exists>psh pidx j. applyPerm sh perm = Inr psh \<and> applyPerm idx perm = Inr pidx \<and>
        getMemIndex1D idx sh = Inr j \<and> getMemIndex1D pidx psh = Inr j)"
  proof (intro allI impI, elim conjE)
    fix idx :: "int list"
    assume idx: "length idx = length sh" "\<forall>d < length sh. 0 \<le> idx ! d \<and> idx ! d < sh ! d"
    have zero: "sh ! d = 1 \<longrightarrow> idx ! d = 0" if "d < length sh" for d using idx(2) that by fastforce
    have "place sh idx perm = place sh idx [0..<length sh]"
      using place_filter [of perm sh idx] place_filter [of "[0..<length sh]" sh idx] zero perm(2) by (simp add: same)
    then show "\<exists>psh pidx j. applyPerm sh perm = Inr psh \<and> applyPerm idx perm = Inr pidx \<and>
        getMemIndex1D idx sh = Inr j \<and> getMemIndex1D pidx psh = Inr j"
      using permuted_index [OF assms(1,2) idx(1)] applyPerm_map [OF assms(1,2)] applyPerm_map [OF assms(1), of idx] assms(2) idx by simp
  qed
next
  assume keeps: "\<forall>idx. length idx = length sh \<and> (\<forall>d < length sh. 0 \<le> idx ! d \<and> idx ! d < sh ! d) \<longrightarrow>
      (\<exists>psh pidx j. applyPerm sh perm = Inr psh \<and> applyPerm idx perm = Inr pidx \<and>
        getMemIndex1D idx sh = Inr j \<and> getMemIndex1D pidx psh = Inr j)"
  have "sorted (filter (\<lambda>d. sh ! d \<noteq> 1) perm)"
  proof (rule ccontr)
    assume "\<not> sorted (filter (\<lambda>d. sh ! d \<noteq> 1) perm)"
    with inversion_moves [OF assms] obtain x where x: "x < length sh" "1 < sh ! x"
      and moved: "place sh (unit_at (length sh) x) perm \<noteq> place sh (unit_at (length sh) x) [0..<length sh]" by blast
    let ?idx = "unit_at (length sh) x"
    have idx: "length ?idx = length sh" "\<forall>d < length sh. 0 \<le> ?idx ! d \<and> ?idx ! d < sh ! d"
      using x assms(3) by (auto simp: unit_at_def nth_list_update)
    with keeps have "\<exists>psh pidx j. applyPerm sh perm = Inr psh \<and> applyPerm ?idx perm = Inr pidx \<and>
        getMemIndex1D ?idx sh = Inr j \<and> getMemIndex1D pidx psh = Inr j" by blast
    with moved show False
      using permuted_index [OF assms(1,2) idx(1)] applyPerm_map [OF assms(1,2)] applyPerm_map [OF assms(1), of ?idx] assms(2) idx by simp
  qed
  then show "isTrivialPermute sh perm = Inr True" using isTrivialPermute_sorted [OF assms(1,2)] by simp
qed

theorem trivial_permute_keeps_memory_witness:
  "(\<exists>psh pidx j. applyPerm [1, 3, 1, 4 :: int] [0, 2, 1, 3] = Inr psh \<and> applyPerm [0, 2, 0, 3 :: int] [0, 2, 1, 3] = Inr pidx \<and>
    getMemIndex1D [0, 2, 0, 3] [1, 3, 1, 4] = Inr j \<and> getMemIndex1D pidx psh = Inr j)"
proof -
  have p: "is_perm [0, 2, 1, 3]" by (auto simp: is_perm_def)
  have "isTrivialPermute [1, 3, 1, 4] [0, 2, 1, 3] = Inr True" using isTrivialPermute_sorted [OF p, of "[1, 3, 1, 4]"] by simp
  note keeps = iffD1 [OF trivial_permute_keeps_memory [OF p, of "[1, 3, 1, 4]"] this, rule_format, of "[0, 2, 0, 3]"]
  show ?thesis
    by (rule keeps) (auto simp: nth_Cons split: nat.splits)
qed

end
