(* ===== verification/Dma_Pattern.thy ===== *)
theory Dma_Pattern
  imports Mem_Layout
begin

text \<open>
  The pattern of a DMA transfer, \<^verbatim>\<open>src/utils/dma_transaction_utils.cpp\<close>: neighbouring dimensions
  whose strides are compact become one dimension of the transfer.  Sizes of memory are integers that count bits; the
  conversion to bytes throws unless it is exact.
\<close>

section \<open>The reduction\<close>

record dma_pattern =
  dp_dims :: "int list"
  dp_strides :: "int list"

definition alignMemSize :: "int \<Rightarrow> int" where
  "alignMemSize bits = (if bits smod 8 \<noteq> 0 then bits + (8 - bits smod 8) else bits)"

definition to_bytes :: "int \<Rightarrow> int res" where
  "to_bytes bits = (if bits smod 8 \<noteq> 0 then Inl (Vpux_Throw ''Cannot convert Bit to Byte'') else Inr (bits sdiv 8))"

text \<open>One dimension: the accumulated size, the previous stride, and the dimensions and strides found so far, from the minor end.\<close>

type_synonym reduce_state = "int \<times> int \<times> int list \<times> int list"

definition reduce_step :: "int list \<Rightarrow> int list \<Rightarrow> int \<Rightarrow> bool \<Rightarrow> nat \<Rightarrow> reduce_state \<Rightarrow> reduce_state res" where
  "reduce_step memShape memStrides elemSize assumeDynamicStrides d = (\<lambda>(accumulatedSize, previousStride, dims, strides).
     res_bind (vec_at memShape d) (\<lambda>currentSize. res_bind (vec_at memStrides d) (\<lambda>currentStride.
     let accumulatedSize = accumulatedSize * currentSize in
     if currentSize * previousStride \<noteq> currentStride \<or> assumeDynamicStrides
     then Inr (elemSize, currentStride, dims @ [accumulatedSize], strides @ [currentStride])
     else Inr (accumulatedSize, currentStride, dims, strides))))"

fun all_to_bytes :: "int list \<Rightarrow> int list res" where
  "all_to_bytes [] = Inr []"
| "all_to_bytes (b # bs) = res_bind (to_bytes b) (\<lambda>x. map_sum id ((#) x) (all_to_bytes bs))"

definition finish_pattern :: "int \<Rightarrow> int list \<Rightarrow> int list \<Rightarrow> dma_pattern res" where
  "finish_pattern elemSize bitDims bitStrides =
     (if elemSize = 0 then Inl Assertion_Failure
      else let dims = map (\<lambda>b. b sdiv elemSize) (alignMemSize (hd bitDims) # tl bitDims) in
        res_bind (to_bytes (hd dims * elemSize)) (\<lambda>front.
        if \<exists>s \<in> set (butlast bitStrides). s smod 8 \<noteq> 0 then Inl (Vpux_Throw ''Non byte aligned stride value'')
        else res_bind (all_to_bytes (map alignMemSize bitStrides)) (\<lambda>strides.
          Inr \<lparr>dp_dims = rev (front # tl dims), dp_strides = rev strides\<rparr>)))"

definition reduceDimsForDma :: "int list \<Rightarrow> int list \<Rightarrow> int \<Rightarrow> bool \<Rightarrow> dma_pattern res" where
  "reduceDimsForDma memShape memStrides elemSize assumeDynamicStrides =
     (if memShape = [] \<or> memStrides = [] then
        map_sum id (\<lambda>n. \<lparr>dp_dims = [n], dp_strides = [n]\<rparr>) (to_bytes (alignMemSize elemSize))
      else
        let memShape' = memShape @ [elemSize]; memStrides' = hd memStrides * hd memShape # memStrides in
        res_bind (res_fold (reduce_step memShape' memStrides' elemSize assumeDynamicStrides) (rev [0..<length memShape']) (1, 1, [], []))
          (\<lambda>(accumulatedSize, _, dims, strides).
        if accumulatedSize > elemSize \<or> dims = [] then finish_pattern elemSize (dims @ [accumulatedSize]) (strides @ [hd memStrides'])
        else finish_pattern elemSize dims strides))"

text \<open>For NPU37XX the sizes become products from the minor end, and the first pair is dropped.\<close>

fun suffix_products :: "int list \<Rightarrow> int list" where
  "suffix_products [] = []"
| "suffix_products (n # ns) = (case suffix_products ns of [] \<Rightarrow> [n] | m # ms \<Rightarrow> n * m # m # ms)"

definition patchDimsForNPU37XX :: "dma_pattern \<Rightarrow> dma_pattern res" where
  "patchDimsForNPU37XX p =
     (if dp_dims p = [] then Inl Assertion_Failure
      else let p = p\<lparr>dp_dims := suffix_products (dp_dims p)\<rparr> in
        if length (dp_dims p) > 1 then
          (if dp_strides p = [] then Inl Assertion_Failure else Inr \<lparr>dp_dims = tl (dp_dims p), dp_strides = tl (dp_strides p)\<rparr>)
        else Inr p)"

text \<open>A scalar has one element, whose stride is its size.\<close>

definition getTypeInfo :: "int list \<Rightarrow> int list \<Rightarrow> int \<Rightarrow> int list \<times> int list \<times> int" where
  "getTypeInfo memShape memStrides elemSize =
     (if memShape = [] then [1] else memShape, if memStrides = [] then [elemSize] else memStrides, elemSize)"

section \<open>What a transfer visits\<close>

text \<open>The addresses that nested loops visit, in order: each level adds its stride.\<close>

fun visits :: "int list \<Rightarrow> int list \<Rightarrow> int list" where
  "visits (n # ns) (s # ss) = concat (map (\<lambda>i. map ((+) (int i * s)) (visits ns ss)) [0..<nat n])"
| "visits _ _ = [0]"

text \<open>
  The bytes of a tensor, element by element in memory order, and the bytes of a transfer: the engine moves the bytes of the last
  dimension one after the other, and the stride of a dimension lies between the rounds of the dimension before it.
\<close>

definition tensor_bytes :: "int list \<Rightarrow> int list \<Rightarrow> int \<Rightarrow> int list" where
  "tensor_bytes memShape memStrides elemSize = visits (memShape @ [elemSize div 8]) (map (\<lambda>s. s div 8) memStrides @ [1])"

definition transfer_bytes :: "dma_pattern \<Rightarrow> int list" where
  "transfer_bytes p = visits (dp_dims p) (tl (dp_strides p) @ [1])"

lemma upt_mult: "[0..<a * b] = concat (map (\<lambda>i. map (\<lambda>j. i * b + j) [0..<b]) [0..<a])"
proof (induction a)
  case (Suc a)
  have "[0..<Suc a * b] = [0..<a * b] @ [a * b..<a * b + b]" using upt_add_eq_append [of 0 "a * b" b] by (simp add: add.commute)
  moreover have "map (\<lambda>j. a * b + j) [0..<b] = [a * b..<a * b + b]" by (simp add: map_add_upt add.commute [of "a * b"])
  ultimately show ?case using Suc by simp
qed simp

lemma concat_map_concat_map: "concat (map f (concat (map g xs))) = concat (map (\<lambda>x. concat (map f (g x))) xs)"
  by (induction xs) simp_all

lemma visits_merge:
  assumes "0 \<le> a" "0 \<le> b"
  shows "visits (a # b # ns) (b * s # s # ss) = visits (a * b # ns) (s # ss)"
proof -
  have n: "nat (a * b) = nat a * nat b" using assms by (simp add: nat_mult_distrib)
  let ?X = "visits ns ss"
  have "map ((+) (int i * (b * s))) (concat (map (\<lambda>j. map ((+) (int j * s)) ?X) [0..<nat b])) =
      concat (map (\<lambda>k. map ((+) (int k * s)) ?X) (map (\<lambda>j. i * nat b + j) [0..<nat b]))" for i
  proof -
    have "map ((+) (int i * (b * s))) (map ((+) (int j * s)) ?X) = map ((+) (int (i * nat b + j) * s)) ?X" for j
      unfolding map_map by (rule map_cong) (use assms(2) in \<open>simp_all add: algebra_simps\<close>)
    then show ?thesis by (simp only: map_concat map_map comp_def)
  qed
  then show ?thesis unfolding visits.simps n upt_mult [of "nat a" "nat b"] concat_map_concat_map by simp
qed

lemma visits_one: "visits (1 # ns) (s # ss) = visits ns ss"
  by (simp add: map_idI)

section \<open>The loop\<close>

text \<open>
  The dimensions found so far as numbers: the first one in bytes, the others in elements.  The current one, in
  progress, has \<^verbatim>\<open>h\<close> rounds with stride \<^verbatim>\<open>g\<close>.
\<close>

definition found_dims :: "int \<Rightarrow> int list \<Rightarrow> int list" where
  "found_dims e dims = (case dims of [] \<Rightarrow> [] | d # ds \<Rightarrow> d div 8 # map (\<lambda>x. x div (8 * e)) ds)"

definition loop_inv :: "int \<Rightarrow> int list \<Rightarrow> int list \<Rightarrow> int \<Rightarrow> reduce_state \<Rightarrow> bool" where
  "loop_inv e ns ts prev st \<longleftrightarrow> (\<exists>c dims strides. st = (8 * e * c, prev, dims, strides) \<and> 0 < c \<and> length strides = length dims \<and>
     (\<forall>x \<in> set dims. \<exists>c > 0. x = 8 * e * c) \<and> (\<forall>s \<in> set strides. 8 dvd s) \<and>
     (let h = (if dims = [] then e * c else c); g = (if strides = [] then 1 else last strides div 8) in
      prev = 8 * h * g \<and>
      visits (ns @ [e]) (ts @ [1]) = visits (rev (found_dims e dims @ [h])) (rev (1 # map (\<lambda>s. s div 8) strides))))"

lemma found_dims_snoc:
  assumes "0 < e" "\<forall>x \<in> set dims. \<exists>c > 0. x = 8 * e * c"
  shows "found_dims e (dims @ [8 * e * c]) = found_dims e dims @ [if dims = [] then e * c else c]"
  using assms by (cases dims) (simp_all add: found_dims_def)

text \<open>Pushing the current dimension leaves one round with the new stride.\<close>

lemma loop_inv_push:
  assumes "0 < e" "loop_inv e ns ts prev (8 * e * c, prev, dims, strides)" "0 < c" "8 dvd cur"
  shows "loop_inv e ns ts cur (8 * e, cur, dims @ [8 * e * c], strides @ [cur])"
proof -
  obtain c' where c': "8 * e * c = 8 * e * c'" and len: "length strides = length dims"
    and d: "\<forall>x \<in> set dims. \<exists>c > 0. x = 8 * e * c" and s: "\<forall>s \<in> set strides. 8 dvd s"
    and v: "visits (ns @ [e]) (ts @ [1]) = visits (rev (found_dims e dims @ [if dims = [] then e * c' else c'])) (rev (1 # map (\<lambda>s. s div 8) strides))"
    using assms(2) unfolding loop_inv_def Let_def by auto
  have cc: "c' = c" using c' assms(1) by simp
  obtain k where k: "cur = 8 * k" using assms(4) by (auto elim: dvdE)
  have "visits (ns @ [e]) (ts @ [1]) = visits (rev (found_dims e (dims @ [8 * e * c]) @ [1])) (rev (1 # map (\<lambda>s. s div 8) (strides @ [cur])))"
    using v visits_one [of "rev (found_dims e dims @ [if dims = [] then e * c else c])" k] by (simp add: cc k found_dims_snoc [OF assms(1) d])
  then show ?thesis unfolding loop_inv_def Let_def
    by (intro exI [of _ 1] exI [of _ "dims @ [8 * e * c]"] exI [of _ "strides @ [cur]"]) (use len d s assms(3) k in auto)
qed

text \<open>A dimension more, whose stride is the previous one.\<close>

lemma loop_inv_dim:
  assumes "0 < e" "loop_inv e ns ts prev (8 * e * c, prev, dims, strides)" "0 < n" "0 < c"
  shows "loop_inv e (n # ns) (prev div 8 # ts) (n * prev) (8 * e * (c * n), n * prev, dims, strides)"
proof -
  obtain c' where c': "8 * e * c = 8 * e * c'" and len: "length strides = length dims"
    and d: "\<forall>x \<in> set dims. \<exists>c > 0. x = 8 * e * c" and s: "\<forall>s \<in> set strides. 8 dvd s"
    and p: "prev = 8 * (if dims = [] then e * c' else c') * (if strides = [] then 1 else last strides div 8)"
    and v: "visits (ns @ [e]) (ts @ [1]) = visits (rev (found_dims e dims @ [if dims = [] then e * c' else c'])) (rev (1 # map (\<lambda>s. s div 8) strides))"
    using assms(2) unfolding loop_inv_def Let_def by auto
  have cc: "c' = c" using c' assms(1) by simp
  define h g where "h = (if dims = [] then e * c else c)" and "g = (if strides = [] then 1 else last strides div 8)"
  have h: "0 \<le> h" using assms by (simp add: h_def)
  have p8: "prev div 8 = h * g" using p by (simp add: cc h_def g_def mult.assoc)
  obtain ss where ss: "rev (1 # map (\<lambda>s. s div 8) strides) = g # ss"
    by (cases strides rule: rev_cases) (auto simp: g_def)
  have "visits (n # ns @ [e]) (prev div 8 # ts @ [1]) = visits (n # h # rev (found_dims e dims)) (h * g # g # ss)"
    using v unfolding ss p8 by (simp add: cc h_def)
  also have "\<dots> = visits (n * h # rev (found_dims e dims)) (g # ss)" using visits_merge [of n h] assms(3) h by simp
  finally have "visits ((n # ns) @ [e]) ((prev div 8 # ts) @ [1]) =
      visits (rev (found_dims e dims @ [if dims = [] then e * (c * n) else c * n])) (rev (1 # map (\<lambda>s. s div 8) strides))"
    unfolding ss by (simp add: h_def ac_simps)
  then show ?thesis unfolding loop_inv_def Let_def
    by (intro exI [of _ "c * n"] exI [of _ dims] exI [of _ strides]) (use len d s p cc assms(3,4) in auto)
qed

text \<open>A tensor of whole bytes.\<close>

definition byte_tensor :: "int list \<Rightarrow> int list \<Rightarrow> int \<Rightarrow> bool" where
  "byte_tensor memShape memStrides elemSize \<longleftrightarrow> memShape \<noteq> [] \<and> length memStrides = length memShape \<and>
     (\<forall>n \<in> set memShape. 0 < n) \<and> (\<forall>s \<in> set memStrides. 8 dvd s) \<and> 8 dvd elemSize \<and> 0 < elemSize"

lemma reduce_step_in:
  "d < length sh \<Longrightarrow> d < length ss \<Longrightarrow> reduce_step sh ss es dyn d (acc, prev, dims, strides) =
    Inr (if sh ! d * prev \<noteq> ss ! d \<or> dyn then (es, ss ! d, dims @ [acc * sh ! d], strides @ [ss ! d]) else (acc * sh ! d, ss ! d, dims, strides))"
  by (simp add: reduce_step_def Let_def vec_at_in)

lemma reduce_loop:
  assumes t: "byte_tensor sh ss (8 * e)" and k: "k \<le> length sh"
  shows "\<exists>st. res_fold (reduce_step (sh @ [8 * e]) (hd ss * hd sh # ss) (8 * e) dyn) (rev [k..<Suc (length sh)]) (1, 1, [], []) = Inr st \<and>
    loop_inv e (drop k sh) (drop k (map (\<lambda>s. s div 8) ss)) ((hd ss * hd sh # ss) ! k) st"
  using k
proof (induction k rule: inc_induct)
  case base
  have e: "0 < e" and len: "length ss = length sh" "sh \<noteq> []" "ss \<noteq> []" and d8: "\<forall>s \<in> set ss. 8 dvd s"
    using t by (auto simp: byte_tensor_def)
  let ?cur = "(hd ss * hd sh # ss) ! length sh"
  have cur: "?cur = last ss" using len by (simp add: nth_Cons' last_conv_nth)
  have c8: "8 dvd ?cur" using d8 len by (simp add: cur)
  have start: "loop_inv e [] [] (8 * e) (8 * e * 1, 8 * e, [], [])"
    unfolding loop_inv_def Let_def by (intro exI [of _ 1] exI [of _ "[]"]) (simp add: found_dims_def)
  show ?case
  proof (cases "8 * e * 1 \<noteq> ?cur \<or> dyn")
    case True
    then show ?thesis using loop_inv_push [OF e start _ c8] len by (simp add: reduce_step_in nth_append)
  next
    case False
    then show ?thesis using start len by (simp add: reduce_step_in nth_append)
  qed
next
  case (step k)
  let ?ss = "hd ss * hd sh # ss"
  have e: "0 < e" and len: "length ss = length sh" "sh \<noteq> []" "ss \<noteq> []" and d8: "\<forall>s \<in> set ss. 8 dvd s" and pos: "\<forall>n \<in> set sh. 0 < n"
    using t by (auto simp: byte_tensor_def)
  obtain acc prev dims strides where run: "res_fold (reduce_step (sh @ [8 * e]) ?ss (8 * e) dyn) (rev [Suc k..<Suc (length sh)]) (1, 1, [], []) = Inr (acc, prev, dims, strides)"
    and inv: "loop_inv e (drop (Suc k) sh) (drop (Suc k) (map (\<lambda>s. s div 8) ss)) (?ss ! Suc k) (acc, prev, dims, strides)"
    using step.IH by (metis prod.exhaust)
  obtain c where c: "acc = 8 * e * c" "0 < c" "prev = ss ! k" using inv by (auto simp: loop_inv_def)
  have n: "0 < sh ! k" using pos step.hyps by simp
  have d: "drop k sh = sh ! k # drop (Suc k) sh" "drop k (map (\<lambda>s. s div 8) ss) = prev div 8 # drop (Suc k) (map (\<lambda>s. s div 8) ss)"
    using step.hyps len c Cons_nth_drop_Suc [of k sh] Cons_nth_drop_Suc [of k "map (\<lambda>s. s div 8) ss"] by simp_all
  have inv1: "loop_inv e (drop (Suc k) sh) (drop (Suc k) (map (\<lambda>s. s div 8) ss)) prev (8 * e * c, prev, dims, strides)"
    using inv c by simp
  have dim: "loop_inv e (drop k sh) (drop k (map (\<lambda>s. s div 8) ss)) (sh ! k * prev) (8 * e * (c * sh ! k), sh ! k * prev, dims, strides)"
    unfolding d by (rule loop_inv_dim [OF e inv1 n c(2)])
  have c8: "8 dvd ?ss ! k" using d8 len step.hyps by (cases k) auto
  have cn: "0 < c * sh ! k" using c n by simp
  have snoc: "rev [k..<Suc (length sh)] = rev [Suc k..<Suc (length sh)] @ [k]" using step.hyps by (simp add: upt_conv_Cons)
  have one: "reduce_step (sh @ [8 * e]) ?ss (8 * e) dyn k (acc, prev, dims, strides) =
      Inr (if sh ! k * prev \<noteq> ?ss ! k \<or> dyn then (8 * e, ?ss ! k, dims @ [8 * e * (c * sh ! k)], strides @ [?ss ! k])
        else (8 * e * (c * sh ! k), ?ss ! k, dims, strides))"
    using step.hyps len c(1) by (simp add: reduce_step_in nth_append mult.assoc)
  have "loop_inv e (drop k sh) (drop k (map (\<lambda>s. s div 8) ss)) (?ss ! k)
      (if sh ! k * prev \<noteq> ?ss ! k \<or> dyn then (8 * e, ?ss ! k, dims @ [8 * e * (c * sh ! k)], strides @ [?ss ! k])
        else (8 * e * (c * sh ! k), ?ss ! k, dims, strides))"
    using loop_inv_push [OF e dim cn c8] dim by auto
  then show ?case unfolding snoc res_fold_append run res_bind_simps by (simp only: res_fold.simps one res_bind_simps) blast
qed

text \<open>Conversion to bytes is exact.\<close>

lemma smod_8: "8 dvd (x :: int) \<Longrightarrow> x smod 8 = 0"
  by (auto simp: signed_modulo_int_def sgn_if elim!: dvdE)

lemma sdiv_exact: "0 < b \<Longrightarrow> (b * x) sdiv b = (x :: int)"
  by (simp add: signed_divide_int_def sgn_mult abs_mult mult_sgn_abs)

lemma to_bytes_exact: "8 dvd x \<Longrightarrow> to_bytes x = Inr (x div 8)"
  by (auto simp: to_bytes_def smod_8 sdiv_exact elim!: dvdE)

lemma all_to_bytes_exact: "\<forall>x \<in> set xs. 8 dvd x \<Longrightarrow> all_to_bytes xs = Inr (map (\<lambda>x. x div 8) xs)"
  by (induction xs) (simp_all add: to_bytes_exact)

lemma finish_pattern_exact:
  assumes "0 < e" "dims \<noteq> []" "\<forall>x \<in> set dims. \<exists>c > 0. x = 8 * e * c" "\<forall>s \<in> set strides. 8 dvd s"
  shows "finish_pattern (8 * e) dims strides = Inr \<lparr>dp_dims = rev (found_dims e dims), dp_strides = rev (map (\<lambda>s. s div 8) strides)\<rparr>"
proof -
  obtain d ds where dims: "dims = d # ds" using assms(2) by (cases dims) auto
  obtain c where c: "d = 8 * e * c" using assms(3) dims by auto
  have al: "alignMemSize x = x" if "8 dvd x" for x using that by (simp add: alignMemSize_def smod_8)
  have strides: "map alignMemSize strides = strides" using assms(4) al by (simp add: map_idI)
  have no: "\<not> (\<exists>s \<in> set (butlast strides). s smod 8 \<noteq> 0)" using assms(4) by (auto dest: in_set_butlastD simp: smod_8)
  have ds: "map (\<lambda>b. b sdiv (8 * e)) ds = map (\<lambda>x. x div (8 * e)) ds"
    using assms(1,3) dims by (auto simp: sdiv_exact)
  have front: "alignMemSize d sdiv (8 * e) * (8 * e) = d" "8 dvd d" using assms(1) c by (simp_all add: al sdiv_exact)
  show ?thesis using assms(1) no front
    by (simp add: finish_pattern_def Let_def dims strides ds to_bytes_exact all_to_bytes_exact [OF assms(4)] found_dims_def)
qed

section \<open>The transfer visits the tensor\<close>

lemma rev_strides: "strides \<noteq> [] \<Longrightarrow> tl (rev (map f strides)) @ [1] = rev (1 # map f (butlast strides))"
  by (cases strides rule: rev_cases) simp_all

text \<open>
  C2. For a tensor of positive sizes whose strides and element size are whole bytes, and whether strides are
  assumed to be dynamic or not, the reduction to a DMA pattern succeeds, and the transfer of the
  pattern visits exactly the bytes of the tensor, element by element in memory order, though neighbouring dimensions
  with compact strides were merged and dimensions of size one were dropped.
\<close>

theorem dma_transfer_visits_the_tensor:
  assumes "byte_tensor memShape memStrides elemSize"
  shows "\<exists>p. reduceDimsForDma memShape memStrides elemSize assumeDynamicStrides = Inr p \<and>
    transfer_bytes p = tensor_bytes memShape memStrides elemSize"
proof -
  obtain e where es: "elemSize = 8 * e" using assms by (auto simp: byte_tensor_def elim: dvdE)
  have t: "byte_tensor memShape memStrides (8 * e)" using assms es by simp
  have e: "0 < e" and ne: "memShape \<noteq> []" "memStrides \<noteq> []" and len: "length memStrides = length memShape" and d8: "\<forall>s \<in> set memStrides. 8 dvd s"
    using t by (auto simp: byte_tensor_def)
  let ?f = "hd memStrides * hd memShape"
  obtain acc prev dims strides where run: "res_fold (reduce_step (memShape @ [8 * e]) (?f # memStrides) (8 * e) assumeDynamicStrides)
      (rev [0..<Suc (length memShape)]) (1, 1, [], []) = Inr (acc, prev, dims, strides)"
    and inv: "loop_inv e memShape (map (\<lambda>s. s div 8) memStrides) ?f (acc, prev, dims, strides)"
    using reduce_loop [OF t, of 0 assumeDynamicStrides] by auto
  obtain c where c: "acc = 8 * e * c" "0 < c" and dl: "length strides = length dims" "\<forall>x \<in> set dims. \<exists>c > 0. x = 8 * e * c"
    "\<forall>s \<in> set strides. 8 dvd s"
    and v: "visits (memShape @ [e]) (map (\<lambda>s. s div 8) memStrides @ [1]) =
      visits (rev (found_dims e dims @ [if dims = [] then e * c else c])) (rev (1 # map (\<lambda>s. s div 8) strides))"
    using inv unfolding loop_inv_def Let_def by auto
  have spec: "tensor_bytes memShape memStrides elemSize = visits (rev (found_dims e dims @ [if dims = [] then e * c else c])) (rev (1 # map (\<lambda>s. s div 8) strides))"
    using v by (simp add: tensor_bytes_def es)
  have start: "reduceDimsForDma memShape memStrides elemSize assumeDynamicStrides =
      (if acc > 8 * e \<or> dims = [] then finish_pattern (8 * e) (dims @ [acc]) (strides @ [?f]) else finish_pattern (8 * e) dims strides)"
    using run ne by (simp add: reduceDimsForDma_def Let_def es)
  show ?thesis
  proof (cases "acc > 8 * e \<or> dims = []")
    case True
    have f8: "8 dvd ?f" using d8 ne by (simp add: dvd_mult2)
    have ok: "\<forall>x \<in> set (dims @ [acc]). \<exists>c > 0. x = 8 * e * c" "\<forall>s \<in> set (strides @ [?f]). 8 dvd s" using dl c f8 by auto
    let ?p = "\<lparr>dp_dims = rev (found_dims e (dims @ [acc])), dp_strides = rev (map (\<lambda>s. s div 8) (strides @ [?f]))\<rparr>"
    have "reduceDimsForDma memShape memStrides elemSize assumeDynamicStrides = Inr ?p"
      unfolding start if_P [OF True] by (rule finish_pattern_exact [OF e _ ok]) simp
    moreover have "transfer_bytes ?p = tensor_bytes memShape memStrides elemSize"
      using found_dims_snoc [OF e dl(2), of c] unfolding spec transfer_bytes_def c(1) by simp
    ultimately show ?thesis by blast
  next
    case False
    then have one: "c = 1" and dne: "dims \<noteq> []" using c e by auto
    have sne: "strides \<noteq> []" using dne dl(1) by auto
    let ?p = "\<lparr>dp_dims = rev (found_dims e dims), dp_strides = rev (map (\<lambda>s. s div 8) strides)\<rparr>"
    have "reduceDimsForDma memShape memStrides elemSize assumeDynamicStrides = Inr ?p"
      unfolding start if_not_P [OF False] by (rule finish_pattern_exact [OF e dne dl(2,3)])
    moreover have "transfer_bytes ?p = tensor_bytes memShape memStrides elemSize"
    proof -
      obtain s ss where split: "strides = ss @ [s]" using sne by (cases strides rule: rev_cases) auto
      show ?thesis unfolding spec transfer_bytes_def using dne one rev_strides [OF sne, of "\<lambda>s. s div 8"] visits_one [of "rev (found_dims e dims)"]
        by (simp add: split)
    qed
    ultimately show ?thesis by blast
  qed
qed

theorem dma_transfer_visits_the_tensor_witness:
  "\<exists>p. reduceDimsForDma [1, 2, 3, 4] [1024, 512, 128, 32] 16 False = Inr p \<and> length (transfer_bytes p) = 48"
proof -
  have "byte_tensor [1, 2, 3, 4] [1024, 512, 128, 32] 16" by (simp add: byte_tensor_def)
  then obtain p where "reduceDimsForDma [1, 2, 3, 4] [1024, 512, 128, 32] 16 False = Inr p"
    "transfer_bytes p = tensor_bytes [1, 2, 3, 4] [1024, 512, 128, 32] 16"
    using dma_transfer_visits_the_tensor by blast
  moreover have "length (tensor_bytes [1, 2, 3, 4] [1024, 512, 128, 32] 16) = 48" by code_simp
  ultimately show ?thesis by auto
qed

end
