(* ===== verification/Spec2Isabelle.thy ===== *)
theory Spec2Isabelle
  imports Linear_Scan_Handler Control_Edges Async_Deps Loop_Allocator Barrier_Redundancy Barrier_Guarantees Barrier_Results Tile_Convolution Permute Dma_Pattern
begin

text \<open>
  A verification development for the NPU compiler: the algorithms with which its middle end and back end divide
  operations, lay out tensors, place buffers, order asynchronous work and synchronise hardware queues.  Paths are relative to
  \<^verbatim>\<open>src/vpux_compiler\<close> unless they begin with \<^verbatim>\<open>vpux_utils\<close>.

  \<^bold>\<open>The program.\<close>  A network arrives as an MLIR module.  Operations whose operands do not fit into the on-chip memory
  (CMX) are divided into tiles (\<^verbatim>\<open>core/tiling.cpp\<close>).  The pieces become asynchronous operations with
  dependencies between them (\<^verbatim>\<open>core/async_deps_info.cpp\<close>).  A scheduler gives every buffer an address by a
  linear scan over live ranges (\<^verbatim>\<open>utils/linear_scan.hpp\<close>, \<^verbatim>\<open>core/linear_scan_handler.cpp\<close>)
  that takes blocks from a partition of the memory (\<^verbatim>\<open>utils/partitioner.cpp\<close>); operations that then share
  addresses are ordered by control edges (\<^verbatim>\<open>core/control_edge_generator.hpp\<close>,
  \<^verbatim>\<open>core/disjoint_interval_set.hpp\<close>); loops over tiles are laid out by their own allocator
  (\<^verbatim>\<open>core/loop_allocator.cpp\<close>).  The scheduled operations become tasks on hardware queues
  (\<^verbatim>\<open>utils/dma.cpp\<close>, \<^verbatim>\<open>utils/shave.cpp\<close>) that wait for and update barriers.
  \<^verbatim>\<open>core/barrier_info.cpp\<close> keeps which task uses which barrier, finds which tasks are ordered already and drops what is
  redundant; \<^verbatim>\<open>dialect/VPURT/interfaces/barrier_simulator.cpp\<close> runs the tasks abstractly to give every virtual barrier one of the few
  physical ones.

  \<^bold>\<open>Conventions.\<close>  Operations that can fail return \<^verbatim>\<open>vpux_error + 'a\<close>: a failed
  \<^verbatim>\<open>assert\<close>, an index out of range or undefined arithmetic is \<^verbatim>\<open>Assertion_Failure\<close>,
  \<^verbatim>\<open>VPUX_THROW\<close> is \<^verbatim>\<open>Vpux_Throw\<close>.  Values of \<^verbatim>\<open>uint64_t\<close> and
  \<^verbatim>\<open>size_t\<close> are natural numbers with the wrap-around of sums, differences and products written out wherever it can
  happen; values of \<^verbatim>\<open>int64_t\<close> are integers with truncating division.  State is a record that each operation returns
  updated; a pointer to an MLIR operation is its number.  Where a class asks the IR, the platform or a handler, the answer is a
  parameter of the model; where the order of a hash table or of a set of pointers can matter, it is a parameter as well.
  Recursion is structural or has a termination proof; the cycle search has fuel, proved to be enough, and the main loop of the
  simulator is a partial function into \<^verbatim>\<open>option\<close> whose termination is a theorem.  Logging is left out.

  \<^bold>\<open>Shared theories.\<close>  \<^verbatim>\<open>Prelude\<close>: results, vectors with checked indices, 64-bit arithmetic.
  \<^verbatim>\<open>Numeric\<close>: \<^verbatim>\<open>vpux_utils/include/vpux/utils/core/numeric.hpp\<close>.  \<^verbatim>\<open>Bit_Vector\<close>:
  the documented behaviour of the bit vectors of LLVM.  \<^verbatim>\<open>Task_Order\<close>: relations between tasks, and what may be
  dropped from one without changing its transitive closure.  \<^verbatim>\<open>Memory_Pool\<close>: the interface (a locale) between an
  allocator and the pool it takes blocks from.

  \<^bold>\<open>Memory.\<close>  \<^verbatim>\<open>Partitioner\<close> models the class \<^verbatim>\<open>Partitioner\<close>: the list of gaps, allocation
  from either end, fixed allocation, release with coalescing, statistics.  Its invariant keeps gaps sorted, apart and inside the memory.
  Allocation is sound, complete and best-fit, and undone exactly by release; the interpretation of \<^verbatim>\<open>Memory_Pool\<close> turns this
  into the safety of every run of a client.  \<^verbatim>\<open>Linear_Scan\<close> models the class template
  \<^verbatim>\<open>LinearScan\<close> over a locale for its handler, and \<^verbatim>\<open>Linear_Scan_Handler\<close> the handler for
  buffers, which interprets it: allocation is all or nothing without spills, keeps live blocks disjoint with them, and fails only when nothing
  that may be spilled is left.  \<^verbatim>\<open>Interval_Set\<close> and \<^verbatim>\<open>Control_Edges\<close> model the sweep that
  derives control edges, as definitions with the lemmas that show them at work.  \<^verbatim>\<open>Loop_Allocator\<close> models the class
  of that name: its stacks of local buffers, the second set for odd iterations, the shared region, and that none overlap.

  \<^bold>\<open>Dependencies.\<close>  \<^verbatim>\<open>Async_Deps\<close> models \<^verbatim>\<open>AsyncDepsInfo\<close>: dependency and consumer
  maps, transitive reduction and the search for cycles.

  \<^bold>\<open>Barriers.\<close>  \<^verbatim>\<open>Task_Queues\<close>: queue types and the queue of a task.  \<^verbatim>\<open>Barrier_Info\<close>,
  \<^verbatim>\<open>Barrier_Queues\<close>, \<^verbatim>\<open>Barrier_Control\<close>, \<^verbatim>\<open>Barrier_Optimize\<close> and
  \<^verbatim>\<open>Barrier_Redundancy\<close> model the class \<^verbatim>\<open>BarrierInfo\<close>: the two inverse maps between tasks and
  barriers, refined from two relations; tasks of each queue; the control map of a block, which is the transitive closure of its
  dependencies; and the optimizations, which keep the order of the tasks.  \<^verbatim>\<open>Ring_Buffer\<close> models the buffer of free
  physical barriers, shown to refine a queue by the interpretation of the locale \<^verbatim>\<open>bounded_queue\<close>.
  \<^verbatim>\<open>Barrier_Simulator\<close> holds the definitions of the class \<^verbatim>\<open>BarrierSimulator\<close>: parsing, all modes of the
  simulation, legalization and what uses the results.  \<^verbatim>\<open>Barrier_Simulation\<close> proves its invariant, the step lemmas, the
  specification of the loop by a measure, and progress; \<^verbatim>\<open>Barrier_Parse\<close> shows that a simulator read from a
  function is well formed; \<^verbatim>\<open>Barrier_Guarantees\<close> joins both: termination, exclusive physical barriers, and success when enough
  of them are there.  \<^verbatim>\<open>Barrier_Results\<close>: order of barriers, links between uses, and a defect of legalization.

  \<^bold>\<open>Tiling.\<close>  \<^verbatim>\<open>Tiling\<close> and \<^verbatim>\<open>Tile_Inference\<close> hold the definitions,
  \<^verbatim>\<open>Tile_Division\<close> shows that tiles partition the shape, and \<^verbatim>\<open>Tile_Convolution\<close> that convolution
  and pooling on the inferred tiles give the tile of the whole result.  The reference convolution is a sum over a window with zeros outside the input,
  over any semiring, so that the theorem does not depend on the element type.

  \<^bold>\<open>Layout in memory.\<close>  \<^verbatim>\<open>Dims_Order\<close> models the packed order of the dimensions of a tensor
  (\<^verbatim>\<open>core/attributes/dims_order.cpp\<close>): codes, permutations and positions are inverse to each other, and what its check of
  codes lets through.  \<^verbatim>\<open>Mem_Layout\<close>: linear indices and coordinates (\<^verbatim>\<open>core/attributes/shape.cpp\<close>,
  \<^verbatim>\<open>utils/subspaces.cpp\<close>), which are inverse to each other, and requirements on strides
  (\<^verbatim>\<open>core/attributes/stride_reqs.cpp\<close>): calculated strides pass the check, and joining is refused on a common dimension.
  \<^verbatim>\<open>Permute\<close>: permutations (\<^verbatim>\<open>utils/permute_utils.cpp\<close>), trivial exactly when nothing moves.
  \<^verbatim>\<open>Dma_Pattern\<close>: the loops of a DMA transfer (\<^verbatim>\<open>utils/dma_transaction_utils.cpp\<close>) visit the bytes of the
  tensor.

  \<^bold>\<open>Not modelled.\<close>  The IR itself: dialects, types and operations, their verifiers and canonicalizers, the frontends that
  import networks, and the passes and conversions that rewrite IR by pattern matching.  Their state is that of MLIR, which is not part of the
  repository.  The cost model and all choices that depend on its floating-point costs (tiling strategies, multi-cluster strategies,
  prefetching, scheduling heuristics).  The parts of \<^verbatim>\<open>core/tiling.cpp\<close> that read attributes of particular operations.  In
  \<^verbatim>\<open>core/barrier_info.cpp\<close> splitting of large blocks and exceeding variant counts and the rewriting for WLM.  The
  feasible memory scheduler, barrier pages, profiling, serialization of blobs, the driver and the runtime.
\<close>

end
